(* ===== verification/Kernel_Prelude.thy ===== *)
theory Kernel_Prelude
  imports Main "HOL-Library.Word"
begin

text \<open>
  What every component of the development shares: the machine types, the two ways a piece of
  kernel code can fail to return (it faults or it never comes back), the sequencing operator
  that threads such results, the constants and macros of \<open>kernel/arch/common.h\<close>, and the word
  lemmas on addresses the components' proofs use.
\<close>

unbundle bit_operations_syntax

section \<open>Machine types\<close>

type_synonym u8 = "8 word"
type_synonym u16 = "16 word"
type_synonym u32 = "32 word"
type_synonym u64 = "64 word"

text \<open>A pointer, \<open>uintptr_t\<close> or \<open>void *\<close>, and \<open>size_t\<close>: 64 bits on both targets.\<close>

type_synonym addr = u64
type_synonym size_t = u64

abbreviation NULL :: addr where
  "NULL \<equiv> 0"

text \<open>The value \<open>-1\<close> the kernel returns for an error where the result type is unsigned.\<close>

abbreviation MINUS_ONE :: u64 where
  "MINUS_ONE \<equiv> - 1"

named_theorems bnd_simps \<open>evaluation of sequenced kernel code\<close>
named_theorems word_facts \<open>facts on 64-bit addresses and sizes\<close>

section \<open>Results of kernel code\<close>

text \<open>
  Kernel code has no exceptions. A piece of it returns, or it gets stuck in one of two ways:
  \<open>Hang\<close> is a loop that never ends (a \<open>while(1);\<close> of the source, a spin on a lock that nobody
  will release) and \<open>Fault\<close> is an access the machine or the C language gives no meaning to (a
  load through a null or dangling pointer, an address that is not mapped, a division by zero).
\<close>

datatype stuck = Hang | Fault

type_synonym 'a res = "stuck + 'a"

definition bnd :: "'a res \<Rightarrow> ('a \<Rightarrow> 'b res) \<Rightarrow> 'b res" where
  "bnd r f = (case r of Inl e \<Rightarrow> Inl e | Inr x \<Rightarrow> f x)"

text \<open>A value that may be missing (an object at an address) read as a fault.\<close>

definition need :: "'a option \<Rightarrow> 'a res" where
  "need x = (case x of None \<Rightarrow> Inl Fault | Some y \<Rightarrow> Inr y)"

text \<open>The result of a loop defined by its equation alone: no value means that it never ends.\<close>

definition loop_res :: "'a res option \<Rightarrow> 'a res" where
  "loop_res x = (case x of None \<Rightarrow> Inl Hang | Some r \<Rightarrow> r)"

lemma bnd_Inl [simp, bnd_simps]: "bnd (Inl e) f = Inl e"
  by (simp add: bnd_def)

lemma bnd_Inr [simp, bnd_simps]: "bnd (Inr x) f = f x"
  by (simp add: bnd_def)

lemma bnd_eq_Inr: "bnd r f = Inr y \<longleftrightarrow> (\<exists>x. r = Inr x \<and> f x = Inr y)"
  by (cases r) auto

lemma bnd_eq_InrE [elim]:
  assumes "bnd r f = Inr y"
  obtains x where "r = Inr x" and "f x = Inr y"
  using assms by (auto simp: bnd_eq_Inr)

lemma bnd_assoc: "bnd (bnd r f) g = bnd r (\<lambda>x. bnd (f x) g)"
  by (cases r) auto

lemma bnd_cong [fundef_cong]:
  "r = r' \<Longrightarrow> (\<And>x. r' = Inr x \<Longrightarrow> f x = g x) \<Longrightarrow> bnd r f = bnd r' g"
  by (cases r') auto

lemma bnd_if: "bnd (if b then r else r') f = (if b then bnd r f else bnd r' f)"
  by simp

lemma need_None [simp, bnd_simps]: "need None = Inl Fault"
  by (simp add: need_def)

lemma need_Some [simp, bnd_simps]: "need (Some x) = Inr x"
  by (simp add: need_def)

lemma need_eq_Inr [simp]: "need x = Inr y \<longleftrightarrow> x = Some y"
  by (cases x) auto

lemma loop_res_None [simp]: "loop_res None = Inl Hang"
  by (simp add: loop_res_def)

lemma loop_res_Some [simp]: "loop_res (Some r) = r"
  by (simp add: loop_res_def)

section \<open>Constants and macros of arch/common.h\<close>

definition PAGE_SIZE :: u64 where
  "PAGE_SIZE = 0x1000"

definition ROUND_UP :: "u64 \<Rightarrow> u64 \<Rightarrow> u64" where
  "ROUND_UP N S = ((N + S - 1) div S) * S"

definition ROUND_DOWN :: "u64 \<Rightarrow> u64 \<Rightarrow> u64" where
  "ROUND_DOWN N S = (N div S) * S"

section \<open>Words as addresses\<close>

lemma of_nat_u64_eq_iff [word_facts]:
  "i < 2 ^ 64 \<Longrightarrow> j < 2 ^ 64 \<Longrightarrow> (of_nat i :: u64) = of_nat j \<longleftrightarrow> i = j"
  by (simp add: word_of_nat_eq_iff take_bit_nat_eq_self)

lemma unat_of_nat_u64 [word_facts]: "i < 2 ^ 64 \<Longrightarrow> unat (of_nat i :: u64) = i"
  by (simp add: unat_of_nat take_bit_nat_eq_self)

lemma unat_u64_less: "unat (x :: u64) < 2 ^ 64"
  using unsigned_less [of x] by simp

lemma unat_add_u64 [word_facts]:
  "unat x + unat y < 2 ^ 64 \<Longrightarrow> unat (x + y :: u64) = unat x + unat y"
  by (simp add: unat_word_ariths)

lemma unat_mult_u64 [word_facts]:
  "unat x * unat y < 2 ^ 64 \<Longrightarrow> unat (x * y :: u64) = unat x * unat y"
  by (simp add: unat_word_ariths)

lemma unat_diff_u64 [word_facts]:
  "unat y \<le> unat x \<Longrightarrow> unat (x - y :: u64) = unat x - unat y"
  by (rule unat_sub) (simp add: word_le_nat_alt)

lemma unat_diff_wrap [word_facts]:
  assumes "unat x < unat (y :: u64)"
  shows "unat (x - y) = 2 ^ 64 - (unat y - unat x)"
  using assms unat_u64_less [of y] by (simp add: unat_sub_if')

lemma unat_MINUS_ONE [word_facts]: "unat MINUS_ONE = 2 ^ 64 - 1"
  using unat_sub_if' [of "0 :: u64" 1] by simp

lemma unat_diff_less_iff:
  assumes "n < 2 ^ 64"
  shows "unat (a - p :: u64) = n \<longleftrightarrow> a = p + of_nat n"
proof
  assume "unat (a - p) = n"
  then have "of_nat n = a - p" by auto
  then show "a = p + of_nat n" by simp
next
  assume "a = p + of_nat n"
  then show "unat (a - p) = n" using assms by (simp add: unat_of_nat_u64)
qed

lemma unat_Suc_u64: "x < (y :: u64) \<Longrightarrow> unat (x + 1) = Suc (unat x)"
  using unat_u64_less [of y] by (simp add: word_less_nat_alt unat_add_u64)

text \<open>The offset of an address in a region, and two regions that do not meet.\<close>

definition in_span :: "addr \<Rightarrow> nat \<Rightarrow> addr \<Rightarrow> bool" where
  "in_span p n a \<longleftrightarrow> unat (a - p) < n"

definition spans_apart :: "addr \<Rightarrow> nat \<Rightarrow> addr \<Rightarrow> nat \<Rightarrow> bool" where
  "spans_apart p n q k \<longleftrightarrow> (\<forall>a. \<not> (in_span p n a \<and> in_span q k a))"

lemma in_span_iff:
  assumes "unat p + n \<le> 2 ^ 64"
  shows "in_span p n a \<longleftrightarrow> unat p \<le> unat a \<and> unat a < unat p + n"
proof (cases "unat p \<le> unat a")
  case True
  then show ?thesis by (auto simp: in_span_def unat_diff_u64)
next
  case False
  then have "unat (a - p) = 2 ^ 64 - (unat p - unat a)"
    by (simp add: unat_diff_wrap)
  then show ?thesis using False assms unat_u64_less [of p]
    by (auto simp: in_span_def)
qed

lemma in_span_offset: "i < n \<Longrightarrow> n \<le> 2 ^ 64 \<Longrightarrow> in_span p n (p + of_nat i)"
  by (simp add: in_span_def unat_of_nat_u64)

text \<open>Counting through a region and ranging over its addresses say the same.\<close>

lemma span_all:
  assumes "n \<le> 2 ^ 64"
  shows "(\<forall>k<n. P (p + of_nat k)) \<longleftrightarrow> (\<forall>a. in_span p n a \<longrightarrow> P a)"
proof
  assume all: "\<forall>k<n. P (p + of_nat k)"
  show "\<forall>a. in_span p n a \<longrightarrow> P a"
  proof (intro allI impI)
    fix a assume "in_span p n a"
    then have "unat (a - p) < n" and "a = p + of_nat (unat (a - p))"
      by (auto simp: in_span_def)
    with all show "P a" by metis
  qed
next
  assume "\<forall>a. in_span p n a \<longrightarrow> P a"
  then show "\<forall>k<n. P (p + of_nat k)" using assms by (simp add: in_span_offset)
qed

lemma in_span_0 [simp]: "\<not> in_span p 0 a"
  by (simp add: in_span_def)

lemma spans_apart_sym: "spans_apart p n q k \<longleftrightarrow> spans_apart q k p n"
  by (auto simp: spans_apart_def)

lemma spans_apartD: "spans_apart p n q k \<Longrightarrow> in_span p n a \<Longrightarrow> \<not> in_span q k a"
  by (auto simp: spans_apart_def)

end
