(* ===== verification/Mem_String.thy ===== *)
theory Mem_String
  imports Kernel_Prelude
begin

text \<open>
  Byte memory and the routines of \<open>kernel/utils/string.c\<close> up to \<open>strstr\<close>. Memory is a partial map from
  addresses to bytes; a byte that is not mapped faults when it is read or written, so a
  theorem that a routine returns on a memory where only its operands are mapped also says that
  it touches nothing else. A loop that walks memory until it meets a terminator is defined by
  its own equation and may not return; the theorems show that it does on well-formed strings.
\<close>

section \<open>Byte memory\<close>

type_synonym mem = "addr \<Rightarrow> u8 option"

definition ld8 :: "mem \<Rightarrow> addr \<Rightarrow> u8 res" where
  "ld8 m a = need (m a)"

definition st8 :: "mem \<Rightarrow> addr \<Rightarrow> u8 \<Rightarrow> mem res" where
  "st8 m a b = (if m a = None then Inl Fault else Inr (m(a := Some b)))"

text \<open>A run of bytes at an address, and the C string \<open>s\<close> with its terminator.\<close>

fun bytes_at :: "mem \<Rightarrow> addr \<Rightarrow> u8 list \<Rightarrow> bool" where
  "bytes_at m p [] = True"
| "bytes_at m p (b # bs) = (m p = Some b \<and> bytes_at m (p + 1) bs)"

definition cstr :: "mem \<Rightarrow> addr \<Rightarrow> u8 list \<Rightarrow> bool" where
  "cstr m p s \<longleftrightarrow> 0 \<notin> set s \<and> bytes_at m p (s @ [0])"

definition mapped :: "mem \<Rightarrow> addr \<Rightarrow> nat \<Rightarrow> bool" where
  "mapped m p n \<longleftrightarrow> (\<forall>i<n. m (p + of_nat i) \<noteq> None)"

text \<open>A little-endian 64-bit access is eight byte accesses.\<close>

fun of_bytes :: "u8 list \<Rightarrow> u64" where
  "of_bytes [] = 0"
| "of_bytes (b # bs) = ucast b OR push_bit 8 (of_bytes bs)"

fun to_bytes :: "nat \<Rightarrow> u64 \<Rightarrow> u8 list" where
  "to_bytes 0 w = []"
| "to_bytes (Suc n) w = ucast w # to_bytes n (drop_bit 8 w)"

fun ld_bytes :: "mem \<Rightarrow> addr \<Rightarrow> nat \<Rightarrow> u8 list res" where
  "ld_bytes m a 0 = Inr []"
| "ld_bytes m a (Suc n) = bnd (ld8 m a) (\<lambda>b. bnd (ld_bytes m (a + 1) n) (\<lambda>bs. Inr (b # bs)))"

fun st_bytes :: "mem \<Rightarrow> addr \<Rightarrow> u8 list \<Rightarrow> mem res" where
  "st_bytes m a [] = Inr m"
| "st_bytes m a (b # bs) = bnd (st8 m a b) (\<lambda>m. st_bytes m (a + 1) bs)"

definition ld64 :: "mem \<Rightarrow> addr \<Rightarrow> u64 res" where
  "ld64 m a = bnd (ld_bytes m a 8) (\<lambda>bs. Inr (of_bytes bs))"

definition st64 :: "mem \<Rightarrow> addr \<Rightarrow> u64 \<Rightarrow> mem res" where
  "st64 m a w = st_bytes m a (to_bytes 8 w)"

section \<open>The memory routines\<close>

text \<open>\<open>memset\<close>: the loop index \<open>i\<close> runs up while \<open>k\<close> iterations remain.\<close>

fun memset_loop :: "mem \<Rightarrow> addr \<Rightarrow> u8 \<Rightarrow> nat \<Rightarrow> nat \<Rightarrow> mem res" where
  "memset_loop m p c i 0 = Inr m"
| "memset_loop m p c i (Suc k) = bnd (st8 m (p + of_nat i) c) (\<lambda>m. memset_loop m p c (Suc i) k)"

definition memset :: "mem \<Rightarrow> addr \<Rightarrow> u32 \<Rightarrow> size_t \<Rightarrow> (addr \<times> mem) res" where
  "memset m s c n = bnd (memset_loop m s (ucast c) 0 (unat n)) (\<lambda>m. Inr (s, m))"

fun memcpy64_loop :: "mem \<Rightarrow> addr \<Rightarrow> addr \<Rightarrow> nat \<Rightarrow> nat \<Rightarrow> mem res" where
  "memcpy64_loop m dest src i 0 = Inr m"
| "memcpy64_loop m dest src i (Suc k) =
     bnd (ld64 m (src + of_nat (8 * i))) (\<lambda>w.
     bnd (st64 m (dest + of_nat (8 * i)) w) (\<lambda>m.
     memcpy64_loop m dest src (Suc i) k))"

definition memcpy64 :: "mem \<Rightarrow> addr \<Rightarrow> addr \<Rightarrow> size_t \<Rightarrow> (addr \<times> mem) res" where
  "memcpy64 m dest src n = bnd (memcpy64_loop m dest src 0 (unat (n div 8))) (\<lambda>m. Inr (dest, m))"

fun memcpy_loop :: "mem \<Rightarrow> addr \<Rightarrow> addr \<Rightarrow> nat \<Rightarrow> mem res" where
  "memcpy_loop m dest source 0 = Inr m"
| "memcpy_loop m dest source (Suc n) =
     bnd (ld8 m source) (\<lambda>b.
     bnd (st8 m dest b) (\<lambda>m.
     memcpy_loop m (dest + 1) (source + 1) n))"

definition memcpy :: "mem \<Rightarrow> addr \<Rightarrow> addr \<Rightarrow> size_t \<Rightarrow> (addr \<times> mem) res" where
  "memcpy m d s n = bnd (memcpy_loop m d s (unat n)) (\<lambda>m. Inr (d, m))"

fun memmove_up :: "mem \<Rightarrow> addr \<Rightarrow> addr \<Rightarrow> nat \<Rightarrow> nat \<Rightarrow> mem res" where
  "memmove_up m dest src i 0 = Inr m"
| "memmove_up m dest src i (Suc k) =
     bnd (ld8 m (src + of_nat i)) (\<lambda>b.
     bnd (st8 m (dest + of_nat i) b) (\<lambda>m.
     memmove_up m dest src (Suc i) k))"

text \<open>The descending loop writes \<open>pdest[n - i - 1]\<close>; with \<open>k + 1\<close> iterations left that is index \<open>k\<close>.\<close>

fun memmove_down :: "mem \<Rightarrow> addr \<Rightarrow> addr \<Rightarrow> nat \<Rightarrow> mem res" where
  "memmove_down m dest src 0 = Inr m"
| "memmove_down m dest src (Suc k) =
     bnd (ld8 m (src + of_nat k)) (\<lambda>b.
     bnd (st8 m (dest + of_nat k) b) (\<lambda>m.
     memmove_down m dest src k))"

definition memmove :: "mem \<Rightarrow> addr \<Rightarrow> addr \<Rightarrow> size_t \<Rightarrow> (addr \<times> mem) res" where
  "memmove m dest src n =
     bnd (if src > dest then memmove_up m dest src 0 (unat n)
          else if src < dest then memmove_down m dest src (unat n)
          else Inr m)
       (\<lambda>m. Inr (dest, m))"

fun memcmp_loop :: "mem \<Rightarrow> addr \<Rightarrow> addr \<Rightarrow> nat \<Rightarrow> int res" where
  "memcmp_loop m s1 s2 0 = Inr 0"
| "memcmp_loop m s1 s2 (Suc n) =
     bnd (ld8 m s1) (\<lambda>a.
     bnd (ld8 m s2) (\<lambda>b.
     if a = b then memcmp_loop m (s1 + 1) (s2 + 1) n
     else if a < b then Inr (- 1)
     else if a > b then Inr 1
     else memcmp_loop m (s1 + 1) (s2 + 1) n))"

definition memcmp :: "mem \<Rightarrow> addr \<Rightarrow> addr \<Rightarrow> size_t \<Rightarrow> int res" where
  "memcmp m ptr1 ptr2 n = memcmp_loop m ptr1 ptr2 (unat n)"

section \<open>The string routines\<close>

text \<open>
  \<open>strcmp\<close> loops until it decides; the last test of the body, \<open>!a || !b\<close>, leaves the loop with
  result 0, and otherwise the loop goes on.
\<close>

partial_function (option) strcmp_loop :: "mem \<Rightarrow> addr \<Rightarrow> addr \<Rightarrow> int res option" where
  "strcmp_loop m s1 s2 =
     (case m s1 of None \<Rightarrow> Some (Inl Fault) | Some a \<Rightarrow>
      (case m s2 of None \<Rightarrow> Some (Inl Fault) | Some b \<Rightarrow>
       (if a = b \<and> a \<noteq> 0 then strcmp_loop m (s1 + 1) (s2 + 1)
        else if a < b then Some (Inr (- 1))
        else if a > b then Some (Inr 1)
        else if a = 0 \<or> b = 0 then Some (Inr 0)
        else strcmp_loop m (s1 + 1) (s2 + 1))))"

definition strcmp :: "mem \<Rightarrow> addr \<Rightarrow> addr \<Rightarrow> int res" where
  "strcmp m str1 str2 = loop_res (strcmp_loop m str1 str2)"

text \<open>\<open>strncmp\<close> answers -1 for both orders of the first bytes that differ, as the source does.\<close>

fun strncmp_loop :: "mem \<Rightarrow> addr \<Rightarrow> addr \<Rightarrow> nat \<Rightarrow> int res" where
  "strncmp_loop m s1 s2 0 = Inr 0"
| "strncmp_loop m s1 s2 (Suc n) =
     bnd (ld8 m s1) (\<lambda>a.
     bnd (ld8 m s2) (\<lambda>b.
     if a = b \<and> a \<noteq> 0 then strncmp_loop m (s1 + 1) (s2 + 1) n
     else if a < b then Inr (- 1)
     else if a > b then Inr (- 1)
     else if a = 0 \<or> b = 0 then Inr 0
     else strncmp_loop m (s1 + 1) (s2 + 1) n))"

definition strncmp :: "mem \<Rightarrow> addr \<Rightarrow> addr \<Rightarrow> size_t \<Rightarrow> int res" where
  "strncmp m str1 str2 n = strncmp_loop m str1 str2 (unat n)"

partial_function (option) strlen_loop :: "mem \<Rightarrow> addr \<Rightarrow> size_t \<Rightarrow> size_t res option" where
  "strlen_loop m str len =
     (case m str of None \<Rightarrow> Some (Inl Fault) | Some c \<Rightarrow>
      (if c = 0 then Some (Inr len) else strlen_loop m (str + 1) (len + 1)))"

definition strlen :: "mem \<Rightarrow> addr \<Rightarrow> size_t res" where
  "strlen m str = loop_res (strlen_loop m str 0)"

definition strcpy :: "mem \<Rightarrow> addr \<Rightarrow> addr \<Rightarrow> mem res" where
  "strcpy m d s = bnd (strlen m s) (\<lambda>n. bnd (memcpy m d s (n + 1)) (\<lambda>(_, m). Inr m))"

text \<open>
  \<open>strsep\<close>: the inner \<open>do\<close> loop looks for the byte \<open>c\<close> among the delimiters, terminator
  included; the outer loop stops at the first byte that is one. The result is the token, the
  new value of \<open>*stringPointer\<close> and the memory, in which the delimiter has become a zero.
\<close>

partial_function (option) strsep_span :: "mem \<Rightarrow> addr \<Rightarrow> u8 \<Rightarrow> bool res option" where
  "strsep_span m spanP c =
     (case m spanP of None \<Rightarrow> Some (Inl Fault) | Some sc \<Rightarrow>
      (if sc = c then Some (Inr True)
       else if sc \<noteq> 0 then strsep_span m (spanP + 1) c
       else Some (Inr False)))"

partial_function (option) strsep_loop :: "mem \<Rightarrow> addr \<Rightarrow> addr \<Rightarrow> addr \<Rightarrow> (addr \<times> addr \<times> mem) res option" where
  "strsep_loop m token str delimiter =
     (case m str of None \<Rightarrow> Some (Inl Fault) | Some c \<Rightarrow>
      (case strsep_span m delimiter c of
         None \<Rightarrow> None
       | Some (Inl e) \<Rightarrow> Some (Inl e)
       | Some (Inr found) \<Rightarrow>
           (if found then
              (if c = 0 then Some (Inr (token, NULL, m))
               else Some (bnd (st8 m str 0) (\<lambda>m. Inr (token, str + 1, m))))
            else strsep_loop m token (str + 1) delimiter)))"

definition strsep :: "mem \<Rightarrow> addr \<Rightarrow> addr \<Rightarrow> (addr \<times> addr \<times> mem) res" where
  "strsep m stringPointer delimiter =
     (if stringPointer = NULL then Inr (NULL, stringPointer, m)
      else loop_res (strsep_loop m stringPointer stringPointer delimiter))"

text \<open>
  \<open>strstr\<close>: \<open>strstr_find\<close> is the inner loop that moves \<open>in\<close> past the next occurrence of the
  first byte \<open>c\<close>, with \<open>None\<close> inside for the end of the text; the outer loop compares the rest.
\<close>

partial_function (option) strstr_find :: "mem \<Rightarrow> addr \<Rightarrow> u8 \<Rightarrow> addr option res option" where
  "strstr_find m inp c =
     (case m inp of None \<Rightarrow> Some (Inl Fault) | Some sc \<Rightarrow>
      (if sc = 0 then Some (Inr None)
       else if sc \<noteq> c then strstr_find m (inp + 1) c
       else Some (Inr (Some (inp + 1)))))"

partial_function (option) strstr_loop :: "mem \<Rightarrow> addr \<Rightarrow> addr \<Rightarrow> u8 \<Rightarrow> size_t \<Rightarrow> addr res option" where
  "strstr_loop m inp str c len =
     (case strstr_find m inp c of
        None \<Rightarrow> None
      | Some (Inl e) \<Rightarrow> Some (Inl e)
      | Some (Inr None) \<Rightarrow> Some (Inr NULL)
      | Some (Inr (Some inp')) \<Rightarrow>
          (case strncmp m inp' str len of
             Inl e \<Rightarrow> Some (Inl e)
           | Inr r \<Rightarrow> (if r \<noteq> 0 then strstr_loop m inp' str c len else Some (Inr (inp' - 1)))))"

definition strstr :: "mem \<Rightarrow> addr \<Rightarrow> addr \<Rightarrow> addr res" where
  "strstr m inp str =
     bnd (ld8 m str) (\<lambda>c.
     if c = 0 then Inr inp
     else bnd (strlen m (str + 1)) (\<lambda>len.
     loop_res (strstr_loop m inp (str + 1) c len)))"


section \<open>Memory lemmas\<close>

lemma bytes_at_append:
  "bytes_at m p (xs @ ys) \<longleftrightarrow> bytes_at m p xs \<and> bytes_at m (p + of_nat (length xs)) ys"
  by (induction xs arbitrary: p) (auto simp: add.assoc)

lemma bytes_at_nth:
  "bytes_at m p bs \<longleftrightarrow> (\<forall>i<length bs. m (p + of_nat i) = Some (bs ! i))"
proof (induction bs arbitrary: p)
  case (Cons b bs)
  then show ?case by (simp add: All_less_Suc2 add.assoc)
qed simp

lemma cstr_Nil [simp]: "cstr m p [] \<longleftrightarrow> m p = Some 0"
  by (simp add: cstr_def)

lemma cstr_Cons [simp]: "cstr m p (c # s) \<longleftrightarrow> c \<noteq> 0 \<and> m p = Some c \<and> cstr m (p + 1) s"
  by (auto simp: cstr_def)

lemma cstr_append:
  "cstr m p (xs @ ys) \<longleftrightarrow> 0 \<notin> set xs \<and> bytes_at m p xs \<and> cstr m (p + of_nat (length xs)) ys"
  by (auto simp: cstr_def bytes_at_append)

lemma in_span_Suc:
  assumes "n < 2 ^ 64"
  shows "in_span d (Suc n) a \<longleftrightarrow> a = d \<or> in_span (d + 1) n a"
proof (cases "a = d")
  case False
  then have "a - d \<noteq> 0" by simp
  then have "unat (a - (d + 1)) = unat (a - d) - 1"
    using unat_minus_one [of "a - d"] by (simp add: algebra_simps)
  moreover have "unat (a - d) \<noteq> 0" using False by (simp add: unat_0_iff)
  ultimately show ?thesis using False by (auto simp: in_span_def)
qed (simp add: in_span_def)

lemma not_in_span_next: "n < 2 ^ 64 \<Longrightarrow> \<not> in_span (d + 1) n d"
  by (simp add: in_span_def unat_MINUS_ONE)

lemma mapped_Suc: "mapped m p (Suc n) \<longleftrightarrow> m p \<noteq> None \<and> mapped m (p + 1) n"
  by (auto simp: mapped_def All_less_Suc2 add.assoc)

lemma mapped_upd [simp]: "mapped m p n \<Longrightarrow> mapped (m(a := Some b)) p n"
  by (simp add: mapped_def)

lemma mapped_span: "n \<le> 2 ^ 64 \<Longrightarrow> mapped m p n \<longleftrightarrow> (\<forall>a. in_span p n a \<longrightarrow> m a \<noteq> None)"
  unfolding mapped_def by (rule span_all)

section \<open>Copying memory\<close>

text \<open>
  What a copy of \<open>n\<close> bytes from \<open>s\<close> to \<open>d\<close> should produce: the destination holds what the source
  held before the copy, every other byte is as it was.
\<close>

definition copy_of :: "mem \<Rightarrow> addr \<Rightarrow> addr \<Rightarrow> nat \<Rightarrow> mem" where
  "copy_of m d s n = (\<lambda>a. if in_span d n a then m (s + (a - d)) else m a)"

definition filled :: "mem \<Rightarrow> addr \<Rightarrow> u8 \<Rightarrow> nat \<Rightarrow> mem" where
  "filled m p c n = (\<lambda>a. if in_span p n a then Some c else m a)"

lemma memset_loop_eq:
  assumes "i + k \<le> 2 ^ 64" and "mapped m p (i + k)"
  shows "memset_loop (filled m p c i) p c i k = Inr (filled m p c (i + k))"
  using assms
proof (induction k arbitrary: i)
  case (Suc k)
  have "m (p + of_nat i) \<noteq> None"
    using Suc.prems(2) by (simp add: mapped_def)
  moreover have "(filled m p c i)(p + of_nat i := Some c) = filled m p c (Suc i)"
    using Suc.prems(1) by (auto simp: filled_def in_span_def less_Suc_eq unat_diff_less_iff)
  ultimately show ?case
    using Suc.IH [of "Suc i"] Suc.prems by (auto simp: st8_def filled_def)
qed simp

lemma memset_eq:
  "mapped m p (unat n) \<Longrightarrow> memset m p c n = Inr (p, filled m p (ucast c) (unat n))"
  using memset_loop_eq [of 0 "unat n" m p "ucast c"] unat_u64_less [of n]
  by (simp add: memset_def filled_def)


text \<open>A \<open>memset\<close> that returns wrote only mapped bytes.\<close>

lemma memset_loop_mapped:
  "memset_loop m p c i k = Inr m' \<Longrightarrow> j < k \<Longrightarrow> m (p + of_nat (i + j)) \<noteq> None"
proof (induction k arbitrary: m i j)
  case (Suc k)
  then have x: "m (p + of_nat i) \<noteq> None"
    and rest: "memset_loop (m(p + of_nat i := Some c)) p c (Suc i) k = Inr m'"
    by (auto simp: bnd_eq_Inr st8_def split: if_splits option.splits)
  show ?case
  proof (cases j)
    case (Suc j')
    then have "(m(p + of_nat i := Some c)) (p + of_nat (i + j)) \<noteq> None"
      using Suc.IH [OF rest, of j'] Suc.prems(2) by simp
    then show ?thesis using x by (metis fun_upd_apply)
  qed (use x in simp)
qed simp

lemma memset_Inr:
  assumes "memset m p c n = Inr (r, m')"
  shows "mapped m p (unat n)" and "r = p" and "m' = filled m p (ucast c) (unat n)"
proof -
  obtain m1 where "memset_loop m p (ucast c) 0 (unat n) = Inr m1"
    using assms by (auto simp: memset_def)
  then show "mapped m p (unat n)" using memset_loop_mapped [of m p "ucast c" 0] by (auto simp: mapped_def)
  then show "r = p" and "m' = filled m p (ucast c) (unat n)"
    using memset_eq [of m p n c] assms by simp_all
qed

lemma memcpy_loop_eq:
  assumes "n < 2 ^ 64" and "mapped m s n" and "mapped m d n" and "spans_apart d n s n"
  shows "memcpy_loop m d s n = Inr (copy_of m d s n)"
  using assms
proof (induction n arbitrary: m d s)
  case (Suc n)
  from Suc.prems obtain b where b: "m s = Some b" and "m d \<noteq> None"
    by (auto simp: mapped_Suc)
  let ?m = "m(d := Some b)"
  have apart: "spans_apart (d + 1) n (s + 1) n" and d: "\<not> in_span s (Suc n) d"
    using Suc.prems(1,4) by (auto simp: spans_apart_def in_span_Suc)
  have "memcpy_loop ?m (d + 1) (s + 1) n = Inr (copy_of ?m (d + 1) (s + 1) n)"
    using Suc.prems apart by (intro Suc.IH mapped_upd) (simp_all add: mapped_Suc)
  moreover have "copy_of ?m (d + 1) (s + 1) n = copy_of m d s (Suc n)"
  proof (rule ext)
    fix a
    have "s + 1 + (a - (d + 1)) = s + (a - d)" by simp
    moreover have "s + (a - d) \<noteq> d" if "in_span (d + 1) n a"
    proof
      assume "s + (a - d) = d"
      then have "d - s = a - d" by (metis add_diff_cancel_left')
      moreover have "in_span d (Suc n) a"
        using that Suc.prems(1) by (simp add: in_span_Suc)
      ultimately have "in_span s (Suc n) d" by (simp only: in_span_def)
      with d show False ..
    qed
    ultimately show "copy_of ?m (d + 1) (s + 1) n a = copy_of m d s (Suc n) a"
      using Suc.prems(1) b by (auto simp: copy_of_def in_span_Suc not_in_span_next)
  qed
  ultimately show ?case
    using b \<open>m d \<noteq> None\<close> by (auto simp: ld8_def st8_def)
qed (simp add: copy_of_def)

lemma memcpy_eq:
  assumes "mapped m s (unat n)" and "mapped m d (unat n)" and "spans_apart d (unat n) s (unat n)"
  shows "memcpy m d s n = Inr (d, copy_of m d s (unat n))"
  using memcpy_loop_eq [of "unat n" m s d] assms unat_u64_less [of n] by (simp add: memcpy_def)

text \<open>Reading a copy: an offset in the destination is the same offset in the source.\<close>

lemma copy_of_offset: "i < n \<Longrightarrow> n \<le> 2 ^ 64 \<Longrightarrow> copy_of m d s n (d + of_nat i) = m (s + of_nat i)"
  by (simp add: copy_of_def in_span_offset)

lemma copy_of_outside: "\<not> in_span d n a \<Longrightarrow> copy_of m d s n a = m a"
  by (simp add: copy_of_def)

lemma copy_of_mapped:
  assumes "mapped m s n" and "n \<le> 2 ^ 64" and "m a \<noteq> None"
  shows "copy_of m d s n a \<noteq> None"
proof (cases "in_span d n a")
  case True
  then have "unat (a - d) < n" by (simp add: in_span_def)
  then have "m (s + of_nat (unat (a - d))) \<noteq> None"
    using assms(1) unfolding mapped_def by blast
  then show ?thesis using True by (simp add: copy_of_def)
qed (use assms in \<open>simp add: copy_of_outside\<close>)

lemma copy_of_bytes:
  "bytes_at m s bs \<Longrightarrow> length bs \<le> 2 ^ 64 \<Longrightarrow> bytes_at (copy_of m d s (length bs)) d bs"
  by (simp add: bytes_at_nth copy_of_offset)

text \<open>The two loops of \<open>memmove\<close> at any point: the part already moved is a copy of the start.\<close>

lemma memmove_up_eq:
  assumes "i + k < 2 ^ 64" and "unat s + (i + k) \<le> 2 ^ 64" and "d < s"
    and "mapped m s (i + k)" and "mapped m d (i + k)"
  shows "memmove_up (copy_of m d s i) d s i k = Inr (copy_of m d s (i + k))"
  using assms
proof (induction k arbitrary: i)
  case (Suc k)
  let ?c = "copy_of m d s i"
  have u: "unat (s + of_nat i) = unat s + i"
    using Suc.prems(1,2) by (simp add: unat_add_u64 unat_of_nat_u64)
  have "\<not> in_span d i (s + of_nat i)"
    using Suc.prems(1-3) u by (simp add: in_span_def unat_diff_u64 word_less_nat_alt)
  then have rd: "?c (s + of_nat i) = m (s + of_nat i)"
    by (simp add: copy_of_outside)
  obtain b where b: "m (s + of_nat i) = Some b"
    using Suc.prems(4) by (fastforce simp: mapped_def)
  have wr: "?c (d + of_nat i) \<noteq> None"
    using Suc.prems(1,5) by (simp add: copy_of_def in_span_def unat_of_nat_u64 mapped_def)
  have "?c(d + of_nat i := Some b) = copy_of m d s (Suc i)"
    using Suc.prems(1) b
    by (auto simp: copy_of_def in_span_def less_Suc_eq unat_diff_less_iff fun_eq_iff)
  then show ?case
    using Suc.IH [of "Suc i"] Suc.prems rd b wr by (auto simp: ld8_def st8_def)
qed simp

definition copied_above :: "mem \<Rightarrow> addr \<Rightarrow> addr \<Rightarrow> nat \<Rightarrow> nat \<Rightarrow> mem" where
  "copied_above m d s k n = (\<lambda>a. if in_span d n a \<and> k \<le> unat (a - d) then m (s + (a - d)) else m a)"

lemma memmove_down_eq:
  assumes "k \<le> n" and "unat d + n \<le> 2 ^ 64" and "s < d"
    and "mapped m s n" and "mapped m d n"
  shows "memmove_down (copied_above m d s k n) d s k = Inr (copy_of m d s n)"
  using assms(1)
proof (induction k)
  case 0
  then show ?case by (simp add: copied_above_def copy_of_def)
next
  case (Suc k)
  let ?c = "copied_above m d s (Suc k) n"
  have n: "n < 2 ^ 64" using assms(2,3) by (auto simp: word_less_nat_alt)
  have sd: "unat s < unat d" using assms(3) by (simp add: word_less_nat_alt)
  have u: "unat (s + of_nat k) = unat s + k"
    using Suc.prems assms(2) sd n by (simp add: unat_add_u64 unat_of_nat_u64)
  have "\<not> (in_span d n (s + of_nat k) \<and> Suc k \<le> unat (s + of_nat k - d))"
  proof (cases "unat d \<le> unat s + k")
    case True
    then have "unat (s + of_nat k - d) = unat s + k - unat d"
      using u by (simp add: unat_diff_u64)
    then show ?thesis using sd by linarith
  next
    case False
    then have "\<not> in_span d n (s + of_nat k)"
      using assms(2) u by (simp add: in_span_iff)
    then show ?thesis by simp
  qed
  then have rd: "?c (s + of_nat k) = m (s + of_nat k)"
    by (auto simp: copied_above_def)
  obtain b where b: "m (s + of_nat k) = Some b"
    using Suc.prems assms(4) by (fastforce simp: mapped_def)
  have wr: "?c (d + of_nat k) \<noteq> None"
    using Suc.prems assms(5) n by (simp add: copied_above_def unat_of_nat_u64 mapped_def)
  have "?c(d + of_nat k := Some b) = copied_above m d s k n"
    using Suc.prems n b unat_of_nat_u64 [of k]
    by (auto simp: copied_above_def in_span_def Suc_le_eq le_less unat_diff_less_iff fun_eq_iff
        dest: sym)
  then show ?case
    using Suc rd b wr by (auto simp: ld8_def st8_def)
qed

lemma memmove_eq:
  assumes "unat s + unat n \<le> 2 ^ 64" and "unat d + unat n \<le> 2 ^ 64"
    and "mapped m s (unat n)" and "mapped m d (unat n)"
  shows "memmove m d s n = Inr (d, copy_of m d s (unat n))"
proof -
  consider "d < s" | "s < d" | "s = d" by (metis linorder_less_linear)
  then show ?thesis
  proof cases
    case 1
    then show ?thesis
      using memmove_up_eq [of 0 "unat n" s d m] assms unat_u64_less [of n]
      by (simp add: memmove_def copy_of_def)
  next
    case 2
    have "copied_above m d s (unat n) (unat n) = m"
      by (rule ext) (auto simp: copied_above_def in_span_def)
    then show ?thesis
      using memmove_down_eq [of "unat n" "unat n" d s m] 2 assms
      by (auto simp: memmove_def)
  qed (simp add: memmove_def copy_of_def fun_eq_iff)
qed


section \<open>Strings\<close>

text \<open>The order \<open>strcmp\<close> reports: bytes compared as unsigned, a proper prefix first.\<close>

fun str_order :: "u8 list \<Rightarrow> u8 list \<Rightarrow> int" where
  "str_order [] [] = 0"
| "str_order [] (b # bs) = - 1"
| "str_order (a # as) [] = 1"
| "str_order (a # as) (b # bs) = (if a < b then - 1 else if b < a then 1 else str_order as bs)"

lemma str_order_refl [simp]: "str_order s s = 0"
  by (induction s) auto

lemma str_order_eq_0 [simp]: "str_order s t = 0 \<longleftrightarrow> s = t"
  by (induction s t rule: str_order.induct) auto

lemma str_order_swap: "str_order t s = - str_order s t"
  by (induction s t rule: str_order.induct) auto

lemma str_order_lexord: "str_order s t = - 1 \<longleftrightarrow> (s, t) \<in> lexord {(a, b). a < b}"
  by (induction s t rule: str_order.induct) auto

lemma strlen_loop_cstr: "cstr m p s \<Longrightarrow> strlen_loop m p n = Some (Inr (n + of_nat (length s)))"
proof (induction s arbitrary: p n)
  case (Cons c s)
  then show ?case
    by (subst strlen_loop.simps) (simp add: algebra_simps)
qed (subst strlen_loop.simps, simp)

lemma strlen_cstr: "cstr m p s \<Longrightarrow> strlen m p = Inr (of_nat (length s))"
  by (simp add: strlen_def strlen_loop_cstr)

lemma strcmp_loop_cstr:
  "cstr m p s \<Longrightarrow> cstr m q t \<Longrightarrow> strcmp_loop m p q = Some (Inr (str_order s t))"
proof (induction s t arbitrary: p q rule: str_order.induct)
  case (4 a as b bs)
  then show ?case by (subst strcmp_loop.simps) auto
qed (subst strcmp_loop.simps, auto simp: word_neq_0_conv)+

lemma strcmp_cstr: "cstr m p s \<Longrightarrow> cstr m q t \<Longrightarrow> strcmp m p q = Inr (str_order s t)"
  by (simp add: strcmp_def strcmp_loop_cstr)

lemma strncmp_loop_cstr:
  "cstr m p s \<Longrightarrow> cstr m q t \<Longrightarrow>
    strncmp_loop m p q n = Inr (if take n s = take n t then 0 else - 1)"
proof (induction n arbitrary: p q s t)
  case (Suc n)
  then show ?case
    by (cases s; cases t) (auto simp: ld8_def word_neq_0_conv)
qed simp

lemma strncmp_cstr:
  "cstr m p s \<Longrightarrow> cstr m q t \<Longrightarrow>
    strncmp m p q n = Inr (if take (unat n) s = take (unat n) t then 0 else - 1)"
  by (simp add: strncmp_def strncmp_loop_cstr)

lemma memcmp_bytes:
  assumes "bytes_at m p s" and "bytes_at m q t" and "length s = length t"
  shows "memcmp_loop m p q (length s) = Inr (str_order s t)"
  using assms(3,1,2)
  by (induction s t arbitrary: p q rule: list_induct2) (auto simp: ld8_def)

text \<open>A C string of at most \<open>2 ^ 64 - 1\<close> bytes is the byte run of \<open>strlen + 1\<close> bytes.\<close>

lemma cstr_mapped: "cstr m p s \<Longrightarrow> mapped m p (Suc (length s))"
  by (auto simp: cstr_def bytes_at_nth mapped_def)

lemma copy_of_cstr:
  assumes "cstr m p s" and "length s < 2 ^ 64"
  shows "cstr (copy_of m d p (Suc (length s))) d s"
  using assms copy_of_bytes [of m p "s @ [0]" d] by (auto simp: cstr_def)

lemma cstr_cong:
  assumes "cstr m p s" and "\<And>i. i \<le> length s \<Longrightarrow> m' (p + of_nat i) = m (p + of_nat i)"
  shows "cstr m' p s"
  using assms by (auto simp: cstr_def bytes_at_nth)

lemma strcpy_cstr:
  assumes "cstr m s x" and "length x < 2 ^ 64 - 1" and "mapped m d (Suc (length x))"
    and "spans_apart d (Suc (length x)) s (Suc (length x))"
  shows "strcpy m d s = Inr (copy_of m d s (Suc (length x)))"
proof -
  have "unat (of_nat (length x) + 1 :: u64) = Suc (length x)"
    using assms(2) unat_of_nat_u64 [of "Suc (length x)"] by (simp add: add.commute)
  then show ?thesis
    using assms memcpy_eq [of m s "of_nat (length x) + 1" d]
    by (simp add: strcpy_def strlen_cstr cstr_mapped)
qed


section \<open>Tokens and substrings\<close>

lemma strsep_span_cstr:
  "cstr m d ds \<Longrightarrow> strsep_span m d c = Some (Inr (c = 0 \<or> c \<in> set ds))"
proof (induction ds arbitrary: d)
  case (Cons x ds)
  then show ?case by (subst strsep_span.simps) auto
qed (subst strsep_span.simps, auto)

text \<open>The first token of \<open>s\<close>, up to a byte of \<open>ds\<close>, and what follows that byte, if there is one.\<close>

definition first_token :: "u8 list \<Rightarrow> u8 list \<Rightarrow> u8 list" where
  "first_token ds s = takeWhile (\<lambda>c. c \<notin> set ds) s"

definition after_token :: "u8 list \<Rightarrow> u8 list \<Rightarrow> u8 list option" where
  "after_token ds s = (case dropWhile (\<lambda>c. c \<notin> set ds) s of [] \<Rightarrow> None | _ # r \<Rightarrow> Some r)"

lemma token_split: "after_token ds s = Some r \<Longrightarrow> \<exists>c \<in> set ds. s = first_token ds s @ c # r"
  unfolding after_token_def first_token_def
  by (auto split: list.splits) (metis dropWhile_eq_Cons_conv takeWhile_dropWhile_id)

lemma no_token_split: "after_token ds s = None \<Longrightarrow> first_token ds s = s"
  by (auto simp: after_token_def first_token_def split: list.splits)

lemma strsep_loop_cstr:
  assumes "cstr m p s" and "cstr m d ds"
  shows "strsep_loop m tok p d = Some (Inr (case after_token ds s of
      None \<Rightarrow> (tok, NULL, m)
    | Some r \<Rightarrow> (tok, p + of_nat (Suc (length (first_token ds s))),
                 m(p + of_nat (length (first_token ds s)) := Some 0))))"
  using assms(1)
proof (induction s arbitrary: p)
  case Nil
  then show ?case
    by (subst strsep_loop.simps) (simp add: strsep_span_cstr [OF assms(2)] after_token_def)
next
  case (Cons c s)
  then show ?case
    by (subst strsep_loop.simps)
      (auto simp: strsep_span_cstr [OF assms(2)] after_token_def first_token_def st8_def
        algebra_simps split: list.splits)
qed

lemma strsep_cstr:
  assumes "cstr m p s" and "cstr m d ds" and "p \<noteq> NULL"
  shows "strsep m p d = Inr (case after_token ds s of
      None \<Rightarrow> (p, NULL, m)
    | Some r \<Rightarrow> (p, p + of_nat (Suc (length (first_token ds s))),
                 m(p + of_nat (length (first_token ds s)) := Some 0)))"
  using assms by (simp add: strsep_def strsep_loop_cstr)

lemma strsep_pieces:
  assumes "cstr m p s" and "after_token ds s = Some r" and "length s < 2 ^ 64"
  defines "k \<equiv> length (first_token ds s)"
  shows "cstr (m(p + of_nat k := Some 0)) p (first_token ds s)"
    and "cstr (m(p + of_nat k := Some 0)) (p + of_nat (Suc k)) r"
proof -
  obtain c where s: "s = first_token ds s @ c # r"
    using token_split [OF assms(2)] by blast
  define t where "t = first_token ds s"
  have st: "s = t @ c # r" and k: "k = length t"
    using s by (simp_all add: t_def k_def)
  have c: "cstr m p (t @ c # r)" using assms(1) by (simp only: st)
  have len: "length t + Suc (length r) < 2 ^ 64" using assms(3) by (simp add: st)
  have "p + of_nat i \<noteq> p + of_nat k" if "i \<noteq> k" "i \<le> length s" for i
    using that len by (simp add: of_nat_u64_eq_iff st k)
  then have neq: "(m(p + of_nat k := Some 0)) (p + of_nat i) = m (p + of_nat i)"
    if "i \<noteq> k" "i \<le> length s" for i
    using that by simp
  have "bytes_at m p t" and "0 \<notin> set t"
    using c by (auto simp: cstr_append)
  moreover have "bytes_at (m(p + of_nat k := Some 0)) p t"
    unfolding bytes_at_nth
  proof (intro allI impI)
    fix i assume "i < length t"
    then show "(m(p + of_nat k := Some 0)) (p + of_nat i) = Some (t ! i)"
      using neq [of i] \<open>bytes_at m p t\<close> by (simp add: bytes_at_nth k st)
  qed
  ultimately show "cstr (m(p + of_nat k := Some 0)) p (first_token ds s)"
    unfolding t_def [symmetric] by (simp add: cstr_def bytes_at_append k)
  have "cstr m (p + of_nat (Suc k)) r"
    using c by (simp add: cstr_append k algebra_simps)
  then show "cstr (m(p + of_nat k := Some 0)) (p + of_nat (Suc k)) r"
  proof (rule cstr_cong)
    fix i assume "i \<le> length r"
    then show "(m(p + of_nat k := Some 0)) (p + of_nat (Suc k) + of_nat i)
      = m (p + of_nat (Suc k) + of_nat i)"
      using neq [of "Suc k + i"] by (simp add: st k algebra_simps)
  qed
qed

text \<open>The first place where \<open>t\<close> occurs in \<open>s\<close>.\<close>

fun find_sub :: "u8 list \<Rightarrow> u8 list \<Rightarrow> nat option" where
  "find_sub t [] = (if t = [] then Some 0 else None)"
| "find_sub t (c # s) = (if take (length t) (c # s) = t then Some 0 else map_option Suc (find_sub t s))"

lemma find_sub_Some:
  "find_sub t s = Some i \<Longrightarrow>
    take (length t) (drop i s) = t \<and> (\<forall>j<i. take (length t) (drop j s) \<noteq> t)"
proof (induction s arbitrary: i)
  case (Cons c s)
  then show ?case
    by (auto split: if_splits simp: less_Suc_eq_0_disj)
qed (auto split: if_splits)

lemma find_sub_None: "find_sub t s = None \<Longrightarrow> take (length t) (drop i s) \<noteq> t"
proof (induction s arbitrary: i)
  case (Cons c s)
  then show ?case by (cases i) (auto split: if_splits)
qed (auto split: if_splits)

lemma strstr_loop_cstr:
  assumes "cstr m p s" and "cstr m q t" and "c \<noteq> 0" and "length t < 2 ^ 64"
  shows "strstr_loop m p q c (of_nat (length t)) =
    Some (Inr (case find_sub (c # t) s of None \<Rightarrow> NULL | Some i \<Rightarrow> p + of_nat i))"
  using assms(1)
proof (induction s arbitrary: p)
  case Nil
  then show ?case
    by (subst strstr_loop.simps, subst strstr_find.simps) simp
next
  case (Cons x s)
  have IH: "strstr_loop m (p + 1) q c (of_nat (length t)) =
      Some (Inr (case find_sub (c # t) s of None \<Rightarrow> NULL | Some i \<Rightarrow> p + 1 + of_nat i))"
    using Cons by simp
  show ?case
  proof (cases "x = c")
    case True
    then have "strstr_find m p c = Some (Inr (Some (p + 1)))"
      using Cons.prems by (subst strstr_find.simps) simp
    moreover have "strncmp m (p + 1) q (of_nat (length t)) = Inr (if take (length t) s = t then 0 else - 1)"
      using strncmp_cstr [of m "p + 1" s q t "of_nat (length t)"] Cons.prems assms(2,4)
      by (simp add: unat_of_nat_u64)
    ultimately show ?thesis
      using IH True by (subst strstr_loop.simps) (auto split: option.splits simp: algebra_simps)
  next
    case False
    then have "strstr_find m p c = strstr_find m (p + 1) c"
      using Cons.prems by (subst strstr_find.simps) simp
    then have "strstr_loop m p q c (of_nat (length t)) = strstr_loop m (p + 1) q c (of_nat (length t))"
      by (subst (1 2) strstr_loop.simps) simp
    with IH False show ?thesis by (auto split: option.splits simp: algebra_simps)
  qed
qed

lemma strstr_cstr:
  assumes "cstr m p s" and "cstr m q t" and "length t < 2 ^ 64"
  shows "strstr m p q = Inr (case find_sub t s of None \<Rightarrow> NULL | Some i \<Rightarrow> p + of_nat i)"
proof (cases t)
  case Nil
  then have "find_sub t s = Some 0" by (cases s) auto
  then show ?thesis using assms Nil by (simp add: strstr_def ld8_def)
next
  case (Cons c u)
  then have "cstr m (q + 1) u" and "c \<noteq> 0" and "m q = Some c" and "length u < 2 ^ 64"
    using assms by auto
  then show ?thesis
    using strstr_loop_cstr [OF assms(1), of "q + 1" u c] Cons
    by (simp add: strstr_def ld8_def strlen_cstr)
qed


section \<open>Copying by 64-bit words\<close>

lemma bit_of_bytes:
  "length bs \<le> 8 \<Longrightarrow> bit (of_bytes bs) n \<longleftrightarrow> n < 8 * length bs \<and> bit (bs ! (n div 8)) (n mod 8)"
proof (induction bs arbitrary: n)
  case (Cons b bs)
  show ?case
  proof (cases "n < 8")
    case True
    then show ?thesis by (simp add: bit_simps)
  next
    case False
    then have "n div 8 = Suc ((n - 8) div 8)" and "(n - 8) mod 8 = n mod 8"
      by (simp_all add: le_div_geq le_mod_geq not_less)
    then show ?thesis
      using False Cons.prems Cons.IH [of "n - 8"]
      by (auto simp: bit_simps dest: bit_imp_le_length)
  qed
qed simp

lemma to_bytes_nth: "i < n \<Longrightarrow> to_bytes n w ! i = ucast (drop_bit (8 * i) w)"
proof (induction n arbitrary: w i)
  case (Suc n)
  then show ?case by (cases i) (simp_all add: drop_bit_drop_bit add.commute)
qed simp

lemma length_to_bytes [simp]: "length (to_bytes n w) = n"
  by (induction n arbitrary: w) auto

lemma to_bytes_of_bytes:
  assumes "length bs \<le> 8"
  shows "to_bytes (length bs) (of_bytes bs) = bs"
proof (rule nth_equalityI)
  fix i assume "i < length (to_bytes (length bs) (of_bytes bs))"
  then have i: "i < length bs" by simp
  show "to_bytes (length bs) (of_bytes bs) ! i = bs ! i"
  proof (rule bit_word_eqI)
    fix n assume "n < LENGTH(8)"
    then show "bit (to_bytes (length bs) (of_bytes bs) ! i) n = bit (bs ! i) n"
      using i assms by (auto simp: to_bytes_nth bit_simps bit_of_bytes)
  qed
qed simp

lemma of_bytes_to_bytes: "of_bytes (to_bytes 8 w) = w"
proof (rule bit_word_eqI)
  fix n assume "n < LENGTH(64)"
  then show "bit (of_bytes (to_bytes 8 w)) n = bit w n"
    by (auto simp: bit_of_bytes to_bytes_nth bit_simps less_mult_imp_div_less simp del: to_bytes.simps)
qed

lemma ld_bytes_eq: "bytes_at m a bs \<Longrightarrow> ld_bytes m a (length bs) = Inr bs"
  by (induction bs arbitrary: a) (auto simp: ld8_def)

lemma st_bytes_eq:
  assumes "length bs < 2 ^ 64" and "mapped m a (length bs)"
  shows "st_bytes m a bs = Inr (\<lambda>x. if in_span a (length bs) x then Some (bs ! unat (x - a)) else m x)"
  using assms
proof (induction bs arbitrary: m a)
  case (Cons b bs)
  have "st_bytes (m(a := Some b)) (a + 1) bs = Inr (\<lambda>x. if in_span (a + 1) (length bs) x
      then Some (bs ! unat (x - (a + 1))) else (m(a := Some b)) x)"
    using Cons.prems by (intro Cons.IH mapped_upd) (simp_all add: mapped_Suc)
  moreover have "(b # bs) ! unat (x - a) = bs ! unat (x - (a + 1))" if "in_span (a + 1) (length bs) x" for x
  proof -
    have "x \<noteq> a" using that Cons.prems(1) by (auto simp: not_in_span_next)
    then have "x - a \<noteq> 0" by simp
    then have "unat (x - a) = Suc (unat (x - (a + 1)))"
      using unat_minus_one [of "x - a"] unat_gt_0 [of "x - a"] by (simp add: diff_diff_eq)
    then show ?thesis by simp
  qed
  ultimately show ?case
    using Cons.prems by (auto simp: st8_def mapped_Suc in_span_Suc not_in_span_next fun_eq_iff)
qed simp

lemma ld64_st64:
  assumes "mapped m a 8"
  shows "\<exists>m'. st64 m a w = Inr m' \<and> ld64 m' a = Inr w"
proof -
  define m' where "m' = (\<lambda>x. if in_span a 8 x then Some (to_bytes 8 w ! unat (x - a)) else m x)"
  have "st64 m a w = Inr m'"
    using st_bytes_eq [of "to_bytes 8 w" m a] assms by (simp add: st64_def m'_def del: to_bytes.simps)
  moreover have "bytes_at m' a (to_bytes 8 w)"
    by (simp add: bytes_at_nth m'_def in_span_def unat_of_nat_u64 del: to_bytes.simps)
  then have "ld64 m' a = Inr w"
    using ld_bytes_eq [of m' a "to_bytes 8 w"]
    by (simp add: ld64_def of_bytes_to_bytes del: to_bytes.simps)
  ultimately show ?thesis by blast
qed


lemma mapped_bytes:
  assumes "mapped m p n" shows "\<exists>bs. length bs = n \<and> bytes_at m p bs"
proof (intro exI conjI)
  let ?bs = "map (\<lambda>i. the (m (p + of_nat i))) [0..<n]"
  show "length ?bs = n" by simp
  show "bytes_at m p ?bs" using assms by (auto simp: bytes_at_nth mapped_def)
qed

lemma mapped_sub: "mapped m p n \<Longrightarrow> i + k \<le> n \<Longrightarrow> mapped m (p + of_nat i) k"
  unfolding mapped_def by (metis add.assoc add_less_cancel_left of_nat_add order_less_le_trans)

lemma memcpy64_loop_eq:
  assumes "8 * (i + k) < 2 ^ 64" and "mapped m s (8 * (i + k))" and "mapped m d (8 * (i + k))"
    and "spans_apart d (8 * (i + k)) s (8 * (i + k))"
  shows "memcpy64_loop (copy_of m d s (8 * i)) d s i k = Inr (copy_of m d s (8 * (i + k)))"
  using assms
proof (induction k arbitrary: i)
  case (Suc k)
  let ?c = "copy_of m d s (8 * i)" and ?o = "of_nat (8 * i) :: u64"
  have "mapped m (s + ?o) 8"
    using Suc.prems(2) by (rule mapped_sub) simp
  then obtain bs where bs: "length bs = 8" "bytes_at m (s + ?o) bs"
    using mapped_bytes by blast
  have frame: "?c (s + of_nat j) = m (s + of_nat j)" if "j < 8 * (i + Suc k)" for j
  proof (rule copy_of_outside)
    have "in_span s (8 * (i + Suc k)) (s + of_nat j)"
      using that Suc.prems(1) by (simp add: in_span_offset)
    then have "\<not> in_span d (8 * (i + Suc k)) (s + of_nat j)"
      using Suc.prems(4) by (auto simp: spans_apart_def)
    then show "\<not> in_span d (8 * i) (s + of_nat j)" by (auto simp: in_span_def)
  qed
  have "bytes_at ?c (s + ?o) bs"
    unfolding bytes_at_nth
  proof (intro allI impI)
    fix j assume "j < length bs"
    then show "?c (s + ?o + of_nat j) = Some (bs ! j)"
      using frame [of "8 * i + j"] bs by (simp add: bytes_at_nth add.assoc)
  qed
  then have rd: "ld64 ?c (s + ?o) = Inr (of_bytes bs)"
    using ld_bytes_eq [of ?c "s + ?o" bs] bs(1) by (simp add: ld64_def)
  have "mapped ?c (d + ?o) 8"
  proof -
    have "mapped ?c d (8 * (i + Suc k))"
      using copy_of_mapped [of m s "8 * i" _ d] Suc.prems(1,3) mapped_sub [OF Suc.prems(2), of 0 "8 * i"]
      unfolding mapped_def by simp
    then show ?thesis by (rule mapped_sub) simp
  qed
  then have wr: "st64 ?c (d + ?o) (of_bytes bs) =
      Inr (\<lambda>x. if in_span (d + ?o) 8 x then Some (bs ! unat (x - (d + ?o))) else ?c x)"
    using st_bytes_eq [of bs ?c "d + ?o"] to_bytes_of_bytes [of bs] bs(1) by (simp add: st64_def)
  have "(\<lambda>x. if in_span (d + ?o) 8 x then Some (bs ! unat (x - (d + ?o))) else ?c x)
      = copy_of m d s (8 * Suc i)"
  proof (rule ext)
    fix x
    show "(if in_span (d + ?o) 8 x then Some (bs ! unat (x - (d + ?o))) else ?c x)
      = copy_of m d s (8 * Suc i) x"
    proof (cases "in_span (d + ?o) 8 x")
      case True
      define j where "j = unat (x - (d + ?o))"
      have j: "j < 8" and x: "x = d + of_nat (8 * i + j)"
        using True by (auto simp: in_span_def j_def)
      have "copy_of m d s (8 * Suc i) x = m (s + of_nat (8 * i + j))"
        unfolding x by (rule copy_of_offset) (use j Suc.prems(1) in auto)
      also have "\<dots> = Some (bs ! j)"
        using bs j by (auto simp: bytes_at_nth add.assoc)
      finally show ?thesis using True by (simp add: j_def)
    next
      case False
      have "in_span d (8 * Suc i) x \<longleftrightarrow> in_span d (8 * i) x"
      proof
        assume a: "in_span d (8 * Suc i) x"
        show "in_span d (8 * i) x"
        proof (rule ccontr)
          assume "\<not> in_span d (8 * i) x"
          moreover have "unat ?o = 8 * i"
            using Suc.prems(1) by (intro unat_of_nat_u64) simp
          ultimately have "unat (x - d - ?o) = unat (x - d) - 8 * i"
            using unat_diff_u64 [of ?o "x - d"] by (simp only: in_span_def not_less)
          then have "in_span (d + ?o) 8 x"
            using a \<open>\<not> in_span d (8 * i) x\<close> by (simp add: in_span_def diff_diff_eq)
          with False show False ..
        qed
      qed (auto simp: in_span_def)
      with False show ?thesis by (simp add: copy_of_def)
    qed
  qed
  then show ?case
    using Suc.IH [of "Suc i"] Suc.prems rd wr by simp
qed simp

lemma memcpy64_eq:
  assumes "mapped m s (8 * unat (n div 8))" and "mapped m d (8 * unat (n div 8))"
    and "spans_apart d (8 * unat (n div 8)) s (8 * unat (n div 8))"
  shows "memcpy64 m d s n = Inr (d, copy_of m d s (8 * unat (n div 8)))"
proof -
  have "8 * unat (n div 8) < 2 ^ 64"
    using unat_u64_less [of n] by (simp add: unat_div)
  then show ?thesis
    using memcpy64_loop_eq [of 0 "unat (n div 8)" m s d] assms
    by (simp add: memcpy64_def copy_of_def)
qed

text \<open>The memory after a 64-bit store, and what a 64-bit load depends on.\<close>

definition put64 :: "mem \<Rightarrow> addr \<Rightarrow> u64 \<Rightarrow> mem" where
  "put64 m a w = (\<lambda>x. if in_span a 8 x then Some (to_bytes 8 w ! unat (x - a)) else m x)"

lemma st64_eq: "mapped m a 8 \<Longrightarrow> st64 m a w = Inr (put64 m a w)"
  using st_bytes_eq [of "to_bytes 8 w" m a] by (simp add: st64_def put64_def del: to_bytes.simps)

lemma ld64_put64 [simp]: "ld64 (put64 m a w) a = Inr w"
proof -
  have "bytes_at (put64 m a w) a (to_bytes 8 w)"
    by (simp add: bytes_at_nth put64_def in_span_def unat_of_nat_u64 del: to_bytes.simps)
  then show ?thesis
    using ld_bytes_eq [of "put64 m a w" a "to_bytes 8 w"]
    by (simp add: ld64_def of_bytes_to_bytes del: to_bytes.simps)
qed

lemma put64_outside: "\<not> in_span a 8 x \<Longrightarrow> put64 m a w x = m x"
  by (simp add: put64_def)

lemma mapped_put64 [simp]: "mapped m p n \<Longrightarrow> mapped (put64 m a w) p n"
  by (simp add: mapped_def put64_def)

lemma ld_bytes_cong:
  "(\<And>i. i < n \<Longrightarrow> m (a + of_nat i) = m' (a + of_nat i)) \<Longrightarrow> ld_bytes m a n = ld_bytes m' a n"
proof (induction n arbitrary: a)
  case (Suc n)
  have "m a = m' a" using Suc.prems [of 0] by simp
  moreover have "ld_bytes m (a + 1) n = ld_bytes m' (a + 1) n"
    using Suc.prems [of "Suc i" for i] by (intro Suc.IH) (simp add: add.assoc)
  ultimately show ?case by (simp add: ld8_def)
qed simp

lemma ld64_cong:
  assumes "\<And>x. in_span a 8 x \<Longrightarrow> m x = m' x"
  shows "ld64 m a = ld64 m' a"
  unfolding ld64_def using assms by (subst ld_bytes_cong [of 8 m a m']) (simp_all add: in_span_offset)

section \<open>Properties\<close>

text \<open>A small memory: the text "a/b/c" at 16, the delimiter "/" at 32, the word "b" at 48.\<close>

definition demo_mem :: mem where
  "demo_mem = map_of [(16, 97), (17, 47), (18, 98), (19, 47), (20, 99), (21, 0), (32, 47), (33, 0), (48, 98), (49, 0)]"

lemma demo_mem_strings: "cstr demo_mem 16 [97, 47, 98, 47, 99]" "cstr demo_mem 32 [47]" "cstr demo_mem 48 [98]"
  by (simp_all add: demo_mem_def)

text \<open>
  Property C12. \<open>memmove\<close> is right for every overlap of source and destination: if both ranges are
  mapped and do not wrap around, it returns, every byte of the destination holds what the byte at
  the same offset of the source held before, and no other byte has changed.
\<close>

theorem memmove_any_overlap:
  assumes "unat s + unat n \<le> 2 ^ 64" and "unat d + unat n \<le> 2 ^ 64"
    and "mapped m s (unat n)" and "mapped m d (unat n)"
  shows "\<exists>m'. memmove m d s n = Inr (d, m') \<and> (\<forall>i < unat n. m' (d + of_nat i) = m (s + of_nat i))
    \<and> (\<forall>a. \<not> in_span d (unat n) a \<longrightarrow> m' a = m a)"
  using memmove_eq [OF assms] unat_u64_less [of n] by (simp add: copy_of_offset copy_of_outside)

theorem memmove_any_overlap_witness:
  "\<exists>m'. memmove demo_mem 17 16 4 = Inr (17, m') \<and> m' (17 + of_nat 3) = Some 47"
proof -
  have "mapped demo_mem 16 (unat (4 :: u64))" and "mapped demo_mem 17 (unat (4 :: u64))"
    using mapped_sub [OF cstr_mapped [OF demo_mem_strings(1)], of 0 4]
      mapped_sub [OF cstr_mapped [OF demo_mem_strings(1)], of 1 4] by simp_all
  then obtain m' where m': "memmove demo_mem 17 16 4 = Inr (17, m')"
    and eq: "\<forall>i < unat (4 :: u64). m' (17 + of_nat i) = demo_mem (16 + of_nat i)"
    using memmove_any_overlap [of 16 4 17 demo_mem] by auto
  have "m' (17 + of_nat 3) = demo_mem (16 + of_nat 3)" using eq by (rule allE [of _ 3]) simp
  then show ?thesis using m' by (auto simp: demo_mem_def)
qed

text \<open>
  Property C13. On two C strings \<open>strcmp\<close> returns and decides the lexicographic order of their
  unsigned bytes: 0 when they are equal, -1 when the first comes first, 1 when it comes second.
\<close>

theorem strcmp_lexicographic:
  assumes "cstr m p s" and "cstr m q t"
  shows "strcmp m p q = Inr (if s = t then 0 else if (s, t) \<in> lexord {(a, b). a < b} then - 1 else 1)"
proof -
  have "str_order s t \<in> {- 1, 0, 1}" by (induction s t rule: str_order.induct) auto
  then have "str_order s t = (if s = t then 0 else if str_order s t = - 1 then - 1 else 1)"
    using str_order_eq_0 [of s t] by auto
  then show ?thesis unfolding strcmp_cstr [OF assms] str_order_lexord by (rule arg_cong)
qed

theorem strcmp_lexicographic_witness: "strcmp demo_mem 48 16 = Inr 1 \<and> strcmp demo_mem 16 16 = Inr 0"
  using strcmp_lexicographic [OF demo_mem_strings(3) demo_mem_strings(1)]
    strcmp_lexicographic [OF demo_mem_strings(1) demo_mem_strings(1)] by simp

text \<open>
  \<open>strncmp\<close> of two C strings is 0 exactly when their first \<open>n\<close> bytes agree, and -1 in
  all other cases, whichever of the two comes first.
\<close>

theorem strncmp_sign_lost:
  assumes "cstr m p s" and "cstr m q t"
  shows "strncmp m p q n = Inr (if take (unat n) s = take (unat n) t then 0 else - 1)
    \<and> strncmp m p q n = strncmp m q p n"
  using strncmp_cstr [OF assms, of n] strncmp_cstr [OF assms(2,1), of n] by auto

theorem strncmp_sign_lost_witness: "strncmp demo_mem 16 48 1 = Inr (- 1) \<and> strncmp demo_mem 48 16 1 = Inr (- 1)"
  using strncmp_sign_lost [OF demo_mem_strings(1) demo_mem_strings(3), of 1] by auto

text \<open>
  One call of \<open>strsep\<close> on a C string cuts off its first token: the token is at the
  old pointer, terminated where the delimiter was and free of delimiters; the pointer moves to the
  rest after the delimiter, or becomes null when no delimiter is left and the token is all there was.
\<close>

theorem strsep_first_token:
  assumes "cstr m p s" and "cstr m d ds" and "p \<noteq> NULL" and "length s < 2 ^ 64"
  shows "\<exists>nxt m'. strsep m p d = Inr (p, nxt, m') \<and>
    (if \<exists>c \<in> set s. c \<in> set ds
     then \<exists>tok c rest. s = tok @ c # rest \<and> set tok \<inter> set ds = {} \<and> c \<in> set ds \<and> cstr m' p tok
       \<and> nxt = p + of_nat (Suc (length tok)) \<and> cstr m' nxt rest
     else nxt = NULL \<and> m' = m)"
proof (cases "after_token ds s")
  case None
  then have "first_token ds s = s" by (rule no_token_split)
  then have "\<not> (\<exists>c \<in> set s. c \<in> set ds)"
    by (auto simp: first_token_def dest: set_takeWhileD simp flip: takeWhile_eq_all_conv)
  then show ?thesis using strsep_cstr [OF assms(1-3)] None by auto
next
  case (Some r)
  let ?k = "length (first_token ds s)"
  obtain c where c: "c \<in> set ds" "s = first_token ds s @ c # r" using token_split [OF Some] by blast
  have "set (first_token ds s) \<inter> set ds = {}" by (auto simp: first_token_def dest: set_takeWhileD)
  moreover have "\<exists>c \<in> set s. c \<in> set ds" using c by (metis in_set_conv_decomp)
  ultimately show ?thesis
    using strsep_cstr [OF assms(1-3)] Some strsep_pieces [OF assms(1) Some assms(4)] c
    by (intro exI [of _ "p + of_nat (Suc ?k)"] exI [of _ "m(p + of_nat ?k := Some 0)"]) (auto intro!: exI)
qed

theorem strsep_first_token_witness:
  "\<exists>nxt m'. strsep demo_mem 16 32 = Inr (16, nxt, m') \<and>
     (\<exists>tok c rest. [97, 47, 98, 47, 99] = tok @ c # rest \<and> set tok \<inter> set [47] = {} \<and> cstr m' 16 tok \<and> cstr m' nxt rest)"
proof -
  have "\<exists>c \<in> set [97, 47, 98, 47, 99 :: u8]. c \<in> set [47]" by simp
  with strsep_first_token [OF demo_mem_strings(1,2)] obtain nxt m' tok c rest
    where "strsep demo_mem 16 32 = Inr (16, nxt, m')" "[97, 47, 98, 47, 99] = tok @ c # rest"
      "set tok \<inter> set [47] = {}" "cstr m' 16 tok" "cstr m' nxt rest"
    by (auto split: if_splits)
  then show ?thesis by blast
qed

text \<open>
  Property C14. \<open>strstr\<close> on two C strings returns the address of the first place where the second
  occurs in the first, and null when it occurs nowhere.
\<close>

theorem strstr_first_occurrence:
  assumes "cstr m p s" and "cstr m q t" and "length t < 2 ^ 64"
  shows "(\<exists>i. strstr m p q = Inr (p + of_nat i) \<and> take (length t) (drop i s) = t
            \<and> (\<forall>j < i. take (length t) (drop j s) \<noteq> t))
    \<or> (strstr m p q = Inr NULL \<and> (\<forall>i. take (length t) (drop i s) \<noteq> t))"
  using strstr_cstr [OF assms] find_sub_Some [of t s] find_sub_None [of t s]
  by (cases "find_sub t s") auto

theorem strstr_first_occurrence_witness:
  "\<exists>i. strstr demo_mem 16 48 = Inr (16 + of_nat i) \<and> take 1 (drop i [97, 47, 98, 47, 99]) = [98 :: u8]"
proof -
  have "take (length [98 :: u8]) (drop 2 [97, 47, 98, 47, 99]) = [98 :: u8]" by simp
  then have "\<not> (\<forall>i. take (length [98 :: u8]) (drop i [97, 47, 98, 47, 99]) \<noteq> [98 :: u8])" by blast
  then show ?thesis using strstr_first_occurrence [OF demo_mem_strings(1,3)] by auto
qed

end
