(* ===== verification/Str_Scan.thy ===== *)
theory Str_Scan
  imports Mem_String
begin

text \<open>
  The scanning routines at the end of \<open>kernel/utils/string.c\<close>: \<open>strspn\<close> and \<open>strcspn\<close> with their
  256-bit set of bytes, \<open>strchrnul\<close>, which looks at eight bytes at a time with the \<open>HASZERO\<close> bit
  trick, and \<open>strpbrk\<close>, \<open>strchr\<close>, \<open>lfind\<close> and \<open>strtok_r\<close> built from them. The theorems compare
  each with the byte-by-byte search on the list of bytes of the string. A word load reads the
  whole aligned word that holds a byte of the string, the bytes behind the terminator included,
  so the theorems on \<open>strchrnul\<close> ask that memory is mapped in aligned words.
\<close>

section \<open>The macros\<close>

definition ALIGN :: u64 where
  "ALIGN = 8"

definition ONES :: u64 where
  "ONES = MINUS_ONE div 255"

definition HIGHS :: u64 where
  "HIGHS = ONES * (255 div 2 + 1)"

definition HASZERO :: "u64 \<Rightarrow> u64" where
  "HASZERO X = ((X - ONES) AND NOT X AND HIGHS)"

text \<open>
  \<open>BITOP\<close> on \<open>size_t byteset[32 / sizeof(size_t)]\<close>, a list of four words: the word and the bit
  of a byte, with \<open>|=\<close> (the new set and the value of the expression) and with \<open>&\<close>.
\<close>

definition byteset_0 :: "u64 list" where
  "byteset_0 = replicate (32 div 8) 0"

definition BITOP_or :: "u64 list \<Rightarrow> u8 \<Rightarrow> u64 list \<times> u64" where
  "BITOP_or A B =
     (let v = A ! (unat B div 64) OR push_bit (unat B mod 64) 1 in (A[unat B div 64 := v], v))"

definition BITOP_and :: "u64 list \<Rightarrow> u8 \<Rightarrow> u64" where
  "BITOP_and A B = (A ! (unat B div 64) AND push_bit (unat B mod 64) 1)"

section \<open>The routines\<close>

partial_function (option) strspn_same :: "mem \<Rightarrow> addr \<Rightarrow> addr \<Rightarrow> addr res option" where
  "strspn_same m s c =
     (case m s of None \<Rightarrow> Some (Inl Fault) | Some x \<Rightarrow>
      (case m c of None \<Rightarrow> Some (Inl Fault) | Some y \<Rightarrow>
       (if x = y then strspn_same m (s + 1) c else Some (Inr s))))"

partial_function (option) byteset_fill :: "mem \<Rightarrow> addr \<Rightarrow> u64 list \<Rightarrow> u64 list res option" where
  "byteset_fill m c byteset =
     (case m c of None \<Rightarrow> Some (Inl Fault) | Some x \<Rightarrow>
      (if x = 0 then Some (Inr byteset)
       else (case BITOP_or byteset x of (byteset, v) \<Rightarrow>
         if v \<noteq> 0 then byteset_fill m (c + 1) byteset else Some (Inr byteset))))"

partial_function (option) strspn_in :: "mem \<Rightarrow> addr \<Rightarrow> u64 list \<Rightarrow> addr res option" where
  "strspn_in m s byteset =
     (case m s of None \<Rightarrow> Some (Inl Fault) | Some x \<Rightarrow>
      (if x \<noteq> 0 \<and> BITOP_and byteset x \<noteq> 0 then strspn_in m (s + 1) byteset else Some (Inr s)))"

definition strspn :: "mem \<Rightarrow> addr \<Rightarrow> addr \<Rightarrow> size_t res" where
  "strspn m s c =
     bnd (ld8 m c) (\<lambda>c0.
     if c0 = 0 then Inr 0
     else bnd (ld8 m (c + 1)) (\<lambda>c1.
     if c1 = 0 then bnd (loop_res (strspn_same m s c)) (\<lambda>e. Inr (e - s))
     else bnd (loop_res (byteset_fill m c byteset_0)) (\<lambda>byteset.
          bnd (loop_res (strspn_in m s byteset)) (\<lambda>e. Inr (e - s)))))"

text \<open>
  \<open>strchrnul\<close>: bytes up to an aligned address (with \<open>Inl\<close> inside for the early return), whole
  words while neither \<open>HASZERO\<close> fires, then bytes again.
\<close>

partial_function (option) strchrnul_align :: "mem \<Rightarrow> addr \<Rightarrow> u8 \<Rightarrow> (addr + addr) res option" where
  "strchrnul_align m s c =
     (if s mod ALIGN \<noteq> 0 then
        (case m s of None \<Rightarrow> Some (Inl Fault) | Some x \<Rightarrow>
         (if x = 0 \<or> x = c then Some (Inr (Inl s)) else strchrnul_align m (s + 1) c))
      else Some (Inr (Inr s)))"

partial_function (option) strchrnul_words :: "mem \<Rightarrow> addr \<Rightarrow> u64 \<Rightarrow> addr res option" where
  "strchrnul_words m w k =
     (case ld64 m w of Inl e \<Rightarrow> Some (Inl e) | Inr x \<Rightarrow>
      (if HASZERO x = 0 \<and> HASZERO (x XOR k) = 0 then strchrnul_words m (w + 8) k
       else Some (Inr w)))"

partial_function (option) strchrnul_bytes :: "mem \<Rightarrow> addr \<Rightarrow> u8 \<Rightarrow> addr res option" where
  "strchrnul_bytes m s c =
     (case m s of None \<Rightarrow> Some (Inl Fault) | Some x \<Rightarrow>
      (if x \<noteq> 0 \<and> x \<noteq> c then strchrnul_bytes m (s + 1) c else Some (Inr s)))"

definition strchrnul :: "mem \<Rightarrow> addr \<Rightarrow> u32 \<Rightarrow> addr res" where
  "strchrnul m s c =
     (let c = (ucast c :: u8) in
      if c = 0 then bnd (strlen m s) (\<lambda>n. Inr (s + n))
      else bnd (loop_res (strchrnul_align m s c)) (\<lambda>r. case r of
             Inl s \<Rightarrow> Inr s
           | Inr s \<Rightarrow>
               (let k = ONES * ucast c in
                bnd (loop_res (strchrnul_words m s k)) (\<lambda>w. loop_res (strchrnul_bytes m w c)))))"

partial_function (option) strcspn_out :: "mem \<Rightarrow> addr \<Rightarrow> u64 list \<Rightarrow> addr res option" where
  "strcspn_out m s byteset =
     (case m s of None \<Rightarrow> Some (Inl Fault) | Some x \<Rightarrow>
      (if x \<noteq> 0 \<and> BITOP_and byteset x = 0 then strcspn_out m (s + 1) byteset else Some (Inr s)))"

text \<open>The test \<open>c[0] && c[1]\<close> reads \<open>c[1]\<close> only behind a byte that is not zero.\<close>

definition strcspn :: "mem \<Rightarrow> addr \<Rightarrow> addr \<Rightarrow> size_t res" where
  "strcspn m s c =
     bnd (ld8 m c) (\<lambda>c0.
     bnd (if c0 \<noteq> 0 then bnd (ld8 m (c + 1)) (\<lambda>c1. Inr (c1 \<noteq> 0)) else Inr False) (\<lambda>two.
     if two then
       bnd (loop_res (byteset_fill m c byteset_0)) (\<lambda>byteset.
       bnd (loop_res (strcspn_out m s byteset)) (\<lambda>e. Inr (e - s)))
     else bnd (strchrnul m s (ucast c0)) (\<lambda>e. Inr (e - s))))"

definition strpbrk :: "mem \<Rightarrow> addr \<Rightarrow> addr \<Rightarrow> addr res" where
  "strpbrk m s b =
     bnd (strcspn m s b) (\<lambda>n.
     bnd (ld8 m (s + n)) (\<lambda>x. Inr (if x \<noteq> 0 then s + n else NULL)))"

definition strchr :: "mem \<Rightarrow> addr \<Rightarrow> u32 \<Rightarrow> addr res" where
  "strchr m s c =
     bnd (strchrnul m s c) (\<lambda>r.
     bnd (ld8 m r) (\<lambda>x. Inr (if x = ucast c then r else NULL)))"

definition lfind :: "mem \<Rightarrow> addr \<Rightarrow> u8 \<Rightarrow> size_t res" where
  "lfind m str accept = strchr m str (ucast accept)"

text \<open>\<open>strtok_r\<close> takes \<open>*saveptr\<close> and returns the token, the new \<open>*saveptr\<close> and the memory.\<close>

definition strtok_r :: "mem \<Rightarrow> addr \<Rightarrow> addr \<Rightarrow> addr \<Rightarrow> (addr \<times> addr \<times> mem) res" where
  "strtok_r m str delim saveptr =
     (let str = (if str = NULL then saveptr else str) in
      bnd (strspn m str delim) (\<lambda>n.
      let str = str + n in
      bnd (ld8 m str) (\<lambda>x.
      if x = 0 then Inr (NULL, str, m)
      else let token = str in
        bnd (strpbrk m token delim) (\<lambda>str.
        if str = NULL then bnd (lfind m token 0) (\<lambda>p. Inr (token, p, m))
        else bnd (st8 m str 0) (\<lambda>m. Inr (token, str + 1, m))))))"


section \<open>Looking for a zero byte in a word\<close>

lemma cons_byte_plus: "ucast (b :: u8) OR push_bit 8 x = ucast b + push_bit 8 (x :: u64)"
  by (rule disjunctive_add_eq_or [symmetric]) (auto simp: bit_eq_iff bit_simps dest: bit_imp_le_length)

lemma bit_cons_byte:
  "bit (ucast (b :: u8) OR push_bit 8 (x :: u64)) n \<longleftrightarrow>
    (if n < 8 then bit b n else n < 64 \<and> bit x (n - 8))"
  by (auto simp: bit_simps dest: bit_imp_le_length)

lemma byte_top_bit: "bit (x :: u8) 7 \<longleftrightarrow> 128 \<le> unat x"
proof -
  have "bit x 7 \<longleftrightarrow> bit (unat x) 7" by (simp add: bit_unsigned_iff)
  also have "\<dots> \<longleftrightarrow> odd (unat x div 128)" by (simp add: bit_iff_odd)
  also have "\<dots> \<longleftrightarrow> 128 \<le> unat x"
    using unsigned_less [of x, where ?'a = nat] by (cases "unat x < 128") (auto simp: div_if)
  finally show ?thesis .
qed

lemma byte_no_borrow: "(b :: u8) \<noteq> 0 \<Longrightarrow> bit (b - 1) 7 \<Longrightarrow> bit b 7"
  using unat_minus_one [of b] by (simp add: byte_top_bit)

lemma bit_0x80: "bit (0x80 :: u8) n \<longleftrightarrow> n = 7"
proof -
  have "(0x80 :: u8) = 2 ^ 7" by simp
  then show ?thesis by (simp only: bit_exp_iff) auto
qed

lemma bit_of_bytes_Cons:
  "bit (of_bytes (b # bs)) n \<longleftrightarrow> (if n < 8 then bit b n else n < 64 \<and> bit (of_bytes bs) (n - 8))"
  by (simp add: bit_cons_byte)

lemma unat_ucast_byte [simp]: "unat (ucast (x :: u8) :: u64) = unat x"
  using unsigned_less [of x, where ?'a = nat] by (simp add: unsigned_ucast_eq take_bit_nat_eq_self)

lemma ucast_byte_eq_0 [simp]: "(ucast (x :: u8) :: u64) = 0 \<longleftrightarrow> x = 0"
  using unat_ucast_byte [of x] by (metis unat_0 unat_eq_zero)

text \<open>Subtracting a one from every byte: without a borrow while the bytes are not zero.\<close>

lemma cons_minus_ones:
  assumes "b \<noteq> 0"
  shows "of_bytes (b # bs) - of_bytes (1 # cs) = ucast (b - 1) OR push_bit 8 (of_bytes bs - of_bytes cs)"
proof -
  have "(ucast (b - 1) :: u64) = ucast b - 1"
    using assms unat_minus_one [of b] unat_minus_one [of "ucast b :: u64"]
    by (simp add: word_unat_eq_iff)
  moreover have "of_bytes (b # bs) = ucast b + push_bit 8 (of_bytes bs)"
    and "of_bytes (1 # cs) = ucast (1 :: u8) + push_bit 8 (of_bytes cs)"
    by (simp_all only: of_bytes.simps cons_byte_plus)
  moreover have "push_bit 8 (of_bytes bs - of_bytes cs) = push_bit 8 (of_bytes bs) - push_bit 8 (of_bytes cs)"
    by (simp add: push_bit_eq_mult left_diff_distrib)
  ultimately show ?thesis
    unfolding cons_byte_plus by simp
qed

text \<open>The bit trick on the first \<open>n\<close> bytes: the mask keeps the top bit of each.\<close>

definition zero_mask :: "u8 list \<Rightarrow> u64" where
  "zero_mask bs = ((of_bytes bs - of_bytes (replicate (length bs) 1)) AND NOT (of_bytes bs)
     AND of_bytes (replicate (length bs) 0x80))"

lemmas bit_mask_simps = bit_and_iff bit_not_iff bit_of_bytes_Cons bit_cons_byte bit_0x80 bit_push_bit_iff

lemma bit_zero_mask_Cons:
  assumes "b \<noteq> 0" and "n < 64"
  shows "bit (zero_mask (b # bs)) n \<longleftrightarrow> 8 \<le> n \<and> bit (zero_mask bs) (n - 8)"
proof (cases "n < 8")
  case True
  then have "bit (zero_mask (b # bs)) n \<longleftrightarrow> bit (b - 1) n \<and> \<not> bit b n \<and> bit (0x80 :: u8) n"
    using assms(2)
    by (auto simp: zero_mask_def cons_minus_ones [OF assms(1)] bit_mask_simps simp del: of_bytes.simps)
  then show ?thesis using True byte_no_borrow [OF assms(1)] unfolding bit_0x80 by auto
next
  case False
  then show ?thesis
    using assms(2)
    by (auto simp: zero_mask_def cons_minus_ones [OF assms(1)] bit_mask_simps simp del: of_bytes.simps)
qed

lemma zero_mask_bound: "length bs \<le> 8 \<Longrightarrow> bit (zero_mask bs) n \<Longrightarrow> n < 8 * length bs"
  by (auto simp: zero_mask_def bit_and_iff bit_of_bytes)

lemma zero_mask_0: "zero_mask (0 # bs) \<noteq> 0"
proof -
  have bit7: "bit (of_bytes (0 # bs) - of_bytes (1 # cs)) 7" for cs
  proof -
    define x where "x = of_bytes bs - of_bytes cs - 1"
    have "of_bytes (0 # bs) - of_bytes (1 # cs) = push_bit 8 (of_bytes bs) - (1 + push_bit 8 (of_bytes cs))"
      using cons_byte_plus [of 1 "of_bytes cs"] by simp
    also have "\<dots> = ucast (0xff :: u8) + push_bit 8 x"
      by (simp add: push_bit_eq_mult x_def left_diff_distrib)
    finally show ?thesis
      by (simp only: cons_byte_plus [symmetric] bit_cons_byte) simp
  qed
  then have "bit (zero_mask (0 # bs)) 7"
    using bit7 by (simp add: zero_mask_def bit_mask_simps del: of_bytes.simps)
  then show ?thesis by (metis bit_0_eq bot_apply bot_bool_def)
qed

lemma zero_mask_iff: "length bs \<le> 8 \<Longrightarrow> zero_mask bs = 0 \<longleftrightarrow> 0 \<notin> set bs"
proof (induction bs)
  case Nil
  then show ?case by (simp add: zero_mask_def)
next
  case (Cons b bs)
  show ?case
  proof (cases "b = 0")
    case False
    have "zero_mask (b # bs) = 0 \<longleftrightarrow> zero_mask bs = 0"
    proof
      assume z: "zero_mask (b # bs) = 0"
      show "zero_mask bs = 0"
      proof (rule bit_word_eqI)
        fix n
        show "bit (zero_mask bs) n = bit (0 :: u64) n"
          using bit_zero_mask_Cons [OF False, of "n + 8" bs] zero_mask_bound [of bs n] z Cons.prems by auto
      qed
    qed (use bit_zero_mask_Cons [OF False] in \<open>auto intro!: bit_word_eqI\<close>)
    then show ?thesis using Cons False by simp
  qed (simp add: zero_mask_0)
qed

lemma ONES_eq: "ONES = 0x0101010101010101"
  by (simp add: ONES_def)

lemma of_bytes_Cons_mult: "of_bytes (b # bs) = ucast b + 256 * of_bytes bs"
  using cons_byte_plus [of b "of_bytes bs"] by (simp add: push_bit_eq_mult mult.commute)

lemma ONES_times: "ONES * ucast c = of_bytes (replicate 8 c)"
proof -
  have "replicate 8 c = [c, c, c, c, c, c, c, c]" by (simp add: numeral_eq_Suc)
  then have "of_bytes (replicate 8 c) =
      ucast c + 256 * (ucast c + 256 * (ucast c + 256 * (ucast c + 256 *
      (ucast c + 256 * (ucast c + 256 * (ucast c + 256 * (ucast c + 256 * 0)))))))"
    by (simp only: of_bytes_Cons_mult of_bytes.simps(1))
  then show ?thesis by (simp add: ONES_eq)
qed

lemma HASZERO_iff:
  assumes "length bs = 8"
  shows "HASZERO (of_bytes bs) = 0 \<longleftrightarrow> 0 \<notin> set bs"
proof -
  have "ONES = of_bytes (replicate 8 1)" using ONES_times [of 1] by simp
  moreover have "HIGHS = of_bytes (replicate 8 0x80)" using ONES_times [of "0x80"] by (simp add: HIGHS_def)
  ultimately show ?thesis
    using zero_mask_iff [of bs] assms by (simp add: HASZERO_def zero_mask_def)
qed

lemma xor_bytes:
  assumes "length bs = 8"
  shows "of_bytes bs XOR (ONES * ucast c) = of_bytes (map (\<lambda>b. b XOR c) bs)"
proof (rule bit_word_eqI)
  fix n assume "n < LENGTH(64)"
  then have "n div 8 < 8" and "n < 64" by auto
  then show "bit (of_bytes bs XOR (ONES * ucast c)) n = bit (of_bytes (map (\<lambda>b. b XOR c) bs)) n"
    using assms by (simp add: ONES_times bit_of_bytes bit_xor_iff)
qed

lemma xor_eq_0: "b XOR c = 0 \<longleftrightarrow> b = (c :: u8)"
proof
  assume "b XOR c = 0"
  then have "(b XOR c) XOR c = 0 XOR c" by simp
  then show "b = c" by (simp add: xor.assoc)
qed simp

lemma HASZERO_xor_iff:
  assumes "length bs = 8"
  shows "HASZERO (of_bytes bs XOR (ONES * ucast c)) = 0 \<longleftrightarrow> c \<notin> set bs"
  using HASZERO_iff [of "map (\<lambda>b. b XOR c) bs"] assms by (auto simp: xor_bytes xor_eq_0 image_iff)


section \<open>The search for a byte\<close>

text \<open>Memory that is mapped in aligned words, and the place where the plain search stops.\<close>

definition words_mapped :: "mem \<Rightarrow> bool" where
  "words_mapped m \<longleftrightarrow> (\<forall>a. m a \<noteq> None \<longrightarrow> mapped m (a - a mod 8) 8)"

definition scan_to :: "u8 \<Rightarrow> u8 list \<Rightarrow> nat" where
  "scan_to c s = length (takeWhile (\<lambda>b. b \<noteq> c) s)"

lemma scan_to_simps [simp]:
  "scan_to c [] = 0"
  "scan_to c (b # s) = (if b = c then 0 else Suc (scan_to c s))"
  by (simp_all add: scan_to_def)

lemma scan_to_append: "c \<notin> set u \<Longrightarrow> scan_to c (u @ t) = length u + scan_to c t"
  by (induction u) auto

lemma scan_to_0:
  assumes "cstr m p s" shows "scan_to 0 s = length s"
proof -
  have "takeWhile (\<lambda>b. b \<noteq> 0) s = s" using assms by (auto simp: cstr_def takeWhile_eq_all_conv)
  then show ?thesis by (simp only: scan_to_def)
qed

lemma strchrnul_bytes_cstr:
  "cstr m p s \<Longrightarrow> strchrnul_bytes m p c = Some (Inr (p + of_nat (scan_to c s)))"
proof (induction s arbitrary: p)
  case (Cons b s)
  then show ?case by (subst strchrnul_bytes.simps) (simp add: add.assoc)
qed (subst strchrnul_bytes.simps, simp)

text \<open>Both loops that run before it move over bytes the search does not stop at.\<close>

definition scanned :: "mem \<Rightarrow> u8 \<Rightarrow> addr \<Rightarrow> u8 list \<Rightarrow> addr \<Rightarrow> bool" where
  "scanned m c p s q \<longleftrightarrow> (\<exists>u t. s = u @ t \<and> c \<notin> set u \<and> q = p + of_nat (length u) \<and> cstr m q t)"

lemma scanned_refl: "cstr m p s \<Longrightarrow> scanned m c p s p"
  unfolding scanned_def by (intro exI [of _ "[]"] exI [of _ s]) simp

lemma scanned_append:
  assumes "scanned m c (p + of_nat (length u)) t q" and "c \<notin> set u"
  shows "scanned m c p (u @ t) q"
proof -
  obtain v w where "t = v @ w" "c \<notin> set v" "q = p + of_nat (length u) + of_nat (length v)" "cstr m q w"
    using assms(1) by (auto simp: scanned_def)
  then show ?thesis using assms(2)
    unfolding scanned_def by (intro exI [of _ "u @ v"] exI [of _ w]) (simp add: add.assoc)
qed

lemma strchrnul_align_cstr:
  "cstr m p s \<Longrightarrow> \<exists>r. strchrnul_align m p c = Some (Inr r) \<and>
    (case r of Inl q \<Rightarrow> q = p + of_nat (scan_to c s) | Inr q \<Rightarrow> q mod 8 = 0 \<and> scanned m c p s q)"
proof (induction s arbitrary: p)
  case Nil
  then show ?case
    by (subst strchrnul_align.simps) (auto simp: ALIGN_def intro: scanned_refl)
next
  case (Cons b s)
  show ?case
  proof (cases "p mod 8 \<noteq> 0 \<and> b \<noteq> c")
    case True
    obtain r where r: "strchrnul_align m (p + 1) c = Some (Inr r)"
      "case r of Inl q \<Rightarrow> q = p + 1 + of_nat (scan_to c s) | Inr q \<Rightarrow> q mod 8 = 0 \<and> scanned m c (p + 1) s q"
      using Cons by auto
    have "strchrnul_align m p c = Some (Inr r)"
      using r(1) True Cons.prems by (subst strchrnul_align.simps) (simp add: ALIGN_def)
    then show ?thesis
      using r(2) True scanned_append [of m c p "[b]" s] by (cases r) (auto simp: add.assoc)
  next
    case False
    then show ?thesis
      using Cons.prems scanned_refl [OF Cons.prems]
      by (subst strchrnul_align.simps) (auto simp: ALIGN_def)
  qed
qed

lemma cstr_prefix: "bytes_at m q bs \<Longrightarrow> cstr m q t \<Longrightarrow> 0 \<notin> set bs \<Longrightarrow> \<exists>v. t = bs @ v"
proof (induction bs arbitrary: q t)
  case (Cons b bs)
  then obtain x u where "t = x # u" by (cases t) auto
  then show ?case using Cons by auto
qed simp

lemma next_word_aligned: "(q + 8) mod 8 = q mod (8 :: u64)"
proof -
  have "unat (q + 8) mod 8 = (unat q + 8) mod 2 ^ 64 mod 8" by (simp add: unat_word_ariths)
  also have "\<dots> = (unat q + 8) mod 8" by (rule mod_mod_cancel) simp
  finally show ?thesis by (simp add: word_unat_eq_iff unat_mod_distrib)
qed

lemma strchrnul_words_cstr:
  assumes "words_mapped m" and "cstr m q t" and "q mod 8 = 0"
  shows "\<exists>w. strchrnul_words m q (ONES * ucast c) = Some (Inr w) \<and> scanned m c q t w"
  using assms(2,3)
proof (induction t arbitrary: q rule: length_induct)
  case (1 t)
  have "m q \<noteq> None" using 1(2) by (cases t) auto
  then have "mapped m q 8" using assms(1) 1(3) unfolding words_mapped_def by (metis diff_zero)
  then obtain bs where bs: "length bs = 8" "bytes_at m q bs" using mapped_bytes by blast
  then have ld: "ld64 m q = Inr (of_bytes bs)"
    using ld_bytes_eq [of m q bs] by (simp add: ld64_def)
  show ?case
  proof (cases "0 \<notin> set bs \<and> c \<notin> set bs")
    case True
    obtain v where t: "t = bs @ v" using cstr_prefix [OF bs(2) 1(2)] True by blast
    have "(q + 8) mod 8 = 0" using 1(3) by (simp add: next_word_aligned)
    moreover have "cstr m (q + 8) v" using 1(2) t bs(1) by (simp add: cstr_append)
    ultimately obtain w where w: "strchrnul_words m (q + 8) (ONES * ucast c) = Some (Inr w)"
      "scanned m c (q + 8) v w" using 1(1) [rule_format, of v "q + 8"] t bs(1) by auto
    have "strchrnul_words m q (ONES * ucast c) = Some (Inr w)"
      using w(1) True ld bs(1) by (subst strchrnul_words.simps) (simp add: HASZERO_iff HASZERO_xor_iff)
    then show ?thesis using w(2) t bs(1) True scanned_append [of m c q bs v w] by auto
  next
    case False
    then have "strchrnul_words m q (ONES * ucast c) = Some (Inr q)"
      using ld bs(1) by (subst strchrnul_words.simps) (auto simp: HASZERO_iff HASZERO_xor_iff)
    then show ?thesis using scanned_refl [OF 1(2)] by blast
  qed
qed

lemma strchrnul_cstr:
  assumes "words_mapped m" and "cstr m p s"
  shows "strchrnul m p c = Inr (p + of_nat (scan_to (ucast c) s))"
proof (cases "(ucast c :: u8) = 0")
  case True
  then show ?thesis using scan_to_0 [OF assms(2)] assms(2) by (simp add: strchrnul_def strlen_cstr)
next
  case False
  obtain r where r: "strchrnul_align m p (ucast c) = Some (Inr r)"
    "case r of Inl q \<Rightarrow> q = p + of_nat (scan_to (ucast c) s) | Inr q \<Rightarrow> q mod 8 = 0 \<and> scanned m (ucast c) p s q"
    using strchrnul_align_cstr [OF assms(2)] by blast
  show ?thesis
  proof (cases r)
    case (Inl q)
    then show ?thesis using r False by (simp add: strchrnul_def)
  next
    case (Inr q)
    then obtain u t where ut: "s = u @ t" "ucast c \<notin> set u" "q = p + of_nat (length u)" "cstr m q t"
      using r(2) by (auto simp: scanned_def)
    obtain w where w: "strchrnul_words m q (ONES * ucast (ucast c :: u8)) = Some (Inr w)"
      "scanned m (ucast c) q t w"
      using strchrnul_words_cstr [OF assms(1) ut(4)] r(2) Inr by auto
    then obtain v x where vx: "t = v @ x" "ucast c \<notin> set v" "w = q + of_nat (length v)" "cstr m w x"
      by (auto simp: scanned_def)
    have "strchrnul m p c = Inr (w + of_nat (scan_to (ucast c) x))"
      using r(1) Inr w(1) False strchrnul_bytes_cstr [OF vx(4)] by (simp add: strchrnul_def Let_def)
    then show ?thesis using ut vx by (simp add: scan_to_append add.assoc)
  qed
qed


section \<open>The set of bytes\<close>

definition byteset_has :: "u64 list \<Rightarrow> u8 \<Rightarrow> bool" where
  "byteset_has A x \<longleftrightarrow> bit (A ! (unat x div 64)) (unat x mod 64)"

lemma BITOP_and_iff: "BITOP_and A x \<noteq> 0 \<longleftrightarrow> byteset_has A x"
  by (simp add: BITOP_and_def byteset_has_def bit_iff_and_push_bit_not_eq_0)

lemma byte_div_64: "unat (x :: u8) div 64 < 4"
  using unsigned_less [of x, where ?'a = nat] by simp

lemma byteset_0_has [simp]: "\<not> byteset_has byteset_0 x"
  using byte_div_64 [of x] by (simp add: byteset_has_def byteset_0_def)

lemma byte_split: "unat x div 64 = unat y div 64 \<Longrightarrow> unat x mod 64 = unat y mod 64 \<Longrightarrow> x = (y :: u8)"
  by (metis div_mult_mod_eq word_unat_eq_iff)

lemma BITOP_or_has:
  assumes "length A = 4" and "BITOP_or A x = (B, v)"
  shows "v \<noteq> 0" and "length B = 4" and "byteset_has B y \<longleftrightarrow> y = x \<or> byteset_has A y"
proof -
  have v: "v = A ! (unat x div 64) OR push_bit (unat x mod 64) 1" and B: "B = A[unat x div 64 := v]"
    using assms(2) by (auto simp: BITOP_or_def Let_def)
  have bit_v: "bit v n \<longleftrightarrow> bit (A ! (unat x div 64)) n \<or> n = unat x mod 64" for n
  proof -
    have "unat x mod 64 < 64" by simp
    then show ?thesis
      by (auto simp: v bit_or_iff bit_exp_iff push_bit_of_1)
  qed
  then show "v \<noteq> 0" by (metis bit_0_eq bot_apply bot_bool_def)
  show "length B = 4" using B assms(1) by simp
  show "byteset_has B y \<longleftrightarrow> y = x \<or> byteset_has A y"
  proof (cases "unat y div 64 = unat x div 64")
    case True
    then show ?thesis
      using byte_div_64 [of x] assms(1) bit_v byte_split [of y x] by (auto simp: byteset_has_def B)
  next
    case False
    then have "y \<noteq> x" by auto
    with False show ?thesis by (simp add: byteset_has_def B)
  qed
qed

lemma byteset_fill_cstr:
  assumes "cstr m p d" and "length A = 4"
  shows "\<exists>B. byteset_fill m p A = Some (Inr B) \<and> length B = 4 \<and>
    (\<forall>y. byteset_has B y \<longleftrightarrow> y \<in> set d \<or> byteset_has A y)"
  using assms
proof (induction d arbitrary: p A)
  case Nil
  then show ?case by (subst byteset_fill.simps) simp
next
  case (Cons x d)
  obtain B v where op: "BITOP_or A x = (B, v)" by fastforce
  have has: "v \<noteq> 0" "length B = 4" "\<And>y. byteset_has B y \<longleftrightarrow> y = x \<or> byteset_has A y"
    using BITOP_or_has [OF Cons.prems(2) op] by blast+
  obtain C where C: "byteset_fill m (p + 1) B = Some (Inr C)" "length C = 4"
    "\<forall>y. byteset_has C y \<longleftrightarrow> y \<in> set d \<or> byteset_has B y"
    using Cons.IH [of "p + 1" B] Cons.prems has(2) by auto
  have "byteset_fill m p A = Some (Inr C)"
    using C(1) Cons.prems op has(1) by (subst byteset_fill.simps) simp
  then show ?case using C(2,3) has(3) by auto
qed

lemma strspn_in_cstr:
  assumes "\<And>y. byteset_has B y \<longleftrightarrow> y \<in> set d" and "cstr m p s"
  shows "strspn_in m p B = Some (Inr (p + of_nat (length (takeWhile (\<lambda>b. b \<in> set d) s))))"
  using assms(2)
proof (induction s arbitrary: p)
  case (Cons b s)
  then show ?case by (subst strspn_in.simps) (simp add: BITOP_and_iff assms(1) add.assoc)
qed (subst strspn_in.simps, simp)

lemma strcspn_out_cstr:
  assumes "\<And>y. byteset_has B y \<longleftrightarrow> y \<in> set d" and "cstr m p s"
  shows "strcspn_out m p B = Some (Inr (p + of_nat (length (takeWhile (\<lambda>b. b \<notin> set d) s))))"
  using assms(2)
proof (induction s arbitrary: p)
  case (Cons b s)
  then show ?case
    using BITOP_and_iff [of B b] by (subst strcspn_out.simps) (auto simp: assms(1) add.assoc)
qed (subst strcspn_out.simps, simp)

lemma strspn_same_cstr:
  assumes "m q = Some c" and "c \<noteq> 0" and "cstr m p s"
  shows "strspn_same m p q = Some (Inr (p + of_nat (length (takeWhile (\<lambda>b. b = c) s))))"
  using assms(3)
proof (induction s arbitrary: p)
  case (Cons b s)
  then show ?case using assms(1) by (subst strspn_same.simps) (simp add: add.assoc)
qed (use assms(1,2) in \<open>subst strspn_same.simps, simp\<close>)

section \<open>Spans and tokens\<close>

lemma byte_of_int [simp]: "ucast (ucast (c :: u8) :: u32) = c"
  by (rule bit_word_eqI) (simp add: bit_simps)

lemma length_byteset_0: "length byteset_0 = 4"
  by (simp add: byteset_0_def)

lemma byteset_of_cstr:
  "cstr m p d \<Longrightarrow> \<exists>B. byteset_fill m p byteset_0 = Some (Inr B) \<and> (\<forall>y. byteset_has B y \<longleftrightarrow> y \<in> set d)"
  using byteset_fill_cstr [of m p d byteset_0] length_byteset_0 by auto

lemma strspn_cstr:
  assumes "cstr m p s" and "cstr m q d"
  shows "strspn m p q = Inr (of_nat (length (takeWhile (\<lambda>b. b \<in> set d) s)))"
proof -
  obtain B where B: "byteset_fill m q byteset_0 = Some (Inr B)" "\<And>y. byteset_has B y \<longleftrightarrow> y \<in> set d"
    using byteset_of_cstr [OF assms(2)] by blast
  consider "d = []" | c where "d = [c]" | c e es where "d = c # e # es"
    by (metis list.exhaust)
  then show ?thesis
  proof cases
    case 1
    then have "takeWhile (\<lambda>b. b \<in> set d) s = []" by (cases s) auto
    then show ?thesis using 1 assms by (simp only: strspn_def ld8_def) simp
  next
    case (2 c)
    then show ?thesis
      using assms strspn_same_cstr [of m q c p s] by (simp add: strspn_def ld8_def)
  next
    case (3 c e es)
    then show ?thesis
      using assms B(1) strspn_in_cstr [OF B(2) assms(1)] by (simp add: strspn_def ld8_def)
  qed
qed

lemma strcspn_cstr:
  assumes "words_mapped m" and "cstr m p s" and "cstr m q d"
  shows "strcspn m p q = Inr (of_nat (length (first_token d s)))"
proof -
  obtain B where B: "byteset_fill m q byteset_0 = Some (Inr B)" "\<And>y. byteset_has B y \<longleftrightarrow> y \<in> set d"
    using byteset_of_cstr [OF assms(3)] by blast
  consider "d = []" | c where "d = [c]" | c e es where "d = c # e # es"
    by (metis list.exhaust)
  then show ?thesis
  proof cases
    case 1
    then have "first_token d s = s" by (simp add: first_token_def takeWhile_eq_all_conv)
    then show ?thesis
      using assms 1 strchrnul_cstr [OF assms(1,2), of 0] scan_to_0 [OF assms(2)]
      by (simp add: strcspn_def ld8_def)
  next
    case (2 c)
    then show ?thesis
      using assms strchrnul_cstr [OF assms(1,2), of "ucast c"]
      by (simp add: strcspn_def ld8_def first_token_def scan_to_def byte_of_int)
  next
    case (3 c e es)
    then show ?thesis
      using assms B(1) strcspn_out_cstr [OF B(2) assms(2)]
      by (simp add: strcspn_def ld8_def first_token_def)
  qed
qed

text \<open>The byte the search stops at.\<close>

lemma cstr_at_token:
  assumes "cstr m p s"
  shows "cstr m (p + of_nat (length (first_token d s))) (dropWhile (\<lambda>c. c \<notin> set d) s)"
proof -
  have "cstr m p (first_token d s @ dropWhile (\<lambda>c. c \<notin> set d) s)"
    using assms by (simp add: first_token_def)
  then show ?thesis by (simp only: cstr_append)
qed

lemma strpbrk_cstr:
  assumes "words_mapped m" and "cstr m p s" and "cstr m q d"
  shows "strpbrk m p q =
    Inr (if after_token d s = None then NULL else p + of_nat (length (first_token d s)))"
proof -
  define r where "r = dropWhile (\<lambda>c. c \<notin> set d) s"
  have "cstr m (p + of_nat (length (first_token d s))) r"
    and "after_token d s = (case r of [] \<Rightarrow> None | _ # u \<Rightarrow> Some u)"
    using cstr_at_token [OF assms(2), of d] by (simp_all add: r_def after_token_def)
  then show ?thesis
    using strcspn_cstr [OF assms] by (cases r) (simp_all add: strpbrk_def ld8_def)
qed

lemma scan_to_stop: "cstr m p s \<Longrightarrow> m (p + of_nat (scan_to c s)) = Some (if c \<in> set s then c else 0)"
proof (induction s arbitrary: p)
  case (Cons b s)
  then show ?case by (auto simp: add.assoc [symmetric])
qed simp

lemma strchr_cstr:
  assumes "words_mapped m" and "cstr m p s"
  shows "strchr m p c =
    Inr (if ucast c = (0 :: u8) \<or> ucast c \<in> set s then p + of_nat (scan_to (ucast c) s) else NULL)"
  using strchrnul_cstr [OF assms, of c] scan_to_stop [OF assms(2), of "ucast c"]
  by (auto simp: strchr_def ld8_def)

lemma lfind_end:
  assumes "words_mapped m" and "cstr m p s"
  shows "lfind m p 0 = Inr (p + of_nat (length s))"
  using strchr_cstr [OF assms, of 0] scan_to_0 [OF assms(2)] by (simp add: lfind_def)


text \<open>
  What a sequence of calls should deliver: the maximal runs of bytes that are no delimiters.
\<close>

function tokens :: "u8 list \<Rightarrow> u8 list \<Rightarrow> u8 list list" where
  "tokens d s = (let t = dropWhile (\<lambda>c. c \<in> set d) s in
     if t = [] then [] else first_token d t # tokens d (case after_token d t of None \<Rightarrow> [] | Some r \<Rightarrow> r))"
  by pat_completeness auto

lemma after_token_shorter: "after_token d t = Some r \<Longrightarrow> length r < length t"
  using token_split [of d t r] by (metis length_append length_Cons less_add_Suc2 add_Suc_right add.commute)

termination tokens
proof (relation "measure (\<lambda>(d, s). length s)")
  fix d s t :: "u8 list"
  assume "t = dropWhile (\<lambda>c. c \<in> set d) s" and "t \<noteq> []"
  then have "0 < length t" and "length t \<le> length s" by (simp_all add: length_dropWhile_le)
  then show "((d, case after_token d t of None \<Rightarrow> [] | Some r \<Rightarrow> r), (d, s)) \<in> measure (\<lambda>(d, s). length s)"
    using after_token_shorter [of d t] by (auto split: option.splits)
qed simp

declare tokens.simps [simp del]

lemma tokens_Nil: "tokens d s = [] \<longleftrightarrow> dropWhile (\<lambda>c. c \<in> set d) s = []"
  by (subst tokens.simps) (simp add: Let_def)

lemma tokens_end: "tokens d [] = []"
  by (simp add: tokens_Nil)

lemma strtok_r_skip:
  assumes "m NULL = None" and "cstr m p s" and "cstr m q d" and "str = p \<or> str = NULL \<and> sv = p"
  defines "t \<equiv> dropWhile (\<lambda>c. c \<in> set d) s"
    and "a \<equiv> p + of_nat (length (takeWhile (\<lambda>c. c \<in> set d) s))"
  shows "cstr m a t" and "strtok_r m str q sv =
    (if t = [] then Inr (NULL, a, m)
     else bnd (strpbrk m a q) (\<lambda>e.
       if e = NULL then bnd (lfind m a 0) (\<lambda>p. Inr (a, p, m))
       else bnd (st8 m e 0) (\<lambda>m. Inr (a, e + 1, m))))"
proof -
  have "cstr m p (takeWhile (\<lambda>c. c \<in> set d) s @ t)" using assms(2) by (simp add: t_def)
  then show a: "cstr m a t" by (simp only: cstr_append a_def)
  have "m p \<noteq> None" using assms(2) by (cases s) auto
  then have "p \<noteq> NULL" using assms(1) by auto
  then have "(if str = NULL then sv else str) = p" using assms(4) by auto
  then show "strtok_r m str q sv =
    (if t = [] then Inr (NULL, a, m)
     else bnd (strpbrk m a q) (\<lambda>e.
       if e = NULL then bnd (lfind m a 0) (\<lambda>p. Inr (a, p, m))
       else bnd (st8 m e 0) (\<lambda>m. Inr (a, e + 1, m))))"
    using strspn_cstr [OF assms(2,3)] a
    by (cases t) (simp_all add: strtok_r_def Let_def ld8_def a_def [symmetric])
qed

text \<open>The part of a string that is left is inside the string.\<close>

lemma spans_apart_suffix:
  assumes "spans_apart p n q k" and "i + j \<le> n" and "n \<le> 2 ^ 64"
  shows "spans_apart (p + of_nat i) j q k"
  unfolding spans_apart_def
proof (intro allI notI)
  fix a assume a: "in_span (p + of_nat i) j a \<and> in_span q k a"
  define x where "x = unat (a - (p + of_nat i))"
  have x: "x < j" and "a = p + of_nat i + of_nat x"
    using a by (auto simp: in_span_def x_def)
  then have "a = p + of_nat (i + x)" by (simp add: add.assoc)
  moreover have "i + x < n" using x assms(2) by simp
  ultimately have "in_span p n a" using in_span_offset [of "i + x" n p] assms(3) by blast
  then show False using a assms(1) by (auto simp: spans_apart_def)
qed

lemma cstr_store_apart:
  assumes "cstr m q d" and "in_span p n e" and "spans_apart p n q (Suc (length d))" and "length d < 2 ^ 64"
  shows "cstr (m(e := Some b)) q d"
proof (rule cstr_cong [OF assms(1)])
  fix i assume "i \<le> length d"
  then have "in_span q (Suc (length d)) (q + of_nat i)" using assms(4) by (simp add: in_span_offset)
  then have "q + of_nat i \<noteq> e" using assms(2,3) by (auto simp: spans_apart_def)
  then show "(m(e := Some b)) (q + of_nat i) = m (q + of_nat i)" by simp
qed

lemma words_mapped_upd: "words_mapped m \<Longrightarrow> m e \<noteq> None \<Longrightarrow> words_mapped (m(e := Some b))"
  unfolding words_mapped_def by (metis fun_upd_apply mapped_upd)

definition token_args :: "mem \<Rightarrow> addr \<Rightarrow> u8 list \<Rightarrow> addr \<Rightarrow> u8 list \<Rightarrow> bool" where
  "token_args m p s q d \<longleftrightarrow> words_mapped m \<and> m NULL = None \<and> cstr m p s \<and> cstr m q d
     \<and> length s < 2 ^ 64 \<and> length d < 2 ^ 64 \<and> spans_apart p (Suc (length s)) q (Suc (length d))"

lemma strtok_r_cut:
  assumes args: "token_args m p s q d" and "str = p \<or> str = NULL \<and> sv = p"
    and "dropWhile (\<lambda>c. c \<in> set d) s = t" and "after_token d t = Some r"
  shows "\<exists>tok sv' m'. strtok_r m str q sv = Inr (tok, sv', m') \<and> token_args m' sv' r q d
    \<and> cstr m' tok (first_token d t)"
proof -
  define i where "i = length (takeWhile (\<lambda>c. c \<in> set d) s)"
  define k where "k = length (first_token d t)"
  let ?a = "p + of_nat i" and ?e = "p + of_nat i + of_nat k"
  let ?m = "m(?e := Some 0)"
  obtain c where t: "t = first_token d t @ c # r" using token_split [OF assms(4)] by blast
  then have "length t = k + Suc (length r)" unfolding k_def by (metis length_append length_Cons)
  moreover have len_s: "length s = i + length t"
    using assms(3) by (metis i_def length_append takeWhile_dropWhile_id)
  ultimately have len: "length s = i + k + Suc (length r)" by simp
  note facts = args [unfolded token_args_def]
  have f: "m NULL = None" "cstr m p s" "cstr m q d" using facts by blast+
  note a = strtok_r_skip(1) [OF f assms(2), folded i_def, unfolded assms(3)]
  note run = strtok_r_skip(2) [OF f assms(2), folded i_def, unfolded assms(3)]
  have "m ?e = Some c"
    using a t unfolding k_def by (metis cstr_append cstr_Cons)
  then have ne: "?e \<noteq> NULL" and mapped_e: "m ?e \<noteq> None" using facts by auto
  have "strpbrk m ?a q = Inr ?e"
    using strpbrk_cstr [OF _ a, of q d] facts assms(4) by (simp add: k_def)
  then have res: "strtok_r m str q sv = Inr (?a, ?e + 1, ?m)"
    using run ne mapped_e t by (auto simp: st8_def)
  have "length t < 2 ^ 64" using facts len_s by simp
  note pieces = strsep_pieces [OF a assms(4) this, folded k_def]
  have span_e: "in_span p (Suc (length s)) ?e"
    using in_span_offset [of "i + k" "Suc (length s)" p] len facts by (simp add: add.assoc)
  have next_p: "?e + 1 = p + of_nat (i + k + 1)" by (simp add: add.assoc)
  have "token_args ?m (?e + 1) r q d"
    unfolding token_args_def
  proof (intro conjI)
    show "words_mapped ?m" using words_mapped_upd mapped_e facts by blast
    show "?m NULL = None" using ne facts by simp
    show "cstr ?m (?e + 1) r" using pieces(2) by (simp add: add.assoc add.commute)
    show "cstr ?m q d" using cstr_store_apart [OF _ span_e] facts by blast
    show "spans_apart (?e + 1) (Suc (length r)) q (Suc (length d))"
      unfolding next_p using facts len by (intro spans_apart_suffix [of p "Suc (length s)"]) auto
  qed (use facts len in auto)
  then show ?thesis using res pieces(1) by blast
qed

lemma token_args_end:
  assumes "token_args m p s q d" and "length s = i + j" and "cstr m (p + of_nat i) t" and "length t = j"
  shows "token_args m (p + of_nat i + of_nat j) [] q d"
proof -
  have "cstr m (p + of_nat i + of_nat (length t)) []" using assms(3) cstr_append [of m _ t "[]"] by simp
  moreover have "spans_apart (p + of_nat (i + j)) (Suc 0) q (Suc (length d))"
    using assms(1,2) by (intro spans_apart_suffix [of p "Suc (length s)"]) (auto simp: token_args_def)
  ultimately show ?thesis using assms by (auto simp: token_args_def add.assoc)
qed

lemma strtok_r_last:
  assumes args: "token_args m p s q d" and "str = p \<or> str = NULL \<and> sv = p"
    and "dropWhile (\<lambda>c. c \<in> set d) s = t" and "after_token d t = None"
  shows "\<exists>tok sv'. strtok_r m str q sv = Inr (tok, sv', m) \<and> token_args m sv' [] q d
    \<and> (if t = [] then tok = NULL else cstr m tok t)"
proof -
  define i where "i = length (takeWhile (\<lambda>c. c \<in> set d) s)"
  note facts = args [unfolded token_args_def]
  have f: "m NULL = None" "cstr m p s" "cstr m q d" using facts by blast+
  note a = strtok_r_skip(1) [OF f assms(2), folded i_def, unfolded assms(3)]
  note run = strtok_r_skip(2) [OF f assms(2), folded i_def, unfolded assms(3)]
  have "length s = i + length t" using assms(3) by (metis i_def length_append takeWhile_dropWhile_id)
  then have end_args: "token_args m (p + of_nat i + of_nat (length t)) [] q d"
    using token_args_end [OF args _ a refl] by blast
  show ?thesis
  proof (cases "t = []")
    case True
    then show ?thesis using run end_args by auto
  next
    case False
    have "strpbrk m (p + of_nat i) q = Inr NULL"
      using strpbrk_cstr [OF _ a f(3)] facts assms(4) by simp
    moreover have "lfind m (p + of_nat i) 0 = Inr (p + of_nat i + of_nat (length t))"
      using lfind_end [OF _ a] facts by blast
    ultimately show ?thesis using run False end_args a by simp
  qed
qed

section \<open>Properties\<close>

text \<open>
  Property C15. \<open>strchrnul\<close>, with its aligned prologue and its loop over 64-bit words, is the plain
  search: on a string in word-mapped memory it returns, for every byte \<open>c\<close>, the address of the
  first \<open>c\<close> or of the terminator, which is what its byte loop alone would have found from the start.
\<close>

theorem strchrnul_is_search:
  assumes "words_mapped m" and "cstr m p s"
  shows "strchrnul m p c = Inr (p + of_nat (scan_to (ucast c) s))
    \<and> strchrnul m p c = loop_res (strchrnul_bytes m p (ucast c))"
  using strchrnul_cstr [OF assms] strchrnul_bytes_cstr [OF assms(2), of "ucast c"] by simp_all

definition sample_text :: mem where
  "sample_text = (\<lambda>a. if a < 8 then None else Some
     (if a = 16 then 97 else if a = 17 then 44 else if a = 18 then 98 else if a = 32 then 44 else 0))"

lemma aligned_not_low:
  fixes a :: addr
  assumes "\<not> a < 8" and "i < 8"
  shows "\<not> a - a mod 8 + of_nat i < 8"
proof -
  have am: "unat (a mod 8) = unat a mod 8" by (simp add: unat_mod_distrib)
  have u: "unat (a - a mod 8) = unat a - unat a mod 8"
    using am by (subst unat_diff_u64) simp_all
  have "8 \<le> unat a" using assms(1) by (simp add: word_less_nat_alt)
  then have ge: "8 \<le> unat a - unat a mod 8"
    by (metis minus_mod_eq_mult_div div_le_mono div_self mult_le_mono2 mult.right_neutral zero_neq_numeral)
  have "unat a - unat a mod 8 + i < 2 ^ 64"
  proof -
    have "unat a < 2 ^ 64" by (rule unat_u64_less)
    then have "unat a div 8 < 2 ^ 61" by (simp add: div_less_iff_less_mult)
    then have "8 * (unat a div 8) + 8 \<le> 2 ^ 64" by simp
    then show ?thesis using assms(2) by (simp add: minus_mod_eq_mult_div)
  qed
  then have "unat (a - a mod 8 + of_nat i) = unat a - unat a mod 8 + i"
    using u assms(2) by (subst unat_add_u64) (simp_all add: unat_of_nat_u64)
  then show ?thesis using ge by (simp add: word_less_nat_alt)
qed

lemma sample_text_words: "words_mapped sample_text"
  using aligned_not_low by (simp add: words_mapped_def mapped_def sample_text_def)

theorem strchrnul_is_search_witness:
  "strchrnul sample_text 16 98 = Inr 18 \<and> strchrnul sample_text 16 99 = Inr 19"
  using strchrnul_is_search [OF sample_text_words, of 16 "[97, 44, 98]" 98]
    strchrnul_is_search [OF sample_text_words, of 16 "[97, 44, 98]" 99]
  by (simp add: sample_text_def)

text \<open>
  Property C16. A call of \<open>strtok_r\<close>, the first or one that goes on from \<open>*saveptr\<close>, returns the next
  token of the string as a C string of its own and leaves \<open>*saveptr\<close> at a string that has exactly
  the tokens that are left; when there is no token it returns null and changes no byte. The
  delimiters, the mapped words and the null page stay as they are, so the calls can go on.
\<close>

theorem strtok_r_next_token:
  assumes "token_args m p s q d" and "str = p \<or> str = NULL \<and> sv = p"
  shows "\<exists>tok sv' m' s'. strtok_r m str q sv = Inr (tok, sv', m') \<and> token_args m' sv' s' q d
    \<and> (case tokens d s of
         [] \<Rightarrow> tok = NULL \<and> m' = m \<and> tokens d s' = []
       | x # xs \<Rightarrow> cstr m' tok x \<and> tokens d s' = xs)"
proof -
  define t where "t = dropWhile (\<lambda>c. c \<in> set d) s"
  have toks: "tokens d s = (if t = [] then [] else first_token d t #
      tokens d (case after_token d t of None \<Rightarrow> [] | Some r \<Rightarrow> r))"
    by (subst tokens.simps) (simp add: t_def Let_def)
  show ?thesis
  proof (cases "after_token d t")
    case None
    obtain tok sv' where "strtok_r m str q sv = Inr (tok, sv', m)" "token_args m sv' [] q d"
      "if t = [] then tok = NULL else cstr m tok t"
      using strtok_r_last [OF assms t_def [symmetric] None] by blast
    then show ?thesis
      using toks None no_token_split [OF None] tokens_end
      by (intro exI [of _ tok] exI [of _ sv'] exI [of _ m] exI [of _ "[]"]) auto
  next
    case (Some r)
    then have "t \<noteq> []" by (auto simp: after_token_def)
    then show ?thesis using strtok_r_cut [OF assms t_def [symmetric] Some] toks Some by auto
  qed
qed

lemma sample_token_args: "token_args sample_text 16 [97, 44, 98] 32 [44]"
  using sample_text_words
  by (auto simp: token_args_def sample_text_def spans_apart_def in_span_iff)

theorem strtok_r_next_token_witness:
  "\<exists>tok sv' m' s'. strtok_r sample_text 16 32 0 = Inr (tok, sv', m') \<and> cstr m' tok [97] \<and> tokens [44] s' = [[98]]"
proof -
  have "tokens [44] [97, 44, 98] = [[97], [98]]"
    by (simp add: tokens.simps first_token_def after_token_def Let_def)
  then show ?thesis
    using strtok_r_next_token [OF sample_token_args, of 16 0] by auto
qed

end
