(* ===== verification/Hart.thy ===== *)
theory Hart
  imports Kernel_Prelude
begin

text \<open>
  The hart the kernel code runs on: the per-CPU structure of \<open>kernel/arch/riscv64/cpu.h\<close> that the
  thread pointer designates, the flag \<open>cpu_is_inited\<close> that guards its use, the supervisor status
  register, the accessors of \<open>kernel/arch/riscv64/cpu.c\<close> and the interrupt switches of
  \<open>kernel/arch/riscv64/int.c\<close>. Every later state record extends \<open>hart\<close>, so the accessors work on
  all of them.
\<close>

section \<open>State\<close>

record cpu_t =
  currentCpu :: u64
  threadUserStack :: u64
  threadKernelStack :: u64
  kernelStack :: u64
  preemptCounter :: u64
  currentPid :: u64
  currentTid :: u64
  currentTaskID :: u64
  ipiType :: u8
  flags :: u8
  isaFeatures :: u32

record hart =
  cpu_is_inited :: bool
  cpu_struct :: cpu_t
  sstatus :: u64

section \<open>Accessors of the per-CPU structure\<close>

definition riscv_cpu_inited :: "'a hart_scheme \<Rightarrow> bool" where
  "riscv_cpu_inited h = cpu_is_inited h"

definition get_cpu_struct :: "'a hart_scheme \<Rightarrow> cpu_t" where
  "get_cpu_struct h = cpu_struct h"

definition arch_cpu_get_index :: "'a hart_scheme \<Rightarrow> u64" where
  "arch_cpu_get_index h = (if riscv_cpu_inited h then currentCpu (get_cpu_struct h) else - 1)"

definition arch_cpu_increment_preempt_counter :: "'a hart_scheme \<Rightarrow> 'a hart_scheme" where
  "arch_cpu_increment_preempt_counter h =
     (if riscv_cpu_inited h
      then h\<lparr>cpu_struct := (cpu_struct h)\<lparr>preemptCounter := preemptCounter (cpu_struct h) + 1\<rparr>\<rparr>
      else h)"

definition arch_cpu_decrement_preempt_counter :: "'a hart_scheme \<Rightarrow> 'a hart_scheme" where
  "arch_cpu_decrement_preempt_counter h =
     (if riscv_cpu_inited h
      then h\<lparr>cpu_struct := (cpu_struct h)\<lparr>preemptCounter := preemptCounter (cpu_struct h) - 1\<rparr>\<rparr>
      else h)"

definition arch_cpu_get_preempt_counter :: "'a hart_scheme \<Rightarrow> u64" where
  "arch_cpu_get_preempt_counter h =
     (if riscv_cpu_inited h then preemptCounter (get_cpu_struct h) else 0)"

definition arch_cpu_get_current_pid :: "'a hart_scheme \<Rightarrow> u64" where
  "arch_cpu_get_current_pid h = (if riscv_cpu_inited h then currentPid (get_cpu_struct h) else - 1)"

definition arch_cpu_get_current_tid :: "'a hart_scheme \<Rightarrow> u64" where
  "arch_cpu_get_current_tid h = (if riscv_cpu_inited h then currentTid (get_cpu_struct h) else - 1)"

definition arch_cpu_get_current_taskid :: "'a hart_scheme \<Rightarrow> u64" where
  "arch_cpu_get_current_taskid h =
     (if riscv_cpu_inited h then currentTaskID (get_cpu_struct h) else - 1)"

definition arch_cpu_get_thread_user_stack :: "'a hart_scheme \<Rightarrow> addr" where
  "arch_cpu_get_thread_user_stack h =
     (if riscv_cpu_inited h then threadUserStack (get_cpu_struct h) else NULL)"

definition arch_cpu_get_thread_kernel_stack :: "'a hart_scheme \<Rightarrow> addr" where
  "arch_cpu_get_thread_kernel_stack h =
     (if riscv_cpu_inited h then threadKernelStack (get_cpu_struct h) else NULL)"

definition arch_cpu_set_current_pid :: "u64 \<Rightarrow> 'a hart_scheme \<Rightarrow> 'a hart_scheme" where
  "arch_cpu_set_current_pid kpid h =
     (if riscv_cpu_inited h then h\<lparr>cpu_struct := (cpu_struct h)\<lparr>currentPid := kpid\<rparr>\<rparr> else h)"

definition arch_cpu_set_current_tid :: "u64 \<Rightarrow> 'a hart_scheme \<Rightarrow> 'a hart_scheme" where
  "arch_cpu_set_current_tid ktid h =
     (if riscv_cpu_inited h then h\<lparr>cpu_struct := (cpu_struct h)\<lparr>currentTid := ktid\<rparr>\<rparr> else h)"

definition arch_cpu_set_current_taskid :: "u64 \<Rightarrow> 'a hart_scheme \<Rightarrow> 'a hart_scheme" where
  "arch_cpu_set_current_taskid taskID h =
     (if riscv_cpu_inited h then h\<lparr>cpu_struct := (cpu_struct h)\<lparr>currentTaskID := taskID\<rparr>\<rparr> else h)"

definition arch_cpu_set_thread_user_stack :: "addr \<Rightarrow> 'a hart_scheme \<Rightarrow> 'a hart_scheme" where
  "arch_cpu_set_thread_user_stack address h =
     (if riscv_cpu_inited h then h\<lparr>cpu_struct := (cpu_struct h)\<lparr>threadUserStack := address\<rparr>\<rparr> else h)"

definition arch_cpu_set_thread_kernel_stack :: "addr \<Rightarrow> 'a hart_scheme \<Rightarrow> 'a hart_scheme" where
  "arch_cpu_set_thread_kernel_stack address h =
     (if riscv_cpu_inited h then h\<lparr>cpu_struct := (cpu_struct h)\<lparr>threadKernelStack := address\<rparr>\<rparr> else h)"

section \<open>Interrupt switches\<close>

definition SSATUS_SIE :: u64 where
  "SSATUS_SIE = push_bit 1 1"

definition arch_enable_interrupts :: "'a hart_scheme \<Rightarrow> 'a hart_scheme" where
  "arch_enable_interrupts h = h\<lparr>sstatus := sstatus h OR SSATUS_SIE\<rparr>"

definition arch_disable_interrupts :: "'a hart_scheme \<Rightarrow> bool \<times> 'a hart_scheme" where
  "arch_disable_interrupts h =
     (let value = sstatus h AND SSATUS_SIE
      in (value \<noteq> 0, h\<lparr>sstatus := sstatus h AND NOT SSATUS_SIE\<rparr>))"

definition arch_interrupts_enabled :: "'a hart_scheme \<Rightarrow> bool" where
  "arch_interrupts_enabled h = (sstatus h AND SSATUS_SIE \<noteq> 0)"

section \<open>Lemmas\<close>

lemma sie_set_bit: "(x AND SSATUS_SIE \<noteq> 0) = bit x 1"
  unfolding SSATUS_SIE_def by (simp only: bit_iff_and_push_bit_not_eq_0)

lemma sie_restore:
  "(if x AND SSATUS_SIE \<noteq> 0 then (x AND NOT SSATUS_SIE) OR SSATUS_SIE else x AND NOT SSATUS_SIE) = x"
proof (rule bit_word_eqI)
  fix n assume "n < LENGTH(64)"
  then show "bit (if x AND SSATUS_SIE \<noteq> 0 then (x AND NOT SSATUS_SIE) OR SSATUS_SIE
    else x AND NOT SSATUS_SIE) n = bit x n"
    unfolding sie_set_bit by (auto simp: SSATUS_SIE_def bit_simps)
qed

text \<open>Interrupts are off once disabled.\<close>

lemma disable_off: "arch_disable_interrupts h = (b, h') \<Longrightarrow> \<not> arch_interrupts_enabled h'"
  unfolding arch_interrupts_enabled_def sie_set_bit
  by (auto simp: arch_disable_interrupts_def Let_def SSATUS_SIE_def bit_simps)

lemma sstatus_increment [simp]: "sstatus (arch_cpu_increment_preempt_counter h) = sstatus h"
  by (simp add: arch_cpu_increment_preempt_counter_def)

lemma sstatus_decrement [simp]: "sstatus (arch_cpu_decrement_preempt_counter h) = sstatus h"
  by (simp add: arch_cpu_decrement_preempt_counter_def)

lemma decrement_increment [simp]:
  "arch_cpu_decrement_preempt_counter (arch_cpu_increment_preempt_counter h) = h"
  by (simp add: arch_cpu_decrement_preempt_counter_def arch_cpu_increment_preempt_counter_def
      riscv_cpu_inited_def)

lemma increment_decrement [simp]:
  "arch_cpu_increment_preempt_counter (arch_cpu_decrement_preempt_counter h) = h"
  by (simp add: arch_cpu_decrement_preempt_counter_def arch_cpu_increment_preempt_counter_def
      riscv_cpu_inited_def)

end
