(* ===== verification/Spinlock.thy ===== *)
theory Spinlock
  imports Hart
begin

text \<open>
  Spinlocks: \<open>kernel/arch/spinlock.h\<close> with \<open>_DEBUG_\<close> defined, as the source has it, and
  \<open>kernel/arch/riscv64/spinlock.c\<close>. A lock operation takes the lock and the hart it runs on and
  returns both. The kernel code of the other theories runs one piece of code at a time, so a
  lock that is held stays held and an attempt to take it never returns; several harts on one
  lock are the subject of the theory \<open>Spinlock_Smp\<close>.
\<close>

section \<open>Data\<close>

record last_acquirer_t =
  acq_file :: string
  acq_func :: string
  acq_line :: int
  acq_cpu :: u64

record spinlock_debug_t =
  lock :: u32
  last_acquirer :: last_acquirer_t

type_synonym spinlock_t = spinlock_debug_t

definition INIT_SPINLOCK :: spinlock_t where
  "INIT_SPINLOCK = \<lparr>lock = 0, last_acquirer = \<lparr>acq_file = ''N/A'', acq_func = ''N/A'', acq_line = 0, acq_cpu = - 1\<rparr>\<rparr>"

definition DEADLOCK_MAX_ITER :: u64 where
  "DEADLOCK_MAX_ITER = 0x4000000"

section \<open>Atomic words\<close>

definition locked_read :: "u32 \<Rightarrow> u32" where
  "locked_read var = var"

definition locked_write :: "u32 \<Rightarrow> u32 \<Rightarrow> u32 \<times> u32" where
  "locked_write var value = (var, value)"

definition locked_inc :: "u32 \<Rightarrow> u32 \<times> u32" where
  "locked_inc var = (var + 1, var + 1)"

definition locked_dec :: "u32 \<Rightarrow> u32 \<times> u32" where
  "locked_dec var = (var - 1, var - 1)"

text \<open>\<open>locked_write\<close>, \<open>locked_inc\<close> and \<open>locked_dec\<close> give the result and the new contents of the word.\<close>

section \<open>Lock operations\<close>

definition spinlock_try_lock_debug ::
  "spinlock_t \<Rightarrow> string \<Rightarrow> string \<Rightarrow> int \<Rightarrow> 'a hart_scheme \<Rightarrow> u32 \<times> spinlock_t \<times> 'a hart_scheme" where
  "spinlock_try_lock_debug spinlock fil fn ln h =
     (let (irq_status, h) = arch_disable_interrupts h;
          ret = lock spinlock;
          spinlock = spinlock\<lparr>lock := 1\<rparr>;
          (spinlock, h) =
            (if ret = 0
             then (spinlock\<lparr>last_acquirer := \<lparr>acq_file = fil, acq_func = fn, acq_line = ln, acq_cpu = arch_cpu_get_index h\<rparr>\<rparr>,
                   arch_cpu_increment_preempt_counter h)
             else (spinlock, h));
          h = (if irq_status then arch_enable_interrupts h else h)
      in (ret, spinlock, h))"

text \<open>
  The acquiring loop: \<open>DEADLOCK_MAX_ITER\<close> attempts, then a diagnostic on the serial line
  (\<open>deadlock_detect\<close>, which changes no state the kernel reads) and all over again.
\<close>

partial_function (option) spinlock_spin ::
  "u64 \<Rightarrow> spinlock_t \<Rightarrow> string \<Rightarrow> string \<Rightarrow> int \<Rightarrow> 'a hart_scheme \<Rightarrow> (spinlock_t \<times> 'a hart_scheme) option" where
  "spinlock_spin i spinlock fil fn ln h =
     (if i < DEADLOCK_MAX_ITER
      then (case spinlock_try_lock_debug spinlock fil fn ln h of (ret, spinlock, h) \<Rightarrow>
              if ret = 0 then Some (spinlock, h) else spinlock_spin (i + 1) spinlock fil fn ln h)
      else spinlock_spin 0 spinlock fil fn ln h)"

definition spinlock_lock_debug ::
  "spinlock_t \<Rightarrow> string \<Rightarrow> string \<Rightarrow> int \<Rightarrow> 'a hart_scheme \<Rightarrow> (spinlock_t \<times> 'a hart_scheme) res" where
  "spinlock_lock_debug spinlock fil fn ln h =
     (case spinlock_spin 0 spinlock fil fn ln h of None \<Rightarrow> Inl Hang | Some r \<Rightarrow> Inr r)"

definition spinlock_unlock :: "spinlock_t \<Rightarrow> 'a hart_scheme \<Rightarrow> spinlock_t \<times> 'a hart_scheme" where
  "spinlock_unlock spinlock h =
     (let (irq_status, h) = arch_disable_interrupts h;
          spinlock = spinlock\<lparr>lock := 0\<rparr>;
          h = arch_cpu_decrement_preempt_counter h;
          h = (if irq_status then arch_enable_interrupts h else h)
      in (spinlock, h))"

text \<open>
  The macros \<open>spinlock_lock\<close> and \<open>spinlock_try_lock\<close> pass the place of the call; a place is written
  here as the file, the function and the line.
\<close>

type_synonym place = "string \<times> string \<times> int"

definition spinlock_lock :: "place \<Rightarrow> spinlock_t \<Rightarrow> 'a hart_scheme \<Rightarrow> (spinlock_t \<times> 'a hart_scheme) res" where
  "spinlock_lock pl lk h = (case pl of (fil, fn, ln) \<Rightarrow> spinlock_lock_debug lk fil fn ln h)"

definition spinlock_try_lock :: "place \<Rightarrow> spinlock_t \<Rightarrow> 'a hart_scheme \<Rightarrow> u32 \<times> spinlock_t \<times> 'a hart_scheme" where
  "spinlock_try_lock pl lk h = (case pl of (fil, fn, ln) \<Rightarrow> spinlock_try_lock_debug lk fil fn ln h)"

definition spinlock_try_lock_skippreempt ::
  "place \<Rightarrow> spinlock_t \<Rightarrow> 'a hart_scheme \<Rightarrow> u32 \<times> spinlock_t \<times> 'a hart_scheme" where
  "spinlock_try_lock_skippreempt pl lk h =
     (case spinlock_try_lock pl lk h of (ret, lk, h) \<Rightarrow>
       (ret, lk, if ret = 0 then arch_cpu_decrement_preempt_counter h else h))"

definition spinlock_lock_skippreempt ::
  "place \<Rightarrow> spinlock_t \<Rightarrow> 'a hart_scheme \<Rightarrow> (spinlock_t \<times> 'a hart_scheme) res" where
  "spinlock_lock_skippreempt pl lk h =
     bnd (spinlock_lock pl lk h) (\<lambda>(lk, h). Inr (lk, arch_cpu_decrement_preempt_counter h))"

definition spinlock_unlock_skippreempt :: "spinlock_t \<Rightarrow> 'a hart_scheme \<Rightarrow> spinlock_t \<times> 'a hart_scheme" where
  "spinlock_unlock_skippreempt lk h = spinlock_unlock lk (arch_cpu_increment_preempt_counter h)"

section \<open>The plain lock\<close>

text \<open>The variant without \<open>_DEBUG_\<close>: preemption is disabled before the wait, not after it.\<close>

record spinlock_normal_t =
  nlock :: u32

definition spinlock_try_lock_normal ::
  "spinlock_normal_t \<Rightarrow> 'a hart_scheme \<Rightarrow> u32 \<times> spinlock_normal_t \<times> 'a hart_scheme" where
  "spinlock_try_lock_normal spinlock h =
     (let (irq_status, h) = arch_disable_interrupts h;
          val = nlock spinlock;
          spinlock = spinlock\<lparr>nlock := 1\<rparr>;
          h = (if val = 0 then arch_cpu_increment_preempt_counter h else h);
          h = (if irq_status then arch_enable_interrupts h else h)
      in (val, spinlock, h))"

partial_function (option) spinlock_normal_spin :: "spinlock_normal_t \<Rightarrow> spinlock_normal_t option" where
  "spinlock_normal_spin spinlock =
     (let old = nlock spinlock; spinlock = spinlock\<lparr>nlock := 1\<rparr>
      in if old \<noteq> 0 then spinlock_normal_spin spinlock else Some spinlock)"

definition spinlock_lock_normal ::
  "spinlock_normal_t \<Rightarrow> 'a hart_scheme \<Rightarrow> (spinlock_normal_t \<times> 'a hart_scheme) res" where
  "spinlock_lock_normal spinlock h =
     (let (irq_status, h) = arch_disable_interrupts h;
          h = arch_cpu_increment_preempt_counter h;
          h = (if irq_status then arch_enable_interrupts h else h)
      in case spinlock_normal_spin spinlock of None \<Rightarrow> Inl Hang | Some spinlock \<Rightarrow> Inr (spinlock, h))"

section \<open>Lemmas\<close>

definition acquirer_of :: "place \<Rightarrow> 'a hart_scheme \<Rightarrow> last_acquirer_t" where
  "acquirer_of pl h = (case pl of (fil, fn, ln) \<Rightarrow>
     \<lparr>acq_file = fil, acq_func = fn, acq_line = ln, acq_cpu = arch_cpu_get_index h\<rparr>)"

lemma get_index_disable [simp]:
  "arch_cpu_get_index (h\<lparr>sstatus := x\<rparr>) = arch_cpu_get_index h"
  by (simp add: arch_cpu_get_index_def riscv_cpu_inited_def get_cpu_struct_def)

lemma increment_sstatus:
  "arch_cpu_increment_preempt_counter (h\<lparr>sstatus := x\<rparr>) = (arch_cpu_increment_preempt_counter h)\<lparr>sstatus := x\<rparr>"
  by (simp add: arch_cpu_increment_preempt_counter_def riscv_cpu_inited_def)

lemma decrement_sstatus:
  "arch_cpu_decrement_preempt_counter (h\<lparr>sstatus := x\<rparr>) = (arch_cpu_decrement_preempt_counter h)\<lparr>sstatus := x\<rparr>"
  by (simp add: arch_cpu_decrement_preempt_counter_def riscv_cpu_inited_def)

text \<open>Every lock operation leaves the interrupt switch as it found it.\<close>

lemma hart_sstatus_id: "sstatus h' = sstatus h \<Longrightarrow> h'\<lparr>sstatus := sstatus h\<rparr> = (h' :: 'a hart_scheme)"
  by (metis hart.surjective hart.update_convs(3))

lemma irq_on:
  "sstatus h AND SSATUS_SIE \<noteq> 0 \<Longrightarrow> sstatus h' = sstatus h \<Longrightarrow>
    arch_enable_interrupts (h'\<lparr>sstatus := sstatus h AND NOT SSATUS_SIE\<rparr>) = h'"
  using sie_restore [of "sstatus h"] hart_sstatus_id [of h' h] by (simp add: arch_enable_interrupts_def)

lemma irq_off:
  "sstatus h AND SSATUS_SIE = 0 \<Longrightarrow> sstatus h' = sstatus h \<Longrightarrow>
    h'\<lparr>sstatus := sstatus h AND NOT SSATUS_SIE\<rparr> = h'"
  using sie_restore [of "sstatus h"] hart_sstatus_id [of h' h] by simp

lemmas irq_bracket = irq_on irq_off

lemma try_lock_free:
  "lock lk = 0 \<Longrightarrow> spinlock_try_lock pl lk h =
    (0, lk\<lparr>lock := 1, last_acquirer := acquirer_of pl h\<rparr>, arch_cpu_increment_preempt_counter h)"
  by (cases pl)
    (simp add: spinlock_try_lock_def spinlock_try_lock_debug_def arch_disable_interrupts_def Let_def
      acquirer_of_def increment_sstatus irq_bracket)

lemma try_lock_held:
  "lock lk \<noteq> 0 \<Longrightarrow> spinlock_try_lock pl lk h = (lock lk, lk\<lparr>lock := 1\<rparr>, h)"
  by (cases pl)
    (simp add: spinlock_try_lock_def spinlock_try_lock_debug_def arch_disable_interrupts_def Let_def
      irq_bracket)

lemma spinlock_spin_free:
  assumes "lock lk = 0"
  shows "spinlock_spin 0 lk fil fn ln h =
    Some (lk\<lparr>lock := 1, last_acquirer := acquirer_of (fil, fn, ln) h\<rparr>, arch_cpu_increment_preempt_counter h)"
  using try_lock_free [OF assms, of "(fil, fn, ln)" h]
  by (subst spinlock_spin.simps) (simp add: DEADLOCK_MAX_ITER_def spinlock_try_lock_def)

lemma spinlock_spin_returns:
  "spinlock_spin i lk fil fn ln h = Some r \<Longrightarrow> lock lk = 0"
proof (rule spinlock_spin.raw_induct [where P = "\<lambda>i lk fil fn ln h r. lock lk = 0"])
  fix spin :: "u64 \<Rightarrow> spinlock_t \<Rightarrow> string \<Rightarrow> string \<Rightarrow> int \<Rightarrow> 'a hart_scheme \<Rightarrow> (spinlock_t \<times> 'a hart_scheme) option"
  fix i lk fil fn ln h r
  assume IH: "\<And>i lk fil fn ln h r. spin i lk fil fn ln h = Some r \<Longrightarrow> lock lk = 0"
    and eq: "(if i < DEADLOCK_MAX_ITER
      then case spinlock_try_lock_debug lk fil fn ln h of (ret, lk, h) \<Rightarrow>
        if ret = 0 then Some (lk, h) else spin (i + 1) lk fil fn ln h
      else spin 0 lk fil fn ln h) = Some r"
  show "lock lk = 0"
  proof (rule ccontr)
    assume held: "lock lk \<noteq> 0"
    then have "spinlock_try_lock_debug lk fil fn ln h = (lock lk, lk\<lparr>lock := 1\<rparr>, h)"
      using try_lock_held [OF held, of "(fil, fn, ln)" h] by (simp add: spinlock_try_lock_def)
    with eq held obtain j lk' where "spin j lk' fil fn ln h = Some r" and "lock lk' \<noteq> 0"
      by (fastforce split: if_splits)
    then show False using IH by blast
  qed
qed

lemma spinlock_lock_free [simp]:
  "lock lk = 0 \<Longrightarrow> spinlock_lock pl lk h =
    Inr (lk\<lparr>lock := 1, last_acquirer := acquirer_of pl h\<rparr>, arch_cpu_increment_preempt_counter h)"
  by (cases pl) (simp add: spinlock_lock_def spinlock_lock_debug_def spinlock_spin_free)

lemma spinlock_lock_held [simp]: "lock lk \<noteq> 0 \<Longrightarrow> spinlock_lock pl lk h = Inl Hang"
  by (cases pl)
    (auto simp: spinlock_lock_def spinlock_lock_debug_def split: option.splits dest: spinlock_spin_returns)

lemma spinlock_lock_Inr:
  "spinlock_lock pl lk h = Inr r \<longleftrightarrow> lock lk = 0 \<and>
    r = (lk\<lparr>lock := 1, last_acquirer := acquirer_of pl h\<rparr>, arch_cpu_increment_preempt_counter h)"
  by (cases "lock lk = 0") auto

lemma spinlock_unlock_eq [simp]:
  "spinlock_unlock lk h = (lk\<lparr>lock := 0\<rparr>, arch_cpu_decrement_preempt_counter h)"
  by (simp add: spinlock_unlock_def arch_disable_interrupts_def Let_def decrement_sstatus irq_bracket)

lemma normal_spin_returns: "spinlock_normal_spin lk = Some r \<Longrightarrow> nlock lk = 0"
proof (rule spinlock_normal_spin.raw_induct [where P = "\<lambda>lk r. nlock lk = 0"])
  fix spin :: "spinlock_normal_t \<Rightarrow> spinlock_normal_t option" and lk r
  assume IH: "\<And>lk r. spin lk = Some r \<Longrightarrow> nlock lk = 0"
    and eq: "(let old = nlock lk; lk = lk\<lparr>nlock := 1\<rparr> in if old \<noteq> 0 then spin lk else Some lk) = Some r"
  show "nlock lk = 0"
    using eq IH [of "lk\<lparr>nlock := 1\<rparr>" r] by (auto simp: Let_def split: if_splits)
qed

lemma spinlock_lock_normal_eq:
  "spinlock_lock_normal lk h =
    (if nlock lk = 0 then Inr (lk\<lparr>nlock := 1\<rparr>, arch_cpu_increment_preempt_counter h) else Inl Hang)"
proof (cases "nlock lk = 0")
  case True
  then have "spinlock_normal_spin lk = Some (lk\<lparr>nlock := 1\<rparr>)"
    by (subst spinlock_normal_spin.simps) (simp add: Let_def)
  then show ?thesis using True
    by (simp add: spinlock_lock_normal_def arch_disable_interrupts_def Let_def increment_sstatus
        irq_bracket)
next
  case False
  then have "spinlock_normal_spin lk = None"
    using normal_spin_returns by (cases "spinlock_normal_spin lk") auto
  then show ?thesis using False by (simp add: spinlock_lock_normal_def Let_def split: prod.splits)
qed

text \<open>Taking a lock and releasing it: what is left is the record of who took it.\<close>

lemma lock_unlock:
  assumes "spinlock_lock pl lk h = Inr (lk', h')"
  shows "spinlock_unlock lk' h' = (lk\<lparr>last_acquirer := acquirer_of pl h\<rparr>, h)"
  using assms by (simp add: spinlock_lock_Inr)

end
