(* ===== verification/Spinlock_Smp.thy ===== *)
theory Spinlock_Smp
  imports Spinlock
begin

text \<open>
  Several harts on one spinlock: the functions \<open>spinlock_lock_debug\<close>, \<open>spinlock_try_lock_debug\<close>,
  \<open>spinlock_unlock\<close> and \<open>deadlock_detect\<close> of \<open>kernel/arch/riscv64/spinlock.c\<close> cut at every access to
  memory the harts share, as a step relation in which any hart may take the next step. The
  theory \<open>Spinlock\<close> has the same functions as they behave when one hart runs alone; the two are
  compared below. The model is sequentially consistent: the atomic builtins of the source and the
  release store are steps of their own.
\<close>

section \<open>State\<close>

text \<open>
  Where a hart is in the code. An attempt carries \<open>Some i\<close> inside the loop of
  \<open>spinlock_lock_debug\<close>, with its counter, and \<open>None\<close> in a plain \<open>spinlock_try_lock_debug\<close>; the
  Boolean is \<open>irq_status\<close>.
    \<^item> \<open>Out\<close>, \<open>In\<close>: outside the lock functions, without the lock and with it;
    \<^item> \<open>Loop i\<close>: at the test of the \<open>for\<close> loop;
    \<^item> \<open>Tas\<close>: interrupts are disabled, the test-and-set is next;
    \<^item> \<open>Won\<close>: the test-and-set answered 0, the record of the acquirer and the counter are next;
    \<^item> \<open>Leave ret\<close>: the end of \<open>spinlock_try_lock_debug\<close>;
    \<^item> \<open>Release\<close>, \<open>Counter\<close>, \<open>Back\<close>: in \<open>spinlock_unlock\<close>, before the release store, before the
      counter, before the interrupt switch;
    \<^item> \<open>Detect\<close>, \<open>Report\<close>: in \<open>deadlock_detect\<close>, before and after its own lock is taken.
\<close>

datatype lock_pc =
    Out
  | In
  | Loop u64
  | Tas "u64 option" bool
  | Won "u64 option" bool
  | Leave "u64 option" bool u32
  | Release bool
  | Counter bool
  | Back bool
  | Detect
  | Report

record smp =
  slock :: spinlock_t
  deadlock_detect_lock :: u32
  harts :: "nat \<Rightarrow> hart"
  pcs :: "nat \<Rightarrow> lock_pc"
  places :: "nat \<Rightarrow> place"

definition irq_restore :: "bool \<Rightarrow> hart \<Rightarrow> hart" where
  "irq_restore irq_status h = (if irq_status then arch_enable_interrupts h else h)"

definition set_pc :: "nat \<Rightarrow> lock_pc \<Rightarrow> smp \<Rightarrow> smp" where
  "set_pc i c s = s\<lparr>pcs := (pcs s)(i := c)\<rparr>"

definition set_hart :: "nat \<Rightarrow> hart \<Rightarrow> smp \<Rightarrow> smp" where
  "set_hart i h s = s\<lparr>harts := (harts s)(i := h)\<rparr>"

text \<open>Where a hart goes on after an attempt: a \<open>try_lock\<close> returns, the loop counts.\<close>

fun after_attempt :: "u64 option \<Rightarrow> u32 \<Rightarrow> lock_pc" where
  "after_attempt a ret = (if ret = 0 then In else (case a of None \<Rightarrow> Out | Some n \<Rightarrow> Loop (n + 1)))"

section \<open>Steps\<close>

text \<open>
  One step of hart \<open>i\<close>. The four stores to \<open>last_acquirer\<close> are one step: no hart but the owner of
  the lock writes there, and only the message of \<open>deadlock_detect\<close> reads them. The message itself
  goes to the serial line and changes nothing. Between the lock functions a hart may do anything
  with its own state that does not change which hart it is.
\<close>

inductive lstep :: "nat \<Rightarrow> smp \<Rightarrow> smp \<Rightarrow> bool" where
  work: "pcs s i = Out \<or> pcs s i = In \<Longrightarrow> arch_cpu_get_index h = arch_cpu_get_index (harts s i) \<Longrightarrow>
    lstep i s (set_hart i h s)"
| call_lock: "pcs s i = Out \<Longrightarrow> lstep i s (set_pc i (Loop 0) (s\<lparr>places := (places s)(i := pl)\<rparr>))"
| call_try: "pcs s i = Out \<Longrightarrow> arch_disable_interrupts (harts s i) = (irq, h) \<Longrightarrow>
    lstep i s (set_pc i (Tas None irq) (set_hart i h (s\<lparr>places := (places s)(i := pl)\<rparr>)))"
| loop_try: "pcs s i = Loop n \<Longrightarrow> n < DEADLOCK_MAX_ITER \<Longrightarrow> arch_disable_interrupts (harts s i) = (irq, h) \<Longrightarrow>
    lstep i s (set_pc i (Tas (Some n) irq) (set_hart i h s))"
| loop_end: "pcs s i = Loop n \<Longrightarrow> \<not> n < DEADLOCK_MAX_ITER \<Longrightarrow> lstep i s (set_pc i Detect s)"
| detect: "pcs s i = Detect \<Longrightarrow> locked_write (deadlock_detect_lock s) 1 = (old, new) \<Longrightarrow>
    lstep i s (set_pc i (if old \<noteq> 0 then Detect else Report) (s\<lparr>deadlock_detect_lock := new\<rparr>))"
| report: "pcs s i = Report \<Longrightarrow> locked_write (deadlock_detect_lock s) 0 = (old, new) \<Longrightarrow>
    lstep i s (set_pc i (Loop 0) (s\<lparr>deadlock_detect_lock := new\<rparr>))"
| tas: "pcs s i = Tas a irq \<Longrightarrow> lock (slock s) = ret \<Longrightarrow>
    lstep i s (set_pc i (if ret = 0 then Won a irq else Leave a irq ret) (s\<lparr>slock := (slock s)\<lparr>lock := 1\<rparr>\<rparr>))"
| won: "pcs s i = Won a irq \<Longrightarrow>
    lstep i s (set_pc i (Leave a irq 0) (set_hart i (arch_cpu_increment_preempt_counter (harts s i))
      (s\<lparr>slock := (slock s)\<lparr>last_acquirer := acquirer_of (places s i) (harts s i)\<rparr>\<rparr>)))"
| leave: "pcs s i = Leave a irq ret \<Longrightarrow>
    lstep i s (set_pc i (after_attempt a ret) (set_hart i (irq_restore irq (harts s i)) s))"
| call_unlock: "pcs s i = In \<Longrightarrow> arch_disable_interrupts (harts s i) = (irq, h) \<Longrightarrow>
    lstep i s (set_pc i (Release irq) (set_hart i h s))"
| release: "pcs s i = Release irq \<Longrightarrow>
    lstep i s (set_pc i (Counter irq) (s\<lparr>slock := (slock s)\<lparr>lock := 0\<rparr>\<rparr>))"
| counter: "pcs s i = Counter irq \<Longrightarrow>
    lstep i s (set_pc i (Back irq) (set_hart i (arch_cpu_decrement_preempt_counter (harts s i)) s))"
| switch_back: "pcs s i = Back irq \<Longrightarrow>
    lstep i s (set_pc i Out (set_hart i (irq_restore irq (harts s i)) s))"

inductive lreach :: "smp \<Rightarrow> bool" where
  start: "lock (slock s) = 0 \<Longrightarrow> deadlock_detect_lock s = 0 \<Longrightarrow> (\<And>i. pcs s i = Out) \<Longrightarrow> lreach s"
| step: "lreach s \<Longrightarrow> lstep i s s' \<Longrightarrow> lreach s'"

text \<open>Runs in which only hart \<open>i\<close> moves.\<close>

abbreviation solo :: "nat \<Rightarrow> smp \<Rightarrow> smp \<Rightarrow> bool" where
  "solo i \<equiv> (lstep i)\<^sup>*\<^sup>*"

lemma set_simps [simp]:
  "slock (set_pc i c s) = slock s" "slock (set_hart i h s) = slock s"
  "deadlock_detect_lock (set_pc i c s) = deadlock_detect_lock s"
  "deadlock_detect_lock (set_hart i h s) = deadlock_detect_lock s"
  "harts (set_pc i c s) = harts s" "harts (set_hart i h s) = (harts s)(i := h)"
  "pcs (set_pc i c s) = (pcs s)(i := c)" "pcs (set_hart i h s) = pcs s"
  "places (set_pc i c s) = places s" "places (set_hart i h s) = places s"
  by (simp_all add: set_pc_def set_hart_def)

section \<open>The owner of the lock\<close>

text \<open>
  The specification: a lock has at most one owner. It is acquired when it has none and released
  by its owner.
\<close>

inductive owner_step :: "nat \<Rightarrow> nat option \<Rightarrow> nat option \<Rightarrow> bool" where
  keep: "owner_step i ow ow"
| acquire: "owner_step i None (Some i)"
| release: "owner_step i (Some i) None"

fun owns :: "lock_pc \<Rightarrow> bool" where
  "owns (Won a irq) = True"
| "owns (Leave a irq ret) = (ret = 0)"
| "owns In = True"
| "owns (Release irq) = True"
| "owns _ = False"

definition owned_by :: "smp \<Rightarrow> nat option \<Rightarrow> bool" where
  "owned_by s ow \<longleftrightarrow> (\<forall>i. owns (pcs s i) \<longleftrightarrow> ow = Some i) \<and> (lock (slock s) \<noteq> 0 \<longleftrightarrow> ow \<noteq> None)"

lemma owned_pc: "owned_by s ow \<Longrightarrow> pcs s i = c \<Longrightarrow> owns c \<longleftrightarrow> ow = Some i"
  by (auto simp: owned_by_def)

lemma owns_after_attempt: "owns (after_attempt a ret) = (ret = 0)"
  by (simp split: option.splits)

declare after_attempt.simps [simp del] owns_after_attempt [simp]

lemma owned_keep:
  assumes "owned_by s ow" and "pcs s' = (pcs s)(i := c)" and "owns c \<longleftrightarrow> owns (pcs s i)"
    and "lock (slock s') = 0 \<longleftrightarrow> lock (slock s) = 0"
  shows "owned_by s' ow"
  using assms by (simp add: owned_by_def)

text \<open>Every step of a hart is a step of the specification.\<close>

lemma lstep_owner:
  assumes "lstep i s s'" and "owned_by s ow"
  shows "\<exists>ow'. owned_by s' ow' \<and> owner_step i ow ow'"
  using assms
proof cases
  case (tas a irq ret)
  show ?thesis
  proof (cases "ret = 0")
    case True
    then have "ow = None" using tas assms(2) by (auto simp: owned_by_def)
    then show ?thesis
      using tas True assms(2) by (intro exI [of _ "Some i"]) (auto simp: owned_by_def intro: owner_step.acquire)
  next
    case False
    have "ow \<noteq> Some i" using owned_pc [OF assms(2) tas(2)] by simp
    then show ?thesis
      using False tas assms(2) by (intro exI [of _ ow]) (auto simp: owned_by_def intro: owner_step.keep)
  qed
next
  case (release irq)
  then have "ow = Some i" using owned_pc [OF assms(2) release(2)] by simp
  then show ?thesis
    using release assms(2) by (intro exI [of _ None]) (auto simp: owned_by_def intro: owner_step.release)
qed (use owned_keep [OF assms(2), of s' i] owner_step.keep in \<open>fastforce simp: locked_write_def\<close>)+


section \<open>Invariants\<close>

text \<open>
  The word of the lock and its owner agree; the same for the lock of \<open>deadlock_detect\<close>; while a
  hart owns the lock and is past the record, the record names it; inside the lock functions
  interrupts are off.
\<close>

fun recorded :: "lock_pc \<Rightarrow> bool" where
  "recorded (Leave a irq ret) = (ret = 0)"
| "recorded In = True"
| "recorded (Release irq) = True"
| "recorded _ = False"

fun masked :: "lock_pc \<Rightarrow> bool" where
  "masked Out = False"
| "masked In = False"
| "masked (Loop n) = False"
| "masked Detect = False"
| "masked Report = False"
| "masked _ = True"

definition reported_by :: "smp \<Rightarrow> nat option \<Rightarrow> bool" where
  "reported_by s ow \<longleftrightarrow> (\<forall>i. pcs s i = Report \<longleftrightarrow> ow = Some i) \<and> (deadlock_detect_lock s \<noteq> 0 \<longleftrightarrow> ow \<noteq> None)"

definition record_inv :: "smp \<Rightarrow> bool" where
  "record_inv s \<longleftrightarrow> (\<forall>i. recorded (pcs s i) \<longrightarrow>
     acq_cpu (last_acquirer (slock s)) = arch_cpu_get_index (harts s i))"

definition masked_inv :: "smp \<Rightarrow> bool" where
  "masked_inv s \<longleftrightarrow> (\<forall>i. masked (pcs s i) \<longrightarrow> \<not> arch_interrupts_enabled (harts s i))"

lemma recorded_owns: "recorded c \<Longrightarrow> owns c"
  by (cases c) auto

lemma after_attempt_simps [simp]:
  "recorded (after_attempt a ret) = (ret = 0)"
  "\<not> masked (after_attempt a ret)" "after_attempt a ret \<noteq> Report"
  by (auto simp: after_attempt.simps split: option.splits)

lemma index_simps [simp]:
  "arch_cpu_get_index (arch_cpu_increment_preempt_counter h) = arch_cpu_get_index h"
  "arch_cpu_get_index (arch_cpu_decrement_preempt_counter h) = arch_cpu_get_index h"
  "arch_cpu_get_index (arch_enable_interrupts h) = arch_cpu_get_index h"
  "arch_cpu_get_index (irq_restore irq h) = arch_cpu_get_index h"
  by (simp_all add: arch_cpu_get_index_def riscv_cpu_inited_def get_cpu_struct_def irq_restore_def
      arch_cpu_increment_preempt_counter_def arch_cpu_decrement_preempt_counter_def arch_enable_interrupts_def)

lemma index_disable_irq: "arch_disable_interrupts h = (irq, h') \<Longrightarrow> arch_cpu_get_index h' = arch_cpu_get_index h"
  by (auto simp: arch_disable_interrupts_def Let_def)

lemma enabled_counter [simp]:
  "arch_interrupts_enabled (arch_cpu_increment_preempt_counter h) = arch_interrupts_enabled h"
  "arch_interrupts_enabled (arch_cpu_decrement_preempt_counter h) = arch_interrupts_enabled h"
  by (simp_all add: arch_interrupts_enabled_def)

lemma reported_keep:
  assumes "reported_by s ow" and "pcs s' = (pcs s)(i := c)" and "c = Report \<longleftrightarrow> pcs s i = Report"
    and "deadlock_detect_lock s' = 0 \<longleftrightarrow> deadlock_detect_lock s = 0"
  shows "reported_by s' ow"
  using assms by (simp add: reported_by_def)

lemma lstep_reporter:
  assumes "lstep i s s'" and "reported_by s ow"
  shows "\<exists>ow'. reported_by s' ow' \<and> owner_step i ow ow'"
  using assms
proof cases
  case (detect old new)
  show ?thesis
  proof (cases "deadlock_detect_lock s = 0")
    case True
    then show ?thesis
      using detect assms(2)
      by (intro exI [of _ "Some i"]) (auto simp: reported_by_def locked_write_def intro: owner_step.acquire)
  next
    case False
    then have "reported_by s' ow"
      using detect by (intro reported_keep [OF assms(2), of s' i Detect]) (auto simp: locked_write_def)
    then show ?thesis using owner_step.keep by blast
  qed
next
  case (report old new)
  then have "ow = Some i" using assms(2) by (auto simp: reported_by_def)
  then show ?thesis
    using report assms(2)
    by (intro exI [of _ None]) (auto simp: reported_by_def locked_write_def intro: owner_step.release)
qed (use reported_keep [OF assms(2), of s' i] owner_step.keep in \<open>fastforce split: if_splits\<close>)+

lemma lstep_masked: "lstep i s s' \<Longrightarrow> masked_inv s \<Longrightarrow> masked_inv s'"
  by (induction rule: lstep.induct) (auto simp: masked_inv_def dest: disable_off split: if_splits)

lemma lstep_record:
  assumes "lstep i s s'" and "owned_by s ow" and "record_inv s"
  shows "record_inv s'"
  using assms
proof cases
  case (won a irq)
  then have "ow = Some i" using owned_pc [OF assms(2) won(2)] by simp
  then have "\<not> recorded (pcs s j)" if "j \<noteq> i" for j
    using that assms(2) recorded_owns by (fastforce simp: owned_by_def)
  then show ?thesis
    using won by (auto simp: record_inv_def acquirer_of_def split: prod.splits)
qed (auto simp: record_inv_def index_disable_irq split: if_splits)

lemma lreach_inv: "lreach s \<Longrightarrow> (\<exists>ow. owned_by s ow) \<and> (\<exists>ow. reported_by s ow) \<and> record_inv s \<and> masked_inv s"
proof (induction rule: lreach.induct)
  case (start s)
  then have "owned_by s None" and "reported_by s None" by (simp_all add: owned_by_def reported_by_def)
  with start show ?case by (auto simp: record_inv_def masked_inv_def)
next
  case (step s i s')
  then obtain ow ro where "owned_by s ow" and "reported_by s ro" by blast
  then show ?case
    using step lstep_owner lstep_record lstep_reporter lstep_masked by meson
qed


section \<open>A hart alone\<close>

text \<open>
  What one hart does when no other moves is what the functions of the theory \<open>Spinlock\<close> compute.
\<close>

lemmas solo_step = converse_rtranclp_into_rtranclp
lemmas smp_eq = set_pc_def set_hart_def

lemma solo_win:
  assumes "pcs s i = Tas a irq" and "lock (slock s) = 0"
  shows "solo i s (set_pc i In (set_hart i (irq_restore irq (arch_cpu_increment_preempt_counter (harts s i)))
    (s\<lparr>slock := (slock s)\<lparr>lock := 1, last_acquirer := acquirer_of (places s i) (harts s i)\<rparr>\<rparr>)))"
proof -
  let ?s1 = "set_pc i (Won a irq) (s\<lparr>slock := (slock s)\<lparr>lock := 1\<rparr>\<rparr>)"
  have 1: "lstep i s ?s1" using lstep.tas [OF assms(1) refl] assms(2) by simp
  let ?s2 = "set_pc i (Leave a irq 0) (set_hart i (arch_cpu_increment_preempt_counter (harts ?s1 i))
      (?s1\<lparr>slock := (slock ?s1)\<lparr>last_acquirer := acquirer_of (places ?s1 i) (harts ?s1 i)\<rparr>\<rparr>))"
  have 2: "lstep i ?s1 ?s2" by (rule lstep.won [of _ _ a irq]) simp
  have "lstep i ?s2 (set_pc i (after_attempt a 0) (set_hart i (irq_restore irq (harts ?s2 i)) ?s2))"
    by (rule lstep.leave) simp
  then have 3: "solo i ?s2 (set_pc i In (set_hart i (irq_restore irq (harts ?s2 i)) ?s2))"
    by (simp add: after_attempt.simps)
  show ?thesis using solo_step [of "lstep i", OF 1 solo_step [of "lstep i", OF 2 3]] by (simp add: smp_eq)
qed

lemma solo_lose:
  assumes "pcs s i = Tas a irq" and "lock (slock s) \<noteq> 0"
  shows "solo i s (set_pc i (after_attempt a (lock (slock s))) (set_hart i (irq_restore irq (harts s i))
    (s\<lparr>slock := (slock s)\<lparr>lock := 1\<rparr>\<rparr>)))"
proof -
  let ?s1 = "set_pc i (Leave a irq (lock (slock s))) (s\<lparr>slock := (slock s)\<lparr>lock := 1\<rparr>\<rparr>)"
  have 1: "lstep i s ?s1" using lstep.tas [OF assms(1) refl] assms(2) by simp
  have 2: "lstep i ?s1 (set_pc i (after_attempt a (lock (slock s))) (set_hart i (irq_restore irq (harts ?s1 i)) ?s1))"
    by (rule lstep.leave) simp
  show ?thesis using solo_step [of "lstep i", OF 1 r_into_rtranclp [of "lstep i", OF 2]] by (simp add: smp_eq)
qed

lemma irq_restore_disable:
  "arch_disable_interrupts h = (irq, h') \<Longrightarrow> irq_restore irq h' = h"
  using irq_on [of h h] irq_off [of h h]
  by (auto simp: irq_restore_def arch_disable_interrupts_def Let_def)

lemma irq_restore_counter:
  "irq_restore irq (arch_cpu_increment_preempt_counter h) = arch_cpu_increment_preempt_counter (irq_restore irq h)"
  "irq_restore irq (arch_cpu_decrement_preempt_counter h) = arch_cpu_decrement_preempt_counter (irq_restore irq h)"
  by (simp_all add: irq_restore_def arch_enable_interrupts_def increment_sstatus decrement_sstatus)

lemma acquirer_index: "arch_cpu_get_index h' = arch_cpu_get_index h \<Longrightarrow> acquirer_of pl h' = acquirer_of pl h"
  by (simp add: acquirer_of_def split: prod.splits)

text \<open>One attempt on the path of \<open>spinlock_try_lock_debug\<close>, from the disabling of interrupts on.\<close>

lemma solo_attempt:
  assumes dis: "arch_disable_interrupts (harts s i) = (irq, h)"
    and run: "spinlock_try_lock (places s i) (slock s) (harts s i) = (ret, lk, h')"
  shows "solo i (set_pc i (Tas a irq) (set_hart i h s))
    (set_pc i (after_attempt a ret) (set_hart i h' (s\<lparr>slock := lk\<rparr>)))"
proof (cases "lock (slock s) = 0")
  case True
  have "acquirer_of (places s i) h = acquirer_of (places s i) (harts s i)"
    by (rule acquirer_index) (rule index_disable_irq [OF dis])
  then show ?thesis
    using solo_win [of "set_pc i (Tas a irq) (set_hart i h s)" i a irq] True
      try_lock_free [OF True, of "places s i" "harts s i"] run irq_restore_disable [OF dis]
    by (simp add: irq_restore_counter after_attempt.simps smp_eq)
next
  case False
  then show ?thesis
    using solo_lose [of "set_pc i (Tas a irq) (set_hart i h s)" i a irq]
      try_lock_held [OF False, of "places s i" "harts s i"] run irq_restore_disable [OF dis]
    by (simp add: smp_eq)
qed

lemma solo_try:
  assumes "pcs s i = Out" and "spinlock_try_lock pl (slock s) (harts s i) = (ret, lk, h')"
  shows "solo i s (set_pc i (if ret = 0 then In else Out)
    (set_hart i h' (s\<lparr>places := (places s)(i := pl), slock := lk\<rparr>)))"
proof -
  obtain irq h where dis: "arch_disable_interrupts (harts s i) = (irq, h)" by fastforce
  let ?p = "s\<lparr>places := (places s)(i := pl)\<rparr>"
  have 1: "lstep i s (set_pc i (Tas None irq) (set_hart i h ?p))"
    by (rule lstep.call_try [OF assms(1) dis])
  have 2: "solo i (set_pc i (Tas None irq) (set_hart i h ?p))
      (set_pc i (after_attempt None ret) (set_hart i h' (?p\<lparr>slock := lk\<rparr>)))"
    by (rule solo_attempt) (use dis assms(2) in simp_all)
  show ?thesis
    using solo_step [of "lstep i", OF 1 2] by (cases "ret = 0") (simp_all add: after_attempt.simps smp_eq)
qed

lemma solo_lock:
  assumes "pcs s i = Out" and "spinlock_lock pl (slock s) (harts s i) = Inr (lk, h')"
  shows "solo i s (set_pc i In (set_hart i h' (s\<lparr>places := (places s)(i := pl), slock := lk\<rparr>)))"
proof -
  obtain irq h where dis: "arch_disable_interrupts (harts s i) = (irq, h)" by fastforce
  let ?p = "set_pc i (Loop 0) (s\<lparr>places := (places s)(i := pl)\<rparr>)"
  have free: "lock (slock s) = 0" and lk: "spinlock_try_lock pl (slock s) (harts s i) = (0, lk, h')"
    using assms(2) try_lock_free [of "slock s" pl "harts s i"] by (simp_all add: spinlock_lock_Inr)
  have 1: "lstep i s ?p" by (rule lstep.call_lock [OF assms(1)])
  have 2: "lstep i ?p (set_pc i (Tas (Some 0) irq) (set_hart i h ?p))"
    by (rule lstep.loop_try) (use dis in \<open>simp_all add: DEADLOCK_MAX_ITER_def\<close>)
  have "solo i (set_pc i (Tas (Some 0) irq) (set_hart i h ?p))
      (set_pc i (after_attempt (Some 0) 0) (set_hart i h' (?p\<lparr>slock := lk\<rparr>)))"
    by (rule solo_attempt) (use dis lk in simp_all)
  then show ?thesis
    using solo_step [of "lstep i", OF 1 solo_step [of "lstep i", OF 2]] by (simp add: after_attempt.simps smp_eq)
qed

lemma solo_unlock:
  assumes "pcs s i = In" and "spinlock_unlock (slock s) (harts s i) = (lk, h')"
  shows "solo i s (set_pc i Out (set_hart i h' (s\<lparr>slock := lk\<rparr>)))"
proof -
  obtain irq h where dis: "arch_disable_interrupts (harts s i) = (irq, h)" by fastforce
  let ?s1 = "set_pc i (Release irq) (set_hart i h s)"
  let ?s2 = "set_pc i (Counter irq) (?s1\<lparr>slock := (slock ?s1)\<lparr>lock := 0\<rparr>\<rparr>)"
  let ?s3 = "set_pc i (Back irq) (set_hart i (arch_cpu_decrement_preempt_counter (harts ?s2 i)) ?s2)"
  have 1: "lstep i s ?s1" by (rule lstep.call_unlock [OF assms(1) dis])
  have 2: "lstep i ?s1 ?s2" by (rule lstep.release) simp
  have 3: "lstep i ?s2 ?s3" by (rule lstep.counter) simp
  have 4: "lstep i ?s3 (set_pc i Out (set_hart i (irq_restore irq (harts ?s3 i)) ?s3))"
    by (rule lstep.switch_back) simp
  show ?thesis
    using solo_step [of "lstep i", OF 1 solo_step [of "lstep i", OF 2 solo_step [of "lstep i", OF 3
      r_into_rtranclp [of "lstep i", OF 4]]]] assms(2) irq_restore_disable [OF dis]
    by (simp add: irq_restore_counter smp_eq)
qed

section \<open>Progress\<close>

text \<open>The owner of the lock can always go on to the release store.\<close>

definition frees :: "nat \<Rightarrow> smp \<Rightarrow> bool" where
  "frees j s \<longleftrightarrow> (\<exists>s'. solo j s s' \<and> lock (slock s') = 0 \<and> (\<forall>k. k \<noteq> j \<longrightarrow> pcs s' k = pcs s k)
     \<and> deadlock_detect_lock s' = deadlock_detect_lock s)"

lemma frees_step:
  assumes "lstep j s s1" and "pcs s1 = (pcs s)(j := c)" and "deadlock_detect_lock s1 = deadlock_detect_lock s"
    and "frees j s1"
  shows "frees j s"
proof -
  obtain s' where s': "solo j s1 s'" "lock (slock s') = 0" "\<forall>k. k \<noteq> j \<longrightarrow> pcs s' k = pcs s1 k"
    "deadlock_detect_lock s' = deadlock_detect_lock s1" using assms(4) by (auto simp: frees_def)
  have "solo j s s'" using solo_step [of "lstep j", OF assms(1) s'(1)] .
  then show ?thesis using s' assms(2,3) unfolding frees_def by (intro exI [of _ s']) simp
qed

lemma frees_Release: "pcs s j = Release irq \<Longrightarrow> frees j s"
  using lstep.release [of s j irq] unfolding frees_def
  by (intro exI [of _ "set_pc j (Counter irq) (s\<lparr>slock := (slock s)\<lparr>lock := 0\<rparr>\<rparr>)"]) auto

lemma frees_In:
  assumes "pcs s j = In" shows "frees j s"
proof -
  obtain irq h where dis: "arch_disable_interrupts (harts s j) = (irq, h)" by fastforce
  show ?thesis
    using frees_step [OF lstep.call_unlock [OF assms dis]] frees_Release by simp
qed

lemma frees_Leave: "pcs s j = Leave a irq 0 \<Longrightarrow> frees j s"
  using frees_step [OF lstep.leave [of s j a irq 0]] frees_In by (simp add: after_attempt.simps)

lemma frees_Won: "pcs s j = Won a irq \<Longrightarrow> frees j s"
  using frees_step [OF lstep.won [of s j a irq]] frees_Leave by simp

lemma owner_frees: "owns (pcs s j) \<Longrightarrow> frees j s"
  using frees_Release frees_In frees_Leave frees_Won by (cases "pcs s j") auto

text \<open>A hart that waits for a free lock takes it.\<close>

lemma waiting_enters:
  assumes "pcs s i = Loop n" and "lock (slock s) = 0" and "n < DEADLOCK_MAX_ITER"
  shows "\<exists>s'. solo i s s' \<and> pcs s' i = In"
proof -
  obtain irq h where dis: "arch_disable_interrupts (harts s i) = (irq, h)" by fastforce
  note 1 = lstep.loop_try [OF assms(1,3) dis]
  let ?s1 = "set_pc i (Tas (Some n) irq) (set_hart i h s)"
  note solo_win [of ?s1 i "Some n" irq]
  then show ?thesis using solo_step [of "lstep i", OF 1] assms(2) by fastforce
qed

lemma waiting_enters_late:
  assumes "pcs s i = Loop n" and "lock (slock s) = 0" and "deadlock_detect_lock s = 0"
  shows "\<exists>s'. solo i s s' \<and> pcs s' i = In"
proof (cases "n < DEADLOCK_MAX_ITER")
  case False
  let ?s1 = "set_pc i Detect s"
  let ?s2 = "set_pc i Report (?s1\<lparr>deadlock_detect_lock := 1\<rparr>)"
  let ?s3 = "set_pc i (Loop 0) (?s2\<lparr>deadlock_detect_lock := 0\<rparr>)"
  have 1: "lstep i s ?s1" by (rule lstep.loop_end [OF assms(1) False])
  have 2: "lstep i ?s1 ?s2" using lstep.detect [of ?s1 i 0 1] assms(3) by (simp add: locked_write_def)
  have 3: "lstep i ?s2 ?s3" using lstep.report [of ?s2 i 1 0] by (simp add: locked_write_def)
  have "\<exists>s'. solo i ?s3 s' \<and> pcs s' i = In"
    by (rule waiting_enters [of _ _ 0]) (simp_all add: assms(2) DEADLOCK_MAX_ITER_def)
  then show ?thesis
    using solo_step [of "lstep i", OF 1 solo_step [of "lstep i", OF 2 solo_step [of "lstep i", OF 3]]] by blast
qed (use waiting_enters assms in blast)

text \<open>Runs in which the harts move in any order.\<close>

definition any_step :: "smp \<Rightarrow> smp \<Rightarrow> bool" where
  "any_step s s' \<longleftrightarrow> (\<exists>i. lstep i s s')"

lemma solo_any: "solo i s s' \<Longrightarrow> any_step\<^sup>*\<^sup>* s s'"
  by (rule rtranclp_mono [THEN predicate2D, of "lstep i"]) (auto simp: any_step_def)

lemma lreach_any: "any_step\<^sup>*\<^sup>* s s' \<Longrightarrow> lreach s \<Longrightarrow> lreach s'"
  by (induction rule: rtranclp_induct) (auto simp: any_step_def intro: lreach.step)

lemma reporter_leaves:
  assumes "reported_by s ro"
  shows "\<exists>s'. any_step\<^sup>*\<^sup>* s s' \<and> deadlock_detect_lock s' = 0 \<and> slock s' = slock s
    \<and> (\<forall>k. pcs s k \<noteq> Report \<longrightarrow> pcs s' k = pcs s k)"
proof (cases ro)
  case None
  then show ?thesis using assms by (intro exI [of _ s]) (simp add: reported_by_def)
next
  case (Some k)
  then have "pcs s k = Report" using assms by (simp add: reported_by_def)
  then have "lstep k s (set_pc k (Loop 0) (s\<lparr>deadlock_detect_lock := 0\<rparr>))"
    using lstep.report [of s k] by (simp add: locked_write_def)
  then have "any_step\<^sup>*\<^sup>* s (set_pc k (Loop 0) (s\<lparr>deadlock_detect_lock := 0\<rparr>))"
    using solo_any by blast
  then show ?thesis
    using \<open>pcs s k = Report\<close>
    by (intro exI [of _ "set_pc k (Loop 0) (s\<lparr>deadlock_detect_lock := 0\<rparr>)"]) auto
qed

lemma lock_freed:
  assumes "owned_by s ow"
  shows "\<exists>s'. any_step\<^sup>*\<^sup>* s s' \<and> lock (slock s') = 0 \<and> (\<forall>k. \<not> owns (pcs s k) \<longrightarrow> pcs s' k = pcs s k)"
proof (cases ow)
  case None
  then show ?thesis using assms by (intro exI [of _ s]) (simp add: owned_by_def)
next
  case (Some j)
  then have "owns (pcs s j)" using assms by (simp add: owned_by_def)
  then obtain s' where "solo j s s'" "lock (slock s') = 0" "\<forall>k. k \<noteq> j \<longrightarrow> pcs s' k = pcs s k"
    using owner_frees [of s j] by (auto simp: frees_def)
  moreover have "pcs s' k = pcs s k" if "\<not> owns (pcs s k)" for k
    using that \<open>owns (pcs s j)\<close> calculation(3) by (cases "k = j") auto
  ultimately show ?thesis using solo_any by blast
qed

section \<open>Properties\<close>

text \<open>
  Property C30. Mutual exclusion. However the steps of any number of harts interleave, while one hart
  is between \<open>spinlock_lock\<close> or a successful \<open>spinlock_try_lock\<close> and \<open>spinlock_unlock\<close> no other hart
  is there or past a test-and-set that answered 0; the word of the lock is set and the record of
  the last acquirer names the hart that is inside.
\<close>

theorem spinlock_mutual_exclusion:
  assumes "lreach s" and "pcs s i = In"
  shows "(\<forall>j. owns (pcs s j) \<longleftrightarrow> j = i) \<and> lock (slock s) \<noteq> 0
    \<and> acq_cpu (last_acquirer (slock s)) = arch_cpu_get_index (harts s i)"
proof -
  obtain ow where "owned_by s ow" and rec: "record_inv s" using lreach_inv [OF assms(1)] by blast
  moreover have "owns (pcs s i)" using assms(2) by simp
  ultimately have "\<forall>j. owns (pcs s j) \<longleftrightarrow> j = i" and "lock (slock s) \<noteq> 0"
    by (auto simp: owned_by_def)
  then show ?thesis using rec assms(2) by (simp add: record_inv_def)
qed

text \<open>
  Property C31. The lock implements its specification: in every state the harts reach there is at
  most one owner, the word of the lock says whether there is one, and a step of a hart keeps the
  owner, or makes that hart the owner of a lock that had none, or takes the lock from that hart
  when it was the owner.
\<close>

theorem spinlock_refines_owner:
  assumes "lreach s" and "lstep i s s'"
  shows "\<exists>ow ow'. owned_by s ow \<and> owned_by s' ow' \<and> owner_step i ow ow'"
  using lreach_inv [OF assms(1)] lstep_owner [OF assms(2)] by blast

text \<open>
  Property C32. No deadlock on one lock: from every state the harts reach, a hart that waits in
  \<open>spinlock_lock\<close>, however long it has spun and whoever holds the lock or prints the deadlock
  message, gets the lock in some continuation of the run.
\<close>

theorem spinlock_no_deadlock:
  assumes "lreach s" and "pcs s i = Loop n"
  shows "\<exists>s'. any_step\<^sup>*\<^sup>* s s' \<and> pcs s' i = In"
proof -
  obtain ow where "owned_by s ow" using lreach_inv [OF assms(1)] by blast
  then obtain s1 where s1: "any_step\<^sup>*\<^sup>* s s1" "lock (slock s1) = 0" "pcs s1 i = Loop n"
    using lock_freed [of s ow] assms(2) by (metis owns.simps)
  then obtain ro where "reported_by s1 ro" using lreach_inv [OF lreach_any [OF s1(1) assms(1)]] by blast
  then obtain s2 where s2: "any_step\<^sup>*\<^sup>* s1 s2" "deadlock_detect_lock s2 = 0" "lock (slock s2) = 0" "pcs s2 i = Loop n"
    using reporter_leaves [of s1 ro] s1 by (metis lock_pc.distinct)
  then obtain s3 where "solo i s2 s3" "pcs s3 i = In" using waiting_enters_late by blast
  then show ?thesis using s1(1) s2(1) solo_any by (meson rtranclp_trans)
qed

text \<open>
  When no other hart moves, the steps of a hart compute the sequential functions: on a
  lock that \<open>spinlock_lock\<close> of the theory \<open>Spinlock\<close> returns from, the steps take the hart inside
  with the lock and the hart as that function leaves them, and the steps of \<open>spinlock_unlock\<close> take
  it out again with the lock and the hart as that function leaves them.
\<close>

theorem spinlock_steps_compute:
  assumes "pcs s i = Out" and "spinlock_lock pl (slock s) (harts s i) = Inr (lk, h)"
    and "spinlock_unlock lk h = (lk', h')"
  shows "\<exists>s1 s2. solo i s s1 \<and> slock s1 = lk \<and> harts s1 = (harts s)(i := h) \<and> pcs s1 = (pcs s)(i := In)
    \<and> solo i s1 s2 \<and> slock s2 = lk' \<and> harts s2 = (harts s)(i := h') \<and> pcs s2 = pcs s"
proof -
  let ?s1 = "set_pc i In (set_hart i h (s\<lparr>places := (places s)(i := pl), slock := lk\<rparr>))"
  have "solo i ?s1 (set_pc i Out (set_hart i h' (?s1\<lparr>slock := lk'\<rparr>)))"
    by (rule solo_unlock) (use assms(3) in simp_all)
  then show ?thesis
    using solo_lock [OF assms(1,2)] assms(1)
    by (intro exI [of _ ?s1] exI [of _ "set_pc i Out (set_hart i h' (?s1\<lparr>slock := lk'\<rparr>))"]) auto
qed

section \<open>Witnesses\<close>

definition sample_hart :: "u64 \<Rightarrow> hart" where
  "sample_hart n = \<lparr>cpu_is_inited = True,
     cpu_struct = \<lparr>currentCpu = n, threadUserStack = 0, threadKernelStack = 0, kernelStack = 0,
       preemptCounter = 0, currentPid = 0, currentTid = 0, currentTaskID = 0, ipiType = 0, flags = 0,
       isaFeatures = 0\<rparr>, sstatus = 2\<rparr>"

definition sample_smp :: smp where
  "sample_smp = \<lparr>slock = INIT_SPINLOCK, deadlock_detect_lock = 0, harts = (\<lambda>n. sample_hart (of_nat n)),
     pcs = (\<lambda>_. Out), places = (\<lambda>_. (''a.c'', ''f'', 1))\<rparr>"

text \<open>Hart 0 is inside; hart 1 has called \<open>spinlock_lock\<close> and waits.\<close>

definition sample_inside :: smp where
  "sample_inside = set_pc 1 (Loop 0) (set_pc 0 In (set_hart 0 (arch_cpu_increment_preempt_counter (sample_hart 0))
     (sample_smp\<lparr>slock := INIT_SPINLOCK\<lparr>lock := 1, last_acquirer := acquirer_of (''a.c'', ''f'', 1) (sample_hart 0)\<rparr>\<rparr>)))"

lemma sample_reach: "lreach sample_inside"
proof -
  have start: "lreach sample_smp" by (rule lreach.start) (simp_all add: sample_smp_def INIT_SPINLOCK_def)
  define s1 where "s1 = set_pc 0 In (set_hart 0 (arch_cpu_increment_preempt_counter (sample_hart 0))
     (sample_smp\<lparr>slock := INIT_SPINLOCK\<lparr>lock := 1, last_acquirer := acquirer_of (''a.c'', ''f'', 1) (sample_hart 0)\<rparr>\<rparr>))"
  have "solo 0 sample_smp s1"
    using solo_lock [of sample_smp 0 "(''a.c'', ''f'', 1)"]
    by (simp add: sample_smp_def INIT_SPINLOCK_def s1_def smp_eq fun_upd_idem)
  then have "lreach s1" using lreach_any solo_any start by blast
  moreover have "lstep 1 s1 sample_inside"
    using lstep.call_lock [of s1 1 "(''a.c'', ''f'', 1)"]
    by (simp add: s1_def sample_inside_def sample_smp_def smp_eq fun_upd_idem)
  ultimately show ?thesis by (rule lreach.step)
qed

lemma sample_pcs: "pcs sample_inside 0 = In" "pcs sample_inside 1 = Loop 0"
  by (simp_all add: sample_inside_def)

theorem spinlock_mutual_exclusion_witness:
  "pcs sample_inside 0 = In \<and> \<not> owns (pcs sample_inside 1) \<and> acq_cpu (last_acquirer (slock sample_inside)) = 0"
  using spinlock_mutual_exclusion [OF sample_reach sample_pcs(1)]
  by (simp add: sample_pcs sample_inside_def arch_cpu_get_index_def riscv_cpu_inited_def get_cpu_struct_def
      sample_hart_def arch_cpu_increment_preempt_counter_def)

theorem spinlock_refines_owner_witness:
  "\<exists>ow ow'. owned_by sample_inside ow \<and> owned_by (set_pc 1 (Tas (Some 0) True)
    (set_hart 1 ((sample_hart 1)\<lparr>sstatus := 0\<rparr>) sample_inside)) ow' \<and> owner_step 1 ow ow'"
proof -
  have "lstep 1 sample_inside (set_pc 1 (Tas (Some 0) True)
      (set_hart 1 ((sample_hart 1)\<lparr>sstatus := 0\<rparr>) sample_inside))"
    by (rule lstep.loop_try)
      (simp_all add: sample_inside_def sample_smp_def DEADLOCK_MAX_ITER_def arch_disable_interrupts_def
        sample_hart_def SSATUS_SIE_def)
  then show ?thesis by (rule spinlock_refines_owner [OF sample_reach])
qed

theorem spinlock_no_deadlock_witness: "\<exists>s'. any_step\<^sup>*\<^sup>* sample_inside s' \<and> pcs s' 1 = In"
  by (rule spinlock_no_deadlock [OF sample_reach sample_pcs(2)])

theorem spinlock_steps_compute_witness:
  "\<exists>s1 s2. solo 0 sample_smp s1 \<and> pcs s1 0 = In \<and> solo 0 s1 s2 \<and> pcs s2 0 = Out \<and> lock (slock s2) = 0"
proof -
  have "lock (slock sample_smp) = 0" and "pcs sample_smp 0 = Out"
    by (simp_all add: sample_smp_def INIT_SPINLOCK_def)
  then show ?thesis
    using spinlock_steps_compute [of sample_smp 0 "(''a.c'', ''f'', 1)"]
    by (fastforce simp: spinlock_lock_free)
qed

end
