(* ===== verification/Pmm.thy ===== *)
theory Pmm
  imports Mem_String Spinlock
begin

text \<open>
  The physical memory manager, \<open>kernel/mem/pmm.c\<close>: a bitmap with one bit per page frame (set means
  in use), read and written through the bit macros of \<open>kernel/arch/riscv64/defines.h\<close>, the counter
  of free pages and the lock. The bitmap is an array of 32-bit words indexed by word number; it
  has no end of its own in the source, and a scan that runs past \<open>PmmLength\<close> reads the words that
  follow it, as here. Page frames are reached through the direct map at \<open>MEM_PHYS_OFFSET\<close>.

  The words of the bitmap are a field of their own, while in the program they lie in the direct map,
  at \<open>PmmBitmap\<close>. The two agree as long as no store goes to the frames of the bitmap. \<open>pmm_init\<close> does not
  free those frames and allocation hands out free frames only, so its zeroing keeps away from them;
  a request that is refused zeroes memory from address 0 on, which may reach them. The invariant
  over clients below has this as a condition and proves that the zeroing never touches the bitmap.
\<close>

section \<open>State\<close>

record limine_memmap_entry =
  entry_base :: u64
  entry_length :: u64
  entry_type :: u64

definition LIMINE_MEMMAP_USABLE :: u64 where
  "LIMINE_MEMMAP_USABLE = 0"

record pmm = hart +
  bytes :: mem
  PmmBitmap :: addr
  bitmap :: "u64 \<Rightarrow> u32"
  PmmLength :: u64
  PmmFreePages :: u64
  MEM_PHYS_OFFSET :: u64
  PmmLock :: spinlock_t

section \<open>The bit macros\<close>

definition test_bit :: "(u64 \<Rightarrow> u32) \<Rightarrow> u64 \<Rightarrow> bool" where
  "test_bit bm bitpos = (bm (drop_bit 5 bitpos) AND push_bit (unat (bitpos AND 0x1F)) 1 \<noteq> 0)"

definition set_bit :: "(u64 \<Rightarrow> u32) \<Rightarrow> u64 \<Rightarrow> (u64 \<Rightarrow> u32)" where
  "set_bit bm bitpos =
     bm(drop_bit 5 bitpos := bm (drop_bit 5 bitpos) OR push_bit (unat (bitpos AND 0x1F)) 1)"

definition reset_bit :: "(u64 \<Rightarrow> u32) \<Rightarrow> u64 \<Rightarrow> (u64 \<Rightarrow> u32)" where
  "reset_bit bm bitpos =
     bm(drop_bit 5 bitpos := bm (drop_bit 5 bitpos) AND NOT (push_bit (unat (bitpos AND 0x1F)) 1))"

section \<open>Allocation\<close>

fun free_run :: "(u64 \<Rightarrow> u32) \<Rightarrow> u64 \<Rightarrow> nat \<Rightarrow> bool" where
  "free_run bm index 0 = True"
| "free_run bm index (Suc count) = (if test_bit bm index then False else free_run bm (index + 1) count)"

definition is_bitmap_page_free :: "(u64 \<Rightarrow> u32) \<Rightarrow> size_t \<Rightarrow> size_t \<Rightarrow> bool" where
  "is_bitmap_page_free bm index count = free_run bm index (unat count)"

text \<open>
  The scan of \<open>pmm_alloc_advanced\<close>: the first index, in steps of \<open>alignment\<close>, where \<open>count\<close> pages are
  free, or nothing once the index reaches \<open>PmmLength\<close>. With alignment 0 it may never end.
\<close>

partial_function (option) pmm_scan :: "(u64 \<Rightarrow> u32) \<Rightarrow> u64 \<Rightarrow> size_t \<Rightarrow> size_t \<Rightarrow> u64 \<Rightarrow> u64 option option" where
  "pmm_scan bm len count alignment index =
     (if index < len
      then (if \<not> is_bitmap_page_free bm index count
            then pmm_scan bm len count alignment (index + alignment)
            else Some (Some index))
      else Some None)"

function set_bits :: "(u64 \<Rightarrow> u32) \<Rightarrow> u64 \<Rightarrow> u64 \<Rightarrow> (u64 \<Rightarrow> u32)" where
  "set_bits bm i e = (if i < e then set_bits (set_bit bm i) (i + 1) e else bm)"
  by pat_completeness auto
termination
  by (relation "measure (\<lambda>(bm, i, e). unat e - unat i)") (auto simp: unat_Suc_u64 word_less_nat_alt)

declare set_bits.simps [simp del]

definition pmm_unlock :: "'a pmm_scheme \<Rightarrow> 'a pmm_scheme" where
  "pmm_unlock s = (case spinlock_unlock (PmmLock s) s of (lk, s) \<Rightarrow> s\<lparr>PmmLock := lk\<rparr>)"

definition pmm_lock :: "place \<Rightarrow> 'a pmm_scheme \<Rightarrow> 'a pmm_scheme res" where
  "pmm_lock pl s = bnd (spinlock_lock pl (PmmLock s) s) (\<lambda>(lk, s). Inr (s\<lparr>PmmLock := lk\<rparr>))"

definition pmm_alloc_advanced :: "size_t \<Rightarrow> size_t \<Rightarrow> 'a pmm_scheme \<Rightarrow> (addr \<times> 'a pmm_scheme) res" where
  "pmm_alloc_advanced count alignment s =
     bnd (pmm_lock (''pmm.c'', ''pmm_alloc_advanced'', 88) s) (\<lambda>s.
     case pmm_scan (bitmap s) (PmmLength s) count alignment 0 of
       None \<Rightarrow> Inl Hang
     | Some None \<Rightarrow> Inr (NULL, pmm_unlock s)
     | Some (Some index) \<Rightarrow>
         let s = (if PmmFreePages s \<noteq> 0 then s\<lparr>PmmFreePages := PmmFreePages s - count\<rparr> else s);
             s = s\<lparr>bitmap := set_bits (bitmap s) index (count + index)\<rparr>
         in Inr (index * PAGE_SIZE, pmm_unlock s))"

definition pmm_alloc :: "size_t \<Rightarrow> 'a pmm_scheme \<Rightarrow> (addr \<times> 'a pmm_scheme) res" where
  "pmm_alloc count s =
     bnd (pmm_alloc_advanced count 1 s) (\<lambda>(address, s).
     bnd (memset (bytes s) (address + MEM_PHYS_OFFSET s) 0 (PAGE_SIZE * count)) (\<lambda>(_, m).
     Inr (address, s\<lparr>bytes := m\<rparr>)))"

section \<open>Release\<close>

fun reset_bits :: "(u64 \<Rightarrow> u32) \<Rightarrow> u64 \<Rightarrow> nat \<Rightarrow> (u64 \<Rightarrow> u32)" where
  "reset_bits bm index 0 = bm"
| "reset_bits bm index (Suc count) = reset_bits (reset_bit bm index) (index + 1) count"

definition pmm_free :: "addr \<Rightarrow> size_t \<Rightarrow> 'a pmm_scheme \<Rightarrow> 'a pmm_scheme res" where
  "pmm_free address count s =
     (if address \<ge> MEM_PHYS_OFFSET s then Inl Hang
      else let index = address div PAGE_SIZE in
        bnd (pmm_lock (''pmm.c'', ''pmm_free'', 110) s) (\<lambda>s.
        let s = s\<lparr>PmmFreePages := PmmFreePages s + count\<rparr>;
            s = s\<lparr>bitmap := reset_bits (bitmap s) index (unat count)\<rparr>
        in Inr (pmm_unlock s)))"

section \<open>Initialisation\<close>

text \<open>
  \<open>pmm_choose\<close> is the first loop of \<open>pmm_init\<close> (its printing aside): it picks the region that will
  hold the bitmap. \<open>bitmap_fill\<close> is the \<open>memset\<close> of \<open>n\<close> bytes of ones over the 32-bit words of the
  bitmap: byte \<open>j\<close> of word \<open>i\<close> is set when \<open>4 i + j < n\<close>.
\<close>

fun pmm_choose :: "limine_memmap_entry list \<Rightarrow> addr \<times> u64 \<times> u64 \<Rightarrow> addr \<times> u64 \<times> u64" where
  "pmm_choose [] st = st"
| "pmm_choose (entry # entries) (bmp, len, maxBase) =
     (if entry_type entry = LIMINE_MEMMAP_USABLE \<and> entry_base entry > bmp
      then let newLength = (entry_base entry + entry_length entry + PAGE_SIZE - 1) div PAGE_SIZE
           in if entry_length entry > newLength
              then pmm_choose entries (entry_base entry, newLength, entry_base entry)
              else pmm_choose entries (bmp, len, maxBase)
      else pmm_choose entries (bmp, len, maxBase))"

definition bitmap_fill :: "u64 \<Rightarrow> (u64 \<Rightarrow> u32) \<Rightarrow> (u64 \<Rightarrow> u32)" where
  "bitmap_fill n bm = (\<lambda>i. bm i OR mask (8 * min 4 (unat n - 4 * unat i)))"

fun pmm_init_free :: "limine_memmap_entry list \<Rightarrow> u64 \<Rightarrow> 'a pmm_scheme \<Rightarrow> 'a pmm_scheme res" where
  "pmm_init_free [] maxBase s = Inr s"
| "pmm_init_free (entry # entries) maxBase s =
     bnd (if entry_type entry = LIMINE_MEMMAP_USABLE \<and> entry_base entry \<le> maxBase
          then if entry_base entry = maxBase
               then pmm_free (entry_base entry + ((PmmLength s div 8 + PAGE_SIZE - 1) div PAGE_SIZE) * PAGE_SIZE)
                      (entry_length entry div PAGE_SIZE - (PmmLength s div 8) div PAGE_SIZE) s
               else pmm_free (entry_base entry) (entry_length entry div PAGE_SIZE) s
          else Inr s)
       (\<lambda>s. pmm_init_free entries maxBase s)"

text \<open>The value of \<open>limine_get_hhdm()\<close>, the boot loader's direct-map offset, is an argument.\<close>

definition pmm_init :: "u64 \<Rightarrow> limine_memmap_entry list \<Rightarrow> 'a pmm_scheme \<Rightarrow> 'a pmm_scheme res" where
  "pmm_init hhdm entries s =
     (let s = s\<lparr>MEM_PHYS_OFFSET := hhdm\<rparr>;
          (bmp, len, maxBase) = pmm_choose entries (PmmBitmap s, PmmLength s, 0);
          s = s\<lparr>PmmBitmap := bmp, PmmLength := len\<rparr>
      in if PmmBitmap s = NULL then Inl Hang
         else let s = s\<lparr>PmmBitmap := PmmBitmap s + MEM_PHYS_OFFSET s\<rparr>;
                  s = s\<lparr>bitmap := bitmap_fill (PmmLength s div 8) (bitmap s)\<rparr>
              in bnd (pmm_init_free entries maxBase s) (\<lambda>s.
                 let s = s\<lparr>bitmap := set_bit (bitmap s) (0x1000 div PAGE_SIZE)\<rparr>;
                     s = s\<lparr>bitmap := set_bit (bitmap s) (0x2000 div PAGE_SIZE)\<rparr>
                 in Inr s))"

section \<open>Bits\<close>

lemma test_bit_bit: "test_bit bm i = bit (bm (drop_bit 5 i)) (unat (i AND 0x1F))"
  by (simp add: test_bit_def bit_iff_and_push_bit_not_eq_0)

lemma low5_less: "unat (i AND 0x1F :: u64) < 32"
proof -
  have "i AND 0x1F \<le> (0x1F :: u64)" by (rule word_and_le1)
  then show ?thesis by (simp add: word_le_nat_alt)
qed

lemma page_bit_split:
  assumes "drop_bit 5 i = drop_bit 5 (j :: u64)" and "unat (i AND 0x1F) = unat (j AND 0x1F)"
  shows "i = j"
proof (rule bit_word_eqI)
  fix n assume "n < LENGTH(64)"
  have "i AND mask 5 = j AND mask 5"
    using assms(2) by (simp add: mask_eq_exp_minus_1 word_unat_eq_iff)
  then have "bit i n = bit j n" if "n < 5"
    using that by (metis bit_and_iff bit_mask_iff bit_take_bit_iff take_bit_eq_mask)
  moreover have "bit i n = bit j n" if "5 \<le> n"
  proof -
    have "bit (drop_bit 5 i) (n - 5) = bit (drop_bit 5 j) (n - 5)"
      by (simp only: assms(1))
    then show ?thesis using that by (simp add: bit_drop_bit_eq)
  qed
  ultimately show "bit i n = bit j n" by linarith
qed

lemma test_set_bit [simp]: "test_bit (set_bit bm i) j \<longleftrightarrow> j = i \<or> test_bit bm j"
  using low5_less [of i] low5_less [of j]
  by (auto simp: test_bit_bit set_bit_def bit_simps dest: page_bit_split)

lemma test_reset_bit [simp]: "test_bit (reset_bit bm i) j \<longleftrightarrow> j \<noteq> i \<and> test_bit bm j"
  using low5_less [of i] low5_less [of j]
  by (auto simp: test_bit_bit reset_bit_def bit_simps dest: page_bit_split)

lemma test_set_bits: "test_bit (set_bits bm i e) j \<longleftrightarrow> test_bit bm j \<or> (i \<le> j \<and> j < e)"
proof (induction bm i e rule: set_bits.induct)
  case (1 bm i e)
  show ?case
  proof (cases "i < e")
    case True
    then have "i \<le> j \<longleftrightarrow> j = i \<or> i + 1 \<le> j"
      using unat_Suc_u64 [OF True] by (auto simp: word_le_nat_alt word_unat_eq_iff)
    then show ?thesis using True 1 by (subst set_bits.simps) auto
  next
    case False
    then show ?thesis by (subst set_bits.simps) auto
  qed
qed

lemma free_run_numeral [simp]:
  "free_run bm i (numeral n) = (if test_bit bm i then False else free_run bm (i + 1) (pred_numeral n))"
  by (simp add: numeral_eq_Suc)

lemma free_run_iff: "free_run bm i n \<longleftrightarrow> (\<forall>k<n. \<not> test_bit bm (i + of_nat k))"
  by (induction n arbitrary: i) (auto simp: All_less_Suc2 add.assoc)

lemma test_reset_bits:
  "n \<le> 2 ^ 64 \<Longrightarrow> test_bit (reset_bits bm i n) j \<longleftrightarrow> test_bit bm j \<and> \<not> in_span i n j"
proof (induction n arbitrary: bm i)
  case (Suc n)
  then show ?case by (auto simp: in_span_Suc)
qed simp


section \<open>The scan\<close>

lemma pmm_scan_found:
  assumes "pmm_scan bm len count al i = Some (Some r)"
  shows "r < len \<and> is_bitmap_page_free bm r count \<and>
    (\<exists>k. r = i + of_nat k * al \<and> (\<forall>j<k. \<not> is_bitmap_page_free bm (i + of_nat j * al) count))"
    (is "?found bm len count al i r")
proof -
  have "\<forall>r. res = Some r \<longrightarrow> ?found bm len count al i r" if "pmm_scan bm len count al i = Some res" for res
  proof (rule pmm_scan.raw_induct [where
      P = "\<lambda>bm len count al i res. \<forall>r. res = Some r \<longrightarrow> ?found bm len count al i r", OF _ that])
    fix scan and bm :: "u64 \<Rightarrow> u32" and len count al i res
    assume IH: "\<And>bm len count al i res. scan bm len count al i = Some res \<Longrightarrow>
        \<forall>r. res = Some r \<longrightarrow> ?found bm len count al i r"
      and eq: "(if i < len then if \<not> is_bitmap_page_free bm i count then scan bm len count al (i + al)
        else Some (Some i) else Some None) = Some res"
    show "\<forall>r. res = Some r \<longrightarrow> ?found bm len count al i r"
    proof (cases "i < len \<and> \<not> is_bitmap_page_free bm i count")
      case True
      with eq have "scan bm len count al (i + al) = Some res" by simp
      note found = IH [OF this]
      show ?thesis
      proof (intro allI impI)
        fix r assume "res = Some r"
        with found obtain k where r: "r < len" "is_bitmap_page_free bm r count"
          "r = i + al + of_nat k * al" and k: "\<forall>j<k. \<not> is_bitmap_page_free bm (i + al + of_nat j * al) count"
          by blast
        have "r = i + of_nat (Suc k) * al" using r(3) by (simp add: algebra_simps)
        moreover have "\<forall>j<Suc k. \<not> is_bitmap_page_free bm (i + of_nat j * al) count"
          using True k by (simp add: All_less_Suc2 algebra_simps)
        ultimately show "?found bm len count al i r" using r(1,2) by blast
      qed
    next
      case False
      moreover have "i = i + of_nat 0 * al" by simp
      ultimately show ?thesis using eq by (metis not_None_eq not_less_zero option.inject)
    qed
  qed
  with assms show ?thesis by blast
qed

text \<open>A scan that gives up has tried every candidate below the end.\<close>

lemma pmm_scan_none:
  assumes "pmm_scan bm len count al i = Some None" and "unat i + k * unat al < unat len"
  shows "\<not> is_bitmap_page_free bm (i + of_nat k * al) count"
  using assms
proof (induction k arbitrary: i)
  case 0
  then show ?case
    by (subst (asm) pmm_scan.simps) (auto simp: word_less_nat_alt split: if_splits)
next
  case (Suc k)
  have "i < len" using Suc.prems(2) by (simp add: word_less_nat_alt)
  then have next_scan: "pmm_scan bm len count al (i + al) = Some None"
    using Suc.prems(1) by (subst (asm) pmm_scan.simps) (auto split: if_splits)
  have "unat (i + al) = unat i + unat al"
    using Suc.prems(2) unat_u64_less [of len] by (intro unat_add_u64) simp
  then show ?case
    using Suc.IH [OF next_scan] Suc.prems(2) by (simp add: algebra_simps)
qed

lemma pmm_scan_returns:
  assumes "al \<noteq> 0" and "unat len + unat al \<le> 2 ^ 64"
  shows "\<exists>r. pmm_scan bm len count al i = Some r"
proof (induction "unat len - unat i" arbitrary: i rule: less_induct)
  case less
  show ?case
  proof (cases "i < len \<and> \<not> is_bitmap_page_free bm i count")
    case True
    then have "unat (i + al) = unat i + unat al" and "0 < unat al"
      using assms by (auto simp: word_less_nat_alt unat_add_u64 unat_gt_0)
    then have "\<exists>r. pmm_scan bm len count al (i + al) = Some r"
      using True by (intro less.hyps) (auto simp: word_less_nat_alt)
    then show ?thesis using True by (subst pmm_scan.simps) simp
  next
    case False
    then show ?thesis by (subst pmm_scan.simps) auto
  qed
qed

section \<open>What one call does\<close>

lemmas preempt_defs = arch_cpu_increment_preempt_counter_def arch_cpu_decrement_preempt_counter_def
  riscv_cpu_inited_def

text \<open>The lock after a call: free again, with the call recorded as its last holder.\<close>

definition pmm_released :: "place \<Rightarrow> 'a pmm_scheme \<Rightarrow> spinlock_t" where
  "pmm_released pl s = (PmmLock s)\<lparr>last_acquirer := acquirer_of pl s\<rparr>"

lemma lock_pmm_released [simp]: "lock (pmm_released pl s) = lock (PmmLock s)"
  by (simp add: pmm_released_def)

definition pmm_taken :: "size_t \<Rightarrow> u64 \<Rightarrow> 'a pmm_scheme \<Rightarrow> 'a pmm_scheme" where
  "pmm_taken count index s = s\<lparr>PmmLock := pmm_released (''pmm.c'', ''pmm_alloc_advanced'', 88) s,
     PmmFreePages := (if PmmFreePages s \<noteq> 0 then PmmFreePages s - count else 0),
     bitmap := set_bits (bitmap s) index (count + index)\<rparr>"

definition pmm_released_pages :: "u64 \<Rightarrow> size_t \<Rightarrow> 'a pmm_scheme \<Rightarrow> 'a pmm_scheme" where
  "pmm_released_pages index count s = s\<lparr>PmmLock := pmm_released (''pmm.c'', ''pmm_free'', 110) s,
     PmmFreePages := PmmFreePages s + count, bitmap := reset_bits (bitmap s) index (unat count)\<rparr>"

lemma pmm_alloc_advanced_eq:
  assumes "lock (PmmLock s) = 0"
  shows "pmm_alloc_advanced count al s = (case pmm_scan (bitmap s) (PmmLength s) count al 0 of
      None \<Rightarrow> Inl Hang
    | Some None \<Rightarrow> Inr (NULL, s\<lparr>PmmLock := pmm_released (''pmm.c'', ''pmm_alloc_advanced'', 88) s\<rparr>)
    | Some (Some index) \<Rightarrow> Inr (index * PAGE_SIZE, pmm_taken count index s))"
  using assms
  by (simp add: pmm_alloc_advanced_def pmm_lock_def pmm_unlock_def pmm_released_def pmm_taken_def
      preempt_defs Let_def split: option.split)

lemma pmm_free_eq:
  assumes "lock (PmmLock s) = 0" and "address < MEM_PHYS_OFFSET s"
  shows "pmm_free address count s = Inr (pmm_released_pages (address div PAGE_SIZE) count s)"
  using assms
  by (simp add: pmm_free_def pmm_lock_def pmm_unlock_def pmm_released_def pmm_released_pages_def
      preempt_defs Let_def)

lemma pmm_alloc_advanced_locked:
  "lock (PmmLock s) \<noteq> 0 \<Longrightarrow> pmm_alloc_advanced count al s = Inl Hang"
  by (simp add: pmm_alloc_advanced_def pmm_lock_def)


section \<open>Well-formed states\<close>

text \<open>
  \<open>lim\<close> is a page number at or past \<open>PmmLength\<close> whose bit is set: a scan that starts below
  \<open>PmmLength\<close> cannot run over it, so every run it finds ends at or below \<open>lim\<close>. The page frames
  below \<open>lim\<close> are in the direct map, which lies above them. Frame 0 is in use, so that address 0
  is never the address of an allocation.
\<close>

definition pmm_ok :: "u64 \<Rightarrow> 'a pmm_scheme \<Rightarrow> bool" where
  "pmm_ok lim s \<longleftrightarrow> lock (PmmLock s) = 0 \<and> test_bit (bitmap s) 0 \<and>
     PmmLength s \<le> lim \<and> test_bit (bitmap s) lim \<and>
     unat lim * 4096 \<le> unat (MEM_PHYS_OFFSET s) \<and> unat (MEM_PHYS_OFFSET s) + unat lim * 4096 \<le> 2 ^ 64 \<and>
     mapped (bytes s) (MEM_PHYS_OFFSET s) (unat lim * 4096)"

definition in_use :: "'a pmm_scheme \<Rightarrow> u64 set" where
  "in_use s = {j. test_bit (bitmap s) j}"

definition frames :: "addr \<Rightarrow> size_t \<Rightarrow> u64 set" where
  "frames a n = {j. in_span (a div PAGE_SIZE) (unat n) j}"

text \<open>A page-aligned range of frames below \<open>lim\<close>, frame 0 excluded.\<close>

definition frame_range :: "u64 \<Rightarrow> addr \<Rightarrow> size_t \<Rightarrow> bool" where
  "frame_range lim a n \<longleftrightarrow> 
     (\<exists>i. a = i * PAGE_SIZE \<and> i \<noteq> 0 \<and> i < lim \<and> unat i + unat n \<le> unat lim)"

lemma pmm_ok_lim: "pmm_ok lim s \<Longrightarrow> unat lim < 2 ^ 52"
  using unat_u64_less [of "MEM_PHYS_OFFSET s"] by (simp add: pmm_ok_def)

lemma page_addr:
  assumes "unat i < 2 ^ 52"
  shows "unat (i * PAGE_SIZE) = unat i * 4096" and "(i * PAGE_SIZE) div PAGE_SIZE = i"
proof -
  show u: "unat (i * PAGE_SIZE) = unat i * 4096"
    using assms by (simp add: PAGE_SIZE_def unat_mult_u64)
  have "unat ((i * PAGE_SIZE) div PAGE_SIZE) = unat i"
    using u by (simp add: unat_div PAGE_SIZE_def)
  then show "(i * PAGE_SIZE) div PAGE_SIZE = i" by (simp add: word_unat_eq_iff)
qed

lemma run_below_lim:
  assumes "test_bit bm lim" and "i \<le> lim" and "is_bitmap_page_free bm i count"
  shows "unat i + unat count \<le> unat lim"
proof (rule ccontr)
  assume "\<not> unat i + unat count \<le> unat lim"
  then have "unat lim - unat i < unat count" and "i + of_nat (unat lim - unat i) = lim"
    using assms(2) by (auto simp: word_le_nat_alt of_nat_diff)
  then show False
    using assms(1,3) by (auto simp: is_bitmap_page_free_def free_run_iff)
qed

lemma free_run_span:
  "is_bitmap_page_free bm i count \<longleftrightarrow> (\<forall>j. in_span i (unat count) j \<longrightarrow> \<not> test_bit bm j)"
  unfolding is_bitmap_page_free_def free_run_iff
  using unat_u64_less [of count] by (intro span_all) simp

lemma set_bits_span:
  assumes "unat i + unat count < 2 ^ 64"
  shows "test_bit (set_bits bm i (count + i)) j \<longleftrightarrow> test_bit bm j \<or> in_span i (unat count) j"
proof -
  have "unat (count + i) = unat i + unat count"
    using assms by (simp add: unat_add_u64 add.commute)
  then show ?thesis
    using assms by (auto simp: test_set_bits in_span_iff word_le_nat_alt word_less_nat_alt)
qed


lemma frame_range_div:
  assumes "frame_range lim a n" and "unat lim < 2 ^ 52"
  defines "i \<equiv> a div PAGE_SIZE"
  shows "a = i * PAGE_SIZE" and "unat a = unat i * 4096" and "0 < unat i" and "unat i < unat lim"
    and "unat i + unat n \<le> unat lim"
    and "j \<in> frames a n \<longleftrightarrow> unat i \<le> unat j \<and> unat j < unat i + unat n"
proof -
  obtain k where k: "a = k * PAGE_SIZE" "k \<noteq> 0" "k < lim" "unat k + unat n \<le> unat lim"
    using assms(1) by (auto simp: frame_range_def)
  have "unat k < 2 ^ 52" using k(4) assms(2) by linarith
  note pa = page_addr [OF this]
  then have i: "i = k" by (simp add: i_def k(1))
  show "a = i * PAGE_SIZE" and "unat a = unat i * 4096" and "0 < unat i" and "unat i < unat lim"
    and "unat i + unat n \<le> unat lim"
    using k pa by (simp_all add: i unat_gt_0 word_less_nat_alt)
  have "unat i + unat n \<le> 2 ^ 64" using k(4) assms(2) by (simp add: i)
  then show "j \<in> frames a n \<longleftrightarrow> unat i \<le> unat j \<and> unat j < unat i + unat n"
    by (simp add: frames_def i_def [symmetric] in_span_iff)
qed

text \<open>A successful allocation, in full.\<close>

lemma pmm_alloc_advanced_success:
  assumes ok: "pmm_ok lim s" and call: "pmm_alloc_advanced count al s = Inr (a, s')" and "a \<noteq> NULL"
  obtains i where "a = i * PAGE_SIZE" and "frame_range lim a count" and "unat i + unat count \<le> unat lim"
    and "is_bitmap_page_free (bitmap s) i count" and "i < PmmLength s"
    and "s' = pmm_taken count i s"
proof -
  have lk: "lock (PmmLock s) = 0" and lim: "test_bit (bitmap s) lim" "PmmLength s \<le> lim"
    using ok by (simp_all add: pmm_ok_def)
  from call \<open>a \<noteq> NULL\<close> obtain i where scan: "pmm_scan (bitmap s) (PmmLength s) count al 0 = Some (Some i)"
    and a: "a = i * PAGE_SIZE" and s': "s' = pmm_taken count i s"
    by (auto simp: pmm_alloc_advanced_eq [OF lk] split: option.splits)
  note found = pmm_scan_found [OF scan]
  then have "i < lim" using lim(2) by auto
  then have run: "unat i + unat count \<le> unat lim"
    using run_below_lim [OF lim(1)] found by (simp add: less_imp_le)
  moreover have "i \<noteq> 0" using a \<open>a \<noteq> NULL\<close> by auto
  ultimately have "frame_range lim a count" using a \<open>i < lim\<close> by (auto simp: frame_range_def)
  with a s' found run show ?thesis by (intro that [of i]) auto
qed

lemma in_use_taken:
  assumes "unat i + unat count \<le> unat lim" and "unat lim < 2 ^ 52"
  shows "in_use (pmm_taken count i s) = in_use s \<union> frames (i * PAGE_SIZE) count"
proof -
  have "(i * PAGE_SIZE) div PAGE_SIZE = i"
    using assms by (intro page_addr) linarith
  moreover have "unat i + unat count < 2 ^ 64" using assms by simp
  ultimately show ?thesis
    by (auto simp: in_use_def frames_def pmm_taken_def set_bits_span)
qed

lemma in_use_released: "in_use (pmm_released_pages (a div PAGE_SIZE) count s) = in_use s - frames a count"
  using unat_u64_less [of count]
  by (auto simp: in_use_def frames_def pmm_released_pages_def test_reset_bits)

lemma frame_range_bounds:
  assumes "frame_range lim a count" and "unat lim < 2 ^ 52"
  shows "0 \<notin> frames a count" and "lim \<notin> frames a count" and "unat a < unat lim * 4096"
  using frame_range_div [OF assms] by auto

lemma pmm_ok_taken:
  assumes "pmm_ok lim s" and "unat i + unat count \<le> unat lim"
  shows "pmm_ok lim (pmm_taken count i s)"
proof -
  have "in_use s \<subseteq> in_use (pmm_taken count i s)"
    by (simp add: in_use_taken [OF assms(2) pmm_ok_lim [OF assms(1)]])
  then show ?thesis
    using assms(1) unfolding pmm_ok_def in_use_def by (auto simp: pmm_taken_def)
qed

lemma pmm_ok_released:
  assumes "pmm_ok lim s" and "frame_range lim a count"
  shows "pmm_ok lim (pmm_released_pages (a div PAGE_SIZE) count s)"
proof -
  have "0 \<in> in_use (pmm_released_pages (a div PAGE_SIZE) count s)"
    and "lim \<in> in_use (pmm_released_pages (a div PAGE_SIZE) count s)"
    using assms frame_range_bounds [OF assms(2) pmm_ok_lim [OF assms(1)]]
    by (simp_all add: in_use_released) (simp_all add: pmm_ok_def in_use_def)
  then show ?thesis
    using assms(1) unfolding pmm_ok_def in_use_def by (auto simp: pmm_released_pages_def)
qed

lemma pmm_free_ok:
  assumes "pmm_ok lim s" and "frame_range lim a count"
  shows "pmm_free a count s = Inr (pmm_released_pages (a div PAGE_SIZE) count s)"
proof (rule pmm_free_eq)
  show "lock (PmmLock s) = 0" using assms(1) by (simp add: pmm_ok_def)
  show "a < MEM_PHYS_OFFSET s"
    using assms(1) frame_range_bounds(3) [OF assms(2) pmm_ok_lim [OF assms(1)]]
    by (simp add: pmm_ok_def word_less_nat_alt)
qed


text \<open>The zeroing of \<open>pmm_alloc\<close> stays inside the direct map.\<close>

lemma direct_map_span:
  assumes "pmm_ok lim s" and "unat i + unat count \<le> unat lim"
  shows "unat (PAGE_SIZE * count) = 4096 * unat count"
    and "mapped (bytes s) (i * PAGE_SIZE + MEM_PHYS_OFFSET s) (4096 * unat count)"
proof -
  have lim: "unat lim < 2 ^ 52" using assms(1) by (rule pmm_ok_lim)
  then show "unat (PAGE_SIZE * count) = 4096 * unat count"
    using assms(2) by (simp add: PAGE_SIZE_def unat_mult_u64)
  have "mapped (bytes s) (MEM_PHYS_OFFSET s) (unat lim * 4096)"
    using assms(1) by (simp add: pmm_ok_def)
  then have "mapped (bytes s) (MEM_PHYS_OFFSET s + of_nat (unat i * 4096)) (4096 * unat count)"
    by (rule mapped_sub) (use assms(2) in simp)
  then show "mapped (bytes s) (i * PAGE_SIZE + MEM_PHYS_OFFSET s) (4096 * unat count)"
    by (simp add: PAGE_SIZE_def add.commute mult.commute)
qed

lemma pmm_alloc_success:
  assumes ok: "pmm_ok lim s" and call: "pmm_alloc count s = Inr (a, s')" and "a \<noteq> NULL"
  obtains i where "a = i * PAGE_SIZE" and "frame_range lim a count" and "unat i + unat count \<le> unat lim"
    and "is_bitmap_page_free (bitmap s) i count" and "i < PmmLength s"
    and "s' = (pmm_taken count i s)\<lparr>bytes := filled (bytes s) (a + MEM_PHYS_OFFSET s) 0 (4096 * unat count)\<rparr>"
proof -
  from call obtain s1 r m where adv: "pmm_alloc_advanced count 1 s = Inr (a, s1)"
    and ms: "memset (bytes s1) (a + MEM_PHYS_OFFSET s1) 0 (PAGE_SIZE * count) = Inr (r, m)"
    and s': "s' = s1\<lparr>bytes := m\<rparr>"
    by (auto simp: pmm_alloc_def bnd_eq_Inr)
  from pmm_alloc_advanced_success [OF ok adv \<open>a \<noteq> NULL\<close>]
  obtain i where i: "a = i * PAGE_SIZE" "frame_range lim a count" "unat i + unat count \<le> unat lim"
    "is_bitmap_page_free (bitmap s) i count" "i < PmmLength s" and s1: "s1 = pmm_taken count i s"
    by metis
  have same: "bytes s1 = bytes s" "MEM_PHYS_OFFSET s1 = MEM_PHYS_OFFSET s"
    by (simp_all add: s1 pmm_taken_def)
  have "m = filled (bytes s) (a + MEM_PHYS_OFFSET s) 0 (4096 * unat count)"
    using ms direct_map_span [OF ok i(3)] by (auto simp: same memset_eq i(1))
  with i s' s1 show ?thesis by (intro that [of i]) auto
qed

lemma filled_mapped: "mapped m p n \<Longrightarrow> mapped (filled m q c k) p n"
  by (auto simp: mapped_def filled_def)

lemma pmm_alloc_ok:
  assumes "pmm_ok lim s" and "pmm_alloc count s = Inr (a, s')" and "a \<noteq> NULL"
  shows "pmm_ok lim s'"
  using assms
proof (rule pmm_alloc_success)
  fix i
  assume "unat i + unat count \<le> unat lim"
    and s': "s' = (pmm_taken count i s)\<lparr>bytes := filled (bytes s) (a + MEM_PHYS_OFFSET s) 0 (4096 * unat count)\<rparr>"
  then have "pmm_ok lim (pmm_taken count i s)"
    using assms(1) by (intro pmm_ok_taken)
  moreover have "bytes (pmm_taken count i s) = bytes s" by (simp add: pmm_taken_def)
  ultimately show "pmm_ok lim s'"
    by (simp add: s' pmm_ok_def filled_mapped)
qed

text \<open>An allocation succeeds whenever a run of free pages exists.\<close>

lemma pmm_alloc_finds:
  assumes ok: "pmm_ok lim s" and run: "is_bitmap_page_free (bitmap s) i count" and "i < PmmLength s"
    and "count \<noteq> 0"
  shows "\<exists>a s'. pmm_alloc count s = Inr (a, s') \<and> a \<noteq> NULL"
proof -
  have lk: "lock (PmmLock s) = 0" and zero: "test_bit (bitmap s) 0"
    and lim: "test_bit (bitmap s) lim" "PmmLength s \<le> lim"
    using ok by (simp_all add: pmm_ok_def)
  have l52: "unat lim < 2 ^ 52" using ok by (rule pmm_ok_lim)
  have "unat (PmmLength s) + unat (1 :: u64) \<le> 2 ^ 64"
    using lim(2) l52 by (simp add: word_le_nat_alt)
  then obtain r where scan: "pmm_scan (bitmap s) (PmmLength s) count 1 0 = Some r"
    using pmm_scan_returns [of 1 "PmmLength s" "bitmap s" count 0] by auto
  have "r \<noteq> None"
  proof
    assume "r = None"
    then have "\<not> is_bitmap_page_free (bitmap s) (0 + of_nat (unat i) * 1) count"
      using scan \<open>i < PmmLength s\<close> by (intro pmm_scan_none) (auto simp: word_less_nat_alt)
    with run show False by simp
  qed
  then obtain k where k: "pmm_scan (bitmap s) (PmmLength s) count 1 0 = Some (Some k)"
    using scan by auto
  note found = pmm_scan_found [OF k]
  have kl: "unat k + unat count \<le> unat lim"
    using found lim by (intro run_below_lim [OF lim(1)]) auto
  have "\<not> test_bit (bitmap s) k"
    using found \<open>count \<noteq> 0\<close> by (simp add: free_run_span in_span_def unat_gt_0)
  then have "k \<noteq> 0" using zero by metis
  then have "k * PAGE_SIZE \<noteq> 0"
    using page_addr(2) [of k] kl l52 by auto
  moreover have "pmm_alloc count s = Inr (k * PAGE_SIZE, (pmm_taken count k s)
      \<lparr>bytes := filled (bytes s) (k * PAGE_SIZE + MEM_PHYS_OFFSET s) 0 (4096 * unat count)\<rparr>)"
    using direct_map_span [OF ok kl]
    by (simp add: pmm_alloc_def pmm_alloc_advanced_eq [OF lk] k memset_eq) (simp add: pmm_taken_def memset_eq)
  ultimately show ?thesis by blast
qed


section \<open>The interface: a source of page frames\<close>

text \<open>
  What the users of the page allocator rely on: in a well-formed state an allocation that does
  not return null hands out frames nobody holds and marks exactly those, and giving a range
  back that is held makes exactly its frames available again.
\<close>

locale frame_source =
  fixes ok :: "'s \<Rightarrow> bool"
    and alloc :: "size_t \<Rightarrow> 's \<Rightarrow> (addr \<times> 's) res"
    and free :: "addr \<Rightarrow> size_t \<Rightarrow> 's \<Rightarrow> 's res"
    and taken :: "'s \<Rightarrow> u64 set"
    and range :: "addr \<Rightarrow> size_t \<Rightarrow> bool"
  assumes alloc_keeps: "ok s \<Longrightarrow> alloc n s = Inr (a, s') \<Longrightarrow> a \<noteq> NULL \<Longrightarrow> ok s'"
    and alloc_range: "ok s \<Longrightarrow> alloc n s = Inr (a, s') \<Longrightarrow> a \<noteq> NULL \<Longrightarrow> range a n"
    and alloc_fresh: "ok s \<Longrightarrow> alloc n s = Inr (a, s') \<Longrightarrow> a \<noteq> NULL \<Longrightarrow> frames a n \<inter> taken s = {}"
    and alloc_takes: "ok s \<Longrightarrow> alloc n s = Inr (a, s') \<Longrightarrow> a \<noteq> NULL \<Longrightarrow> taken s' = taken s \<union> frames a n"
    and free_returns: "ok s \<Longrightarrow> range a n \<Longrightarrow> \<exists>s'. free a n s = Inr s'"
    and free_keeps: "ok s \<Longrightarrow> range a n \<Longrightarrow> free a n s = Inr s' \<Longrightarrow> ok s'"
    and free_gives: "ok s \<Longrightarrow> range a n \<Longrightarrow> free a n s = Inr s' \<Longrightarrow> taken s' = taken s - frames a n"
begin

lemma two_allocs_apart:
  assumes "ok s" and "alloc n s = Inr (a, s1)" and "a \<noteq> NULL"
    and "alloc k s1 = Inr (b, s2)" and "b \<noteq> NULL"
  shows "frames a n \<inter> frames b k = {}"
  using assms alloc_keeps alloc_fresh alloc_takes by blast

lemma alloc_then_free:
  assumes "ok s" and "alloc n s = Inr (a, s1)" and "a \<noteq> NULL"
  shows "\<exists>s2. free a n s1 = Inr s2 \<and> ok s2 \<and> taken s2 = taken s"
proof -
  have "ok s1" and "range a n" using assms alloc_keeps alloc_range by blast+
  then obtain s2 where s2: "free a n s1 = Inr s2" using free_returns by blast
  moreover have "ok s2" using \<open>ok s1\<close> \<open>range a n\<close> s2 by (rule free_keeps)
  moreover have "taken s2 = taken s"
    using free_gives [OF \<open>ok s1\<close> \<open>range a n\<close> s2] alloc_takes [OF assms] alloc_fresh [OF assms] by blast
  ultimately show ?thesis by blast
qed

lemma held_not_reissued:
  assumes "ok s" and "F \<subseteq> taken s" and "alloc n s = Inr (a, s')" and "a \<noteq> NULL"
  shows "frames a n \<inter> F = {}" and "F \<subseteq> taken s'"
  using assms alloc_fresh alloc_takes by blast+

end

interpretation pm: frame_source "pmm_ok lim" pmm_alloc pmm_free in_use "frame_range lim" for lim
proof
  fix s :: "'a pmm_scheme" and n a s'
  assume ok: "pmm_ok lim s" and call: "pmm_alloc n s = Inr (a, s')" and nn: "a \<noteq> NULL"
  from ok call nn show "pmm_ok lim s'" by (rule pmm_alloc_ok)
  from ok call nn obtain i where i: "a = i * PAGE_SIZE" "unat i + unat n \<le> unat lim"
    and fr: "frame_range lim a n" and free: "is_bitmap_page_free (bitmap s) i n"
    and s': "s' = (pmm_taken n i s)\<lparr>bytes := filled (bytes s) (a + MEM_PHYS_OFFSET s) 0 (4096 * unat n)\<rparr>"
    by (rule pmm_alloc_success)
  show "frame_range lim a n" by (rule fr)
  have l52: "unat lim < 2 ^ 52" using ok by (rule pmm_ok_lim)
  then have "a div PAGE_SIZE = i"
    unfolding i(1) using i(2) by (intro page_addr) linarith
  then show "frames a n \<inter> in_use s = {}"
    using free by (auto simp: frames_def in_use_def free_run_span)
  have "in_use s' = in_use (pmm_taken n i s)" by (simp add: s' in_use_def)
  then show "in_use s' = in_use s \<union> frames a n"
    by (simp add: in_use_taken [OF i(2) l52] i(1))
next
  fix s :: "'a pmm_scheme" and a n
  assume ok: "pmm_ok lim s" and fr: "frame_range lim a n"
  then show "\<exists>s'. pmm_free a n s = Inr s'" by (simp add: pmm_free_ok)
  fix s' assume "pmm_free a n s = Inr s'"
  then have s': "s' = pmm_released_pages (a div PAGE_SIZE) n s" using ok fr by (simp add: pmm_free_ok)
  show "pmm_ok lim s'" unfolding s' using ok fr by (rule pmm_ok_released)
  show "in_use s' = in_use s - frames a n" unfolding s' by (rule in_use_released)
qed


section \<open>Accounting\<close>

lemma card_span: "n \<le> 2 ^ 64 \<Longrightarrow> card {j :: u64. in_span i n j} = n"
proof (induction n arbitrary: i)
  case (Suc n)
  then have "{j. in_span i (Suc n) j} = insert i {j. in_span (i + 1) n j}"
    by (auto simp: in_span_Suc)
  with Suc show ?case by (simp add: not_in_span_next)
qed simp

lemma card_frames [simp]: "card (frames a n) = unat n"
  using unat_u64_less [of n] by (simp add: frames_def card_span)

text \<open>The number of free frames below \<open>lim\<close>, which \<open>PmmFreePages\<close> is meant to track.\<close>

definition free_frames :: "u64 \<Rightarrow> 'a pmm_scheme \<Rightarrow> nat" where
  "free_frames lim s = card {j. j < lim \<and> j \<notin> in_use s}"

lemma frames_below:
  assumes "frame_range lim a n" and "unat lim < 2 ^ 52"
  shows "frames a n \<subseteq> {j. j < lim}"
proof
  fix j assume "j \<in> frames a n"
  then have "unat j < unat (a div PAGE_SIZE) + unat n"
    by (simp add: frame_range_div(6) [OF assms])
  also have "\<dots> \<le> unat lim" by (rule frame_range_div(5) [OF assms])
  finally show "j \<in> {j. j < lim}" by (simp add: word_less_nat_alt)
qed

lemma free_frames_split:
  assumes "frames a n \<subseteq> {j. j < lim}" and "frames a n \<inter> in_use s = {}" and "in_use s' = in_use s \<union> frames a n"
  shows "free_frames lim s = free_frames lim s' + unat n"
proof -
  have "{j. j < lim \<and> j \<notin> in_use s} = {j. j < lim \<and> j \<notin> in_use s'} \<union> frames a n"
    using assms by auto
  then have "card {j. j < lim \<and> j \<notin> in_use s} = card {j. j < lim \<and> j \<notin> in_use s'} + card (frames a n)"
    using assms(3) by (simp only:) (rule card_Un_disjoint, auto)
  then show ?thesis by (simp add: free_frames_def)
qed

lemma PmmFreePages_alloc:
  assumes "pmm_ok lim s" and "pmm_alloc n s = Inr (a, s')" and "a \<noteq> NULL" and "PmmFreePages s \<noteq> 0"
  shows "PmmFreePages s' = PmmFreePages s - n"
  using assms(1-3) by (rule pmm_alloc_success) (simp add: pmm_taken_def assms(4))

lemma PmmFreePages_free:
  "pmm_ok lim s \<Longrightarrow> frame_range lim a n \<Longrightarrow> pmm_free a n s = Inr s' \<Longrightarrow> PmmFreePages s' = PmmFreePages s + n"
  by (auto simp: pmm_free_ok pmm_released_pages_def)

text \<open>What a call leaves alone: the hart, the geometry and whatever a later record adds.\<close>

definition same_hart :: "'a hart_scheme \<Rightarrow> 'b hart_scheme \<Rightarrow> bool" where
  "same_hart s s' \<longleftrightarrow> cpu_is_inited s' = cpu_is_inited s \<and> cpu_struct s' = cpu_struct s \<and> sstatus s' = sstatus s"

lemma same_hart_refl [simp]: "same_hart s s"
  by (simp add: same_hart_def)

lemma same_hart_trans: "same_hart s s' \<Longrightarrow> same_hart s' s'' \<Longrightarrow> same_hart s s''"
  by (simp add: same_hart_def)

definition pmm_frame :: "'a pmm_scheme \<Rightarrow> 'a pmm_scheme \<Rightarrow> bool" where
  "pmm_frame s s' \<longleftrightarrow> same_hart s s' \<and> PmmBitmap s' = PmmBitmap s \<and> PmmLength s' = PmmLength s \<and>
     MEM_PHYS_OFFSET s' = MEM_PHYS_OFFSET s \<and> pmm.more s' = pmm.more s"

lemma pmm_alloc_frame:
  assumes "pmm_ok lim s" and "pmm_alloc n s = Inr (a, s')" and "a \<noteq> NULL"
  shows "pmm_frame s s'"
  using assms by (rule pmm_alloc_success) (simp add: pmm_taken_def pmm_frame_def same_hart_def)

lemma pmm_free_frame:
  "pmm_ok lim s \<Longrightarrow> frame_range lim a n \<Longrightarrow> pmm_free a n s = Inr s' \<Longrightarrow> pmm_frame s s' \<and> bytes s' = bytes s"
  by (auto simp: pmm_free_ok pmm_released_pages_def pmm_frame_def same_hart_def)

lemma pmm_alloc_bytes:
  assumes "pmm_ok lim s" and "pmm_alloc n s = Inr (a, s')" and "a \<noteq> NULL"
  shows "bytes s' = filled (bytes s) (a + MEM_PHYS_OFFSET s) 0 (4096 * unat n)"
  using assms by (rule pmm_alloc_success) simp


section \<open>An allocation that returns null\<close>

text \<open>It has found nothing, or the request was for no page at all; the zeroing is done anyway.\<close>

lemma pmm_alloc_null:
  assumes ok: "pmm_ok lim s" and call: "pmm_alloc n s = Inr (NULL, s')"
  shows "in_use s' = in_use s" and "PmmFreePages s' = PmmFreePages s" and "pmm_frame s s'"
    and "bytes s' = filled (bytes s) (MEM_PHYS_OFFSET s) 0 (unat (PAGE_SIZE * n))" and "pmm_ok lim s'"
proof -
  have lk: "lock (PmmLock s) = 0" and zero: "test_bit (bitmap s) 0" and len: "PmmLength s \<le> lim"
    using ok by (simp_all add: pmm_ok_def)
  from call obtain s1 r m where adv: "pmm_alloc_advanced n 1 s = Inr (NULL, s1)"
    and ms: "memset (bytes s1) (MEM_PHYS_OFFSET s1) 0 (PAGE_SIZE * n) = Inr (r, m)" and s': "s' = s1\<lparr>bytes := m\<rparr>"
    by (auto simp: pmm_alloc_def bnd_eq_Inr)
  have s1: "in_use s1 = in_use s \<and> PmmFreePages s1 = PmmFreePages s \<and> pmm_frame s s1 \<and> bytes s1 = bytes s \<and>
      lock (PmmLock s1) = 0"
  proof (cases "pmm_scan (bitmap s) (PmmLength s) n 1 0")
    case None
    then show ?thesis using adv by (simp add: pmm_alloc_advanced_eq [OF lk])
  next
    case (Some res)
    show ?thesis
    proof (cases res)
      case None
      then show ?thesis using Some adv lk
        by (auto simp: pmm_alloc_advanced_eq [OF lk] in_use_def pmm_frame_def same_hart_def)
    next
      case idx: (Some i)
      note found = pmm_scan_found [OF Some [unfolded idx]]
      then have i52: "unat i < 2 ^ 52"
        using len pmm_ok_lim [OF ok] by (simp add: word_less_nat_alt word_le_nat_alt)
      have a: "i * PAGE_SIZE = 0" and s1: "s1 = pmm_taken n i s"
        using adv Some idx by (simp_all add: pmm_alloc_advanced_eq [OF lk])
      from a have "i = 0" using page_addr(2) [OF i52] by simp
      with found zero have "n = 0"
        by (auto simp: free_run_span in_span_def unat_eq_zero dest: spec [of _ 0])
      with \<open>i = 0\<close> s1 lk show ?thesis
        by (simp add: pmm_taken_def in_use_def pmm_frame_def same_hart_def set_bits.simps)
    qed
  qed
  have m: "m = filled (bytes s) (MEM_PHYS_OFFSET s) 0 (unat (PAGE_SIZE * n))"
    using memset_Inr(3) [OF ms] s1 by (simp add: pmm_frame_def)
  show "in_use s' = in_use s" and "PmmFreePages s' = PmmFreePages s" and "pmm_frame s s'"
    and "bytes s' = filled (bytes s) (MEM_PHYS_OFFSET s) 0 (unat (PAGE_SIZE * n))"
    using s1 by (simp_all add: s' in_use_def pmm_frame_def same_hart_def m)
  have "in_use s' = in_use s" using s1 by (simp add: s' in_use_def)
  then have "test_bit (bitmap s') j = test_bit (bitmap s) j" for j
    unfolding in_use_def by blast
  then show "pmm_ok lim s'"
    using ok s1 by (simp add: pmm_ok_def s' m pmm_frame_def filled_mapped)
qed

section \<open>Clients of the allocator\<close>

text \<open>
  The frames in which the bitmap itself lies: the words that hold the bits up to \<open>lim\<close>, the ones a
  scan may read and an allocation or a release may write.
\<close>

definition bitmap_bytes :: "u64 \<Rightarrow> nat" where
  "bitmap_bytes lim = 4 * (unat lim div 32 + 1)"

definition bitmap_home :: "u64 \<Rightarrow> 'a pmm_scheme \<Rightarrow> u64 set" where
  "bitmap_home lim s = (\<lambda>k. (PmmBitmap s + of_nat k - MEM_PHYS_OFFSET s) div PAGE_SIZE) ` {..<bitmap_bytes lim}"

text \<open>
  What the rest of the kernel may do with page frames: ask for some, and give back a range it
  was given and still holds. \<open>held\<close> records the ranges handed out and not yet returned. A request that
  is refused zeroes the first \<open>n\<close> frames; it is a step only when the bitmap is not among them.
\<close>

inductive client_step :: "u64 \<Rightarrow> 'a pmm_scheme \<times> (addr \<times> size_t) set \<Rightarrow> 'a pmm_scheme \<times> (addr \<times> size_t) set \<Rightarrow> bool" for lim where
  got: "pmm_alloc n s = Inr (a, s') \<Longrightarrow> a \<noteq> NULL \<Longrightarrow> n \<noteq> 0 \<Longrightarrow> client_step lim (s, held) (s', insert (a, n) held)"
| refused: "pmm_alloc n s = Inr (NULL, s') \<Longrightarrow> frames NULL n \<inter> bitmap_home lim s = {} \<Longrightarrow> client_step lim (s, held) (s', held)"
| gave: "(a, n) \<in> held \<Longrightarrow> pmm_free a n s = Inr s' \<Longrightarrow> client_step lim (s, held) (s', held - {(a, n)})"

inductive_cases client_stepE: "client_step lim (s, held) (s', held')"

text \<open>
  The ranges held are apart from each other, in use and apart from the bitmap, whose frames are in
  use, and the counter is exact.
\<close>

definition clients_ok :: "u64 \<Rightarrow> 'a pmm_scheme \<times> (addr \<times> size_t) set \<Rightarrow> bool" where
  "clients_ok lim c = (case c of (s, held) \<Rightarrow> pmm_ok lim s \<and> PmmFreePages s = of_nat (free_frames lim s) \<and>
     bitmap_home lim s \<subseteq> in_use s \<and>
     (\<forall>(a, n) \<in> held. frame_range lim a n \<and> frames a n \<subseteq> in_use s \<and> frames a n \<inter> bitmap_home lim s = {}) \<and>
     (\<forall>p \<in> held. \<forall>q \<in> held. p \<noteq> q \<longrightarrow> frames (fst p) (snd p) \<inter> frames (fst q) (snd q) = {}))"

text \<open>A store of whole pages that misses the frames of the bitmap misses its bytes.\<close>

definition bitmap_untouched :: "u64 \<Rightarrow> 'a pmm_scheme \<Rightarrow> 'a pmm_scheme \<Rightarrow> bool" where
  "bitmap_untouched lim s s' \<longleftrightarrow> PmmBitmap s' = PmmBitmap s \<and> bitmap_home lim s' = bitmap_home lim s \<and>
     (\<forall>k<bitmap_bytes lim. bytes s' (PmmBitmap s + of_nat k) = bytes s (PmmBitmap s + of_nat k))"

lemma bitmap_untouched_trans: "bitmap_untouched lim s s' \<Longrightarrow> bitmap_untouched lim s' s'' \<Longrightarrow> bitmap_untouched lim s s''"
  by (simp add: bitmap_untouched_def)

lemma pmm_frame_home: "pmm_frame s s' \<Longrightarrow> bitmap_home lim s' = bitmap_home lim s"
  by (simp add: pmm_frame_def bitmap_home_def)

lemma page_of_span:
  assumes "in_span (a + off) (4096 * unat n) x" and "unat a = 4096 * k" and "4096 * k + 4096 * unat n \<le> 2 ^ 64"
  shows "(x - off) div PAGE_SIZE \<in> frames a n"
proof -
  have "in_span a (4096 * unat n) (x - off)" using assms(1) by (simp add: in_span_def algebra_simps)
  then have "4096 * k \<le> unat (x - off)" "unat (x - off) < 4096 * (k + unat n)"
    using assms(2,3) by (simp_all add: in_span_iff)
  then have "k \<le> unat (x - off) div 4096" "unat (x - off) div 4096 < k + unat n"
    by (simp_all add: less_eq_div_iff_mult_less_eq div_less_iff_less_mult mult.commute)
  then show ?thesis using assms(2,3) by (simp add: frames_def in_span_iff unat_div PAGE_SIZE_def)
qed

lemma page_of_low_span:
  assumes "in_span off (unat (PAGE_SIZE * n)) x"
  shows "(x - off) div PAGE_SIZE \<in> frames NULL n"
proof -
  have "unat (PAGE_SIZE * n) \<le> 4096 * unat n" unfolding PAGE_SIZE_def by (simp add: unat_word_ariths)
  then have "unat (x - off) div 4096 < unat n" using assms by (simp add: in_span_def)
  then show ?thesis by (simp add: frames_def in_span_def unat_div PAGE_SIZE_def)
qed

lemma bitmap_missed:
  assumes "pmm_frame s s'" and "bytes s' = filled (bytes s) p c n" and "F \<inter> bitmap_home lim s = {}"
    and "\<And>x. in_span p n x \<Longrightarrow> (x - MEM_PHYS_OFFSET s) div PAGE_SIZE \<in> F"
  shows "bitmap_untouched lim s s'"
proof -
  have "\<not> in_span p n (PmmBitmap s + of_nat k)" if "k < bitmap_bytes lim" for k
    using assms(3,4) that by (fastforce simp: bitmap_home_def)
  then show ?thesis using assms(1,2) pmm_frame_home [OF assms(1)] by (simp add: bitmap_untouched_def filled_def pmm_frame_def)
qed

lemma free_frames_bound: "free_frames lim s < 2 ^ 64"
proof -
  have "free_frames lim s \<le> card {j. j < lim}"
    unfolding free_frames_def by (intro card_mono) auto
  also have "\<dots> = card {j. in_span 0 (unat lim) j}"
    by (rule arg_cong [of _ _ card]) (auto simp: in_span_def word_less_nat_alt)
  also have "\<dots> = unat lim" using unat_u64_less [of lim] by (simp add: card_span)
  finally show ?thesis using unat_u64_less [of lim] by linarith
qed

lemma client_step_ok:
  assumes "client_step lim c c'" and "clients_ok lim c"
  shows "clients_ok lim c' \<and> bitmap_untouched lim (fst c) (fst c')"
  using assms
proof (induction rule: client_step.induct)
  case (got n s a s' held)
  then have ok: "pmm_ok lim s" and cnt: "PmmFreePages s = of_nat (free_frames lim s)" and home: "bitmap_home lim s \<subseteq> in_use s"
    and held: "\<forall>(a, n) \<in> held. frame_range lim a n \<and> frames a n \<subseteq> in_use s \<and> frames a n \<inter> bitmap_home lim s = {}"
    and apart: "\<forall>p \<in> held. \<forall>q \<in> held. p \<noteq> q \<longrightarrow> frames (fst p) (snd p) \<inter> frames (fst q) (snd q) = {}"
    by (simp_all add: clients_ok_def)
  note call = ok got(1,2)
  note fresh = pm.alloc_fresh [OF call] and takes = pm.alloc_takes [OF call] and range = pm.alloc_range [OF call]
  have split: "free_frames lim s = free_frames lim s' + unat n"
    using frames_below [OF range pmm_ok_lim [OF ok]] fresh takes by (rule free_frames_split)
  have "PmmFreePages s \<noteq> 0"
  proof -
    have "0 < free_frames lim s" using split \<open>n \<noteq> 0\<close> by (simp add: unat_gt_0)
    then show ?thesis
      using free_frames_bound [of lim s] by (simp only: cnt word_of_nat_eq_0_iff) (auto simp: nat_dvd_not_less)
  qed
  then have "PmmFreePages s' = of_nat (free_frames lim s')"
    using PmmFreePages_alloc [OF call] cnt split by simp
  moreover have "\<forall>p \<in> held. frames (fst p) (snd p) \<inter> frames a n = {}"
    using held fresh by fastforce
  moreover have miss: "frames a n \<inter> bitmap_home lim s = {}" using home fresh by blast
  moreover have same: "bitmap_home lim s' = bitmap_home lim s" by (rule pmm_frame_home [OF pmm_alloc_frame [OF call]])
  ultimately have "clients_ok lim (s', insert (a, n) held)"
    using pm.alloc_keeps [OF call] held apart range takes home by (auto simp: clients_ok_def)
  moreover have "bitmap_untouched lim s s'"
  proof (rule bitmap_missed [OF pmm_alloc_frame [OF call] pmm_alloc_bytes [OF call] miss])
    note fr = frame_range_div [OF range pmm_ok_lim [OF ok]]
    fix x assume "in_span (a + MEM_PHYS_OFFSET s) (4096 * unat n) x"
    then show "(x - MEM_PHYS_OFFSET s) div PAGE_SIZE \<in> frames a n"
      using fr(2,5) pmm_ok_lim [OF ok] by (intro page_of_span [where k = "unat (a div PAGE_SIZE)"]) simp_all
  qed
  ultimately show ?case by simp
next
  case (refused n s s' held)
  then have ok: "pmm_ok lim s" by (simp add: clients_ok_def)
  note null = pmm_alloc_null [OF ok refused(1)]
  have "bitmap_untouched lim s s'" by (rule bitmap_missed [OF null(3,4) refused(2) page_of_low_span])
  then show ?case using refused(3) null pmm_frame_home [OF null(3)] by (auto simp: clients_ok_def free_frames_def)
next
  case (gave a n held s s')
  then have ok: "pmm_ok lim s" and cnt: "PmmFreePages s = of_nat (free_frames lim s)" and home: "bitmap_home lim s \<subseteq> in_use s"
    and held: "\<forall>(a, n) \<in> held. frame_range lim a n \<and> frames a n \<subseteq> in_use s \<and> frames a n \<inter> bitmap_home lim s = {}"
    and apart: "\<forall>p \<in> held. \<forall>q \<in> held. p \<noteq> q \<longrightarrow> frames (fst p) (snd p) \<inter> frames (fst q) (snd q) = {}"
    by (simp_all add: clients_ok_def)
  have range: "frame_range lim a n" and mine: "frames a n \<subseteq> in_use s" and miss: "frames a n \<inter> bitmap_home lim s = {}"
    using held gave(1) by auto
  note gives = pm.free_gives [OF ok range gave(2)] and frame = pmm_free_frame [OF ok range gave(2)]
  have "free_frames lim s' = free_frames lim s + unat n"
    using frames_below [OF range pmm_ok_lim [OF ok]] mine gives
    by (intro free_frames_split [of a n]) auto
  then have "PmmFreePages s' = of_nat (free_frames lim s')"
    using PmmFreePages_free [OF ok range gave(2)] cnt by simp
  moreover have "frames b k \<subseteq> in_use s'" if "(b, k) \<in> held - {(a, n)}" for b k
  proof -
    have "frames b k \<subseteq> in_use s" using that held by auto
    moreover have "frames b k \<inter> frames a n = {}"
      using that apart [rule_format, of "(b, k)" "(a, n)"] gave(1) by auto
    ultimately show ?thesis using gives by blast
  qed
  moreover have "bitmap_home lim s' = bitmap_home lim s" using frame pmm_frame_home by blast
  moreover from this have "bitmap_home lim s' \<subseteq> in_use s'" using home miss gives by blast
  ultimately show ?case
    using pm.free_keeps [OF ok range gave(2)] held apart frame by (auto simp: clients_ok_def bitmap_untouched_def pmm_frame_def)
qed

lemma client_steps_ok:
  "(client_step lim)\<^sup>*\<^sup>* c c' \<Longrightarrow> clients_ok lim c \<Longrightarrow> clients_ok lim c' \<and> bitmap_untouched lim (fst c) (fst c')"
proof (induction rule: rtranclp_induct)
  case base
  then show ?case by (simp add: bitmap_untouched_def)
next
  case (step c1 c2)
  then show ?case using client_step_ok [OF step(2)] bitmap_untouched_trans by blast
qed

section \<open>What initialisation marks\<close>

lemma low5_mod: "unat (i AND 0x1F :: u64) = unat i mod 32"
proof -
  have "i AND 0x1F = take_bit 5 i" by (simp add: take_bit_eq_mask mask_eq_exp_minus_1)
  then show ?thesis by (simp add: take_bit_eq_mod unat_mod)
qed

lemma drop5_div: "unat (drop_bit 5 i :: u64) = unat i div 32"
  by (simp add: drop_bit_eq_div unat_div)

text \<open>Filling the first \<open>n\<close> bytes of the bitmap marks the first \<open>8 n\<close> frames.\<close>

lemma test_bitmap_fill: "test_bit (bitmap_fill n bm) j \<longleftrightarrow> test_bit bm j \<or> unat j < 8 * unat n"
proof -
  have b: "unat j mod 32 < 32" by simp
  have "unat j mod 32 < 8 * min 4 (unat n - 4 * (unat j div 32)) \<longleftrightarrow> unat j < 8 * unat n"
    using div_mult_mod_eq [of "unat j" 32] b by linarith
  then show ?thesis
    by (simp add: test_bit_bit bitmap_fill_def bit_simps low5_mod drop5_div)
qed

text \<open>The range of frames an entry of the memory map contributes.\<close>

definition freed_range :: "u64 \<Rightarrow> u64 \<Rightarrow> limine_memmap_entry \<Rightarrow> addr \<times> size_t" where
  "freed_range len maxBase entry =
     (if entry_base entry = maxBase
      then (entry_base entry + ((len div 8 + PAGE_SIZE - 1) div PAGE_SIZE) * PAGE_SIZE,
            entry_length entry div PAGE_SIZE - (len div 8) div PAGE_SIZE)
      else (entry_base entry, entry_length entry div PAGE_SIZE))"

definition freed_entry :: "u64 \<Rightarrow> limine_memmap_entry \<Rightarrow> bool" where
  "freed_entry maxBase entry \<longleftrightarrow> entry_type entry = LIMINE_MEMMAP_USABLE \<and> entry_base entry \<le> maxBase"

definition freed_frames :: "u64 \<Rightarrow> u64 \<Rightarrow> limine_memmap_entry list \<Rightarrow> u64 set" where
  "freed_frames len maxBase entries = (\<Union>e \<in> {e \<in> set entries. freed_entry maxBase e}.
     frames (fst (freed_range len maxBase e)) (snd (freed_range len maxBase e)))"

definition freed_total :: "u64 \<Rightarrow> u64 \<Rightarrow> limine_memmap_entry list \<Rightarrow> u64" where
  "freed_total len maxBase entries =
     sum_list (List.map (snd \<circ> freed_range len maxBase) (List.filter (freed_entry maxBase) entries))"

lemma pmm_free_in_use:
  assumes "lock (PmmLock s) = 0" and "a < MEM_PHYS_OFFSET s"
  obtains s' where "pmm_free a n s = Inr s'" and "in_use s' = in_use s - frames a n"
    and "lock (PmmLock s') = 0" and "pmm_frame s s'" and "PmmFreePages s' = PmmFreePages s + n"
    and "bytes s' = bytes s"
  using assms
  by (intro that [OF pmm_free_eq in_use_released])
    (simp_all add: pmm_released_pages_def pmm_frame_def same_hart_def)

lemma pmm_frame_trans: "pmm_frame s s' \<Longrightarrow> pmm_frame s' s'' \<Longrightarrow> pmm_frame s s''"
  by (auto simp: pmm_frame_def dest: same_hart_trans)

lemma pmm_init_free_step:
  "pmm_init_free (e # es) maxBase s =
     bnd (if freed_entry maxBase e
          then pmm_free (fst (freed_range (PmmLength s) maxBase e)) (snd (freed_range (PmmLength s) maxBase e)) s
          else Inr s) (pmm_init_free es maxBase)"
  by (simp add: freed_entry_def freed_range_def)

lemma pmm_init_free_in_use:
  assumes "lock (PmmLock s) = 0"
    and "\<And>e. e \<in> set entries \<Longrightarrow> freed_entry maxBase e \<Longrightarrow>
      fst (freed_range (PmmLength s) maxBase e) < MEM_PHYS_OFFSET s"
  obtains s' where "pmm_init_free entries maxBase s = Inr s'"
    and "in_use s' = in_use s - freed_frames (PmmLength s) maxBase entries"
    and "lock (PmmLock s') = 0" and "pmm_frame s s'"
    and "PmmFreePages s' = PmmFreePages s + freed_total (PmmLength s) maxBase entries"
    and "bytes s' = bytes s"
  using assms
proof (induction entries arbitrary: s thesis)
  case Nil
  then show ?case
    by (intro Nil.prems(1)) (simp_all add: freed_frames_def freed_total_def pmm_frame_def same_hart_def)
next
  case (Cons e es)
  let ?L = "PmmLength s"
  obtain s1 where s1: "pmm_init_free (e # es) maxBase s = pmm_init_free es maxBase s1"
    "in_use s1 = in_use s - (if freed_entry maxBase e
       then frames (fst (freed_range ?L maxBase e)) (snd (freed_range ?L maxBase e)) else {})"
    "lock (PmmLock s1) = 0" "pmm_frame s s1" "bytes s1 = bytes s"
    "PmmFreePages s1 = PmmFreePages s + (if freed_entry maxBase e then snd (freed_range ?L maxBase e) else 0)"
  proof (cases "freed_entry maxBase e")
    case True
    with Cons.prems(3) have "fst (freed_range ?L maxBase e) < MEM_PHYS_OFFSET s" by simp
    from Cons.prems(2) this obtain s1 where
      "pmm_free (fst (freed_range ?L maxBase e)) (snd (freed_range ?L maxBase e)) s = Inr s1"
      "in_use s1 = in_use s - frames (fst (freed_range ?L maxBase e)) (snd (freed_range ?L maxBase e))"
      "lock (PmmLock s1) = 0" "pmm_frame s s1"
      "PmmFreePages s1 = PmmFreePages s + snd (freed_range ?L maxBase e)" "bytes s1 = bytes s"
      by (rule pmm_free_in_use)
    with True that show ?thesis by (simp add: pmm_init_free_step del: pmm_init_free.simps)
  next
    case False
    with that [of s] Cons.prems(2) show ?thesis
      by (simp add: pmm_init_free_step pmm_frame_def same_hart_def del: pmm_init_free.simps)
  qed
  have same: "PmmLength s1 = ?L" "MEM_PHYS_OFFSET s1 = MEM_PHYS_OFFSET s"
    using s1(4) by (simp_all add: pmm_frame_def)
  obtain s' where s': "pmm_init_free es maxBase s1 = Inr s'"
    "in_use s' = in_use s1 - freed_frames ?L maxBase es" "lock (PmmLock s') = 0" "pmm_frame s1 s'"
    "PmmFreePages s' = PmmFreePages s1 + freed_total ?L maxBase es" "bytes s' = bytes s1"
    using Cons.IH [of s1] s1(3) Cons.prems(3) unfolding same by (metis list.set_intros(2))
  show ?case
  proof (rule Cons.prems(1))
    show "pmm_init_free (e # es) maxBase s = Inr s'" using s1(1) s'(1) by simp
    show "in_use s' = in_use s - freed_frames ?L maxBase (e # es)"
      unfolding s'(2) s1(2) freed_frames_def by auto
    show "PmmFreePages s' = PmmFreePages s + freed_total ?L maxBase (e # es)"
      by (simp add: s'(5) s1(6) freed_total_def)
  qed (use s' s1 pmm_frame_trans in \<open>auto\<close>)
qed

lemma in_use_set_bit: "in_use (s\<lparr>bitmap := set_bit (bitmap s) i\<rparr>) = insert i (in_use s)"
  by (auto simp: in_use_def)

lemma pmm_init_in_use:
  assumes "lock (PmmLock s) = 0"
    and "pmm_choose entries (PmmBitmap s, PmmLength s, 0) = (bmp, len, maxBase)" and "bmp \<noteq> NULL"
    and "\<And>e. e \<in> set entries \<Longrightarrow> freed_entry maxBase e \<Longrightarrow> fst (freed_range len maxBase e) < hhdm"
  obtains s' where "pmm_init hhdm entries s = Inr s'" and "lock (PmmLock s') = 0"
    and "in_use s' = (in_use s \<union> {j. unat j < 8 * unat (len div 8)}) - freed_frames len maxBase entries \<union> {1, 2}"
    and "PmmFreePages s' = PmmFreePages s + freed_total len maxBase entries"
    and "PmmBitmap s' = bmp + hhdm" and "PmmLength s' = len" and "MEM_PHYS_OFFSET s' = hhdm"
proof -
  define s1 where "s1 = s\<lparr>MEM_PHYS_OFFSET := hhdm, PmmLength := len, PmmBitmap := bmp + hhdm,
    bitmap := bitmap_fill (len div 8) (bitmap s)\<rparr>"
  have s1: "lock (PmmLock s1) = 0" "PmmLength s1 = len" "MEM_PHYS_OFFSET s1 = hhdm"
    "PmmFreePages s1 = PmmFreePages s" "PmmBitmap s1 = bmp + hhdm"
    and use1: "in_use s1 = in_use s \<union> {j. unat j < 8 * unat (len div 8)}"
    using assms(1) by (auto simp: s1_def in_use_def test_bitmap_fill)
  obtain s2 where s2: "pmm_init_free entries maxBase s1 = Inr s2"
    "in_use s2 = in_use s1 - freed_frames len maxBase entries" "lock (PmmLock s2) = 0" "pmm_frame s1 s2"
    "PmmFreePages s2 = PmmFreePages s1 + freed_total len maxBase entries"
    using pmm_init_free_in_use [of s1 entries maxBase] assms(4) unfolding s1(2,3) using s1(1) by metis
  define s' where "s' = s2\<lparr>bitmap := set_bit (set_bit (bitmap s2) 1) 2\<rparr>"
  have "pmm_init hhdm entries s = Inr s'"
    using assms(2,3) s2(1) by (simp add: pmm_init_def Let_def s1_def s'_def PAGE_SIZE_def)
  moreover have "in_use s' = in_use s2 \<union> {1, 2}"
    by (auto simp: s'_def in_use_def)
  ultimately show ?thesis
    using s2 s1 use1 by (intro that [of s']) (simp_all add: s'_def pmm_frame_def)
qed

text \<open>The region that holds the bitmap is the last usable one that improved the choice.\<close>

lemma pmm_choose_base:
  "pmm_choose entries (b, l, mb) = (bmp, len, maxBase) \<Longrightarrow>
   (bmp, len, maxBase) = (b, l, mb) \<or>
   (\<exists>e \<in> set entries. entry_type e = LIMINE_MEMMAP_USABLE \<and> bmp = entry_base e \<and> maxBase = entry_base e
      \<and> len = (entry_base e + entry_length e + PAGE_SIZE - 1) div PAGE_SIZE \<and> len < entry_length e)"
proof (induction entries "(b, l, mb)" arbitrary: b l mb rule: pmm_choose.induct)
  case (2 entry entries b l mb)
  then show ?case by (auto simp: Let_def split: if_splits)
qed auto

text \<open>Frames the bitmap itself occupies.\<close>

definition bitmap_frames :: "addr \<Rightarrow> u64 \<Rightarrow> u64 set" where
  "bitmap_frames bmp len = frames bmp ((len div 8 + PAGE_SIZE - 1) div PAGE_SIZE)"

text \<open>
  The memory map as the boot loader promises it: usable entries are not empty, start and end on
  page boundaries, lie in the first \<open>2 ^ 51\<close> bytes, and no two of them overlap.
\<close>

definition usable_ok :: "limine_memmap_entry \<Rightarrow> bool" where
  "usable_ok e \<longleftrightarrow> entry_length e \<noteq> 0 \<and>
     unat (entry_base e) mod 4096 = 0 \<and> unat (entry_length e) mod 4096 = 0 \<and>
     unat (entry_base e) + unat (entry_length e) \<le> 2 ^ 51"

definition memmap_ok :: "limine_memmap_entry list \<Rightarrow> bool" where
  "memmap_ok entries \<longleftrightarrow>
     (\<forall>e \<in> set entries. entry_type e = LIMINE_MEMMAP_USABLE \<longrightarrow> usable_ok e) \<and>
     (\<forall>e \<in> set entries. \<forall>f \<in> set entries.
        entry_type e = LIMINE_MEMMAP_USABLE \<and> entry_type f = LIMINE_MEMMAP_USABLE \<and> e \<noteq> f \<longrightarrow>
        spans_apart (entry_base e) (unat (entry_length e)) (entry_base f) (unat (entry_length f)))"

lemma frames_aligned:
  assumes "unat a mod 4096 = 0" and "unat a + 4096 * unat n \<le> 2 ^ 64"
  shows "j \<in> frames a n \<longleftrightarrow> unat a \<le> 4096 * unat j \<and> 4096 * unat j < unat a + 4096 * unat n"
proof -
  obtain k where k: "unat a = 4096 * k" using assms(1) by auto
  have i: "unat (a div PAGE_SIZE) = k" by (simp add: unat_div PAGE_SIZE_def k)
  have "k + unat n \<le> 2 ^ 64" using assms(2) k by linarith
  then show ?thesis
    by (auto simp: frames_def in_span_iff i k)
qed

text \<open>The chosen region in page numbers: where it starts, its pages, and the pages of the bitmap.\<close>

lemma chosen_region:
  assumes "memmap_ok entries" and "pmm_choose entries (NULL, l0, 0) = (bmp, len, maxBase)" and "bmp \<noteq> NULL"
  obtains e b L where "e \<in> set entries" and "entry_type e = LIMINE_MEMMAP_USABLE" and "usable_ok e"
    and "entry_base e = bmp" and "maxBase = bmp" and "unat bmp = 4096 * b" and "unat (entry_length e) = 4096 * L"
    and "unat len = b + L" and "b + L \<le> 2 ^ 39" and "unat len < 4096 * L"
proof -
  obtain e where e: "e \<in> set entries" "entry_type e = LIMINE_MEMMAP_USABLE" "bmp = entry_base e" "maxBase = entry_base e"
    "len = (entry_base e + entry_length e + PAGE_SIZE - 1) div PAGE_SIZE" "len < entry_length e"
    using pmm_choose_base [OF assms(2)] assms(3) by auto
  then have ok: "usable_ok e" using assms(1) by (auto simp: memmap_ok_def)
  then obtain b L where bL: "unat (entry_base e) = 4096 * b" "unat (entry_length e) = 4096 * L"
    unfolding usable_ok_def mod_eq_0_iff_dvd by (meson dvdE)
  have sum: "b + L \<le> 2 ^ 39" using ok bL by (simp add: usable_ok_def)
  have u: "unat (entry_base e + entry_length e) = 4096 * (b + L)"
    using sum bL by (simp add: unat_add_u64)
  have "unat (entry_base e + entry_length e + PAGE_SIZE - 1) = 4096 * (b + L) + 4095"
  proof -
    have "entry_base e + entry_length e + PAGE_SIZE - 1 = entry_base e + entry_length e + 4095"
      by (simp add: PAGE_SIZE_def)
    then show ?thesis using sum by (simp only:) (subst unat_add_u64, simp_all add: u)
  qed
  then have "unat len = b + L" by (simp add: e(5) unat_div PAGE_SIZE_def)
  then show ?thesis using e ok bL sum by (intro that [of e b L]) (auto simp: word_less_nat_alt)
qed

definition pages_for :: "nat \<Rightarrow> nat" where
  "pages_for n = (n + 4095) div 4096"

lemma bitmap_pages:
  assumes "unat len \<le> 2 ^ 39"
  shows "unat ((len div 8 + PAGE_SIZE - 1) div PAGE_SIZE) = pages_for (unat len div 8)"
    and "unat (len div 8 div PAGE_SIZE) = unat len div 8 div 4096"
proof -
  have u: "unat (len div 8) = unat len div 8" by (simp add: unat_div)
  have "len div 8 + PAGE_SIZE - 1 = 4095 + len div 8" by (simp add: PAGE_SIZE_def)
  moreover have "unat (4095 + len div 8) = unat len div 8 + 4095"
    using assms by (simp add: unat_add_u64 u)
  ultimately show "unat ((len div 8 + PAGE_SIZE - 1) div PAGE_SIZE) = pages_for (unat len div 8)"
    by (simp add: unat_div PAGE_SIZE_def pages_for_def)
  show "unat (len div 8 div PAGE_SIZE) = unat len div 8 div 4096"
    by (simp add: unat_div PAGE_SIZE_def)
qed

lemma pages_for_le: "n \<le> 4096 * k \<Longrightarrow> pages_for n \<le> k"
  by (simp add: pages_for_def)

lemma pages_for_cases: "pages_for n = (if n mod 4096 = 0 then n div 4096 else n div 4096 + 1)"
proof -
  define q r where "q = n div 4096" and "r = n mod 4096"
  then have "n = 4096 * q + r" and "r < 4096" by simp_all
  then show ?thesis by (cases "r = 0") (simp_all add: pages_for_def)
qed

text \<open>The range freed for the chosen region starts after the bitmap's pages.\<close>

lemma freed_range_chosen:
  assumes "entry_base e = bmp" and "unat bmp = 4096 * b" and "unat (entry_length e) = 4096 * L"
    and "unat len = b + L" and "b + L \<le> 2 ^ 39" and "unat len < 4096 * L"
  defines "P \<equiv> pages_for (unat len div 8)" and "D \<equiv> unat len div 8 div 4096"
  shows "P \<le> L" and "D \<le> L" and "unat (fst (freed_range len bmp e)) = 4096 * (b + P)"
    and "j \<in> frames (fst (freed_range len bmp e)) (snd (freed_range len bmp e)) \<longleftrightarrow>
           b + P \<le> unat j \<and> unat j < b + P + (L - D)"
    and "j \<in> bitmap_frames bmp len \<longleftrightarrow> b \<le> unat j \<and> unat j < b + P"
proof -
  have l39: "unat len \<le> 2 ^ 39" using assms(4,5) by simp
  note bp = bitmap_pages [OF l39, folded P_def D_def]
  show P: "P \<le> L" unfolding P_def using assms(6) by (intro pages_for_le) linarith
  show D: "D \<le> L" unfolding D_def using assms(6) by linarith
  have mult: "unat ((len div 8 + PAGE_SIZE - 1) div PAGE_SIZE * PAGE_SIZE) = P * 4096"
    using P assms(5) by (subst unat_mult_u64) (simp_all add: bp, simp_all add: PAGE_SIZE_def)
  then show start: "unat (fst (freed_range len bmp e)) = 4096 * (b + P)"
    using assms(1,2,5) P by (simp add: freed_range_def) (subst unat_add_u64, simp_all)
  have Lp: "unat (entry_length e div PAGE_SIZE) = L"
    by (simp add: unat_div PAGE_SIZE_def assms(3))
  have "unat (entry_length e div PAGE_SIZE - len div 8 div PAGE_SIZE) = L - D"
    using D by (subst unat_diff_u64) (simp_all add: bp Lp)
  then have cnt: "unat (snd (freed_range len bmp e)) = L - D"
    using assms(1) by (simp add: freed_range_def)
  show "j \<in> frames (fst (freed_range len bmp e)) (snd (freed_range len bmp e)) \<longleftrightarrow>
           b + P \<le> unat j \<and> unat j < b + P + (L - D)"
    using P assms(5) by (subst frames_aligned) (auto simp: start cnt)
  show "j \<in> bitmap_frames bmp len \<longleftrightarrow> b \<le> unat j \<and> unat j < b + P"
    using P assms(5) by (subst bitmap_frames_def, subst frames_aligned) (auto simp: bp assms(2))
qed

text \<open>Nothing that initialisation frees is part of the bitmap.\<close>

lemma freed_frames_apart:
  assumes "memmap_ok entries" and "pmm_choose entries (NULL, l0, 0) = (bmp, len, maxBase)" and "bmp \<noteq> NULL"
  shows "freed_frames len maxBase entries \<inter> bitmap_frames bmp len = {}"
proof -
  obtain e b L where e: "e \<in> set entries" "entry_type e = LIMINE_MEMMAP_USABLE" "usable_ok e"
    "entry_base e = bmp" "maxBase = bmp" "unat bmp = 4096 * b" "unat (entry_length e) = 4096 * L"
    "unat len = b + L" "b + L \<le> 2 ^ 39" "unat len < 4096 * L"
    using assms by (rule chosen_region)
  note fr = freed_range_chosen [OF e(4,6-10)]
  have "j \<notin> bitmap_frames bmp len"
    if f: "f \<in> set entries" "freed_entry bmp f"
      and j: "j \<in> frames (fst (freed_range len bmp f)) (snd (freed_range len bmp f))" for f j
  proof (cases "f = e")
    case True
    then show ?thesis using j by (simp add: fr(4,5))
  next
    case False
    have fu: "entry_type f = LIMINE_MEMMAP_USABLE" using f(2) by (simp add: freed_entry_def)
    then have okf: "usable_ok f" using assms(1) f(1) by (simp add: memmap_ok_def)
    have apart: "spans_apart (entry_base f) (unat (entry_length f)) bmp (4096 * L)"
      using assms(1) f(1) fu e(1,2) False unfolding memmap_ok_def e(4) [symmetric] e(7) [symmetric] by blast
    have "entry_base f \<noteq> bmp"
    proof
      assume "entry_base f = bmp"
      then have "in_span (entry_base f) (unat (entry_length f)) bmp" and "in_span bmp (4096 * L) bmp"
        using okf e(10) by (auto simp: in_span_def usable_ok_def unat_gt_0)
      then show False using apart by (simp add: spans_apart_def)
    qed
    then have jf: "j \<in> frames (entry_base f) (entry_length f div PAGE_SIZE)"
      using j by (simp add: freed_range_def)
    have fl: "4096 * unat (entry_length f div PAGE_SIZE) = unat (entry_length f)"
      using okf by (auto simp: unat_div PAGE_SIZE_def usable_ok_def)
    have "unat (entry_base f) \<le> 4096 * unat j \<and> 4096 * unat j < unat (entry_base f) + unat (entry_length f)"
      using jf okf unfolding fl [symmetric] by (subst (asm) frames_aligned) (auto simp: fl usable_ok_def)
    note bounds = this
    then have uj: "unat (j * PAGE_SIZE) = 4096 * unat j"
      using okf by (subst page_addr(1)) (auto simp: usable_ok_def)
    have "in_span (entry_base f) (unat (entry_length f)) (j * PAGE_SIZE)"
      using bounds okf by (subst in_span_iff) (auto simp: uj usable_ok_def)
    then have "\<not> in_span bmp (4096 * L) (j * PAGE_SIZE)" using apart by (rule spans_apartD [rotated])
    then have "\<not> (b \<le> unat j \<and> unat j < b + L)"
      using e(9) by (subst (asm) in_span_iff) (auto simp: uj e(6))
    then show ?thesis using fr(1) by (auto simp: fr(5))
  qed
  then show ?thesis by (auto simp: freed_frames_def e(5))
qed

lemma freed_range_below:
  assumes "memmap_ok entries" and "pmm_choose entries (NULL, l0, 0) = (bmp, len, maxBase)" and "bmp \<noteq> NULL"
    and "f \<in> set entries" and "freed_entry maxBase f"
  shows "unat (fst (freed_range len maxBase f)) < 2 ^ 51 + 4096"
proof -
  obtain e b L where e: "e \<in> set entries" "entry_type e = LIMINE_MEMMAP_USABLE" "usable_ok e"
    "entry_base e = bmp" "maxBase = bmp" "unat bmp = 4096 * b" "unat (entry_length e) = 4096 * L"
    "unat len = b + L" "b + L \<le> 2 ^ 39" "unat len < 4096 * L"
    using assms(1-3) by (rule chosen_region)
  note fr = freed_range_chosen [OF e(4,6-10)]
  have "usable_ok f" using assms(1,4,5) by (simp add: memmap_ok_def freed_entry_def)
  then have ordinary: "unat (entry_base f) < 2 ^ 51 + 4096" by (simp add: usable_ok_def)
  have "fst (freed_range len maxBase f) = fst (freed_range len bmp e)" if "entry_base f = bmp"
    using that e(4) by (simp add: freed_range_def e(5))
  then show ?thesis
    using ordinary fr(1,3) e(9) by (cases "entry_base f = bmp") (simp_all add: freed_range_def e(5))
qed

section \<open>Properties\<close>

text \<open>
  A small machine for the concrete instances below: eight frames, 0 and 1 in use, 2 to 7 free,
  the bit after the last frame set, all memory mapped and holding 7.
\<close>

definition demo_cpu :: cpu_t where
  "demo_cpu = \<lparr>currentCpu = 0, threadUserStack = 0, threadKernelStack = 0, kernelStack = 0,
     preemptCounter = 0, currentPid = - 1, currentTid = - 1, currentTaskID = - 1,
     ipiType = 0, flags = 0, isaFeatures = 0\<rparr>"

definition demo_pmm :: pmm where
  "demo_pmm = \<lparr>cpu_is_inited = True, cpu_struct = demo_cpu, sstatus = 2, bytes = (\<lambda>_. Some 7),
     PmmBitmap = 0xFFFF800000001000, bitmap = (\<lambda>i. if i = 0 then 0xFFFFFF03 else - 1),
     PmmLength = 8, PmmFreePages = 6, MEM_PHYS_OFFSET = 0xFFFF800000000000, PmmLock = INIT_SPINLOCK\<rparr>"

lemma demo_pmm_ok: "pmm_ok 8 demo_pmm"
  by (simp add: pmm_ok_def demo_pmm_def INIT_SPINLOCK_def test_bit_def mapped_def)

lemma demo_pmm_run: "is_bitmap_page_free (bitmap demo_pmm) 2 6"
  by (simp add: is_bitmap_page_free_def demo_pmm_def test_bit_def)

lemma demo_pmm_alloc:
  "pmm_alloc 2 demo_pmm = Inr (0x2000, (pmm_taken 2 2 demo_pmm)
     \<lparr>bytes := filled (\<lambda>_. Some 7) 0xFFFF800000002000 0 8192\<rparr>)"
proof -
  have "pmm_scan (bitmap demo_pmm) (PmmLength demo_pmm) 2 1 0 = Some (Some 2)"
    by (simp add: pmm_scan.simps is_bitmap_page_free_def demo_pmm_def test_bit_def)
  moreover have "lock (PmmLock demo_pmm) = 0"
    by (simp add: demo_pmm_def INIT_SPINLOCK_def)
  ultimately show ?thesis
    by (simp add: pmm_alloc_def pmm_alloc_advanced_eq PAGE_SIZE_def)
      (simp add: memset_eq pmm_taken_def demo_pmm_def mapped_def)
qed


text \<open>
  Property C1. In a well-formed state an allocation that does not return null hands out page
  frames nobody held, all below the limit, marks exactly those as used, fills them with zeros
  through the direct map and changes no other byte, and leaves the lock free, the hart (interrupt
  switch, preemption counter) and the rest of the state as they were.
\<close>

theorem pmm_alloc_fresh_zeroed:
  assumes "pmm_ok lim s" and "pmm_alloc n s = Inr (a, s')" and "a \<noteq> NULL"
  shows "frames a n \<inter> in_use s = {} \<and> in_use s' = in_use s \<union> frames a n \<and> (\<forall>j \<in> frames a n. j < lim)
    \<and> bytes s' = filled (bytes s) (a + MEM_PHYS_OFFSET s) 0 (4096 * unat n)
    \<and> pmm_ok lim s' \<and> pmm_frame s s'"
proof (intro conjI)
  show "frames a n \<inter> in_use s = {}" and "in_use s' = in_use s \<union> frames a n"
    using assms by (rule pm.alloc_fresh, rule pm.alloc_takes)
  show "\<forall>j \<in> frames a n. j < lim"
    using frames_below [OF pm.alloc_range [OF assms] pmm_ok_lim [OF assms(1)]] by blast
  show "bytes s' = filled (bytes s) (a + MEM_PHYS_OFFSET s) 0 (4096 * unat n)"
    using assms by (rule pmm_alloc_bytes)
  show "pmm_ok lim s'" using assms by (rule pm.alloc_keeps)
  show "pmm_frame s s'" using assms by (rule pmm_alloc_frame)
qed

theorem pmm_alloc_fresh_zeroed_witness:
  "\<exists>s'. pmm_alloc 2 demo_pmm = Inr (0x2000, s') \<and> in_use s' = in_use demo_pmm \<union> frames 0x2000 2
     \<and> bytes s' 0xFFFF800000003FFF = Some 0 \<and> bytes s' 0xFFFF800000004000 = Some 7"
proof -
  have "(0x2000 :: addr) \<noteq> NULL" by simp
  note inst = pmm_alloc_fresh_zeroed [OF demo_pmm_ok demo_pmm_alloc this]
  show ?thesis
    by (rule exI, intro conjI, rule demo_pmm_alloc, rule inst [THEN conjunct2, THEN conjunct1])
      (simp_all add: filled_def in_span_def)
qed

text \<open>
  Property C2. The allocator never misses: if a run of \<open>n\<close> free frames starts anywhere below
  \<open>PmmLength\<close>, \<open>pmm_alloc\<close> returns and its result is not null.
\<close>

theorem pmm_alloc_complete:
  assumes "pmm_ok lim s" and "is_bitmap_page_free (bitmap s) i n" and "i < PmmLength s" and "n \<noteq> 0"
  shows "\<exists>a s'. pmm_alloc n s = Inr (a, s') \<and> a \<noteq> NULL"
  using assms by (rule pmm_alloc_finds)

theorem pmm_alloc_complete_witness: "\<exists>a s'. pmm_alloc 6 demo_pmm = Inr (a, s') \<and> a \<noteq> NULL"
  by (rule pmm_alloc_complete [OF demo_pmm_ok demo_pmm_run]) (simp_all add: demo_pmm_def)

text \<open>
  Property C3. \<open>pmm_alloc_advanced\<close> with a positive alignment returns whenever the lock is free and
  the index cannot wrap around, and it is a first fit: the frame number it returns is the least
  multiple of the alignment below \<open>PmmLength\<close> at which the pages are free, and it gives up only
  when there is none.
\<close>

theorem pmm_alloc_advanced_first_fit:
  assumes "lock (PmmLock s) = 0" and "al \<noteq> 0" and "unat (PmmLength s) + unat al \<le> 2 ^ 64"
  shows "(\<exists>k s'. pmm_alloc_advanced n al s = Inr (of_nat k * al * PAGE_SIZE, s')
            \<and> of_nat k * al < PmmLength s \<and> is_bitmap_page_free (bitmap s) (of_nat k * al) n
            \<and> (\<forall>j<k. \<not> is_bitmap_page_free (bitmap s) (of_nat j * al) n))
       \<or> (\<exists>s'. pmm_alloc_advanced n al s = Inr (NULL, s') \<and> bitmap s' = bitmap s
            \<and> (\<forall>k. k * unat al < unat (PmmLength s) \<longrightarrow> \<not> is_bitmap_page_free (bitmap s) (of_nat k * al) n))"
proof -
  obtain r where r: "pmm_scan (bitmap s) (PmmLength s) n al 0 = Some r"
    using pmm_scan_returns [OF assms(2,3)] by blast
  show ?thesis
  proof (cases r)
    case None
    then show ?thesis
      using r pmm_scan_none [of "bitmap s" "PmmLength s" n al 0]
      by (auto simp: pmm_alloc_advanced_eq [OF assms(1)])
  next
    case (Some i)
    then show ?thesis
      using r pmm_scan_found [of "bitmap s" "PmmLength s" n al 0 i]
      by (auto simp: pmm_alloc_advanced_eq [OF assms(1)])
  qed
qed

theorem pmm_alloc_advanced_first_fit_witness:
  "\<exists>k s'. pmm_alloc_advanced 2 4 demo_pmm = Inr (of_nat k * 4 * PAGE_SIZE, s')
     \<and> \<not> is_bitmap_page_free (bitmap demo_pmm) 0 2 \<and> is_bitmap_page_free (bitmap demo_pmm) 4 2"
proof -
  have "is_bitmap_page_free (bitmap demo_pmm) 4 2" and "\<not> is_bitmap_page_free (bitmap demo_pmm) 0 2"
    by (simp_all add: is_bitmap_page_free_def demo_pmm_def test_bit_def)
  moreover from this have "\<exists>k. k * unat (4 :: u64) < unat (PmmLength demo_pmm)
      \<and> is_bitmap_page_free (bitmap demo_pmm) (of_nat k * 4) 2"
    by (intro exI [of _ 1]) (simp add: demo_pmm_def)
  ultimately show ?thesis
    using pmm_alloc_advanced_first_fit [of demo_pmm 4 2]
    by (auto simp: demo_pmm_def INIT_SPINLOCK_def)
qed

text \<open>
  Property C4. Over any sequence of allocations and releases by clients that only give back what
  they hold, starting from a well-formed state with nothing handed out, an exact counter and the
  frames of the bitmap in use: the ranges in the clients' hands never overlap, all their frames are
  marked in use and lie below the limit, none of them is a frame of the bitmap, and \<open>PmmFreePages\<close> is
  at every moment the number of free frames. No zeroing ever touches the memory in which the bitmap
  lies. A request may be refused on the way as long as the bitmap is not among the first frames of
  memory that \<open>pmm_alloc\<close> then zeroes.
\<close>

theorem pmm_clients_apart:
  assumes "pmm_ok lim s" and "PmmFreePages s = of_nat (free_frames lim s)" and "bitmap_home lim s \<subseteq> in_use s"
    and "(client_step lim)\<^sup>*\<^sup>* (s, {}) (s', held)"
  shows "pmm_ok lim s' \<and> PmmFreePages s' = of_nat (free_frames lim s')
    \<and> (\<forall>(a, n) \<in> held. frame_range lim a n \<and> frames a n \<subseteq> in_use s' \<and> frames a n \<inter> bitmap_home lim s = {})
    \<and> (\<forall>p \<in> held. \<forall>q \<in> held. p \<noteq> q \<longrightarrow> frames (fst p) (snd p) \<inter> frames (fst q) (snd q) = {})
    \<and> bitmap_home lim s \<subseteq> in_use s'
    \<and> (\<forall>k<bitmap_bytes lim. bytes s' (PmmBitmap s + of_nat k) = bytes s (PmmBitmap s + of_nat k))"
proof -
  have "clients_ok lim (s, {})" using assms(1-3) by (simp add: clients_ok_def)
  from client_steps_ok [OF assms(4) this] have ok: "clients_ok lim (s', held)" and un: "bitmap_untouched lim s s'" by simp_all
  have home: "bitmap_home lim s' = bitmap_home lim s" using un by (simp add: bitmap_untouched_def)
  show ?thesis using ok un unfolding clients_ok_def prod.case home bitmap_untouched_def by blast
qed

lemma demo_pmm_count: "free_frames 8 demo_pmm = 6"
proof -
  have below: "j < 8 \<longleftrightarrow> j \<in> {0, 1, 2, 3, 4, 5, 6, 7}" for j :: u64
  proof -
    have "unat j < 8 \<longleftrightarrow> unat j \<in> {0, 1, 2, 3, 4, 5, 6, 7}" by auto
    then show ?thesis by (simp add: word_less_nat_alt word_unat_eq_iff)
  qed
  have "test_bit (bitmap demo_pmm) 0" "test_bit (bitmap demo_pmm) 1" "\<not> test_bit (bitmap demo_pmm) 2"
    "\<not> test_bit (bitmap demo_pmm) 3" "\<not> test_bit (bitmap demo_pmm) 4" "\<not> test_bit (bitmap demo_pmm) 5"
    "\<not> test_bit (bitmap demo_pmm) 6" "\<not> test_bit (bitmap demo_pmm) 7"
    by (simp_all add: demo_pmm_def test_bit_def)
  then have "{j :: u64. j < 8 \<and> j \<notin> in_use demo_pmm} = {2, 3, 4, 5, 6, 7}"
    unfolding below in_use_def by (intro set_eqI) (simp, metis)
  then show ?thesis by (simp add: free_frames_def)
qed

lemma demo_pmm_home: "bitmap_home 8 demo_pmm = {1}"
proof -
  have "(PmmBitmap demo_pmm + of_nat k - MEM_PHYS_OFFSET demo_pmm) div PAGE_SIZE = 1" if "k < 4" for k
  proof -
    from that have "k = 0 \<or> k = 1 \<or> k = 2 \<or> k = 3" by linarith
    then show ?thesis by (elim disjE) (simp_all add: demo_pmm_def PAGE_SIZE_def)
  qed
  then have "(\<lambda>k. (PmmBitmap demo_pmm + of_nat k - MEM_PHYS_OFFSET demo_pmm) div PAGE_SIZE) ` {..<4} = (\<lambda>_. 1) ` {..<4 :: nat}"
    by (intro image_cong) simp_all
  then show ?thesis by (simp add: bitmap_home_def bitmap_bytes_def image_constant_conv lessThan_empty_iff)
qed

theorem pmm_clients_apart_witness:
  "\<exists>s'. (client_step 8)\<^sup>*\<^sup>* (demo_pmm, {}) (s', {(0x2000, 2)}) \<and> PmmFreePages s' = of_nat (free_frames 8 s')
     \<and> frames 0x2000 2 \<subseteq> in_use s' \<and> 1 \<notin> frames 0x2000 2"
proof -
  have "client_step 8 (demo_pmm, {}) ((pmm_taken 2 2 demo_pmm)
      \<lparr>bytes := filled (\<lambda>_. Some 7) 0xFFFF800000002000 0 8192\<rparr>, {(0x2000, 2)})"
    using got [OF demo_pmm_alloc, of 8 "{}"] by simp
  then have run: "(client_step 8)\<^sup>*\<^sup>* (demo_pmm, {}) ((pmm_taken 2 2 demo_pmm)
      \<lparr>bytes := filled (\<lambda>_. Some 7) 0xFFFF800000002000 0 8192\<rparr>, {(0x2000, 2)})"
    by (rule r_into_rtranclp)
  have cnt: "PmmFreePages demo_pmm = of_nat (free_frames 8 demo_pmm)"
    by (simp add: demo_pmm_count) (simp add: demo_pmm_def)
  have "bitmap_home 8 demo_pmm \<subseteq> in_use demo_pmm"
    unfolding demo_pmm_home by (simp add: in_use_def demo_pmm_def test_bit_def)
  from pmm_clients_apart [OF demo_pmm_ok cnt this run] run show ?thesis by (auto simp: demo_pmm_home)
qed

text \<open>
  Property C5. Giving back what an allocation returned restores the allocator: the release returns,
  the set of frames in use and the counter of free pages are what they were before.
\<close>

theorem pmm_alloc_free_roundtrip:
  assumes "pmm_ok lim s" and "pmm_alloc n s = Inr (a, s1)" and "a \<noteq> NULL" and "PmmFreePages s \<noteq> 0"
  shows "\<exists>s2. pmm_free a n s1 = Inr s2 \<and> in_use s2 = in_use s \<and> PmmFreePages s2 = PmmFreePages s
    \<and> pmm_ok lim s2 \<and> pmm_frame s s2"
proof -
  obtain s2 where s2: "pmm_free a n s1 = Inr s2" "pmm_ok lim s2" "in_use s2 = in_use s"
    using pm.alloc_then_free [OF assms(1-3)] by blast
  note ok1 = pm.alloc_keeps [OF assms(1-3)] and range = pm.alloc_range [OF assms(1-3)]
  have "PmmFreePages s2 = PmmFreePages s"
    using PmmFreePages_free [OF ok1 range s2(1)] PmmFreePages_alloc [OF assms] by simp
  moreover have "pmm_frame s s2"
    using pmm_frame_trans [OF pmm_alloc_frame [OF assms(1-3)]] pmm_free_frame [OF ok1 range s2(1)] by blast
  ultimately show ?thesis using s2 by blast
qed

theorem pmm_alloc_free_roundtrip_witness:
  "\<exists>s1 s2. pmm_alloc 2 demo_pmm = Inr (0x2000, s1) \<and> pmm_free 0x2000 2 s1 = Inr s2 \<and> PmmFreePages s2 = 6"
proof -
  have "(0x2000 :: addr) \<noteq> NULL" and "PmmFreePages demo_pmm \<noteq> 0" and six: "PmmFreePages demo_pmm = 6"
    by (simp_all add: demo_pmm_def)
  with pmm_alloc_free_roundtrip [OF demo_pmm_ok demo_pmm_alloc] demo_pmm_alloc show ?thesis by metis
qed

text \<open>
  \<open>pmm_alloc\<close> zeroes before it looks at the result of the search: when it returns null in a well-formed
  state, the first \<open>n\<close> page frames of physical memory, which were not allocated, have been overwritten
  with zeros, the bytes of the bitmap among them if it lies there.
\<close>

theorem pmm_alloc_failure_wipes:
  assumes "pmm_ok lim s" and "pmm_alloc n s = Inr (NULL, s')"
  shows "bytes s' = filled (bytes s) (MEM_PHYS_OFFSET s) 0 (unat (PAGE_SIZE * n))
    \<and> (\<forall>k. in_span (MEM_PHYS_OFFSET s) (unat (PAGE_SIZE * n)) (PmmBitmap s + k) \<longrightarrow> bytes s' (PmmBitmap s' + k) = Some 0)"
  using pmm_alloc_null(3,4) [OF assms] by (simp add: filled_def pmm_frame_def)

lemma demo_pmm_refused:
  "pmm_alloc 7 demo_pmm = Inr (NULL, demo_pmm\<lparr>PmmLock := pmm_released (''pmm.c'', ''pmm_alloc_advanced'', 88) demo_pmm,
     bytes := filled (\<lambda>_. Some 7) 0xFFFF800000000000 0 28672\<rparr>)"
proof -
  have "pmm_scan (bitmap demo_pmm) (PmmLength demo_pmm) 7 1 0 = Some None"
    by (simp add: pmm_scan.simps is_bitmap_page_free_def demo_pmm_def test_bit_def)
  moreover have "lock (PmmLock demo_pmm) = 0"
    by (simp add: demo_pmm_def INIT_SPINLOCK_def)
  ultimately show ?thesis
    by (simp add: pmm_alloc_def pmm_alloc_advanced_eq PAGE_SIZE_def)
      (simp add: memset_eq demo_pmm_def mapped_def)
qed

theorem pmm_alloc_failure_wipes_witness:
  "\<exists>s'. pmm_alloc 7 demo_pmm = Inr (NULL, s') \<and> 0 \<in> in_use demo_pmm \<and> bytes demo_pmm 0xFFFF800000000000 = Some 7
     \<and> bytes s' 0xFFFF800000000000 = Some 0 \<and> bytes s' (PmmBitmap s') = Some 0"
proof -
  note inst = pmm_alloc_failure_wipes [OF demo_pmm_ok demo_pmm_refused]
  have "0 \<in> in_use demo_pmm" by (simp add: in_use_def demo_pmm_def test_bit_def)
  moreover have "bytes demo_pmm 0xFFFF800000000000 = Some 7" by (simp add: demo_pmm_def)
  moreover have "filled (bytes demo_pmm) (MEM_PHYS_OFFSET demo_pmm) 0 (unat (PAGE_SIZE * 7)) 0xFFFF800000000000 = Some 0"
    "in_span (MEM_PHYS_OFFSET demo_pmm) (unat (PAGE_SIZE * 7)) (PmmBitmap demo_pmm + 0)"
    by (simp_all add: filled_def in_span_def PAGE_SIZE_def demo_pmm_def)
  ultimately show ?thesis using inst demo_pmm_refused by (metis add_0_right)
qed

text \<open>
  Property C6. On a memory map as the boot loader promises it, with the direct map above the first
  \<open>2 ^ 51\<close> and a page and with a usable region large enough, \<open>pmm_init\<close> returns with the lock free,
  and marks exactly the following frames: those marked before and those of the filled part of the
  bitmap, less the ranges freed for the usable regions, and frames 1 and 2. No frame of the bitmap
  itself is freed, and the counter has grown by the number of pages freed.
\<close>

theorem pmm_init_marks:
  assumes "memmap_ok entries" and "2 ^ 51 + 4096 \<le> unat hhdm"
    and "lock (PmmLock s) = 0" and "PmmBitmap s = NULL"
    and "pmm_choose entries (NULL, PmmLength s, 0) = (bmp, len, maxBase)" and "bmp \<noteq> NULL"
  shows "\<exists>s'. pmm_init hhdm entries s = Inr s' \<and> lock (PmmLock s') = 0
    \<and> in_use s' = (in_use s \<union> {j. unat j < 8 * unat (len div 8)}) - freed_frames len bmp entries \<union> {1, 2}
    \<and> freed_frames len bmp entries \<inter> bitmap_frames bmp len = {}
    \<and> PmmFreePages s' = PmmFreePages s + freed_total len bmp entries
    \<and> PmmBitmap s' = bmp + hhdm \<and> PmmLength s' = len \<and> MEM_PHYS_OFFSET s' = hhdm"
proof -
  have mb: "maxBase = bmp" using assms(1,5,6) by (rule chosen_region)
  have "fst (freed_range len maxBase e) < hhdm" if "e \<in> set entries" and "freed_entry maxBase e" for e
    using freed_range_below [OF assms(1,5,6) that] assms(2) by (simp add: word_less_nat_alt)
  then obtain s' where "pmm_init hhdm entries s = Inr s'" "lock (PmmLock s') = 0"
    "in_use s' = (in_use s \<union> {j. unat j < 8 * unat (len div 8)}) - freed_frames len maxBase entries \<union> {1, 2}"
    "PmmFreePages s' = PmmFreePages s + freed_total len maxBase entries"
    "PmmBitmap s' = bmp + hhdm" "PmmLength s' = len" "MEM_PHYS_OFFSET s' = hhdm"
    using pmm_init_in_use [OF assms(3), of entries bmp len maxBase hhdm] assms(4-6) by metis
  with freed_frames_apart [OF assms(1,5,6)] show ?thesis unfolding mb by blast
qed

definition demo_map :: "limine_memmap_entry list" where
  "demo_map = [\<lparr>entry_base = 0x1000, entry_length = 0x9F000, entry_type = 0\<rparr>,
     \<lparr>entry_base = 0xA0000, entry_length = 0x60000, entry_type = 1\<rparr>,
     \<lparr>entry_base = 0x100000, entry_length = 0x100000, entry_type = 0\<rparr>]"

definition demo_boot :: pmm where
  "demo_boot = demo_pmm\<lparr>PmmBitmap := NULL, PmmLength := 0, PmmFreePages := 0, bitmap := (\<lambda>_. 0)\<rparr>"

lemma demo_map_ok: "memmap_ok demo_map"
  by (simp add: memmap_ok_def demo_map_def usable_ok_def LIMINE_MEMMAP_USABLE_def spans_apart_def in_span_iff)

lemma demo_map_choice: "pmm_choose demo_map (NULL, 0, 0) = (0x100000, 0x200, 0x100000)"
  by (simp add: demo_map_def LIMINE_MEMMAP_USABLE_def Let_def PAGE_SIZE_def)

lemma demo_boot_fields: "lock (PmmLock demo_boot) = 0" "PmmBitmap demo_boot = NULL" "PmmLength demo_boot = 0"
  "PmmFreePages demo_boot = 0" "in_use demo_boot = {}"
  by (simp_all add: demo_boot_def demo_pmm_def INIT_SPINLOCK_def in_use_def test_bit_def)

theorem pmm_init_marks_witness:
  "\<exists>s'. pmm_init 0xFFFF800000000000 demo_map demo_boot = Inr s' \<and> PmmLength s' = 0x200
     \<and> freed_frames 0x200 0x100000 demo_map \<inter> bitmap_frames 0x100000 0x200 = {} \<and> PmmFreePages s' = 0x19F"
proof -
  have "freed_total 0x200 0x100000 demo_map = 0x19F"
    by (simp add: freed_total_def demo_map_def freed_entry_def freed_range_def LIMINE_MEMMAP_USABLE_def PAGE_SIZE_def)
  with pmm_init_marks [OF demo_map_ok, of "0xFFFF800000000000" demo_boot "0x100000" "0x200" "0x100000"]
  show ?thesis by (auto simp: demo_boot_fields demo_map_choice)
qed

text \<open>
  Property C7. Under the same conditions, when the bitmap does not fill its last page exactly, one
  page too many is freed: the start of the range is rounded up but its length is not, so the frame
  that follows the chosen region, number \<open>PmmLength\<close> itself, ends up marked free.
\<close>

theorem pmm_init_frees_past_end:
  assumes "memmap_ok entries" and "2 ^ 51 + 4096 \<le> unat hhdm"
    and "lock (PmmLock s) = 0" and "PmmBitmap s = NULL"
    and "pmm_choose entries (NULL, PmmLength s, 0) = (bmp, len, maxBase)" and "bmp \<noteq> NULL"
    and "unat len div 8 mod 4096 \<noteq> 0" and "2 < len"
  shows "\<exists>s' e. pmm_init hhdm entries s = Inr s' \<and> e \<in> set entries \<and> entry_base e = bmp
    \<and> PmmLength s' = len \<and> unat (entry_base e) + unat (entry_length e) = 4096 * unat len \<and> len \<notin> in_use s'"
proof -
  obtain e b L where e: "e \<in> set entries" "entry_type e = LIMINE_MEMMAP_USABLE" "usable_ok e"
    "entry_base e = bmp" "maxBase = bmp" "unat bmp = 4096 * b" "unat (entry_length e) = 4096 * L"
    "unat len = b + L" "b + L \<le> 2 ^ 39" "unat len < 4096 * L"
    using assms(1,5,6) by (rule chosen_region)
  have "fst (freed_range len maxBase e) < hhdm" if "e \<in> set entries" and "freed_entry maxBase e" for e
    using freed_range_below [OF assms(1,5,6) that] assms(2) by (simp add: word_less_nat_alt)
  then obtain s' where s': "pmm_init hhdm entries s = Inr s'" "PmmLength s' = len"
    "in_use s' = (in_use s \<union> {j. unat j < 8 * unat (len div 8)}) - freed_frames len maxBase entries \<union> {1, 2}"
    using pmm_init_in_use [OF assms(3), of entries bmp len maxBase hhdm] assms(4-6) by metis
  note fr = freed_range_chosen [OF e(4,6-10)]
  have "pages_for (unat len div 8) = unat len div 8 div 4096 + 1"
    using assms(7) by (simp add: pages_for_cases)
  then have "len \<in> frames (fst (freed_range len bmp e)) (snd (freed_range len bmp e))"
    using fr(1,2) by (simp add: fr(4) e(8))
  moreover have "freed_entry bmp e" using e by (simp add: freed_entry_def)
  ultimately have "len \<in> freed_frames len bmp entries" using e(1) by (auto simp: freed_frames_def)
  moreover have "len \<noteq> 1" and "len \<noteq> 2" using assms(8) by (auto simp: word_less_nat_alt)
  ultimately have "len \<notin> in_use s'" by (simp add: s'(3) e(5))
  then show ?thesis using s' e by auto
qed

theorem pmm_init_frees_past_end_witness:
  "\<exists>s'. pmm_init 0xFFFF800000000000 demo_map demo_boot = Inr s' \<and> 0x200 \<notin> in_use s'"
  using pmm_init_frees_past_end [OF demo_map_ok, of "0xFFFF800000000000" demo_boot "0x100000" "0x200" "0x100000"]
  by (auto simp: demo_boot_fields demo_map_choice)

end
