(* ===== verification/Kmalloc.thy ===== *)
theory Kmalloc
  imports Pmm
begin

text \<open>
  The kernel heap, \<open>kernel/mem/alloc.c\<close>: every block is a run of page frames, the first of which
  holds a header with the number of pages and the size of the block. The header lives in the
  byte memory and is read back by \<open>kfree\<close> and \<open>krealloc\<close>, so that a client which overwrites it, or
  a release of an address that is no block, behaves as in the source.
\<close>

section \<open>Operations\<close>

definition kmalloc :: "size_t \<Rightarrow> 'a pmm_scheme \<Rightarrow> (addr \<times> 'a pmm_scheme) res" where
  "kmalloc sz s =
     (let pageCount = sz div PAGE_SIZE;
          pageCount = (if sz mod PAGE_SIZE \<noteq> 0 then pageCount + 1 else pageCount)
      in bnd (pmm_alloc (pageCount + 1) s) (\<lambda>(retAddr, s).
         if retAddr = NULL then Inr (NULL, s)
         else let retAddr = retAddr + MEM_PHYS_OFFSET s; header = retAddr
              in bnd (st64 (bytes s) header pageCount) (\<lambda>m.
                 bnd (st64 m (header + 8) sz) (\<lambda>m.
                 Inr (retAddr + PAGE_SIZE, s\<lparr>bytes := m\<rparr>)))))"

definition kfree :: "addr \<Rightarrow> 'a pmm_scheme \<Rightarrow> 'a pmm_scheme res" where
  "kfree address s =
     (let header = address - PAGE_SIZE
      in bnd (ld64 (bytes s) header) (\<lambda>pages.
         pmm_free (header - MEM_PHYS_OFFSET s) (pages + 1) s))"

definition krealloc :: "addr \<Rightarrow> size_t \<Rightarrow> 'a pmm_scheme \<Rightarrow> (addr \<times> 'a pmm_scheme) res" where
  "krealloc address sz s =
     (if address = NULL then kmalloc sz s
      else if sz = 0 then bnd (kfree address s) (\<lambda>s. Inr (NULL, s))
      else let header = address - PAGE_SIZE
           in bnd (ld64 (bytes s) (header + 8)) (\<lambda>hsize.
              if ROUND_UP hsize PAGE_SIZE = ROUND_UP sz PAGE_SIZE
              then bnd (st64 (bytes s) (header + 8) sz) (\<lambda>m. Inr (address, s\<lparr>bytes := m\<rparr>))
              else bnd (kmalloc sz s) (\<lambda>(newAddr, s).
                   if newAddr = NULL then Inr (NULL, s)
                   else bnd (ld64 (bytes s) (header + 8)) (\<lambda>hsize.
                        bnd (if hsize > sz then memcpy (bytes s) newAddr address sz
                             else memcpy (bytes s) newAddr address hsize) (\<lambda>(_, m).
                        bnd (kfree address (s\<lparr>bytes := m\<rparr>)) (\<lambda>s.
                        Inr (newAddr, s)))))))"

definition kcalloc :: "size_t \<Rightarrow> size_t \<Rightarrow> 'a pmm_scheme \<Rightarrow> (addr \<times> 'a pmm_scheme) res" where
  "kcalloc num nsize s =
     (if num = 0 \<or> nsize = 0 then Inr (NULL, s)
      else let sz = num * nsize
           in if nsize \<noteq> sz div num then Inr (NULL, s)
              else bnd (kmalloc sz s) (\<lambda>(address, s).
                   if address = NULL then Inr (NULL, s)
                   else bnd (memset (bytes s) address 0 sz) (\<lambda>(_, m).
                        Inr (address, s\<lparr>bytes := m\<rparr>))))"

text \<open>\<open>strdup\<close> of \<open>kernel/utils/string.c\<close>, the one string routine that allocates.\<close>

definition strdup :: "addr \<Rightarrow> 'a pmm_scheme \<Rightarrow> (addr \<times> 'a pmm_scheme) res" where
  "strdup str s =
     bnd (strlen (bytes s) str) (\<lambda>n.
     let len = n + 1
     in bnd (kmalloc len s) (\<lambda>(strNew, s).
        bnd (memcpy (bytes s) strNew str len) (\<lambda>(_, m).
        Inr (strNew, s\<lparr>bytes := m\<rparr>))))"

section \<open>Blocks\<close>

definition pages_of :: "size_t \<Rightarrow> u64" where
  "pages_of n = (if n mod PAGE_SIZE \<noteq> 0 then n div PAGE_SIZE + 1 else n div PAGE_SIZE)"

lemma unat_pages_of: "unat (pages_of n) = pages_for (unat n)" "unat (pages_of n + 1) = pages_for (unat n) + 1"
proof -
  have "unat (n div PAGE_SIZE) = unat n div 4096" and m: "unat (n mod PAGE_SIZE) = unat n mod 4096"
    by (simp_all add: unat_div unat_mod PAGE_SIZE_def)
  moreover have "unat n div 4096 < 2 ^ 52" using unat_u64_less [of n] by simp
  ultimately have "unat (n div PAGE_SIZE + 1) = unat n div 4096 + 1" and d: "unat (n div PAGE_SIZE) = unat n div 4096"
    by (simp_all add: unat_add_u64)
  moreover have "n mod PAGE_SIZE = 0 \<longleftrightarrow> unat n mod 4096 = 0" by (simp add: m [symmetric] unat_eq_zero)
  ultimately show p: "unat (pages_of n) = pages_for (unat n)" by (simp add: pages_of_def pages_for_cases)
  have "pages_for (unat n) \<le> 2 ^ 52"
    using unat_u64_less [of n] by (intro pages_for_le) simp
  then show "unat (pages_of n + 1) = pages_for (unat n) + 1" by (simp add: unat_add_u64 p)
qed

text \<open>The physical address of a block's first frame, which holds its header.\<close>

definition phys :: "'a pmm_scheme \<Rightarrow> addr \<Rightarrow> addr" where
  "phys s p = p - PAGE_SIZE - MEM_PHYS_OFFSET s"

definition block_frames :: "'a pmm_scheme \<Rightarrow> addr \<Rightarrow> size_t \<Rightarrow> u64 set" where
  "block_frames s p n = frames (phys s p) (pages_of n + 1)"

definition block_ok :: "u64 \<Rightarrow> 'a pmm_scheme \<Rightarrow> addr \<Rightarrow> size_t \<Rightarrow> bool" where
  "block_ok lim s p n \<longleftrightarrow> frame_range lim (phys s p) (pages_of n + 1) \<and> block_frames s p n \<subseteq> in_use s
     \<and> ld64 (bytes s) (p - PAGE_SIZE) = Inr (pages_of n) \<and> ld64 (bytes s) (p - PAGE_SIZE + 8) = Inr n"

text \<open>
  The heap: \<open>B\<close> maps the address of every live block to its size. The blocks are well formed and
  no two of them share a frame; the direct map of the frames below \<open>lim\<close> ends below the last
  address, so that no block has address 0.
\<close>

definition heap_ok :: "u64 \<Rightarrow> (addr \<rightharpoonup> size_t) \<Rightarrow> 'a pmm_scheme \<Rightarrow> bool" where
  "heap_ok lim B s \<longleftrightarrow> pmm_ok lim s \<and> unat (MEM_PHYS_OFFSET s) + unat lim * 4096 < 2 ^ 64 \<and>
     (\<forall>p n. B p = Some n \<longrightarrow> block_ok lim s p n) \<and>
     (\<forall>p q n k. B p = Some n \<and> B q = Some k \<and> p \<noteq> q \<longrightarrow> block_frames s p n \<inter> block_frames s q k = {})"

text \<open>The bytes of a block with its header page.\<close>

abbreviation block_span :: "addr \<Rightarrow> size_t \<Rightarrow> addr \<Rightarrow> bool" where
  "block_span p n \<equiv> in_span (p - PAGE_SIZE) (4096 * (pages_for (unat n) + 1))"

lemma frames_spans_apart:
  assumes "frame_range lim a n" and "frame_range lim b k" and "frames a n \<inter> frames b k = {}"
    and l52: "unat lim < 2 ^ 52" and "unat off + unat lim * 4096 \<le> 2 ^ 64"
  shows "spans_apart (a + off) (4096 * unat n) (b + off) (4096 * unat k)"
  unfolding spans_apart_def
proof (intro allI notI)
  fix x assume x: "in_span (a + off) (4096 * unat n) x \<and> in_span (b + off) (4096 * unat k) x"
  note fa = frame_range_div [OF assms(1) l52] and fb = frame_range_div [OF assms(2) l52]
  have ua: "unat (a + off) = unat a + unat off" and ub: "unat (b + off) = unat b + unat off"
    using fa(2,4) fb(2,4) assms(5) by (simp_all add: unat_add_u64)
  have na: "unat a + 4096 * unat n \<le> unat lim * 4096" and nb: "unat b + 4096 * unat k \<le> unat lim * 4096"
    using fa(2,5) fb(2,5) by linarith+
  have xa: "unat a + unat off \<le> unat x \<and> unat x < unat a + unat off + 4096 * unat n"
    using x na assms(5) by (subst (asm) in_span_iff) (auto simp: ua)
  have xb: "unat b + unat off \<le> unat x \<and> unat x < unat b + unat off + 4096 * unat k"
    using x nb assms(5) by (subst (asm) (2) in_span_iff) (auto simp: ub)
  define q where "q = (unat x - unat off) div 4096"
  have "q < 2 ^ 64" unfolding q_def using unat_u64_less [of x] by linarith
  then have uq: "unat (of_nat q :: u64) = q" by (rule unat_of_nat_u64)
  have "unat (a div PAGE_SIZE) \<le> q" "q < unat (a div PAGE_SIZE) + unat n"
    unfolding q_def using xa fa(2) by linarith+
  then have "of_nat q \<in> frames a n" unfolding fa(6) uq by simp
  moreover have "unat (b div PAGE_SIZE) \<le> q" "q < unat (b div PAGE_SIZE) + unat k"
    unfolding q_def using xb fb(2) by linarith+
  then have "of_nat q \<in> frames b k" unfolding fb(6) uq by simp
  ultimately show False using assms(3) by blast
qed

lemma block_spans_apart:
  assumes "heap_ok lim B s" and "block_ok lim s p n" and "block_ok lim s q k"
    and "block_frames s p n \<inter> block_frames s q k = {}"
  shows "spans_apart (p - PAGE_SIZE) (4096 * (pages_for (unat n) + 1)) (q - PAGE_SIZE) (4096 * (pages_for (unat k) + 1))"
proof -
  have "unat lim < 2 ^ 52" using assms(1) pmm_ok_lim by (auto simp: heap_ok_def)
  then have "spans_apart (phys s p + MEM_PHYS_OFFSET s) (4096 * unat (pages_of n + 1))
      (phys s q + MEM_PHYS_OFFSET s) (4096 * unat (pages_of k + 1))"
    using assms by (intro frames_spans_apart) (auto simp: block_ok_def heap_ok_def block_frames_def)
  then show ?thesis by (simp only: unat_pages_of) (simp add: phys_def)
qed

lemma header_in_block: "in_span h 8 x \<Longrightarrow> in_span h (4096 * (k + 1)) x" "in_span (h + 8) 8 x \<Longrightarrow> in_span h (4096 * (k + 1)) x"
proof -
  show "in_span h 8 x \<Longrightarrow> in_span h (4096 * (k + 1)) x" by (simp add: in_span_def)
  assume "in_span (h + 8) 8 x"
  then have "unat (x - h - 8) < 8" by (simp add: in_span_def diff_diff_eq)
  moreover have "unat (x - h - 8 + 8) = unat (x - h - 8) + unat (8 :: u64)"
    using calculation by (intro unat_add_u64) simp
  ultimately show "in_span h (4096 * (k + 1)) x" by (simp add: in_span_def)
qed

text \<open>A block survives whatever leaves its frames in use and its bytes alone.\<close>

lemma block_ok_keep:
  assumes "block_ok lim s p n" and "MEM_PHYS_OFFSET s' = MEM_PHYS_OFFSET s" and "block_frames s p n \<subseteq> in_use s'"
    and "\<And>x. block_span p n x \<Longrightarrow> bytes s' x = bytes s x"
  shows "block_ok lim s' p n" and "block_frames s' p n = block_frames s p n"
proof -
  show fr: "block_frames s' p n = block_frames s p n" using assms(2) by (simp add: block_frames_def phys_def)
  have "ld64 (bytes s') (p - PAGE_SIZE) = ld64 (bytes s) (p - PAGE_SIZE)"
    and "ld64 (bytes s') (p - PAGE_SIZE + 8) = ld64 (bytes s) (p - PAGE_SIZE + 8)"
    by (intro ld64_cong assms(4) header_in_block, assumption)+
  then show "block_ok lim s' p n" using assms(1,3) fr by (simp add: block_ok_def phys_def assms(2))
qed

section \<open>Allocating\<close>

text \<open>The memory after \<open>kmalloc\<close>: zeroed frames with the two fields of the header written.\<close>

definition new_block :: "mem \<Rightarrow> addr \<Rightarrow> size_t \<Rightarrow> mem" where
  "new_block m h n = put64 (put64 (filled m h 0 (4096 * (pages_for (unat n) + 1))) h (pages_of n)) (h + 8) n"

lemma kmalloc_success:
  assumes ok: "heap_ok lim B s" and call: "kmalloc n s = Inr (p, s')" and "p \<noteq> NULL"
  obtains a s1 where "pmm_alloc (pages_of n + 1) s = Inr (a, s1)" and "a \<noteq> NULL"
    and "p = a + MEM_PHYS_OFFSET s + PAGE_SIZE" and "phys s p = a"
    and "bytes s1 = filled (bytes s) (p - PAGE_SIZE) 0 (4096 * (pages_for (unat n) + 1))"
    and "s' = s1\<lparr>bytes := new_block (bytes s) (p - PAGE_SIZE) n\<rparr>"
proof -
  have pok: "pmm_ok lim s" using ok by (simp add: heap_ok_def)
  from call \<open>p \<noteq> NULL\<close> obtain a s1 where al: "pmm_alloc (pages_of n + 1) s = Inr (a, s1)" and "a \<noteq> NULL"
    by (auto simp: kmalloc_def Let_def pages_of_def [symmetric] bnd_eq_Inr split: if_splits)
  have off: "MEM_PHYS_OFFSET s1 = MEM_PHYS_OFFSET s"
    using pmm_alloc_frame [OF pok al \<open>a \<noteq> NULL\<close>] by (simp add: pmm_frame_def)
  let ?h = "a + MEM_PHYS_OFFSET s"
  have b1: "bytes s1 = filled (bytes s) ?h 0 (4096 * (pages_for (unat n) + 1))"
    using pmm_alloc_bytes [OF pok al \<open>a \<noteq> NULL\<close>] by (simp only: unat_pages_of)
  have "mapped (bytes s1) ?h 16"
    by (auto simp: b1 mapped_def filled_def in_span_def unat_of_nat_u64)
  then have m: "mapped (bytes s1) ?h 8" "mapped (put64 (bytes s1) ?h w) (?h + 8) 8" for w
    using mapped_sub [of "bytes s1" ?h 16 0 8] mapped_sub [of "bytes s1" ?h 16 8 8] by simp_all
  have "p = ?h + PAGE_SIZE" and "s' = s1\<lparr>bytes := put64 (put64 (bytes s1) ?h (pages_of n)) (?h + 8) n\<rparr>"
    using call al \<open>a \<noteq> NULL\<close>
    by (simp_all add: kmalloc_def Let_def pages_of_def [symmetric] off st64_eq m)
  then show ?thesis
    using al \<open>a \<noteq> NULL\<close> b1 by (intro that [of a s1]) (simp_all add: phys_def new_block_def)
qed

lemma new_block_outside: "\<not> in_span h (4096 * (pages_for (unat n) + 1)) x \<Longrightarrow> new_block m h n x = m x"
  using header_in_block [of h x] by (auto simp: new_block_def put64_def filled_def)

text \<open>The two fields of the header do not overlap.\<close>

lemma header_apart: "in_span h 8 x \<Longrightarrow> \<not> in_span (h + 8) 8 x"
proof
  assume h: "in_span h 8 x" and "in_span (h + 8) 8 x"
  then have "unat (x - h - 8) < 8" by (simp add: in_span_def diff_diff_eq)
  moreover have "unat (x - h - 8 + 8) = unat (x - h - 8) + unat (8 :: u64)"
    using calculation by (intro unat_add_u64) simp
  ultimately show False using h by (simp add: in_span_def)
qed

lemma new_block_header: "ld64 (new_block m h n) h = Inr (pages_of n)" "ld64 (new_block m h n) (h + 8) = Inr n"
proof -
  have "ld64 (new_block m h n) h = ld64 (put64 (filled m h 0 (4096 * (pages_for (unat n) + 1))) h (pages_of n)) h"
    unfolding new_block_def by (intro ld64_cong put64_outside header_apart)
  then show "ld64 (new_block m h n) h = Inr (pages_of n)" by simp
  show "ld64 (new_block m h n) (h + 8) = Inr n" by (simp add: new_block_def)
qed

lemma block_payload:
  assumes "i + 4096 < 2 ^ 64" and "i < 4096 * k"
  shows "in_span (p - PAGE_SIZE) (4096 * (k + 1)) (p + of_nat i)"
    and "\<not> in_span (p - PAGE_SIZE) 8 (p + of_nat i)" and "\<not> in_span (p - PAGE_SIZE + 8) 8 (p + of_nat i)"
proof -
  have "p + of_nat i - (p - PAGE_SIZE) = of_nat (i + 4096)"
    and "p + of_nat i - (p - PAGE_SIZE + 8) = of_nat (i + 4088)"
    by (simp_all add: PAGE_SIZE_def)
  then have "unat (p + of_nat i - (p - PAGE_SIZE)) = i + 4096"
    and "unat (p + of_nat i - (p - PAGE_SIZE + 8)) = i + 4088"
    using assms(1) by (simp_all only:) (rule unat_of_nat_u64, simp)+
  then show "in_span (p - PAGE_SIZE) (4096 * (k + 1)) (p + of_nat i)"
    and "\<not> in_span (p - PAGE_SIZE) 8 (p + of_nat i)" and "\<not> in_span (p - PAGE_SIZE + 8) 8 (p + of_nat i)"
    using assms(2) by (simp_all add: in_span_def)
qed

lemma new_block_zero:
  assumes "i + 4096 < 2 ^ 64" and "i < 4096 * pages_for (unat n)"
  shows "new_block m (p - PAGE_SIZE) n (p + of_nat i) = Some 0"
  using block_payload [OF assms, of p] by (simp add: new_block_def put64_def filled_def)

lemma heap_lim: "heap_ok lim B s \<Longrightarrow> unat lim < 2 ^ 52"
  using pmm_ok_lim by (auto simp: heap_ok_def)

text \<open>The size of a well-formed block: it fits below the limit.\<close>

lemma block_fits:
  assumes "frame_range lim a (pages_of n + 1)" and "unat lim < 2 ^ 52"
  shows "4096 * (pages_for (unat n) + 1) < 4096 * unat lim" and "unat n \<le> 4096 * pages_for (unat n)"
proof -
  have "unat (a div PAGE_SIZE) + (pages_for (unat n) + 1) \<le> unat lim" and "0 < unat (a div PAGE_SIZE)"
    using frame_range_div(3,5) [OF assms] by (simp_all only: unat_pages_of)
  then show "4096 * (pages_for (unat n) + 1) < 4096 * unat lim" by simp
  show "unat n \<le> 4096 * pages_for (unat n)" unfolding pages_for_def by linarith
qed

text \<open>What one successful call does, apart from the blocks that were there before.\<close>

lemma kmalloc_block:
  assumes ok: "heap_ok lim B s" and call: "kmalloc n s = Inr (p, s')" and nn: "p \<noteq> NULL"
  shows "pmm_ok lim s'" and "pmm_frame s s'" and "in_use s' = in_use s \<union> block_frames s p n"
    and "frame_range lim (phys s p) (pages_of n + 1)" and "block_frames s p n \<inter> in_use s = {}"
    and "\<And>i. i < 4096 * pages_for (unat n) \<Longrightarrow> bytes s' (p + of_nat i) = Some 0"
    and "\<And>x. \<not> block_span p n x \<Longrightarrow> bytes s' x = bytes s x"
    and "block_ok lim s' p n" and "block_frames s' p n = block_frames s p n"
proof -
  obtain a s1 where al: "pmm_alloc (pages_of n + 1) s = Inr (a, s1)" and "a \<noteq> NULL" and p: "phys s p = a"
    and b1: "bytes s1 = filled (bytes s) (p - PAGE_SIZE) 0 (4096 * (pages_for (unat n) + 1))"
    and s': "s' = s1\<lparr>bytes := new_block (bytes s) (p - PAGE_SIZE) n\<rparr>"
    using ok call nn by (rule kmalloc_success)
  have pok: "pmm_ok lim s" using ok by (simp add: heap_ok_def)
  note call1 = pok al \<open>a \<noteq> NULL\<close>
  have bf: "block_frames s p n = frames a (pages_of n + 1)" by (simp add: block_frames_def p)
  show frame: "pmm_frame s s'"
    using pmm_alloc_frame [OF call1] by (simp add: s' pmm_frame_def same_hart_def)
  then have "MEM_PHYS_OFFSET s' = MEM_PHYS_OFFSET s" by (simp add: pmm_frame_def)
  then have ph: "phys s' p = phys s p" by (simp add: phys_def)
  then show bf': "block_frames s' p n = block_frames s p n" by (simp add: block_frames_def)
  show use: "in_use s' = in_use s \<union> block_frames s p n"
    using pm.alloc_takes [OF call1] by (simp add: s' bf in_use_def)
  show range: "frame_range lim (phys s p) (pages_of n + 1)"
    using pm.alloc_range [OF call1] by (simp add: p)
  show "block_frames s p n \<inter> in_use s = {}" using pm.alloc_fresh [OF call1] by (simp add: bf)
  show "bytes s' x = bytes s x" if "\<not> block_span p n x" for x
    using that by (simp add: s' new_block_outside)
  show "bytes s' (p + of_nat i) = Some 0" if "i < 4096 * pages_for (unat n)" for i
    using new_block_zero [of i n "bytes s" p] that block_fits(1) [OF range heap_lim [OF ok]] heap_lim [OF ok]
    by (simp add: s')
  show "block_ok lim s' p n"
    using range use new_block_header [of "bytes s" "p - PAGE_SIZE" n]
    unfolding block_ok_def ph bf' by (simp add: s')
  show "pmm_ok lim s'"
    using pm.alloc_keeps [OF call1] b1 by (auto simp: pmm_ok_def s' new_block_def mapped_def put64_def)
qed

lemma block_frames_nonempty: "phys s p div PAGE_SIZE \<in> block_frames s p n"
  by (simp add: block_frames_def frames_def in_span_def unat_pages_of)

lemma kmalloc_ok:
  assumes ok: "heap_ok lim B s" and call: "kmalloc n s = Inr (p, s')" and nn: "p \<noteq> NULL"
  shows "B p = None" and "heap_ok lim (B(p \<mapsto> n)) s'"
proof -
  note blk = kmalloc_block [OF assms]
  have off: "MEM_PHYS_OFFSET s' = MEM_PHYS_OFFSET s" using blk(2) by (simp add: pmm_frame_def)
  have apart: "block_frames s q k \<inter> block_frames s p n = {}" if "B q = Some k" for q k
    using that ok blk(5) by (auto simp: heap_ok_def block_ok_def)
  show "B p = None"
    using apart [of p] block_frames_nonempty [of s p] by (cases "B p") (auto simp: disjoint_iff)
  have others: "block_ok lim s' q k \<and> block_frames s' q k = block_frames s q k" if q: "B q = Some k" for q k
  proof -
    have bq: "block_ok lim s q k" using ok q by (simp add: heap_ok_def)
    then have "spans_apart (phys s q + MEM_PHYS_OFFSET s) (4096 * unat (pages_of k + 1))
        (phys s p + MEM_PHYS_OFFSET s) (4096 * unat (pages_of n + 1))"
      using ok blk(4) heap_lim [OF ok] apart [OF q] by (intro frames_spans_apart)
        (auto simp: block_ok_def heap_ok_def block_frames_def)
    then have "\<not> block_span p n x" if "block_span q k x" for x
      using that by (simp only: unat_pages_of) (auto simp: phys_def spans_apart_def)
    moreover have "block_frames s q k \<subseteq> in_use s'" using bq blk(3) by (auto simp: block_ok_def)
    ultimately show ?thesis using block_ok_keep [OF bq off] blk(7) by blast
  qed
  have "block_frames s' q k \<inter> block_frames s' r j = {}"
    if "(B(p \<mapsto> n)) q = Some k" and "(B(p \<mapsto> n)) r = Some j" and "q \<noteq> r" for q r k j
  proof -
    have "B q = Some k \<Longrightarrow> B r = Some j \<Longrightarrow> block_frames s q k \<inter> block_frames s r j = {}"
      using ok that(3) unfolding heap_ok_def by blast
    then show ?thesis using that apart others blk(9) by (auto split: if_splits)
  qed
  then show "heap_ok lim (B(p \<mapsto> n)) s'"
    using ok blk(1,8) others by (auto simp: heap_ok_def off split: if_splits)
qed

text \<open>It succeeds whenever the frames can be had.\<close>

lemma kmalloc_returns:
  assumes ok: "heap_ok lim B s" and "is_bitmap_page_free (bitmap s) i (pages_of n + 1)" and "i < PmmLength s"
  shows "\<exists>p s'. kmalloc n s = Inr (p, s') \<and> p \<noteq> NULL"
proof -
  have pok: "pmm_ok lim s" using ok by (simp add: heap_ok_def)
  have "pages_of n + 1 \<noteq> 0" using unat_pages_of(2) [of n] by auto
  with pmm_alloc_finds [OF pok assms(2,3)] obtain a s1
    where al: "pmm_alloc (pages_of n + 1) s = Inr (a, s1)" and "a \<noteq> NULL" by blast
  note call = pok al \<open>a \<noteq> NULL\<close>
  have off: "MEM_PHYS_OFFSET s1 = MEM_PHYS_OFFSET s"
    using pmm_alloc_frame [OF call] by (simp add: pmm_frame_def)
  let ?h = "a + MEM_PHYS_OFFSET s"
  have "mapped (bytes s1) ?h 16"
    using pmm_alloc_bytes [OF call] unat_pages_of(2) [of n]
    by (auto simp: mapped_def filled_def in_span_def unat_of_nat_u64)
  then have m: "mapped (bytes s1) ?h 8" "mapped (put64 (bytes s1) ?h w) (?h + 8) 8" for w
    using mapped_sub [of "bytes s1" ?h 16 0 8] mapped_sub [of "bytes s1" ?h 16 8 8] by simp_all
  have "?h + PAGE_SIZE \<noteq> NULL"
  proof -
    note fr = frame_range_div [OF pm.alloc_range [OF call] heap_lim [OF ok]]
    have "unat a + 4096 \<le> 4096 * unat lim" using fr(2,4) by linarith
    moreover have o: "unat (MEM_PHYS_OFFSET s) + unat lim * 4096 < 2 ^ 64" using ok by (simp add: heap_ok_def)
    ultimately have "unat (a + MEM_PHYS_OFFSET s) = unat a + unat (MEM_PHYS_OFFSET s)"
      and "unat a + unat (MEM_PHYS_OFFSET s) + 4096 < 2 ^ 64"
      by (simp_all add: unat_add_u64)
    then have "unat (?h + PAGE_SIZE) = unat ?h + 4096" by (simp add: unat_add_u64 PAGE_SIZE_def)
    then show ?thesis by auto
  qed
  moreover have "kmalloc n s = Inr (?h + PAGE_SIZE, s1\<lparr>bytes := put64 (put64 (bytes s1) ?h (pages_of n)) (?h + 8) n\<rparr>)"
    using al \<open>a \<noteq> NULL\<close> by (simp add: kmalloc_def Let_def pages_of_def [symmetric] off st64_eq m)
  ultimately show ?thesis by blast
qed

section \<open>Releasing\<close>

lemma kfree_ok:
  assumes ok: "heap_ok lim B s" and p: "B p = Some n"
  obtains s' where "kfree p s = Inr s'" and "heap_ok lim (B(p := None)) s'" and "pmm_frame s s'"
    and "bytes s' = bytes s" and "in_use s' = in_use s - block_frames s p n"
proof -
  have blk: "block_ok lim s p n" and pok: "pmm_ok lim s" using ok p by (simp_all add: heap_ok_def)
  then have range: "frame_range lim (phys s p) (pages_of n + 1)" by (simp add: block_ok_def)
  obtain s' where free: "pmm_free (phys s p) (pages_of n + 1) s = Inr s'"
    using pm.free_returns [OF pok range] by blast
  then have call: "kfree p s = Inr s'"
    using blk by (simp add: kfree_def block_ok_def phys_def Let_def)
  have frame: "pmm_frame s s'" and bytes: "bytes s' = bytes s"
    using pmm_free_frame [OF pok range free] by auto
  have use: "in_use s' = in_use s - block_frames s p n"
    using pm.free_gives [OF pok range free] by (simp add: block_frames_def)
  have off: "MEM_PHYS_OFFSET s' = MEM_PHYS_OFFSET s" using frame by (simp add: pmm_frame_def)
  have others: "block_ok lim s' q k \<and> block_frames s' q k = block_frames s q k"
    if q: "B q = Some k" "q \<noteq> p" for q k
  proof -
    have bq: "block_ok lim s q k" and "block_frames s q k \<inter> block_frames s p n = {}"
      using ok p q unfolding heap_ok_def by blast+
    then have "block_frames s q k \<subseteq> in_use s'" using use by (auto simp: block_ok_def)
    from block_ok_keep [OF bq off this] show ?thesis by (simp add: bytes)
  qed
  have "block_frames s' q k \<inter> block_frames s' r j = {}"
    if "B q = Some k" and "B r = Some j" and "q \<noteq> r" and "q \<noteq> p" and "r \<noteq> p" for q r k j
    using that others ok by (auto simp: heap_ok_def)
  then have "heap_ok lim (B(p := None)) s'"
    using ok others pm.free_keeps [OF pok range free] unfolding heap_ok_def off by (auto split: if_splits)
  with call frame bytes use show ?thesis by (intro that [of s']) auto
qed

text \<open>Writing inside the payload of a block changes no block's header.\<close>

lemma heap_ok_write:
  assumes ok: "heap_ok lim B s" and p: "B p = Some n"
    and same: "\<And>x. m x \<noteq> bytes s x \<Longrightarrow> \<exists>i < 4096 * pages_for (unat n). x = p + of_nat i"
    and mapped: "\<And>x. bytes s x \<noteq> None \<Longrightarrow> m x \<noteq> None"
  shows "heap_ok lim B (s\<lparr>bytes := m\<rparr>)"
proof -
  have blk: "block_ok lim s p n" using ok p by (simp add: heap_ok_def)
  have small: "i + 4096 < 2 ^ 64" if "i < 4096 * pages_for (unat n)" for i
    using that block_fits(1) [of lim "phys s p" n] blk heap_lim [OF ok] by (simp add: block_ok_def)
  have keep: "block_ok lim (s\<lparr>bytes := m\<rparr>) q k" if q: "B q = Some k" for q k
  proof -
    have bq: "block_ok lim s q k" using ok q by (simp add: heap_ok_def)
    have "m x = bytes s x" if x: "in_span (q - PAGE_SIZE) 8 x \<or> in_span (q - PAGE_SIZE + 8) 8 x" for x
    proof (rule ccontr)
      assume "m x \<noteq> bytes s x"
      then obtain i where i: "i < 4096 * pages_for (unat n)" and xi: "x = p + of_nat i" using same by blast
      note pay = block_payload [OF small [OF i] i, of p, folded xi]
      then have "q \<noteq> p" using x by blast
      then have "block_frames s p n \<inter> block_frames s q k = {}" using ok p q unfolding heap_ok_def by blast
      from block_spans_apart [OF ok blk bq this] pay(1) header_in_block [of "q - PAGE_SIZE" x "pages_for (unat k)"] x
      show False by (auto simp: spans_apart_def)
    qed
    then have "ld64 m (q - PAGE_SIZE) = ld64 (bytes s) (q - PAGE_SIZE)"
      and "ld64 m (q - PAGE_SIZE + 8) = ld64 (bytes s) (q - PAGE_SIZE + 8)"
      by (auto intro!: ld64_cong)
    then show ?thesis using bq by (simp add: block_ok_def block_frames_def phys_def in_use_def)
  qed
  then show ?thesis
    using ok mapped unfolding heap_ok_def pmm_ok_def mapped_def
    by (simp add: block_frames_def phys_def in_use_def)
qed

section \<open>Payloads\<close>

lemma block_mapped:
  assumes ok: "heap_ok lim B s" and p: "B p = Some n"
  shows "mapped (bytes s) (p - PAGE_SIZE) (4096 * (pages_for (unat n) + 1))"
    and "mapped (bytes s) p (4096 * pages_for (unat n))"
proof -
  have pok: "pmm_ok lim s" and range: "frame_range lim (phys s p) (pages_of n + 1)"
    using ok p by (auto simp: heap_ok_def block_ok_def)
  note fr = frame_range_div [OF range heap_lim [OF ok]]
  have "mapped (bytes s) (phys s p div PAGE_SIZE * PAGE_SIZE + MEM_PHYS_OFFSET s) (4096 * unat (pages_of n + 1))"
    using pok fr(5) by (rule direct_map_span)
  then show m: "mapped (bytes s) (p - PAGE_SIZE) (4096 * (pages_for (unat n) + 1))"
    unfolding fr(1) [symmetric] unat_pages_of by (simp add: phys_def)
  show "mapped (bytes s) p (4096 * pages_for (unat n))"
    using mapped_sub [OF m, of 4096 "4096 * pages_for (unat n)"] by (simp add: PAGE_SIZE_def)
qed

text \<open>Offsets in a payload are far from wrapping, and payloads of different blocks are apart.\<close>

lemma payload_small:
  assumes "heap_ok lim B s" and "B p = Some n" and "i < 4096 * pages_for (unat n)"
  shows "i + 4096 < 2 ^ 64"
proof -
  have "frame_range lim (phys s p) (pages_of n + 1)" using assms by (simp add: heap_ok_def block_ok_def)
  from block_fits(1) [OF this heap_lim [OF assms(1)]] show ?thesis
    using assms(3) heap_lim [OF assms(1)] by simp
qed

lemma size_le_pages: "unat n \<le> 4096 * pages_for (unat n)"
  unfolding pages_for_def by linarith

lemma payloads_apart:
  assumes ok: "heap_ok lim B s" and "B p = Some n" and "B q = Some k" and "p \<noteq> q"
    and "i < 4096 * pages_for (unat n)" and "j < 4096 * pages_for (unat k)"
  shows "p + of_nat i \<noteq> q + of_nat j"
proof
  assume eq: "p + of_nat i = q + of_nat j"
  have bp: "block_ok lim s p n" and bq: "block_ok lim s q k" using ok assms(2,3) by (simp_all add: heap_ok_def)
  have "block_frames s p n \<inter> block_frames s q k = {}" using ok assms(2-4) unfolding heap_ok_def by blast
  note apart = block_spans_apart [OF ok bp bq this]
  have "block_span p n (p + of_nat i)" using payload_small [OF ok assms(2,5)] assms(5) by (rule block_payload)
  moreover have "block_span q k (q + of_nat j)" using payload_small [OF ok assms(3,6)] assms(6) by (rule block_payload)
  ultimately show False using apart eq by (auto simp: spans_apart_def)
qed

lemma payload_spans_apart:
  assumes "heap_ok lim B s" and "B p = Some n" and "B q = Some k" and "p \<noteq> q"
    and "c \<le> 4096 * pages_for (unat n)" and "c \<le> 4096 * pages_for (unat k)"
  shows "spans_apart p c q c"
  unfolding spans_apart_def
proof (intro allI notI)
  fix x assume x: "in_span p c x \<and> in_span q c x"
  have "p + of_nat (unat (x - p)) \<noteq> q + of_nat (unat (x - q))"
    using x assms(5,6) by (intro payloads_apart [OF assms(1-4)]) (auto simp: in_span_def)
  then show False by simp
qed

lemma kmalloc_keeps:
  assumes ok: "heap_ok lim B s" and call: "kmalloc n s = Inr (p, s')" and nn: "p \<noteq> NULL"
    and q: "B q = Some k" and i: "i < 4096 * pages_for (unat k)"
  shows "bytes s' (q + of_nat i) = bytes s (q + of_nat i)"
proof -
  note new = kmalloc_ok [OF ok call nn]
  have ne: "q \<noteq> p" using new(1) q by auto
  then have q': "(B(p \<mapsto> n)) q = Some k" using q by simp
  have bp: "block_ok lim s' p n" and bq: "block_ok lim s' q k"
    using new(2) q' by (auto simp: heap_ok_def)
  have "block_frames s' p n \<inter> block_frames s' q k = {}"
    using new(2) q' ne unfolding heap_ok_def by (metis fun_upd_same)
  note apart = block_spans_apart [OF new(2) bp bq this]
  have "block_span q k (q + of_nat i)" using payload_small [OF ok q i] i by (rule block_payload)
  then have "\<not> block_span p n (q + of_nat i)" using apart by (auto simp: spans_apart_def)
  then show ?thesis by (rule kmalloc_block(7) [OF ok call nn])
qed

section \<open>The interface: a heap of blocks\<close>

text \<open>
  What the users of the heap rely on. \<open>ok B s\<close> says that \<open>B\<close> are the live blocks of state \<open>s\<close> with
  their sizes. A new block is none of the live ones, is zeroed and leaves the contents of the live
  ones alone; a live block can be released; two live blocks share no byte.
\<close>

locale heap_of_blocks =
  fixes ok :: "(addr \<rightharpoonup> size_t) \<Rightarrow> 's \<Rightarrow> bool"
    and malloc :: "size_t \<Rightarrow> 's \<Rightarrow> (addr \<times> 's) res"
    and release :: "addr \<Rightarrow> 's \<Rightarrow> 's res"
    and contents :: "'s \<Rightarrow> mem"
  assumes malloc_new: "ok B s \<Longrightarrow> malloc n s = Inr (p, s') \<Longrightarrow> p \<noteq> NULL \<Longrightarrow> B p = None \<and> ok (B(p \<mapsto> n)) s'"
    and malloc_zero: "ok B s \<Longrightarrow> malloc n s = Inr (p, s') \<Longrightarrow> p \<noteq> NULL \<Longrightarrow> i < unat n \<Longrightarrow>
      contents s' (p + of_nat i) = Some 0"
    and malloc_keeps: "ok B s \<Longrightarrow> malloc n s = Inr (p, s') \<Longrightarrow> p \<noteq> NULL \<Longrightarrow> B q = Some k \<Longrightarrow> i < unat k \<Longrightarrow>
      contents s' (q + of_nat i) = contents s (q + of_nat i)"
    and release_ok: "ok B s \<Longrightarrow> B p = Some n \<Longrightarrow>
      \<exists>s'. release p s = Inr s' \<and> ok (B(p := None)) s' \<and> contents s' = contents s"
    and blocks_apart: "ok B s \<Longrightarrow> B p = Some n \<Longrightarrow> B q = Some k \<Longrightarrow> p \<noteq> q \<Longrightarrow> i < unat n \<Longrightarrow> j < unat k \<Longrightarrow>
      p + of_nat i \<noteq> q + of_nat j"
begin

lemma malloc_release:
  assumes "ok B s" and "malloc n s = Inr (p, s1)" and "p \<noteq> NULL"
  shows "\<exists>s2. release p s1 = Inr s2 \<and> ok B s2 \<and> (\<forall>q k i. B q = Some k \<and> i < unat k \<longrightarrow>
    contents s2 (q + of_nat i) = contents s (q + of_nat i))"
proof -
  have new: "B p = None" "ok (B(p \<mapsto> n)) s1" using malloc_new [OF assms] by auto
  then obtain s2 where "release p s1 = Inr s2" "ok ((B(p \<mapsto> n))(p := None)) s2" "contents s2 = contents s1"
    using release_ok [OF new(2)] by (metis fun_upd_same)
  moreover have "(B(p \<mapsto> n))(p := None) = B" using new(1) by auto
  ultimately show ?thesis using malloc_keeps [OF assms] by auto
qed

lemma two_mallocs_apart:
  assumes "ok B s" and "malloc n s = Inr (p, s1)" and "p \<noteq> NULL" and "malloc k s1 = Inr (q, s2)" and "q \<noteq> NULL"
  shows "p \<noteq> q" and "i < unat n \<Longrightarrow> j < unat k \<Longrightarrow> p + of_nat i \<noteq> q + of_nat j"
proof -
  have ok1: "ok (B(p \<mapsto> n)) s1" using malloc_new [OF assms(1-3)] by auto
  note new = malloc_new [OF ok1 assms(4,5)]
  then show ne: "p \<noteq> q" by (auto split: if_splits)
  show "p + of_nat i \<noteq> q + of_nat j" if "i < unat n" "j < unat k"
    using blocks_apart [of "B(p \<mapsto> n, q \<mapsto> k)" s2 p n q k i j] new ne that by auto
qed

end

interpretation kh: heap_of_blocks "heap_ok lim" kmalloc kfree bytes for lim
proof
  fix B and s :: "'a pmm_scheme" and n p s'
  assume ok: "heap_ok lim B s" and call: "kmalloc n s = Inr (p, s')" and nn: "p \<noteq> NULL"
  show "B p = None \<and> heap_ok lim (B(p \<mapsto> n)) s'" using kmalloc_ok [OF ok call nn] by blast
  show "bytes s' (p + of_nat i) = Some 0" if "i < unat n" for i
    using kmalloc_block(6) [OF ok call nn, of i] that size_le_pages [of n] by simp
  show "bytes s' (q + of_nat i) = bytes s (q + of_nat i)" if q: "B q = Some k" and i: "i < unat k" for q k i
    using kmalloc_keeps [OF ok call nn q, of i] i size_le_pages [of k] by simp
next
  fix B and s :: "'a pmm_scheme" and p n
  assume "heap_ok lim B s" and "B p = Some n"
  then show "\<exists>s'. kfree p s = Inr s' \<and> heap_ok lim (B(p := None)) s' \<and> bytes s' = bytes s"
    using kfree_ok by blast
next
  fix B and s :: "'a pmm_scheme" and p n q k i j
  assume a: "heap_ok lim B s" "B p = Some n" "B q = Some k" "p \<noteq> q" and "i < unat n" "j < unat k"
  then show "p + of_nat i \<noteq> q + of_nat j"
    using size_le_pages [of n] size_le_pages [of k] by (intro payloads_apart [OF a]) simp_all
qed

section \<open>Resizing\<close>

lemma ROUND_UP_pages:
  assumes "unat n + 4095 < 2 ^ 64"
  shows "unat (ROUND_UP n PAGE_SIZE) = 4096 * pages_for (unat n)"
proof -
  have e: "n + PAGE_SIZE - 1 = n + 4095" by (simp add: PAGE_SIZE_def)
  have "unat (n + 4095) = unat n + 4095" using assms by (simp add: unat_add_u64)
  then have d: "unat ((n + PAGE_SIZE - 1) div PAGE_SIZE) = pages_for (unat n)"
    unfolding e by (simp add: unat_div PAGE_SIZE_def pages_for_def)
  have "pages_for (unat n) * 4096 < 2 ^ 64" using assms unfolding pages_for_def by linarith
  then show ?thesis unfolding ROUND_UP_def
    by (subst unat_mult_u64) (simp_all add: d, simp_all add: PAGE_SIZE_def)
qed

lemma same_pages:
  assumes "unat n + 4095 < 2 ^ 64" and "unat k + 4095 < 2 ^ 64" and "ROUND_UP n PAGE_SIZE = ROUND_UP k PAGE_SIZE"
  shows "pages_of n = pages_of k"
proof -
  have "pages_for (unat n) = pages_for (unat k)"
    using ROUND_UP_pages [OF assms(1)] ROUND_UP_pages [OF assms(2)] assms(3) by simp
  then show ?thesis using unat_pages_of(1) [of n] unat_pages_of(1) [of k] by (simp add: word_unat_eq_iff)
qed

lemma block_size_small: "heap_ok lim B s \<Longrightarrow> B p = Some n \<Longrightarrow> unat n + 4095 < 2 ^ 64"
  using block_fits [of lim "phys s p" n] heap_lim [of lim B s] by (simp add: heap_ok_def block_ok_def)

text \<open>Rewriting the size field of a header, the number of pages staying the same.\<close>

lemma heap_ok_resize:
  assumes ok: "heap_ok lim B s" and p: "B p = Some n" and pg: "pages_of k = pages_of n"
  shows "heap_ok lim (B(p \<mapsto> k)) (s\<lparr>bytes := put64 (bytes s) (p - PAGE_SIZE + 8) k\<rparr>)" (is "heap_ok lim _ ?s")
    and "\<And>q j i. B q = Some j \<Longrightarrow> i < 4096 * pages_for (unat j) \<Longrightarrow>
      put64 (bytes s) (p - PAGE_SIZE + 8) k (q + of_nat i) = bytes s (q + of_nat i)"
proof -
  have bp: "block_ok lim s p n" using ok p by (simp add: heap_ok_def)
  have fr: "block_frames ?s q j = block_frames s q j" for q j by (simp add: block_frames_def phys_def)
  have use: "in_use ?s = in_use s" by (simp add: in_use_def)
  have out: "put64 (bytes s) (p - PAGE_SIZE + 8) k x = bytes s x" if "\<not> block_span p n x" for x
    using that header_in_block(2) by (intro put64_outside) blast
  have others: "block_ok lim ?s q j" and apart: "block_span q j x \<Longrightarrow> \<not> block_span p n x"
    if q: "B q = Some j" "q \<noteq> p" for q j x
  proof -
    have bq: "block_ok lim s q j" and "block_frames s p n \<inter> block_frames s q j = {}"
      using ok p q unfolding heap_ok_def by blast+
    then have ap: "block_span q j x \<Longrightarrow> \<not> block_span p n x" for x
      using block_spans_apart [OF ok bp bq] by (auto simp: spans_apart_def)
    then show "block_span q j x \<Longrightarrow> \<not> block_span p n x" .
    show "block_ok lim ?s q j"
      using bq ap out by (intro block_ok_keep [OF bq]) (auto simp: use block_ok_def)
  qed
  have "ld64 (put64 (bytes s) (p - PAGE_SIZE + 8) k) (p - PAGE_SIZE) = ld64 (bytes s) (p - PAGE_SIZE)"
    using header_apart by (intro ld64_cong put64_outside) blast
  then have mine: "block_ok lim ?s p k"
    using bp by (simp add: block_ok_def block_frames_def phys_def in_use_def pg)
  have mine_f: "block_frames s p k = block_frames s p n" by (simp add: block_frames_def pg)
  have old: "block_frames s q j \<inter> block_frames s r l = {}" if "B q = Some j" and "B r = Some l" and "q \<noteq> r" for q r j l
    using that ok unfolding heap_ok_def by blast
  have "block_frames s q j \<inter> block_frames s r l = {}"
    if qr: "(B(p \<mapsto> k)) q = Some j" "(B(p \<mapsto> k)) r = Some l" "q \<noteq> r" for q r j l
  proof -
    have "block_frames s p k \<inter> block_frames s r l = {}" if "B r = Some l" "r \<noteq> p" for r l
      unfolding mine_f by (rule old [OF p that(1)]) (rule that(2) [symmetric])
    note here = this
    show ?thesis
    proof (cases "q = p")
      case True
      then have j: "j = k" and "B r = Some l" "r \<noteq> p" using qr by simp_all
      then show ?thesis unfolding True j by (intro here)
    next
      case q: False
      then have bq: "B q = Some j" using qr(1) by simp
      show ?thesis
      proof (cases "r = p")
        case True
        then have l: "l = k" using qr(2) by simp
        show ?thesis unfolding True l Int_commute [of "block_frames s q j"] by (rule here [OF bq q])
      next
        case False
        then show ?thesis using qr by (intro old [OF bq]) simp_all
      qed
    qed
  qed
  moreover have "block_ok lim ?s q j" if "(B(p \<mapsto> k)) q = Some j" for q j
    using that mine others by (cases "q = p") simp_all
  moreover have "pmm_ok lim ?s" using ok by (simp add: heap_ok_def pmm_ok_def)
  moreover have "unat (MEM_PHYS_OFFSET ?s) + unat lim * 4096 < 2 ^ 64" using ok by (simp add: heap_ok_def)
  ultimately show "heap_ok lim (B(p \<mapsto> k)) ?s" unfolding heap_ok_def fr by blast
  show "put64 (bytes s) (p - PAGE_SIZE + 8) k (q + of_nat i) = bytes s (q + of_nat i)"
    if q: "B q = Some j" and i: "i < 4096 * pages_for (unat j)" for q j i
  proof (cases "q = p")
    case True
    then show ?thesis using block_payload(3) [OF payload_small [OF ok q i] i, of p] by (simp add: put64_outside)
  next
    case False
    then show ?thesis using block_payload(1) [OF payload_small [OF ok q i] i, of q] apart [OF q False] out by blast
  qed
qed

text \<open>The block is moved when it changes its number of pages; the smaller of the two sizes is copied.\<close>

lemma krealloc_move:
  assumes ok: "heap_ok lim B s" and p: "B p = Some n" and call: "kmalloc sz s = Inr (q, s1)" and "q \<noteq> NULL"
    and c: "unat c \<le> unat n" "unat c \<le> unat sz"
  obtains s2 where "memcpy (bytes s1) q p c = Inr (q, copy_of (bytes s1) q p (unat c))"
    and "kfree p (s1\<lparr>bytes := copy_of (bytes s1) q p (unat c)\<rparr>) = Inr s2"
    and "heap_ok lim (B(p := None, q \<mapsto> sz)) s2" and "pmm_frame s s2"
    and "bytes s2 = copy_of (bytes s1) q p (unat c)"
proof -
  note new = kmalloc_ok [OF ok call \<open>q \<noteq> NULL\<close>]
  let ?B = "B(q \<mapsto> sz)" and ?m = "copy_of (bytes s1) q p (unat c)"
  have ne: "p \<noteq> q" using new(1) p by auto
  have p1: "?B p = Some n" and q1: "?B q = Some sz" using p ne by simp_all
  have cn: "unat c \<le> 4096 * pages_for (unat n)" and cs: "unat c \<le> 4096 * pages_for (unat sz)"
    using c size_le_pages [of n] size_le_pages [of sz] by simp_all
  have mp: "mapped (bytes s1) p (unat c)" and mq: "mapped (bytes s1) q (unat c)"
    using block_mapped(2) [OF new(2) p1] block_mapped(2) [OF new(2) q1] cn cs by (auto simp: mapped_def)
  have "spans_apart q (unat c) p (unat c)"
    using payload_spans_apart [OF new(2) q1 p1] ne cn cs by simp
  then have copy: "memcpy (bytes s1) q p c = Inr (q, ?m)" using mp mq by (intro memcpy_eq)
  have "heap_ok lim ?B (s1\<lparr>bytes := ?m\<rparr>)"
  proof (rule heap_ok_write [OF new(2) q1])
    fix x assume "?m x \<noteq> bytes s1 x"
    then have "unat (x - q) < 4096 * pages_for (unat sz)" and "x = q + of_nat (unat (x - q))"
      using cs by (auto simp: copy_of_def in_span_def split: if_splits)
    then show "\<exists>i < 4096 * pages_for (unat sz). x = q + of_nat i" by blast
  next
    show "?m x \<noteq> None" if "bytes s1 x \<noteq> None" for x
      using copy_of_mapped [OF mp _ that] unat_u64_less [of c] by simp
  qed
  from this p1 obtain s2 where s2: "kfree p (s1\<lparr>bytes := ?m\<rparr>) = Inr s2"
    "heap_ok lim (?B(p := None)) s2" "pmm_frame (s1\<lparr>bytes := ?m\<rparr>) s2" "bytes s2 = bytes (s1\<lparr>bytes := ?m\<rparr>)"
    by (rule kfree_ok)
  have "pmm_frame s (s1\<lparr>bytes := ?m\<rparr>)"
    using kmalloc_block(2) [OF ok call \<open>q \<noteq> NULL\<close>] by (simp add: pmm_frame_def same_hart_def)
  then have "pmm_frame s s2" using s2(3) by (rule pmm_frame_trans)
  moreover have "?B(p := None) = B(p := None, q \<mapsto> sz)" using ne by auto
  ultimately show ?thesis using copy s2 by (intro that [of s2]) auto
qed

lemma krealloc_ok:
  assumes ok: "heap_ok lim B s" and p: "B p = Some n" and "p \<noteq> NULL" and "sz \<noteq> 0" and small: "unat sz + 4095 < 2 ^ 64"
    and call: "krealloc p sz s = Inr (q, s')" and "q \<noteq> NULL"
  shows "heap_ok lim (B(p := None, q \<mapsto> sz)) s' \<and> (q = p \<or> B q = None) \<and> pmm_frame s s' \<and>
    (\<forall>i. i < unat n \<longrightarrow> i < unat sz \<longrightarrow> bytes s' (q + of_nat i) = bytes s (p + of_nat i)) \<and>
    (\<forall>r k i. r \<noteq> p \<longrightarrow> B r = Some k \<longrightarrow> i < unat k \<longrightarrow> bytes s' (r + of_nat i) = bytes s (r + of_nat i))"
proof -
  have blk: "block_ok lim s p n" using ok p by (simp add: heap_ok_def)
  then have hs: "ld64 (bytes s) (p - PAGE_SIZE + 8) = Inr n" by (simp add: block_ok_def)
  show ?thesis
  proof (cases "ROUND_UP n PAGE_SIZE = ROUND_UP sz PAGE_SIZE")
    case True
    then have pg: "pages_of sz = pages_of n"
      using same_pages [OF small block_size_small [OF ok p]] by simp
    have "mapped (bytes s) (p - PAGE_SIZE + 8) 8"
      using mapped_sub [OF block_mapped(1) [OF ok p], of 8 8] by simp
    then have "q = p" and s': "s' = s\<lparr>bytes := put64 (bytes s) (p - PAGE_SIZE + 8) sz\<rparr>"
      using call assms(3,4) True by (auto simp: krealloc_def hs st64_eq)
    moreover have "i < 4096 * pages_for (unat k)" if "i < unat k" for i and k :: u64
      using that size_le_pages [of k] by simp
    ultimately show ?thesis
      using heap_ok_resize [OF ok p pg] p by (auto simp: pmm_frame_def same_hart_def)
  next
    case False
    then obtain s1 where km: "kmalloc sz s = Inr (q, s1)"
      using call assms(3,4,7) by (auto simp: krealloc_def hs bnd_eq_Inr split: if_splits)
    note new = kmalloc_ok [OF ok km \<open>q \<noteq> NULL\<close>]
    have ne: "p \<noteq> q" using new(1) p by auto
    have hs1: "ld64 (bytes s1) (p - PAGE_SIZE + 8) = Inr n"
      using new(2) p ne by (auto simp: heap_ok_def block_ok_def)
    define c where "c = (if sz < n then sz else n)"
    have c: "unat c \<le> unat n" "unat c \<le> unat sz" by (auto simp: c_def word_less_nat_alt)
    obtain s2 where s2: "memcpy (bytes s1) q p c = Inr (q, copy_of (bytes s1) q p (unat c))"
      "kfree p (s1\<lparr>bytes := copy_of (bytes s1) q p (unat c)\<rparr>) = Inr s2"
      "heap_ok lim (B(p := None, q \<mapsto> sz)) s2" "pmm_frame s s2" "bytes s2 = copy_of (bytes s1) q p (unat c)"
      using ok p km \<open>q \<noteq> NULL\<close> c by (rule krealloc_move)
    have "s' = s2"
      using call False km s2(1,2) assms(3,4) \<open>q \<noteq> NULL\<close> by (auto simp: krealloc_def hs hs1 c_def split: if_splits)
    moreover have "bytes s2 (q + of_nat i) = bytes s (p + of_nat i)" if i: "i < unat n" "i < unat sz" for i
    proof -
      have "i < unat c" using i by (simp add: c_def)
      then have "bytes s2 (q + of_nat i) = bytes s1 (p + of_nat i)"
        unfolding s2(5) using unat_u64_less [of c] by (intro copy_of_offset) simp_all
      then show ?thesis using kh.malloc_keeps [OF ok km \<open>q \<noteq> NULL\<close> p i(1)] by simp
    qed
    moreover have "bytes s2 (r + of_nat i) = bytes s (r + of_nat i)" if r: "r \<noteq> p" "B r = Some k" "i < unat k" for r k i
    proof -
      have "r \<noteq> q" using new(1) r(2) by auto
      have "\<not> in_span q (unat c) (r + of_nat i)"
      proof
        assume "in_span q (unat c) (r + of_nat i)"
        then have "unat (r + of_nat i - q) < unat sz" using c(2) by (simp add: in_span_def)
        from kh.blocks_apart [OF new(2), of q sz r k, OF _ _ _ this r(3)] r \<open>r \<noteq> q\<close> show False by auto
      qed
      then show ?thesis
        using kh.malloc_keeps [OF ok km \<open>q \<noteq> NULL\<close> r(2,3)] by (simp add: s2(5) copy_of_outside)
    qed
    ultimately show ?thesis using s2(3,4) new(1) by blast
  qed
qed

lemma krealloc_returns:
  assumes ok: "heap_ok lim B s" and p: "B p = Some n" and "p \<noteq> NULL" and "sz \<noteq> 0"
    and run: "is_bitmap_page_free (bitmap s) j (pages_of sz + 1)" "j < PmmLength s"
  shows "\<exists>q s'. krealloc p sz s = Inr (q, s') \<and> q \<noteq> NULL"
proof -
  have hs: "ld64 (bytes s) (p - PAGE_SIZE + 8) = Inr n" using ok p by (simp add: heap_ok_def block_ok_def)
  show ?thesis
  proof (cases "ROUND_UP n PAGE_SIZE = ROUND_UP sz PAGE_SIZE")
    case True
    have "mapped (bytes s) (p - PAGE_SIZE + 8) 8"
      using mapped_sub [OF block_mapped(1) [OF ok p], of 8 8] by simp
    then show ?thesis using assms(3,4) True by (simp add: krealloc_def hs st64_eq)
  next
    case False
    obtain q s1 where km: "kmalloc sz s = Inr (q, s1)" and "q \<noteq> NULL"
      using kmalloc_returns [OF ok run] by blast
    note new = kmalloc_ok [OF ok km \<open>q \<noteq> NULL\<close>]
    have ne: "p \<noteq> q" using new(1) p by auto
    have hs1: "ld64 (bytes s1) (p - PAGE_SIZE + 8) = Inr n"
      using new(2) p ne by (auto simp: heap_ok_def block_ok_def)
    define c where "c = (if sz < n then sz else n)"
    have c: "unat c \<le> unat n" "unat c \<le> unat sz" by (auto simp: c_def word_less_nat_alt)
    obtain s2 where "memcpy (bytes s1) q p c = Inr (q, copy_of (bytes s1) q p (unat c))"
      "kfree p (s1\<lparr>bytes := copy_of (bytes s1) q p (unat c)\<rparr>) = Inr s2"
      using ok p km \<open>q \<noteq> NULL\<close> c by (rule krealloc_move)
    then have "krealloc p sz s = Inr (q, s2)"
      using False km assms(3,4) \<open>q \<noteq> NULL\<close> by (simp add: krealloc_def hs hs1 c_def split: if_splits)
    with \<open>q \<noteq> NULL\<close> show ?thesis by blast
  qed
qed

section \<open>Arrays\<close>

text \<open>The overflow check of \<open>kcalloc\<close> is exact.\<close>

lemma kcalloc_check:
  assumes "num \<noteq> 0"
  shows "nsize = (num * nsize) div num \<longleftrightarrow> unat (num :: u64) * unat nsize < 2 ^ 64"
proof
  assume fits: "unat num * unat nsize < 2 ^ 64"
  have "unat ((num * nsize) div num) = unat nsize"
    using assms by (simp add: unat_div unat_mult_u64 [OF fits] unat_eq_zero)
  then show "nsize = (num * nsize) div num" by (simp add: word_unat_eq_iff)
next
  assume eq: "nsize = (num * nsize) div num"
  have "unat nsize = unat (num * nsize) div unat num" by (subst eq) (simp add: unat_div)
  then have "unat num * unat nsize \<le> unat (num * nsize)" by (simp add: mult.commute)
  then show "unat num * unat nsize < 2 ^ 64" using unat_u64_less [of "num * nsize"] by linarith
qed

lemma filled_same:
  assumes "\<And>i. i < n \<Longrightarrow> m (p + of_nat i) = Some c"
  shows "filled m p c n = m"
proof
  fix x
  have "m x = Some c" if "in_span p n x"
    using assms [of "unat (x - p)"] that by (simp add: in_span_def)
  then show "filled m p c n x = m x" by (simp add: filled_def)
qed

lemma kcalloc_eq:
  assumes ok: "heap_ok lim B s"
  shows "kcalloc num nsize s =
    (if num = 0 \<or> nsize = 0 \<or> 2 ^ 64 \<le> unat num * unat nsize then Inr (NULL, s) else kmalloc (num * nsize) s)"
proof (cases "num = 0 \<or> nsize = 0 \<or> 2 ^ 64 \<le> unat num * unat nsize")
  case True
  then show ?thesis using kcalloc_check [of num nsize] by (auto simp: kcalloc_def Let_def)
next
  case False
  then have *: "kcalloc num nsize s = bnd (kmalloc (num * nsize) s) (\<lambda>(address, s).
      if address = NULL then Inr (NULL, s)
      else bnd (memset (bytes s) address 0 (num * nsize)) (\<lambda>(_, m). Inr (address, s\<lparr>bytes := m\<rparr>)))"
    using kcalloc_check [of num nsize] by (auto simp: kcalloc_def Let_def)
  show ?thesis
  proof (cases "kmalloc (num * nsize) s")
    case (Inl e)
    with * False show ?thesis by simp
  next
    case (Inr r)
    obtain q s1 where r: "r = (q, s1)" by (cases r)
    have "memset (bytes s1) q 0 (num * nsize) = Inr (q, bytes s1)" if "q \<noteq> NULL"
    proof -
      note km = ok Inr [unfolded r] that
      have "mapped (bytes s1) q (unat (num * nsize))"
        using kh.malloc_zero [OF km] by (simp add: mapped_def)
      then show ?thesis
        using filled_same [of "unat (num * nsize)" "bytes s1" q 0] kh.malloc_zero [OF km] by (simp add: memset_eq)
    qed
    then show ?thesis using * False Inr r by (simp add: split_beta)
  qed
qed

section \<open>Duplicating strings\<close>

text \<open>
  An address the allocator will not hand out: outside the direct map of the frames below the limit,
  or in a frame that is in use.
\<close>

definition addr_held :: "u64 \<Rightarrow> 'a pmm_scheme \<Rightarrow> addr \<Rightarrow> bool" where
  "addr_held lim s x \<longleftrightarrow> (unat (x - MEM_PHYS_OFFSET s) < 4096 * unat lim \<longrightarrow>
     (x - MEM_PHYS_OFFSET s) div PAGE_SIZE \<in> in_use s)"

lemma block_span_frame:
  assumes range: "frame_range lim (phys s p) (pages_of n + 1)" and l52: "unat lim < 2 ^ 52"
    and o: "unat (MEM_PHYS_OFFSET s) + unat lim * 4096 \<le> 2 ^ 64" and x: "block_span p n x"
  shows "unat (x - MEM_PHYS_OFFSET s) < 4096 * unat lim \<and> (x - MEM_PHYS_OFFSET s) div PAGE_SIZE \<in> block_frames s p n"
proof -
  note fr = frame_range_div [OF range l52, unfolded unat_pages_of]
  define i d where "i = unat (phys s p div PAGE_SIZE)" and "d = unat (x - (p - PAGE_SIZE))"
  have d: "d < 4096 * (pages_for (unat n) + 1)" using x by (simp add: d_def in_span_def)
  have i: "i + (pages_for (unat n) + 1) \<le> unat lim" using fr(5) by (simp add: i_def)
  have "x - MEM_PHYS_OFFSET s = phys s p + (x - (p - PAGE_SIZE))" by (simp add: phys_def)
  moreover have "unat (phys s p + (x - (p - PAGE_SIZE))) = 4096 * i + d"
    using fr(2) d i l52 by (subst unat_add_u64) (simp_all add: i_def d_def)
  ultimately have u: "unat (x - MEM_PHYS_OFFSET s) = 4096 * i + d" by (simp only:)
  then have "unat ((x - MEM_PHYS_OFFSET s) div PAGE_SIZE) = i + d div 4096"
    by (simp add: unat_div PAGE_SIZE_def)
  then have "(x - MEM_PHYS_OFFSET s) div PAGE_SIZE \<in> block_frames s p n"
    unfolding block_frames_def fr(6) i_def [symmetric] using d by (simp add: less_mult_imp_div_less)
  moreover have "4096 * i + d < 4096 * unat lim" using d i by simp
  ultimately show ?thesis using u by simp
qed

lemma kmalloc_held:
  assumes ok: "heap_ok lim B s" and call: "kmalloc n s = Inr (p, s')" and nn: "p \<noteq> NULL" and x: "addr_held lim s x"
  shows "\<not> block_span p n x" and "bytes s' x = bytes s x"
proof -
  note blk = kmalloc_block [OF ok call nn]
  show "\<not> block_span p n x"
  proof
    assume "block_span p n x"
    from block_span_frame [OF blk(4) heap_lim [OF ok] _ this] ok blk(5) x show False
      by (auto simp: heap_ok_def addr_held_def)
  qed
  then show "bytes s' x = bytes s x" by (rule blk(7))
qed

lemma strdup_ok:
  assumes ok: "heap_ok lim B s" and str: "cstr (bytes s) str x" and len: "length x + 1 < 2 ^ 64"
    and held: "\<And>i. i \<le> length x \<Longrightarrow> addr_held lim s (str + of_nat i)"
    and km: "kmalloc (of_nat (length x + 1)) s = Inr (q, s1)" and "q \<noteq> NULL"
  obtains s' where "strdup str s = Inr (q, s')" and "heap_ok lim (B(q \<mapsto> of_nat (length x + 1))) s'"
    and "pmm_frame s s'" and "cstr (bytes s') q x" and "\<forall>y. addr_held lim s y \<longrightarrow> bytes s' y = bytes s y"
proof -
  let ?n = "of_nat (length x + 1) :: u64" and ?m = "copy_of (bytes s1) q str (Suc (length x))"
  have un: "unat ?n = Suc (length x)" using len unat_of_nat_u64 [of "length x + 1"] by simp
  note new = kmalloc_ok [OF ok km \<open>q \<noteq> NULL\<close>] and hold = kmalloc_held [OF ok km \<open>q \<noteq> NULL\<close>]
  have q: "(B(q \<mapsto> ?n)) q = Some ?n" by simp
  have pay: "block_span q ?n (q + of_nat i)" if "i \<le> length x" for i
  proof -
    have "i < 4096 * pages_for (unat ?n)" using that size_le_pages [of ?n] un by simp
    then show ?thesis using payload_small [OF new(2) q] block_payload(1) by blast
  qed
  have str1: "cstr (bytes s1) str x"
    using str hold(2) held by (intro cstr_cong [OF str]) auto
  have "spans_apart q (Suc (length x)) str (Suc (length x))"
    unfolding spans_apart_def
  proof (intro allI notI)
    fix y assume y: "in_span q (Suc (length x)) y \<and> in_span str (Suc (length x)) y"
    then have "block_span q ?n (q + of_nat (unat (y - q)))" by (intro pay) (simp add: in_span_def)
    moreover have "\<not> block_span q ?n (str + of_nat (unat (y - str)))"
      using y by (intro hold(1) held) (simp add: in_span_def)
    ultimately show False by simp
  qed
  moreover have "mapped (bytes s1) q (Suc (length x))"
    using block_mapped(2) [OF new(2) q] size_le_pages [of ?n] un by (simp add: mapped_def)
  ultimately have cp: "memcpy (bytes s1) q str ?n = Inr (q, ?m)"
    using memcpy_eq [of "bytes s1" str ?n q] cstr_mapped [OF str1] un by simp
  have call: "strdup str s = Inr (q, s1\<lparr>bytes := ?m\<rparr>)"
  proof -
    have "(of_nat (length x) :: u64) + 1 = ?n" by simp
    then show ?thesis using km cp by (simp add: strdup_def strlen_cstr [OF str] Let_def add.commute)
  qed
  have "heap_ok lim (B(q \<mapsto> ?n)) (s1\<lparr>bytes := ?m\<rparr>)"
  proof (rule heap_ok_write [OF new(2) q])
    fix y assume "?m y \<noteq> bytes s1 y"
    then have "in_span q (Suc (length x)) y" by (auto simp: copy_of_def split: if_splits)
    then have "unat (y - q) < 4096 * pages_for (unat ?n)" and "y = q + of_nat (unat (y - q))"
      using size_le_pages [of ?n] un by (auto simp: in_span_def)
    then show "\<exists>i < 4096 * pages_for (unat ?n). y = q + of_nat i" by blast
  next
    show "?m y \<noteq> None" if "bytes s1 y \<noteq> None" for y
      using copy_of_mapped [OF cstr_mapped [OF str1] _ that] len by simp
  qed
  moreover have "?m y = bytes s y" if "addr_held lim s y" for y
  proof -
    have "\<not> in_span q (Suc (length x)) y"
      using hold(1) [OF that] pay [of "unat (y - q)"] by (auto simp: in_span_def)
    then show ?thesis using hold(2) [OF that] by (simp add: copy_of_outside)
  qed
  moreover have "pmm_frame s (s1\<lparr>bytes := ?m\<rparr>)"
    using kmalloc_block(2) [OF ok km \<open>q \<noteq> NULL\<close>] by (simp add: pmm_frame_def same_hart_def)
  moreover have "cstr ?m q x" using str1 len by (intro copy_of_cstr) simp_all
  ultimately show ?thesis using call by (intro that [of "s1\<lparr>bytes := ?m\<rparr>"]) auto
qed

section \<open>Properties\<close>

lemma demo_heap: "heap_ok 8 Map.empty demo_pmm"
  using demo_pmm_ok by (simp add: heap_ok_def) (simp add: demo_pmm_def)

lemma demo_kmalloc: "\<exists>s1. kmalloc 100 demo_pmm = Inr (0xFFFF800000003000, s1) \<and> PmmLength s1 = 8
    \<and> is_bitmap_page_free (bitmap s1) 4 4"
proof -
  have m: "mapped (filled (\<lambda>_. Some 7) 0xFFFF800000002000 0 8192) p 8" for p by (simp add: mapped_def filled_def)
  have free: "is_bitmap_page_free (bitmap (pmm_taken 2 2 demo_pmm)) 4 4"
    by (simp add: is_bitmap_page_free_def pmm_taken_def test_set_bits) (simp add: demo_pmm_def test_bit_def)
  have len: "PmmLength (pmm_taken 2 2 demo_pmm) = 8" and off: "MEM_PHYS_OFFSET (pmm_taken 2 2 demo_pmm) = 0xFFFF800000000000"
    by (simp_all add: pmm_taken_def demo_pmm_def)
  show ?thesis
    using demo_pmm_alloc by (simp add: kmalloc_def PAGE_SIZE_def off st64_eq m len free)
qed

text \<open>
  Property C8. A successful \<open>kmalloc\<close> on a well-formed heap returns a block that is none of the live
  ones, of the requested size and filled with zeros; the heap stays well formed with the block
  added, and the contents of every live block, the hart and everything outside the allocator
  are unchanged. It succeeds whenever enough adjacent page frames for the block and its header are free.
\<close>

theorem kmalloc_fresh_block:
  assumes "heap_ok lim B s" and "is_bitmap_page_free (bitmap s) j (pages_of n + 1)" and "j < PmmLength s"
  shows "\<exists>p s'. kmalloc n s = Inr (p, s') \<and> p \<noteq> NULL \<and> B p = None \<and> heap_ok lim (B(p \<mapsto> n)) s'
    \<and> (\<forall>i < unat n. bytes s' (p + of_nat i) = Some 0)
    \<and> (\<forall>q k i. B q = Some k \<and> i < unat k \<longrightarrow> bytes s' (q + of_nat i) = bytes s (q + of_nat i))
    \<and> pmm_frame s s'"
proof -
  obtain p s' where call: "kmalloc n s = Inr (p, s')" "p \<noteq> NULL" using kmalloc_returns [OF assms] by blast
  show ?thesis
    using call kmalloc_ok [OF assms(1) call] kmalloc_block(2) [OF assms(1) call]
      kh.malloc_zero [OF assms(1) call] kh.malloc_keeps [OF assms(1) call] by blast
qed

theorem kmalloc_fresh_block_witness:
  "\<exists>p s'. kmalloc 100 demo_pmm = Inr (p, s') \<and> heap_ok 8 [p \<mapsto> 100] s' \<and> bytes s' (p + 99) = Some 0"
proof -
  have "pages_of 100 + 1 = 2" by (simp add: pages_of_def PAGE_SIZE_def)
  moreover have "is_bitmap_page_free (bitmap demo_pmm) 2 2" and "2 < PmmLength demo_pmm"
    by (simp_all add: is_bitmap_page_free_def demo_pmm_def test_bit_def)
  ultimately obtain p s' where "kmalloc 100 demo_pmm = Inr (p, s')" "heap_ok 8 [p \<mapsto> 100] s'"
    "\<forall>i < unat (100 :: u64). bytes s' (p + of_nat i) = Some 0"
    using kmalloc_fresh_block [OF demo_heap, of 2 100] by auto
  moreover from this(3) have "bytes s' (p + of_nat 99) = Some 0" by (rule allE [of _ 99]) simp
  ultimately show ?thesis by auto
qed

text \<open>
  Property C9. \<open>kfree\<close> of a live block returns; the block is no longer live, exactly its frames
  (header included) are available again, no byte of memory changes and the other blocks stay
  well formed.
\<close>

theorem kfree_gives_back:
  assumes "heap_ok lim B s" and "B p = Some n"
  shows "\<exists>s'. kfree p s = Inr s' \<and> heap_ok lim (B(p := None)) s' \<and> bytes s' = bytes s
    \<and> in_use s' = in_use s - block_frames s p n \<and> block_frames s p n \<subseteq> in_use s \<and> pmm_frame s s'"
proof -
  have "block_frames s p n \<subseteq> in_use s" using assms by (simp add: heap_ok_def block_ok_def)
  with kfree_ok [OF assms] show ?thesis by metis
qed

theorem kfree_gives_back_witness:
  "\<exists>s1 s2. kmalloc 100 demo_pmm = Inr (0xFFFF800000003000, s1) \<and> kfree 0xFFFF800000003000 s1 = Inr s2
     \<and> heap_ok 8 Map.empty s2"
proof -
  obtain s1 where km: "kmalloc 100 demo_pmm = Inr (0xFFFF800000003000, s1)" using demo_kmalloc by blast
  then have "heap_ok 8 [0xFFFF800000003000 \<mapsto> 100] s1" using kmalloc_ok(2) [OF demo_heap km] by simp
  from kfree_gives_back [OF this, of "0xFFFF800000003000" 100] km show ?thesis by auto
qed

text \<open>
  Property C10. \<open>krealloc\<close> of a live block to a size that is not zero (and does not wrap around when
  rounded up to pages) returns a block whenever enough adjacent page frames are free. The first
  bytes, up to the smaller of the two sizes, are those of the old block; the old block is released
  unless it is returned itself; all other blocks keep their contents.
\<close>

theorem krealloc_keeps_contents:
  assumes "heap_ok lim B s" and "B p = Some n" and "p \<noteq> NULL" and "sz \<noteq> 0" and "unat sz + 4095 < 2 ^ 64"
    and "is_bitmap_page_free (bitmap s) j (pages_of sz + 1)" and "j < PmmLength s"
  shows "\<exists>q s'. krealloc p sz s = Inr (q, s') \<and> q \<noteq> NULL \<and> (q = p \<or> B q = None)
    \<and> heap_ok lim (B(p := None, q \<mapsto> sz)) s'
    \<and> (\<forall>i. i < unat n \<longrightarrow> i < unat sz \<longrightarrow> bytes s' (q + of_nat i) = bytes s (p + of_nat i))
    \<and> (\<forall>r k i. r \<noteq> p \<longrightarrow> B r = Some k \<longrightarrow> i < unat k \<longrightarrow> bytes s' (r + of_nat i) = bytes s (r + of_nat i))
    \<and> pmm_frame s s'"
  using krealloc_returns [OF assms(1-4,6,7)] krealloc_ok [OF assms(1-5)] by blast

theorem krealloc_keeps_contents_witness:
  "\<exists>s1 q s2. kmalloc 100 demo_pmm = Inr (0xFFFF800000003000, s1) \<and>
     krealloc 0xFFFF800000003000 8000 s1 = Inr (q, s2) \<and> bytes s2 (q + of_nat 5) = bytes s1 (0xFFFF800000003000 + of_nat 5)"
proof -
  obtain s1 where km: "kmalloc 100 demo_pmm = Inr (0xFFFF800000003000, s1)" and len: "PmmLength s1 = 8"
    and free: "is_bitmap_page_free (bitmap s1) 4 4"
    using demo_kmalloc by blast
  have ok: "heap_ok 8 [0xFFFF800000003000 \<mapsto> 100] s1" using kmalloc_ok(2) [OF demo_heap km] by simp
  have "is_bitmap_page_free (bitmap s1) 4 (pages_of 8000 + 1)"
    using free by (simp add: is_bitmap_page_free_def pages_of_def PAGE_SIZE_def split: if_splits)
  then obtain q s2 where "krealloc 0xFFFF800000003000 8000 s1 = Inr (q, s2)"
    "\<forall>i. i < unat (100 :: u64) \<longrightarrow> i < unat (8000 :: u64) \<longrightarrow> bytes s2 (q + of_nat i) = bytes s1 (0xFFFF800000003000 + of_nat i)"
    using krealloc_keeps_contents [OF ok, of "0xFFFF800000003000" 100 8000 4] len by auto
  moreover from this(2) have "bytes s2 (q + of_nat 5) = bytes s1 (0xFFFF800000003000 + of_nat 5)"
    by (rule allE [of _ 5]) simp
  ultimately show ?thesis using km by blast
qed

text \<open>
  Property C11. On a well-formed heap \<open>kcalloc\<close> of \<open>num\<close> elements of \<open>nsize\<close> bytes is \<open>kmalloc\<close> of the
  product, which is zeroed already, when both are positive and the product fits in 64 bits; in
  all other cases, an overflowing product among them, it returns null and changes nothing.
\<close>

theorem kcalloc_overflow_safe:
  assumes "heap_ok lim B s"
  shows "kcalloc num nsize s =
    (if num = 0 \<or> nsize = 0 \<or> 2 ^ 64 \<le> unat num * unat nsize then Inr (NULL, s) else kmalloc (num * nsize) s)"
  using assms by (rule kcalloc_eq)

theorem kcalloc_overflow_safe_witness:
  "kcalloc 0x8000000000000000 2 demo_pmm = Inr (NULL, demo_pmm) \<and> kcalloc 10 10 demo_pmm = kmalloc 100 demo_pmm"
  using kcalloc_overflow_safe [OF demo_heap, of "0x8000000000000000" 2] kcalloc_overflow_safe [OF demo_heap, of 10 10]
  by simp

text \<open>
  \<open>strdup\<close> of a string that does not lie in free page frames, on a well-formed heap
  with enough adjacent frames free, returns a new block that holds the same string; nothing that
  was in use has changed.
\<close>

theorem strdup_copies:
  assumes "heap_ok lim B s" and "cstr (bytes s) str x" and "length x + 1 < 2 ^ 64"
    and "\<forall>i \<le> length x. addr_held lim s (str + of_nat i)"
    and "is_bitmap_page_free (bitmap s) j (pages_of (of_nat (length x + 1)) + 1)" and "j < PmmLength s"
  shows "\<exists>q s'. strdup str s = Inr (q, s') \<and> q \<noteq> NULL \<and> B q = None \<and> cstr (bytes s') q x
    \<and> heap_ok lim (B(q \<mapsto> of_nat (length x + 1))) s' \<and> (\<forall>y. addr_held lim s y \<longrightarrow> bytes s' y = bytes s y)
    \<and> pmm_frame s s'"
proof -
  obtain q s1 where km: "kmalloc (of_nat (length x + 1)) s = Inr (q, s1)" and nn: "q \<noteq> NULL"
    using kmalloc_returns [OF assms(1,5,6)] by blast
  from assms(1-3) assms(4)[rule_format] km nn obtain s' where "strdup str s = Inr (q, s')"
    "heap_ok lim (B(q \<mapsto> of_nat (length x + 1))) s'" "pmm_frame s s'" "cstr (bytes s') q x"
    "\<forall>y. addr_held lim s y \<longrightarrow> bytes s' y = bytes s y"
    by (rule strdup_ok)
  with nn kmalloc_ok(1) [OF assms(1) km nn] show ?thesis by blast
qed

definition demo_text :: pmm where
  "demo_text = demo_pmm\<lparr>bytes := (\<lambda>a. if a = 0x1000 then Some 104 else if a = 0x1001 then Some 105
     else if a = 0x1002 then Some 0 else Some 7)\<rparr>"

theorem strdup_copies_witness:
  "\<exists>q s'. strdup 0x1000 demo_text = Inr (q, s') \<and> q \<noteq> NULL \<and> cstr (bytes s') q [104, 105]"
proof -
  have ok: "heap_ok 8 Map.empty demo_text"
    using demo_heap by (simp add: heap_ok_def pmm_ok_def demo_text_def mapped_def)
  have str: "cstr (bytes demo_text) 0x1000 [104, 105]" by (simp add: demo_text_def)
  have held: "\<forall>i \<le> length [104, 105 :: u8]. addr_held 8 demo_text (0x1000 + of_nat i)"
    by (auto simp: le_Suc_eq addr_held_def demo_text_def demo_pmm_def)
  have "pages_of (of_nat (length [104, 105 :: u8] + 1)) + 1 = 2" by (simp add: pages_of_def PAGE_SIZE_def)
  moreover have "is_bitmap_page_free (bitmap demo_text) 2 2" and "2 < PmmLength demo_text"
    by (simp_all add: is_bitmap_page_free_def demo_text_def demo_pmm_def test_bit_def)
  ultimately show ?thesis using strdup_copies [OF ok str _ held, of 2] by auto
qed

end
