(* ===== verification/Klist.thy ===== *)
theory Klist
  imports Kmalloc
begin

text \<open>
  The doubly linked lists of \<open>kernel/utils/lists.c\<close> (lines 5 to 253). The structures live in blocks of
  the kernel heap; a block that holds a \<open>list_t\<close> or a \<open>list_node_t\<close> is seen through a typed heap, one
  partial map per structure type, which is filled when the block is allocated (the block is zeroed,
  so all fields are 0) and cleared when it is released. An access through a null pointer, or to an
  object that is not there, is a fault.
\<close>

section \<open>Data\<close>

record list_node =
  node_value :: addr
  node_previous :: addr
  node_next :: addr

record list_t =
  list_length :: size_t
  list_root :: addr
  list_tail :: addr
  list_lk :: spinlock_t

record klists = pmm +
  list_mem :: "addr \<rightharpoonup> list_t"
  node_mem :: "addr \<rightharpoonup> list_node"

definition zero_lock :: spinlock_t where
  "zero_lock = \<lparr>lock = 0, last_acquirer = \<lparr>acq_file = [], acq_func = [], acq_line = 0, acq_cpu = 0\<rparr>\<rparr>"

text \<open>Sizes on the 64-bit targets: a \<open>spinlock_t\<close> takes 40 bytes.\<close>

definition sizeof_list_t :: size_t where
  "sizeof_list_t = 64"

definition sizeof_list_node_t :: size_t where
  "sizeof_list_node_t = 24"

section \<open>Access to the structures\<close>

definition ld_list :: "'a klists_scheme \<Rightarrow> addr \<Rightarrow> list_t res" where
  "ld_list s p = need (list_mem s p)"

definition ld_node :: "'a klists_scheme \<Rightarrow> addr \<Rightarrow> list_node res" where
  "ld_node s p = need (node_mem s p)"

definition up_list :: "addr \<Rightarrow> (list_t \<Rightarrow> list_t) \<Rightarrow> 'a klists_scheme \<Rightarrow> 'a klists_scheme res" where
  "up_list p f s = bnd (ld_list s p) (\<lambda>l. Inr (s\<lparr>list_mem := (list_mem s)(p \<mapsto> f l)\<rparr>))"

definition up_node :: "addr \<Rightarrow> (list_node \<Rightarrow> list_node) \<Rightarrow> 'a klists_scheme \<Rightarrow> 'a klists_scheme res" where
  "up_node p f s = bnd (ld_node s p) (\<lambda>n. Inr (s\<lparr>node_mem := (node_mem s)(p \<mapsto> f n)\<rparr>))"

definition new_list :: "'a klists_scheme \<Rightarrow> (addr \<times> 'a klists_scheme) res" where
  "new_list s = bnd (kmalloc sizeof_list_t s) (\<lambda>(p, s).
     Inr (p, if p = NULL then s
             else s\<lparr>list_mem := (list_mem s)(p \<mapsto> \<lparr>list_length = 0, list_root = NULL, list_tail = NULL, list_lk = zero_lock\<rparr>)\<rparr>))"

definition new_node :: "'a klists_scheme \<Rightarrow> (addr \<times> 'a klists_scheme) res" where
  "new_node s = bnd (kmalloc sizeof_list_node_t s) (\<lambda>(p, s).
     Inr (p, if p = NULL then s
             else s\<lparr>node_mem := (node_mem s)(p \<mapsto> \<lparr>node_value = 0, node_previous = NULL, node_next = NULL\<rparr>)\<rparr>))"

definition free_list :: "addr \<Rightarrow> 'a klists_scheme \<Rightarrow> 'a klists_scheme res" where
  "free_list p s = bnd (kfree p s) (\<lambda>s. Inr (s\<lparr>list_mem := (list_mem s)(p := None)\<rparr>))"

definition free_node :: "addr \<Rightarrow> 'a klists_scheme \<Rightarrow> 'a klists_scheme res" where
  "free_node p s = bnd (kfree p s) (\<lambda>s. Inr (s\<lparr>node_mem := (node_mem s)(p := None)\<rparr>))"

definition list_lock :: "string \<Rightarrow> int \<Rightarrow> addr \<Rightarrow> 'a klists_scheme \<Rightarrow> 'a klists_scheme res" where
  "list_lock fn ln p s =
     bnd (ld_list s p) (\<lambda>l.
     bnd (spinlock_lock (''lists.c'', fn, ln) (list_lk l) s) (\<lambda>(lk, s).
     Inr (s\<lparr>list_mem := (list_mem s)(p \<mapsto> l\<lparr>list_lk := lk\<rparr>)\<rparr>)))"

definition list_unlock :: "addr \<Rightarrow> 'a klists_scheme \<Rightarrow> 'a klists_scheme res" where
  "list_unlock p s =
     bnd (ld_list s p) (\<lambda>l.
     case spinlock_unlock (list_lk l) s of (lk, s) \<Rightarrow>
     Inr (s\<lparr>list_mem := (list_mem s)(p \<mapsto> l\<lparr>list_lk := lk\<rparr>)\<rparr>))"

section \<open>Creation and destruction\<close>

definition list_create :: "'a klists_scheme \<Rightarrow> (addr \<times> 'a klists_scheme) res" where
  "list_create s =
     bnd (new_list s) (\<lambda>(lst, s).
     bnd (up_list lst (\<lambda>l. l\<lparr>list_root := NULL\<rparr>) s) (\<lambda>s.
     bnd (up_list lst (\<lambda>l. l\<lparr>list_tail := NULL\<rparr>) s) (\<lambda>s.
     bnd (up_list lst (\<lambda>l. l\<lparr>list_length := 0\<rparr>) s) (\<lambda>s.
     bnd (up_list lst (\<lambda>l. l\<lparr>list_lk := INIT_SPINLOCK\<rparr>) s) (\<lambda>s.
     Inr (lst, s))))))"

partial_function (option) destroy_nodes :: "addr \<Rightarrow> 'a klists_scheme \<Rightarrow> 'a klists_scheme res option" where
  "destroy_nodes node s =
     (if node = NULL then Some (Inr s)
      else case node_mem s node of
          None \<Rightarrow> Some (Inl Fault)
        | Some n \<Rightarrow> (case free_node node s of Inl e \<Rightarrow> Some (Inl e) | Inr s \<Rightarrow> destroy_nodes (node_next n) s))"

definition list_destroy :: "addr \<Rightarrow> 'a klists_scheme \<Rightarrow> 'a klists_scheme res" where
  "list_destroy lst s =
     bnd (ld_list s lst) (\<lambda>l.
     bnd (loop_res (destroy_nodes (list_root l) s)) (\<lambda>s.
     free_list lst s))"

definition list_destroy_node :: "addr \<Rightarrow> 'a klists_scheme \<Rightarrow> 'a klists_scheme res" where
  "list_destroy_node node s = free_node node s"

section \<open>Insertion\<close>

definition list_push_before :: "addr \<Rightarrow> addr \<Rightarrow> addr \<Rightarrow> 'a klists_scheme \<Rightarrow> (addr \<times> 'a klists_scheme) res" where
  "list_push_before lst lastNode val s =
     bnd (list_lock ''list_push_before'' 30 lst s) (\<lambda>s.
     bnd (new_node s) (\<lambda>(node, s).
     bnd (up_node node (\<lambda>n. n\<lparr>node_value := val\<rparr>) s) (\<lambda>s.
     bnd (ld_list s lst) (\<lambda>l.
     bnd (up_node node (\<lambda>n. n\<lparr>node_previous := list_tail l\<rparr>) s) (\<lambda>s.
     bnd (up_node node (\<lambda>n. n\<lparr>node_next := lastNode\<rparr>) s) (\<lambda>s.
     bnd (ld_list s lst) (\<lambda>l.
     bnd (if list_tail l = lastNode
          then bnd (up_node node (\<lambda>n. n\<lparr>node_previous := NULL\<rparr>) s) (\<lambda>s.
               up_list lst (\<lambda>l. l\<lparr>list_tail := node\<rparr>) s)
          else Inr s) (\<lambda>s.
     bnd (up_node lastNode (\<lambda>n. n\<lparr>node_previous := node\<rparr>) s) (\<lambda>s.
     bnd (up_list lst (\<lambda>l. l\<lparr>list_length := list_length l + 1\<rparr>) s) (\<lambda>s.
     bnd (list_unlock lst s) (\<lambda>s.
     Inr (node, s))))))))))))"

definition list_push_back :: "addr \<Rightarrow> addr \<Rightarrow> 'a klists_scheme \<Rightarrow> (addr \<times> 'a klists_scheme) res" where
  "list_push_back lst val s =
     bnd (list_lock ''list_push_back'' 52 lst s) (\<lambda>s.
     bnd (new_node s) (\<lambda>(node, s).
     bnd (up_node node (\<lambda>n. n\<lparr>node_value := val\<rparr>) s) (\<lambda>s.
     bnd (ld_list s lst) (\<lambda>l.
     bnd (up_node node (\<lambda>n. n\<lparr>node_previous := list_tail l\<rparr>) s) (\<lambda>s.
     bnd (up_node node (\<lambda>n. n\<lparr>node_next := NULL\<rparr>) s) (\<lambda>s.
     bnd (if list_tail l \<noteq> NULL then up_node (list_tail l) (\<lambda>n. n\<lparr>node_next := node\<rparr>) s else Inr s) (\<lambda>s.
     bnd (up_list lst (\<lambda>l. l\<lparr>list_tail := node\<rparr>) s) (\<lambda>s.
     bnd (ld_list s lst) (\<lambda>l.
     bnd (if list_root l = NULL then up_list lst (\<lambda>l. l\<lparr>list_root := node\<rparr>) s else Inr s) (\<lambda>s.
     bnd (up_list lst (\<lambda>l. l\<lparr>list_length := list_length l + 1\<rparr>) s) (\<lambda>s.
     bnd (list_unlock lst s) (\<lambda>s.
     Inr (node, s)))))))))))))"

definition list_push_front :: "addr \<Rightarrow> addr \<Rightarrow> 'a klists_scheme \<Rightarrow> (addr \<times> 'a klists_scheme) res" where
  "list_push_front lst val s =
     bnd (list_lock ''list_push_front'' 73 lst s) (\<lambda>s.
     bnd (new_node s) (\<lambda>(node, s).
     bnd (up_node node (\<lambda>n. n\<lparr>node_value := val\<rparr>) s) (\<lambda>s.
     bnd (up_node node (\<lambda>n. n\<lparr>node_previous := NULL\<rparr>) s) (\<lambda>s.
     bnd (ld_list s lst) (\<lambda>l.
     bnd (up_node node (\<lambda>n. n\<lparr>node_next := list_root l\<rparr>) s) (\<lambda>s.
     bnd (if list_root l \<noteq> NULL then up_node (list_root l) (\<lambda>n. n\<lparr>node_previous := node\<rparr>) s
          else up_list lst (\<lambda>l. l\<lparr>list_tail := node\<rparr>) s) (\<lambda>s.
     bnd (up_list lst (\<lambda>l. l\<lparr>list_root := node\<rparr>) s) (\<lambda>s.
     bnd (up_list lst (\<lambda>l. l\<lparr>list_length := list_length l + 1\<rparr>) s) (\<lambda>s.
     bnd (list_unlock lst s) (\<lambda>s.
     Inr (node, s)))))))))))"

section \<open>Removal\<close>

definition list_remove_back :: "addr \<Rightarrow> 'a klists_scheme \<Rightarrow> (addr \<times> 'a klists_scheme) res" where
  "list_remove_back lst s =
     bnd (list_lock ''list_remove_back'' 93 lst s) (\<lambda>s.
     bnd (ld_list s lst) (\<lambda>l.
     if list_tail l = NULL then bnd (list_unlock lst s) (\<lambda>s. Inr (NULL, s))
     else let node = list_tail l in
       bnd (ld_node s node) (\<lambda>n.
       let val = node_value n in
       bnd (up_list lst (\<lambda>l. l\<lparr>list_tail := node_previous n\<rparr>) s) (\<lambda>s.
       bnd (ld_list s lst) (\<lambda>l.
       bnd (if list_tail l \<noteq> NULL then up_node (list_tail l) (\<lambda>n. n\<lparr>node_next := NULL\<rparr>) s
            else up_list lst (\<lambda>l. l\<lparr>list_root := NULL\<rparr>) s) (\<lambda>s.
       bnd (free_node node s) (\<lambda>s.
       bnd (up_list lst (\<lambda>l. l\<lparr>list_length := list_length l - 1\<rparr>) s) (\<lambda>s.
       bnd (list_unlock lst s) (\<lambda>s.
       Inr (val, s))))))))))"

definition list_remove_front :: "addr \<Rightarrow> 'a klists_scheme \<Rightarrow> (addr \<times> 'a klists_scheme) res" where
  "list_remove_front lst s =
     bnd (list_lock ''list_remove_front'' 117 lst s) (\<lambda>s.
     bnd (ld_list s lst) (\<lambda>l.
     if list_root l = NULL then bnd (list_unlock lst s) (\<lambda>s. Inr (NULL, s))
     else let node = list_root l in
       bnd (ld_node s node) (\<lambda>n.
       let val = node_value n in
       bnd (up_list lst (\<lambda>l. l\<lparr>list_root := node_next n\<rparr>) s) (\<lambda>s.
       bnd (ld_list s lst) (\<lambda>l.
       bnd (if list_root l \<noteq> NULL then up_node (list_root l) (\<lambda>n. n\<lparr>node_previous := NULL\<rparr>) s
            else up_list lst (\<lambda>l. l\<lparr>list_tail := NULL\<rparr>) s) (\<lambda>s.
       bnd (free_node node s) (\<lambda>s.
       bnd (up_list lst (\<lambda>l. l\<lparr>list_length := list_length l - 1\<rparr>) s) (\<lambda>s.
       bnd (list_unlock lst s) (\<lambda>s.
       Inr (val, s))))))))))"

definition list_pop :: "addr \<Rightarrow> 'a klists_scheme \<Rightarrow> (addr \<times> 'a klists_scheme) res" where
  "list_pop lst s =
     bnd (list_lock ''list_pop'' 141 lst s) (\<lambda>s.
     bnd (ld_list s lst) (\<lambda>l.
     if list_tail l = NULL then bnd (list_unlock lst s) (\<lambda>s. Inr (NULL, s))
     else let node = list_tail l in
       bnd (ld_node s node) (\<lambda>n.
       bnd (up_list lst (\<lambda>l. l\<lparr>list_tail := node_previous n\<rparr>) s) (\<lambda>s.
       bnd (ld_list s lst) (\<lambda>l.
       bnd (if list_tail l \<noteq> NULL then up_node (list_tail l) (\<lambda>n. n\<lparr>node_next := NULL\<rparr>) s
            else up_list lst (\<lambda>l. l\<lparr>list_root := NULL\<rparr>) s) (\<lambda>s.
       bnd (up_list lst (\<lambda>l. l\<lparr>list_length := list_length l - 1\<rparr>) s) (\<lambda>s.
       bnd (list_unlock lst s) (\<lambda>s.
       Inr (node, s)))))))))"

definition list_remove :: "addr \<Rightarrow> addr \<Rightarrow> 'a klists_scheme \<Rightarrow> (addr \<times> 'a klists_scheme) res" where
  "list_remove lst node s =
     bnd (list_lock ''list_remove'' 162 lst s) (\<lambda>s.
     bnd (ld_node s node) (\<lambda>n.
     let val = node_value n in
     bnd (ld_list s lst) (\<lambda>l.
     bnd (if node = list_root l then
            bnd (list_unlock lst s) (\<lambda>s. bnd (list_remove_front lst s) (\<lambda>(_, s). Inr s))
          else if node = list_tail l then
            bnd (list_unlock lst s) (\<lambda>s. bnd (list_remove_back lst s) (\<lambda>(_, s). Inr s))
          else
            bnd (up_node (node_previous n) (\<lambda>p. p\<lparr>node_next := node_next n\<rparr>) s) (\<lambda>s.
            bnd (ld_node s node) (\<lambda>n.
            bnd (up_node (node_next n) (\<lambda>p. p\<lparr>node_previous := node_previous n\<rparr>) s) (\<lambda>s.
            bnd (up_list lst (\<lambda>l. l\<lparr>list_length := list_length l - 1\<rparr>) s) (\<lambda>s.
            bnd (free_node node s) (\<lambda>s.
            list_unlock lst s)))))) (\<lambda>s.
     Inr (val, s)))))"

section \<open>Access\<close>

definition list_get_back :: "addr \<Rightarrow> 'a klists_scheme \<Rightarrow> (addr \<times> 'a klists_scheme) res" where
  "list_get_back lst s =
     bnd (list_lock ''list_get_back'' 186 lst s) (\<lambda>s.
     bnd (ld_list s lst) (\<lambda>l.
     if list_tail l = NULL then bnd (list_unlock lst s) (\<lambda>s. Inr (NULL, s))
     else bnd (ld_node s (list_tail l)) (\<lambda>n.
          bnd (list_unlock lst s) (\<lambda>s. Inr (node_value n, s)))))"

definition list_get_front :: "addr \<Rightarrow> 'a klists_scheme \<Rightarrow> (addr \<times> 'a klists_scheme) res" where
  "list_get_front lst s =
     bnd (list_lock ''list_get_front'' 201 lst s) (\<lambda>s.
     bnd (ld_list s lst) (\<lambda>l.
     if list_root l = NULL then bnd (list_unlock lst s) (\<lambda>s. Inr (NULL, s))
     else bnd (ld_node s (list_root l)) (\<lambda>n.
          bnd (list_unlock lst s) (\<lambda>s. Inr (node_value n, s)))))"

text \<open>The loops over \<open>foreach\<close>: the index of the first node with a value, the node with an index.\<close>

partial_function (option) contains_loop :: "(addr \<rightharpoonup> list_node) \<Rightarrow> addr \<Rightarrow> addr \<Rightarrow> size_t \<Rightarrow> size_t option res option" where
  "contains_loop h node val index =
     (if node = NULL then Some (Inr None)
      else case h node of
          None \<Rightarrow> Some (Inl Fault)
        | Some n \<Rightarrow> (if node_value n = val then Some (Inr (Some index))
                     else contains_loop h (node_next n) val (index + 1)))"

definition list_contains :: "addr \<Rightarrow> addr \<Rightarrow> 'a klists_scheme \<Rightarrow> (size_t \<times> 'a klists_scheme) res" where
  "list_contains lst val s =
     bnd (list_lock ''list_contains'' 216 lst s) (\<lambda>s.
     bnd (ld_list s lst) (\<lambda>l.
     bnd (loop_res (contains_loop (node_mem s) (list_root l) val 0)) (\<lambda>found.
     bnd (list_unlock lst s) (\<lambda>s.
     Inr (case found of Some index \<Rightarrow> index | None \<Rightarrow> MINUS_ONE, s)))))"

partial_function (option) indexed_loop :: "(addr \<rightharpoonup> list_node) \<Rightarrow> addr \<Rightarrow> size_t \<Rightarrow> size_t \<Rightarrow> addr res option" where
  "indexed_loop h node currentIndex index =
     (if node = NULL then Some (Inr NULL)
      else if currentIndex = index then Some (Inr node)
      else case h node of
          None \<Rightarrow> Some (Inl Fault)
        | Some n \<Rightarrow> indexed_loop h (node_next n) (currentIndex + 1) index)"

definition list_get_indexed :: "addr \<Rightarrow> size_t \<Rightarrow> 'a klists_scheme \<Rightarrow> (addr \<times> 'a klists_scheme) res" where
  "list_get_indexed lst index s =
     bnd (list_lock ''list_get_indexed'' 234 lst s) (\<lambda>s.
     bnd (ld_list s lst) (\<lambda>l.
     bnd (loop_res (indexed_loop (node_mem s) (list_root l) 0 index)) (\<lambda>node.
     bnd (list_unlock lst s) (\<lambda>s.
     Inr (node, s)))))"

definition list_remove_indexed :: "addr \<Rightarrow> size_t \<Rightarrow> 'a klists_scheme \<Rightarrow> (addr \<times> 'a klists_scheme) res" where
  "list_remove_indexed lst index s =
     bnd (list_get_indexed lst index s) (\<lambda>(node, s). list_remove lst node s)"

section \<open>Heap and hart\<close>

text \<open>What is the same in two states although their heaps differ.\<close>

lemma more_eq:
  assumes "pmm.more s' = pmm.more (s :: 'a klists_scheme)"
  shows "list_mem s' = list_mem s" and "node_mem s' = node_mem s" and "klists.more s' = klists.more s"
  using assms by (cases s; cases s'; simp)+

lemma heap_ok_cong:
  assumes "bytes s' = bytes s" and "bitmap s' = bitmap s" and "PmmLength s' = PmmLength s"
    and "MEM_PHYS_OFFSET s' = MEM_PHYS_OFFSET s" and "PmmLock s' = PmmLock s"
  shows "heap_ok lim B s' = heap_ok lim B s"
  using assms by (simp add: heap_ok_def pmm_ok_def block_ok_def block_frames_def phys_def in_use_def)

lemma heap_ok_upd [simp]:
  "heap_ok lim B (s\<lparr>list_mem := x\<rparr>) = heap_ok lim B s"
  "heap_ok lim B (s\<lparr>node_mem := y\<rparr>) = heap_ok lim B s"
  "heap_ok lim B (s\<lparr>cpu_struct := c\<rparr>) = heap_ok lim B s"
  by (rule heap_ok_cong; simp)+

definition room :: "'a pmm_scheme \<Rightarrow> size_t \<Rightarrow> bool" where
  "room s n \<longleftrightarrow> (\<exists>j. j < PmmLength s \<and> is_bitmap_page_free (bitmap s) j n)"

lemma room_upd [simp]:
  "room (s\<lparr>list_mem := x\<rparr>) n = room s n" "room (s\<lparr>node_mem := y\<rparr>) n = room s n"
  "room (s\<lparr>cpu_struct := c\<rparr>) n = room s n"
  by (simp_all add: room_def)

definition klist_frame :: "'a klists_scheme \<Rightarrow> 'a klists_scheme \<Rightarrow> bool" where
  "klist_frame s s' \<longleftrightarrow> same_hart s s' \<and> PmmLength s' = PmmLength s \<and> MEM_PHYS_OFFSET s' = MEM_PHYS_OFFSET s
     \<and> klists.more s' = klists.more s"

lemma klist_frame_refl [simp]: "klist_frame s s"
  by (simp add: klist_frame_def)

lemma klist_frame_trans: "klist_frame s s' \<Longrightarrow> klist_frame s' s'' \<Longrightarrow> klist_frame s s''"
  by (auto simp: klist_frame_def dest: same_hart_trans)

lemma heap_block_nonnull:
  assumes "heap_ok lim B s" and "B p = Some n"
  shows "p \<noteq> NULL"
proof
  assume p: "p = NULL"
  have range: "frame_range lim (phys s p) (pages_of n + 1)" and o: "unat (MEM_PHYS_OFFSET s) + unat lim * 4096 < 2 ^ 64"
    using assms by (auto simp: heap_ok_def block_ok_def)
  note fr = frame_range_div [OF range heap_lim [OF assms(1)]]
  have e: "phys s p + (MEM_PHYS_OFFSET s + PAGE_SIZE) = p" by (simp add: phys_def)
  have b: "unat (phys s p) + 4096 \<le> 4096 * unat lim" using fr(2,4) by simp
  have u: "unat (MEM_PHYS_OFFSET s + PAGE_SIZE) = unat (MEM_PHYS_OFFSET s) + 4096"
    using o b by (subst unat_add_u64) (simp_all add: PAGE_SIZE_def)
  then have "unat (phys s p + (MEM_PHYS_OFFSET s + PAGE_SIZE)) = unat (phys s p) + unat (MEM_PHYS_OFFSET s) + 4096"
    using o b by (subst unat_add_u64) (simp_all add: u)
  then show False unfolding e by (simp add: p)
qed

section \<open>Allocation of the structures\<close>

text \<open>The frames an allocation of \<open>n\<close> pages takes: the first run the scan finds.\<close>

definition took :: "'a pmm_scheme \<Rightarrow> 'b pmm_scheme \<Rightarrow> size_t \<Rightarrow> bool" where
  "took s s' n \<longleftrightarrow> PmmLength s' = PmmLength s \<and>
     (\<exists>i. pmm_scan (bitmap s) (PmmLength s) n 1 0 = Some (Some i) \<and> bitmap s' = set_bits (bitmap s) i (n + i))"

lemma took_upd [simp]:
  "took s (s'\<lparr>list_mem := x\<rparr>) n = took s s' n" "took s (s'\<lparr>node_mem := y\<rparr>) n = took s s' n"
  by (simp_all add: took_def)

lemma took_from [simp]: "took (s\<lparr>list_mem := x\<rparr>) s' n = took s s' n"
  by (simp add: took_def)

lemma took_preempt [simp]:
  "took s (arch_cpu_decrement_preempt_counter s') n = took s s' n"
  "took (arch_cpu_increment_preempt_counter s) s' n = took s s' n"
  by (simp_all add: took_def arch_cpu_decrement_preempt_counter_def arch_cpu_increment_preempt_counter_def)

lemma kmalloc_took:
  assumes "heap_ok lim B s" and "kmalloc n s = Inr (p, s')" and "p \<noteq> NULL"
  shows "took s s' (pages_of n + 1)"
proof -
  obtain a s1 where al: "pmm_alloc (pages_of n + 1) s = Inr (a, s1)" "a \<noteq> NULL"
    and s': "s' = s1\<lparr>bytes := new_block (bytes s) (p - PAGE_SIZE) n\<rparr>"
    using assms by (rule kmalloc_success)
  have lk: "lock (PmmLock s) = 0" using assms(1) by (simp add: heap_ok_def pmm_ok_def)
  obtain s0 m where adv: "pmm_alloc_advanced (pages_of n + 1) 1 s = Inr (a, s0)" and "s1 = s0\<lparr>bytes := m\<rparr>"
    using al(1) by (auto simp: pmm_alloc_def bnd_eq_Inr)
  then show ?thesis
    using al(2) by (auto simp: took_def s' pmm_alloc_advanced_eq [OF lk] pmm_taken_def split: option.splits)
qed

text \<open>
  Room for several allocations: a free run below \<open>PmmLength\<close>. Since the scan takes the first fit, an
  allocation leaves the rest of the run free.
\<close>

definition spacious :: "'a pmm_scheme \<Rightarrow> size_t \<Rightarrow> bool" where
  "spacious s n \<longleftrightarrow> n \<noteq> 0 \<and> (\<exists>j. unat j + unat n \<le> unat (PmmLength s) \<and> is_bitmap_page_free (bitmap s) j n)"

lemma spacious_room:
  assumes "spacious s n"
  shows "room s n"
proof -
  obtain j where j: "unat j + unat n \<le> unat (PmmLength s)" "is_bitmap_page_free (bitmap s) j n" and "0 < unat n"
    using assms by (auto simp: spacious_def unat_gt_0)
  then have "j < PmmLength s" by (simp add: word_less_nat_alt)
  with j(2) show ?thesis by (auto simp: room_def)
qed

lemma spacious_sub:
  assumes "spacious s (m + n)" and "m \<noteq> 0" and "unat m + unat n < 2 ^ 64"
  shows "spacious s m"
proof -
  have u: "unat (m + n) = unat m + unat n" using assms(3) by (rule unat_add_u64)
  obtain j where j: "unat j + unat (m + n) \<le> unat (PmmLength s)" "is_bitmap_page_free (bitmap s) j (m + n)"
    using assms(1) by (auto simp: spacious_def)
  have "is_bitmap_page_free (bitmap s) j m" using j(2) u by (auto simp: free_run_span in_span_def)
  moreover have "unat j + unat m \<le> unat (PmmLength s)" using j(1) u by simp
  ultimately show ?thesis using assms(2) unfolding spacious_def by blast
qed

lemma spacious_took:
  assumes "spacious s (m + n)" and "unat m + unat n < 2 ^ 64" and "n \<noteq> 0" and "took s s' m"
  shows "spacious s' n"
proof -
  have u: "unat (m + n) = unat m + unat n" using assms(2) by (rule unat_add_u64)
  obtain j where j: "unat j + unat (m + n) \<le> unat (PmmLength s)" "is_bitmap_page_free (bitmap s) j (m + n)"
    using assms(1) by (auto simp: spacious_def)
  obtain i where i: "pmm_scan (bitmap s) (PmmLength s) m 1 0 = Some (Some i)" "bitmap s' = set_bits (bitmap s) i (m + i)"
    and len: "PmmLength s' = PmmLength s"
    using assms(4) by (auto simp: took_def)
  obtain k where k: "i = of_nat k" "\<forall>j<k. \<not> is_bitmap_page_free (bitmap s) (of_nat j) m"
    using pmm_scan_found [OF i(1)] by auto
  have free: "is_bitmap_page_free (bitmap s) j m" using j(2) u by (auto simp: free_run_span in_span_def)
  have "\<not> unat j < k"
  proof
    assume "unat j < k"
    with k(2) have "\<not> is_bitmap_page_free (bitmap s) (of_nat (unat j)) m" by blast
    with free show False by simp
  qed
  then have ij: "unat i \<le> unat j" using k(1) unat_u64_less [of j] by (simp add: unat_of_nat_u64)
  have um: "unat (m + i) = unat m + unat i"
    using ij j(1) u unat_u64_less [of "PmmLength s"] by (intro unat_add_u64) simp
  have uj: "unat (j + m) = unat j + unat m"
    using j(1) u unat_u64_less [of "PmmLength s"] by (intro unat_add_u64) simp
  have "is_bitmap_page_free (bitmap s') (j + m) n"
    unfolding free_run_span i(2) test_set_bits
  proof (intro allI impI)
    fix x assume x: "in_span (j + m) (unat n) x"
    then have b: "unat (j + m) \<le> unat x \<and> unat x < unat (j + m) + unat n"
      using j(1) u uj unat_u64_less [of "PmmLength s"] by (subst (asm) in_span_iff) auto
    then have "in_span j (unat (m + n)) x"
      using j(1) u uj unat_u64_less [of "PmmLength s"] by (subst in_span_iff) auto
    then have "\<not> test_bit (bitmap s) x" using j(2) by (simp add: free_run_span)
    moreover have "\<not> x < m + i" using b uj um ij by (simp add: word_less_nat_alt)
    ultimately show "\<not> (test_bit (bitmap s) x \<or> i \<le> x \<and> x < m + i)" by simp
  qed
  then show ?thesis using j(1) u uj len assms(3) by (auto simp: spacious_def intro!: exI [of _ "j + m"])
qed

lemma spacious_upd [simp]:
  "spacious (s\<lparr>list_mem := x\<rparr>) n = spacious s n" "spacious (s\<lparr>node_mem := y\<rparr>) n = spacious s n"
  by (simp_all add: spacious_def)

lemma kmalloc_room:
  assumes "heap_ok lim B s" and "room s (pages_of n + 1)"
  obtains p s' where "kmalloc n s = Inr (p, s')" and "p \<noteq> NULL" and "B p = None"
    and "heap_ok lim (B(p \<mapsto> n)) s'" and "pmm_frame s s'" and "took s s' (pages_of n + 1)"
proof -
  obtain j where "j < PmmLength s" and "is_bitmap_page_free (bitmap s) j (pages_of n + 1)"
    using assms(2) by (auto simp: room_def)
  then obtain p s' where call: "kmalloc n s = Inr (p, s')" "p \<noteq> NULL"
    using kmalloc_returns [OF assms(1)] by blast
  then show ?thesis
    using kmalloc_ok [OF assms(1) call] kmalloc_block(2) [OF assms(1) call] kmalloc_took [OF assms(1) call] by (intro that)
qed

lemma node_pages: "pages_of sizeof_list_node_t + 1 = 2" and list_pages: "pages_of sizeof_list_t + 1 = 2"
  by (simp_all add: pages_of_def sizeof_list_node_t_def sizeof_list_t_def PAGE_SIZE_def)

lemma frame_of_pmm:
  assumes "pmm_frame s (s' :: 'a klists_scheme)"
  shows "klist_frame s s'" and "list_mem s' = list_mem s" and "node_mem s' = node_mem s"
  using assms more_eq [of s' s] by (simp_all add: pmm_frame_def klist_frame_def)

lemma new_node_ok:
  assumes "heap_ok lim B s" and "room s 2"
  obtains p s' where "new_node s = Inr (p, s')" and "p \<noteq> NULL" and "B p = None"
    and "heap_ok lim (B(p \<mapsto> sizeof_list_node_t)) s'" and "klist_frame s s'" and "list_mem s' = list_mem s"
    and "node_mem s' = (node_mem s)(p \<mapsto> \<lparr>node_value = 0, node_previous = NULL, node_next = NULL\<rparr>)" and "took s s' 2"
proof -
  obtain p s1 where s1: "kmalloc sizeof_list_node_t s = Inr (p, s1)" "p \<noteq> NULL" "B p = None"
    "heap_ok lim (B(p \<mapsto> sizeof_list_node_t)) s1" "pmm_frame s s1" "took s s1 2"
    using assms kmalloc_room [of lim B s sizeof_list_node_t] unfolding node_pages by metis
  note fr = frame_of_pmm [OF s1(5)]
  show ?thesis
  proof (rule that)
    show "new_node s = Inr (p, s1\<lparr>node_mem := (node_mem s1)(p \<mapsto> \<lparr>node_value = 0, node_previous = NULL, node_next = NULL\<rparr>)\<rparr>)"
      using s1 by (simp add: new_node_def)
  qed (use s1 fr in \<open>simp_all add: klist_frame_def same_hart_def\<close>)
qed

lemma new_list_ok:
  assumes "heap_ok lim B s" and "room s 2"
  obtains p s' where "new_list s = Inr (p, s')" and "p \<noteq> NULL" and "B p = None"
    and "heap_ok lim (B(p \<mapsto> sizeof_list_t)) s'" and "klist_frame s s'" and "node_mem s' = node_mem s"
    and "list_mem s' = (list_mem s)(p \<mapsto> \<lparr>list_length = 0, list_root = NULL, list_tail = NULL, list_lk = zero_lock\<rparr>)" and "took s s' 2"
proof -
  obtain p s1 where s1: "kmalloc sizeof_list_t s = Inr (p, s1)" "p \<noteq> NULL" "B p = None"
    "heap_ok lim (B(p \<mapsto> sizeof_list_t)) s1" "pmm_frame s s1" "took s s1 2"
    using assms kmalloc_room [of lim B s sizeof_list_t] unfolding list_pages by metis
  note fr = frame_of_pmm [OF s1(5)]
  show ?thesis
  proof (rule that)
    show "new_list s = Inr (p, s1\<lparr>list_mem := (list_mem s1)(p \<mapsto> \<lparr>list_length = 0, list_root = NULL, list_tail = NULL, list_lk = zero_lock\<rparr>)\<rparr>)"
      using s1 by (simp add: new_list_def)
  qed (use s1 fr in \<open>simp_all add: klist_frame_def same_hart_def\<close>)
qed

lemma free_node_ok:
  assumes "heap_ok lim B s" and "B p = Some k"
  obtains s' where "free_node p s = Inr s'" and "heap_ok lim (B(p := None)) s'" and "klist_frame s s'"
    and "list_mem s' = list_mem s" and "node_mem s' = (node_mem s)(p := None)"
proof -
  from assms obtain s1 where s1: "kfree p s = Inr s1" "heap_ok lim (B(p := None)) s1" "pmm_frame s s1"
    "bytes s1 = bytes s" "in_use s1 = in_use s - block_frames s p k"
    by (rule kfree_ok)
  note fr = frame_of_pmm [OF s1(3)]
  show ?thesis
    by (rule that [of "s1\<lparr>node_mem := (node_mem s1)(p := None)\<rparr>"])
      (use s1 fr in \<open>simp_all add: free_node_def klist_frame_def same_hart_def\<close>)
qed

lemma free_list_ok:
  assumes "heap_ok lim B s" and "B p = Some k"
  obtains s' where "free_list p s = Inr s'" and "heap_ok lim (B(p := None)) s'" and "klist_frame s s'"
    and "node_mem s' = node_mem s" and "list_mem s' = (list_mem s)(p := None)"
proof -
  from assms obtain s1 where s1: "kfree p s = Inr s1" "heap_ok lim (B(p := None)) s1" "pmm_frame s s1"
    "bytes s1 = bytes s" "in_use s1 = in_use s - block_frames s p k"
    by (rule kfree_ok)
  note fr = frame_of_pmm [OF s1(3)]
  show ?thesis
    by (rule that [of "s1\<lparr>list_mem := (list_mem s1)(p := None)\<rparr>"])
      (use s1 fr in \<open>simp_all add: free_list_def klist_frame_def same_hart_def\<close>)
qed

section \<open>Linked segments\<close>

text \<open>
  A list is abstracted to the sequence of its nodes, each an address with its value. \<open>dseg h p xs q\<close>:
  the nodes of \<open>xs\<close> are linked in this order both ways, the first one back to \<open>p\<close> and the last one on
  to \<open>q\<close>.
\<close>

type_synonym nodes = "(addr \<times> addr) list"

fun first_of :: "nodes \<Rightarrow> addr \<Rightarrow> addr" where
  "first_of [] q = q"
| "first_of ((a, v) # xs) q = a"

fun last_of :: "addr \<Rightarrow> nodes \<Rightarrow> addr" where
  "last_of p [] = p"
| "last_of p ((a, v) # xs) = last_of a xs"

fun dseg :: "(addr \<rightharpoonup> list_node) \<Rightarrow> addr \<Rightarrow> nodes \<Rightarrow> addr \<Rightarrow> bool" where
  "dseg h p [] q = True"
| "dseg h p ((a, v) # xs) q =
     (a \<noteq> NULL \<and> h a = Some \<lparr>node_value = v, node_previous = p, node_next = first_of xs q\<rparr> \<and> dseg h a xs q)"

abbreviation addrs :: "nodes \<Rightarrow> addr set" where
  "addrs xs \<equiv> fst ` set xs"

lemma last_of_append [simp]: "last_of p (xs @ ys) = last_of (last_of p xs) ys"
  by (induction p xs rule: last_of.induct) auto

lemma first_of_append [simp]: "first_of (xs @ ys) q = first_of xs (first_of ys q)"
  by (cases xs) auto

lemma dseg_append: "dseg h p (xs @ ys) q \<longleftrightarrow> dseg h p xs (first_of ys q) \<and> dseg h (last_of p xs) ys q"
  by (induction h p xs q rule: dseg.induct) auto

lemma dseg_cong: "(\<And>a. a \<in> addrs xs \<Longrightarrow> h' a = h a) \<Longrightarrow> dseg h' p xs q = dseg h p xs q"
  by (induction h p xs q rule: dseg.induct) auto

lemma dseg_upd [simp]: "a \<notin> addrs xs \<Longrightarrow> dseg (h(a := n)) p xs q = dseg h p xs q"
  by (rule dseg_cong) auto

lemma dseg_nonnull: "dseg h p xs q \<Longrightarrow> NULL \<notin> addrs xs"
  by (induction h p xs q rule: dseg.induct) auto

lemma dseg_dom: "dseg h p xs q \<Longrightarrow> addrs xs \<subseteq> dom h"
  by (induction h p xs q rule: dseg.induct) auto

lemma first_of_null: "dseg h p xs NULL \<Longrightarrow> first_of xs NULL = NULL \<longleftrightarrow> xs = []"
  by (cases xs) auto

lemma last_of_in: "xs \<noteq> [] \<Longrightarrow> last_of p xs \<in> addrs xs"
proof (induction p xs rule: last_of.induct)
  case (2 p a v xs)
  then show ?case by (cases "xs = []") auto
qed simp

lemma last_of_null: "dseg h NULL xs q \<Longrightarrow> last_of NULL xs = NULL \<longleftrightarrow> xs = []"
  using last_of_in [of xs NULL] dseg_nonnull [of h NULL xs q] by (metis last_of.simps(1))

text \<open>Changing what the last node points on to, and what the first one points back to.\<close>

lemma dseg_relink_last:
  assumes "dseg h p (xs @ [(a, v)]) q" and "distinct (List.map fst (xs @ [(a, v)]))"
  shows "dseg (h(a \<mapsto> \<lparr>node_value = v, node_previous = last_of p xs, node_next = q'\<rparr>)) p (xs @ [(a, v)]) q'"
  using assms by (auto simp: dseg_append)

lemma dseg_relink_first:
  assumes "dseg h p ((a, v) # xs) q" and "distinct (List.map fst ((a, v) # xs))"
  shows "dseg (h(a \<mapsto> \<lparr>node_value = v, node_previous = p', node_next = first_of xs q\<rparr>)) p' ((a, v) # xs) q"
  using assms by auto

section \<open>Lists in a state\<close>

definition list_rep :: "(addr \<rightharpoonup> list_node) \<Rightarrow> list_t \<Rightarrow> nodes \<Rightarrow> bool" where
  "list_rep h l xs \<longleftrightarrow> list_length l = of_nat (length xs) \<and> list_root l = first_of xs NULL \<and>
     list_tail l = last_of NULL xs \<and> dseg h NULL xs NULL \<and> distinct (List.map fst xs)"

definition is_list :: "'a klists_scheme \<Rightarrow> addr \<Rightarrow> nodes \<Rightarrow> bool" where
  "is_list s lst xs \<longleftrightarrow> (\<exists>l. list_mem s lst = Some l \<and> lock (list_lk l) = 0 \<and> list_rep (node_mem s) l xs)"

text \<open>Every structure of the typed heaps sits in a block of its own, of its size.\<close>

definition lists_ok :: "u64 \<Rightarrow> (addr \<rightharpoonup> size_t) \<Rightarrow> 'a klists_scheme \<Rightarrow> bool" where
  "lists_ok lim B s \<longleftrightarrow> heap_ok lim B s \<and> dom (list_mem s) \<inter> dom (node_mem s) = {} \<and>
     (\<forall>p \<in> dom (list_mem s). B p = Some sizeof_list_t) \<and> (\<forall>p \<in> dom (node_mem s). B p = Some sizeof_list_node_t)"

text \<open>An operation on one list leaves alone all the others, and every node that is not its own.\<close>

definition others_same :: "addr \<Rightarrow> addr set \<Rightarrow> 'a klists_scheme \<Rightarrow> 'a klists_scheme \<Rightarrow> bool" where
  "others_same lst A s s' \<longleftrightarrow> (\<forall>p. p \<noteq> lst \<longrightarrow> list_mem s' p = list_mem s p) \<and>
     (\<forall>a. a \<notin> A \<longrightarrow> node_mem s' a = node_mem s a)"

lemma others_is_list:
  assumes "others_same lst A s s'" and "is_list s lst' ys" and "lst' \<noteq> lst" and "addrs ys \<inter> A = {}"
  shows "is_list s' lst' ys"
proof -
  obtain l where l: "list_mem s lst' = Some l" "lock (list_lk l) = 0" "list_rep (node_mem s) l ys"
    using assms(2) by (auto simp: is_list_def)
  have "dseg (node_mem s') NULL ys NULL = dseg (node_mem s) NULL ys NULL"
    using assms(1,4) by (intro dseg_cong) (auto simp: others_same_def)
  then show ?thesis using l assms(1,3) by (auto simp: is_list_def list_rep_def others_same_def)
qed

section \<open>Locking a list\<close>

definition list_taken :: "string \<Rightarrow> int \<Rightarrow> addr \<Rightarrow> list_t \<Rightarrow> 'a klists_scheme \<Rightarrow> 'a klists_scheme" where
  "list_taken fn ln p l s = (arch_cpu_increment_preempt_counter s)\<lparr>list_mem := (list_mem s)(p \<mapsto>
     l\<lparr>list_lk := (list_lk l)\<lparr>lock := 1, last_acquirer := acquirer_of (''lists.c'', fn, ln) s\<rparr>\<rparr>)\<rparr>"

lemma preempt_fields [simp]:
  "list_mem (arch_cpu_increment_preempt_counter s) = list_mem s"
  "node_mem (arch_cpu_increment_preempt_counter s) = node_mem s"
  "list_mem (arch_cpu_decrement_preempt_counter s) = list_mem s"
  "node_mem (arch_cpu_decrement_preempt_counter s) = node_mem s"
  "heap_ok lim B (arch_cpu_increment_preempt_counter s) = heap_ok lim B s"
  "heap_ok lim B (arch_cpu_decrement_preempt_counter s) = heap_ok lim B s"
  "room (arch_cpu_increment_preempt_counter s) n = room s n"
  by (simp_all add: arch_cpu_increment_preempt_counter_def arch_cpu_decrement_preempt_counter_def)

lemma list_lock_eq:
  "list_mem s p = Some l \<Longrightarrow> lock (list_lk l) = 0 \<Longrightarrow> list_lock fn ln p s = Inr (list_taken fn ln p l s)"
  by (simp add: list_lock_def ld_list_def list_taken_def)

lemma list_unlock_eq:
  "list_mem s p = Some l \<Longrightarrow> list_unlock p s =
    Inr ((arch_cpu_decrement_preempt_counter s)\<lparr>list_mem := (list_mem s)(p \<mapsto> l\<lparr>list_lk := (list_lk l)\<lparr>lock := 0\<rparr>\<rparr>)\<rparr>)"
  by (simp add: list_unlock_def ld_list_def)

lemma list_taken_fields [simp]:
  "node_mem (list_taken fn ln p l s) = node_mem s"
  "list_mem (list_taken fn ln p l s) = (list_mem s)(p \<mapsto>
     l\<lparr>list_lk := (list_lk l)\<lparr>lock := 1, last_acquirer := acquirer_of (''lists.c'', fn, ln) s\<rparr>\<rparr>)"
  "heap_ok lim B (list_taken fn ln p l s) = heap_ok lim B s"
  "room (list_taken fn ln p l s) n = room s n"
  "took (list_taken fn ln p l s) s' n = took s s' n"
  by (simp_all add: list_taken_def)

text \<open>Between a lock and an unlock the hart has preemption disabled once more; afterwards it is as before.\<close>

lemma frame_through_lock:
  assumes "klist_frame (list_taken fn ln p l s) s'"
  shows "klist_frame s (arch_cpu_decrement_preempt_counter s')"
proof -
  have "cpu_struct (arch_cpu_decrement_preempt_counter s') = cpu_struct s"
    using assms decrement_increment [of s]
    by (auto simp: klist_frame_def same_hart_def list_taken_def arch_cpu_increment_preempt_counter_def
        arch_cpu_decrement_preempt_counter_def riscv_cpu_inited_def)
  then show ?thesis
    using assms
    by (auto simp: klist_frame_def same_hart_def list_taken_def arch_cpu_increment_preempt_counter_def
        arch_cpu_decrement_preempt_counter_def riscv_cpu_inited_def)
qed

lemma preempt_upd [simp]:
  "arch_cpu_decrement_preempt_counter (s\<lparr>list_mem := x\<rparr>) = (arch_cpu_decrement_preempt_counter s)\<lparr>list_mem := x\<rparr>"
  "arch_cpu_decrement_preempt_counter (s\<lparr>node_mem := y\<rparr>) = (arch_cpu_decrement_preempt_counter s)\<lparr>node_mem := y\<rparr>"
  by (simp_all add: arch_cpu_decrement_preempt_counter_def riscv_cpu_inited_def)

lemma frame_lock_unlock [simp]: "klist_frame s (arch_cpu_decrement_preempt_counter (list_taken fn ln p l s))"
  by (rule frame_through_lock [OF klist_frame_refl])

lemma map_upd_same [simp]: "m(a \<mapsto> x) = m(a \<mapsto> y) \<longleftrightarrow> x = y"
  by (auto dest: map_upd_eqD1)

lemma klist_frame_upd [simp]:
  "klist_frame s (s'\<lparr>list_mem := x\<rparr>) = klist_frame s s'" "klist_frame s (s'\<lparr>node_mem := y\<rparr>) = klist_frame s s'"
  by (simp_all add: klist_frame_def same_hart_def)

lemmas list_steps = up_list_def up_node_def ld_list_def ld_node_def list_unlock_eq

section \<open>Creation\<close>

lemma lists_okD: "lists_ok lim B s \<Longrightarrow> heap_ok lim B s"
  by (simp add: lists_ok_def)

lemma list_create_ok:
  assumes "lists_ok lim B s" and "room s 2"
  obtains lst s' where "list_create s = Inr (lst, s')" and "lst \<noteq> NULL" and "B lst = None"
    and "lists_ok lim (B(lst \<mapsto> sizeof_list_t)) s'" and "is_list s' lst []" and "others_same lst {} s s'"
    and "klist_frame s s'" and "took s s' 2"
proof -
  from lists_okD [OF assms(1)] assms(2) obtain p s1 where s1: "new_list s = Inr (p, s1)" "p \<noteq> NULL" "B p = None"
    "heap_ok lim (B(p \<mapsto> sizeof_list_t)) s1" "klist_frame s s1" "node_mem s1 = node_mem s"
    "list_mem s1 = (list_mem s)(p \<mapsto> \<lparr>list_length = 0, list_root = NULL, list_tail = NULL, list_lk = zero_lock\<rparr>)" "took s s1 2"
    by (rule new_list_ok)
  define s' where "s' = s1\<lparr>list_mem := (list_mem s)(p \<mapsto> \<lparr>list_length = 0, list_root = NULL, list_tail = NULL, list_lk = INIT_SPINLOCK\<rparr>)\<rparr>"
  have "list_create s = Inr (p, s')"
    using s1 by (simp add: list_create_def list_steps s'_def)
  moreover have "is_list s' p []"
    by (simp add: is_list_def s'_def INIT_SPINLOCK_def list_rep_def)
  moreover have "p \<notin> dom (node_mem s)" using assms(1) s1(3) by (force simp: lists_ok_def)
  then have "lists_ok lim (B(p \<mapsto> sizeof_list_t)) s'"
    using assms(1) s1(4,6) by (auto simp: lists_ok_def s'_def)
  ultimately show ?thesis
    using s1 by (intro that [of p s']) (simp_all add: s'_def others_same_def)
qed

section \<open>Insertion at the ends\<close>

lemma list_push_back_ok:
  assumes ok: "lists_ok lim B s" and room: "room s 2" and lst: "is_list s lst xs"
  obtains node s' where "list_push_back lst v s = Inr (node, s')" and "node \<noteq> NULL" and "B node = None"
    and "lists_ok lim (B(node \<mapsto> sizeof_list_node_t)) s'" and "is_list s' lst (xs @ [(node, v)])"
    and "others_same lst (insert node (addrs xs)) s s'" and "klist_frame s s'" and "took s s' 2"
proof -
  obtain l where l: "list_mem s lst = Some l" "lock (list_lk l) = 0" and rep: "list_rep (node_mem s) l xs"
    using lst by (auto simp: is_list_def)
  let ?s1 = "list_taken ''list_push_back'' 52 lst l s"
  have "heap_ok lim B ?s1" and "room ?s1 2" using lists_okD [OF ok] room by simp_all
  then obtain node s2 where s2: "new_node ?s1 = Inr (node, s2)" "node \<noteq> NULL" "B node = None"
    "heap_ok lim (B(node \<mapsto> sizeof_list_node_t)) s2" "klist_frame ?s1 s2" "list_mem s2 = list_mem ?s1"
    "node_mem s2 = (node_mem ?s1)(node \<mapsto> \<lparr>node_value = 0, node_previous = NULL, node_next = NULL\<rparr>)" "took ?s1 s2 2"
    by (rule new_node_ok)
  have rep': "list_length l = of_nat (length xs)" "list_root l = first_of xs NULL" "list_tail l = last_of NULL xs"
    "dseg (node_mem s) NULL xs NULL" "distinct (List.map fst xs)"
    using rep by (simp_all add: list_rep_def)
  have new: "node \<notin> dom (node_mem s)" "node \<notin> dom (list_mem s)" using ok s2(3) by (force simp: lists_ok_def)+
  then have fresh: "node \<notin> addrs xs" using dseg_dom [OF rep'(4)] by blast
  have ne: "lst \<noteq> node" using new(2) l(1) by auto
  have "\<exists>s' l'. list_push_back lst v s = Inr (node, s') \<and> list_mem s' = (list_mem s)(lst \<mapsto> l') \<and> lock (list_lk l') = 0
    \<and> list_rep (node_mem s') l' (xs @ [(node, v)]) \<and> (\<forall>a. a \<notin> insert node (addrs xs) \<longrightarrow> node_mem s' a = node_mem s a)
    \<and> dom (node_mem s') = insert node (dom (node_mem s))
    \<and> heap_ok lim (B(node \<mapsto> sizeof_list_node_t)) s' \<and> klist_frame s s' \<and> took s s' 2"
  proof (cases xs rule: rev_cases)
    case Nil
    then show ?thesis
      using rep' s2 l ne
      by (auto simp: list_push_back_def list_lock_eq list_steps list_rep_def intro!: frame_through_lock)
  next
    case (snoc ys t)
    obtain b w where t: "t = (b, w)" by (cases t)
    have b: "node_mem s b = Some \<lparr>node_value = w, node_previous = last_of NULL ys, node_next = NULL\<rparr>" "b \<noteq> NULL"
      and bn: "b \<noteq> node"
      using rep'(4) fresh by (auto simp: snoc t dseg_append)
    have "dseg ((node_mem s)(node \<mapsto> \<lparr>node_value = v, node_previous = b, node_next = NULL\<rparr>,
        b \<mapsto> \<lparr>node_value = w, node_previous = last_of NULL ys, node_next = node\<rparr>)) NULL (xs @ [(node, v)]) NULL"
      using rep'(4,5) fresh bn s2(2) by (auto simp: snoc t dseg_append)
    moreover have "distinct (List.map fst (xs @ [(node, v)]))" using rep'(5) fresh by auto
    moreover have "first_of xs NULL \<noteq> NULL" using first_of_null [OF rep'(4)] snoc by simp
    ultimately show ?thesis
      using rep' s2 l ne b bn
      by (auto simp: list_push_back_def list_lock_eq list_steps list_rep_def snoc t intro!: frame_through_lock)
  qed
  then obtain s' l' where s': "list_push_back lst v s = Inr (node, s')" "list_mem s' = (list_mem s)(lst \<mapsto> l')" "lock (list_lk l') = 0"
    "list_rep (node_mem s') l' (xs @ [(node, v)])" "\<forall>a. a \<notin> insert node (addrs xs) \<longrightarrow> node_mem s' a = node_mem s a"
    "dom (node_mem s') = insert node (dom (node_mem s))"
    "heap_ok lim (B(node \<mapsto> sizeof_list_node_t)) s'" "klist_frame s s'" "took s s' 2"
    by blast
  have "lists_ok lim (B(node \<mapsto> sizeof_list_node_t)) s'"
    using ok s' new ne l(1) by (auto simp: lists_ok_def)
  moreover have "is_list s' lst (xs @ [(node, v)])" using s' by (simp add: is_list_def)
  moreover have "others_same lst (insert node (addrs xs)) s s'" using s' by (simp add: others_same_def)
  ultimately show ?thesis using s' s2(2,3) by (intro that [of node s']) auto
qed

lemma list_push_front_ok:
  assumes ok: "lists_ok lim B s" and room: "room s 2" and lst: "is_list s lst xs"
  obtains node s' where "list_push_front lst v s = Inr (node, s')" and "node \<noteq> NULL" and "B node = None"
    and "lists_ok lim (B(node \<mapsto> sizeof_list_node_t)) s'" and "is_list s' lst ((node, v) # xs)"
    and "others_same lst (insert node (addrs xs)) s s'" and "klist_frame s s'" and "took s s' 2"
proof -
  obtain l where l: "list_mem s lst = Some l" "lock (list_lk l) = 0" and rep: "list_rep (node_mem s) l xs"
    using lst by (auto simp: is_list_def)
  let ?s1 = "list_taken ''list_push_front'' 73 lst l s"
  have "heap_ok lim B ?s1" and "room ?s1 2" using lists_okD [OF ok] room by simp_all
  then obtain node s2 where s2: "new_node ?s1 = Inr (node, s2)" "node \<noteq> NULL" "B node = None"
    "heap_ok lim (B(node \<mapsto> sizeof_list_node_t)) s2" "klist_frame ?s1 s2" "list_mem s2 = list_mem ?s1"
    "node_mem s2 = (node_mem ?s1)(node \<mapsto> \<lparr>node_value = 0, node_previous = NULL, node_next = NULL\<rparr>)" "took ?s1 s2 2"
    by (rule new_node_ok)
  have rep': "list_length l = of_nat (length xs)" "list_root l = first_of xs NULL" "list_tail l = last_of NULL xs"
    "dseg (node_mem s) NULL xs NULL" "distinct (List.map fst xs)"
    using rep by (simp_all add: list_rep_def)
  have new: "node \<notin> dom (node_mem s)" "node \<notin> dom (list_mem s)" using ok s2(3) by (force simp: lists_ok_def)+
  then have fresh: "node \<notin> addrs xs" using dseg_dom [OF rep'(4)] by blast
  have ne: "lst \<noteq> node" using new(2) l(1) by auto
  have "\<exists>s' l'. list_push_front lst v s = Inr (node, s') \<and> list_mem s' = (list_mem s)(lst \<mapsto> l') \<and> lock (list_lk l') = 0
    \<and> list_rep (node_mem s') l' ((node, v) # xs) \<and> (\<forall>a. a \<notin> insert node (addrs xs) \<longrightarrow> node_mem s' a = node_mem s a)
    \<and> dom (node_mem s') = insert node (dom (node_mem s))
    \<and> heap_ok lim (B(node \<mapsto> sizeof_list_node_t)) s' \<and> klist_frame s s' \<and> took s s' 2"
  proof (cases xs)
    case Nil
    then show ?thesis
      using rep' s2 l ne
      by (auto simp: list_push_front_def list_lock_eq list_steps list_rep_def intro!: frame_through_lock)
  next
    case (Cons t ys)
    obtain b w where t: "t = (b, w)" by (cases t)
    have b: "node_mem s b = Some \<lparr>node_value = w, node_previous = NULL, node_next = first_of ys NULL\<rparr>" "b \<noteq> NULL"
      and bn: "b \<noteq> node"
      using rep'(4) fresh by (auto simp: Cons t)
    have "dseg ((node_mem s)(node \<mapsto> \<lparr>node_value = v, node_previous = NULL, node_next = b\<rparr>,
        b \<mapsto> \<lparr>node_value = w, node_previous = node, node_next = first_of ys NULL\<rparr>)) NULL ((node, v) # xs) NULL"
      using rep'(4,5) fresh bn s2(2) by (auto simp: Cons t)
    moreover have "distinct (List.map fst ((node, v) # xs))" using rep'(5) fresh by auto
    ultimately show ?thesis
      using rep' s2 l ne b bn
      by (auto simp: list_push_front_def list_lock_eq list_steps list_rep_def Cons t intro!: frame_through_lock)
  qed
  then obtain s' l' where s': "list_push_front lst v s = Inr (node, s')" "list_mem s' = (list_mem s)(lst \<mapsto> l')" "lock (list_lk l') = 0"
    "list_rep (node_mem s') l' ((node, v) # xs)" "\<forall>a. a \<notin> insert node (addrs xs) \<longrightarrow> node_mem s' a = node_mem s a"
    "dom (node_mem s') = insert node (dom (node_mem s))"
    "heap_ok lim (B(node \<mapsto> sizeof_list_node_t)) s'" "klist_frame s s'" "took s s' 2"
    by blast
  have "lists_ok lim (B(node \<mapsto> sizeof_list_node_t)) s'"
    using ok s' new ne l(1) by (auto simp: lists_ok_def)
  moreover have "is_list s' lst ((node, v) # xs)" using s' by (simp add: is_list_def)
  moreover have "others_same lst (insert node (addrs xs)) s s'" using s' by (simp add: others_same_def)
  ultimately show ?thesis using s' s2(2,3) by (intro that [of node s']) auto
qed

section \<open>Removal at the ends\<close>

text \<open>After a removal: the node is gone from the heap, the rest of the list is intact.\<close>

definition removed :: "u64 \<Rightarrow> (addr \<rightharpoonup> size_t) \<Rightarrow> addr \<Rightarrow> addr \<Rightarrow> addr set \<Rightarrow> nodes \<Rightarrow> 'a klists_scheme \<Rightarrow> 'a klists_scheme \<Rightarrow> bool" where
  "removed lim B lst node A ys s s' \<longleftrightarrow> lists_ok lim (B(node := None)) s' \<and> is_list s' lst ys \<and>
     others_same lst A s s' \<and> klist_frame s s'"

lemma removedI:
  assumes "lists_ok lim B s" and "list_mem s lst \<noteq> None" and "node \<in> dom (node_mem s)"
    and "list_mem s' = (list_mem s)(lst \<mapsto> l')" and "lock (list_lk l') = 0" and "list_rep (node_mem s') l' ys"
    and "\<forall>a. a \<notin> A \<longrightarrow> node_mem s' a = node_mem s a" and "dom (node_mem s') = dom (node_mem s) - {node}"
    and "heap_ok lim (B(node := None)) s'" and "klist_frame s s'"
  shows "removed lim B lst node A ys s s'"
  using assms by (auto simp: removed_def lists_ok_def is_list_def others_same_def)

lemma list_remove_back_ok:
  assumes ok: "lists_ok lim B s" and lst: "is_list s lst (ys @ [(b, w)])"
  obtains s' where "list_remove_back lst s = Inr (w, s')"
    and "removed lim B lst b (insert b (addrs ys)) ys s s'"
proof -
  obtain l where l: "list_mem s lst = Some l" "lock (list_lk l) = 0" and rep: "list_rep (node_mem s) l (ys @ [(b, w)])"
    using lst by (auto simp: is_list_def)
  have rep': "list_length l = of_nat (Suc (length ys))" "list_root l = first_of ys b" "list_tail l = b"
    "dseg (node_mem s) NULL ys b" "distinct (List.map fst ys)" "b \<notin> addrs ys" "b \<noteq> NULL"
    "node_mem s b = Some \<lparr>node_value = w, node_previous = last_of NULL ys, node_next = NULL\<rparr>"
    using rep by (auto simp: list_rep_def dseg_append)
  have bdom: "b \<in> dom (node_mem s)" using rep'(8) by auto
  then have Bb: "B b = Some sizeof_list_node_t" and bl: "lst \<noteq> b" using ok l(1) by (auto simp: lists_ok_def)
  have heap: "heap_ok lim B s" by (rule lists_okD [OF ok])
  have "\<exists>s' l'. list_remove_back lst s = Inr (w, s') \<and> list_mem s' = (list_mem s)(lst \<mapsto> l') \<and> lock (list_lk l') = 0
    \<and> list_rep (node_mem s') l' ys \<and> (\<forall>a. a \<notin> insert b (addrs ys) \<longrightarrow> node_mem s' a = node_mem s a)
    \<and> dom (node_mem s') = dom (node_mem s) - {b} \<and> heap_ok lim (B(b := None)) s' \<and> klist_frame s s'"
  proof (cases ys rule: rev_cases)
    case Nil
    let ?s2 = "(list_taken ''list_remove_back'' 93 lst l s)\<lparr>list_mem := (list_mem s)(lst \<mapsto> l\<lparr>list_lk := (list_lk l)
      \<lparr>lock := 1, last_acquirer := acquirer_of (''lists.c'', ''list_remove_back'', 93) s\<rparr>, list_tail := NULL, list_root := NULL\<rparr>)\<rparr>"
    have "heap_ok lim B ?s2" using heap by simp
    from this Bb obtain s3 where s3: "free_node b ?s2 = Inr s3" "heap_ok lim (B(b := None)) s3" "klist_frame ?s2 s3"
      "list_mem s3 = list_mem ?s2" "node_mem s3 = (node_mem ?s2)(b := None)"
      by (rule free_node_ok)
    have "klist_frame (list_taken ''list_remove_back'' 93 lst l s) s3"
      by (rule klist_frame_trans [OF _ s3(3)]) simp
    then show ?thesis
      using rep' l s3 Nil
      by (auto simp: list_remove_back_def list_lock_eq list_steps list_rep_def intro!: frame_through_lock)
  next
    case (snoc zs t)
    obtain c u where t: "t = (c, u)" by (cases t)
    have c: "node_mem s c = Some \<lparr>node_value = u, node_previous = last_of NULL zs, node_next = b\<rparr>" "c \<noteq> NULL"
      and cb: "c \<noteq> b"
      using rep'(4,6) by (auto simp: snoc t dseg_append)
    let ?s2 = "(list_taken ''list_remove_back'' 93 lst l s)\<lparr>list_mem := (list_mem s)(lst \<mapsto> l\<lparr>list_lk := (list_lk l)
      \<lparr>lock := 1, last_acquirer := acquirer_of (''lists.c'', ''list_remove_back'', 93) s\<rparr>, list_tail := c\<rparr>),
      node_mem := (node_mem s)(c \<mapsto> \<lparr>node_value = u, node_previous = last_of NULL zs, node_next = NULL\<rparr>)\<rparr>"
    have "heap_ok lim B ?s2" using heap by simp
    from this Bb obtain s3 where s3: "free_node b ?s2 = Inr s3" "heap_ok lim (B(b := None)) s3" "klist_frame ?s2 s3"
      "list_mem s3 = list_mem ?s2" "node_mem s3 = (node_mem ?s2)(b := None)"
      by (rule free_node_ok)
    have "klist_frame (list_taken ''list_remove_back'' 93 lst l s) s3"
      by (rule klist_frame_trans [OF _ s3(3)]) simp
    moreover have "dseg (node_mem s3) NULL ys NULL"
      using rep'(4,5,6) cb by (auto simp: s3(5) snoc t dseg_append)
    ultimately show ?thesis
      using rep' l s3 c cb
      by (auto simp: list_remove_back_def list_lock_eq list_steps list_rep_def snoc t intro!: frame_through_lock)
  qed
  then obtain s' l' where "list_remove_back lst s = Inr (w, s')" "list_mem s' = (list_mem s)(lst \<mapsto> l')" "lock (list_lk l') = 0"
    "list_rep (node_mem s') l' ys" "\<forall>a. a \<notin> insert b (addrs ys) \<longrightarrow> node_mem s' a = node_mem s a"
    "dom (node_mem s') = dom (node_mem s) - {b}" "heap_ok lim (B(b := None)) s'" "klist_frame s s'"
    by blast
  with ok l(1) bdom show ?thesis by (intro that [of s'] removedI) auto
qed

lemma list_remove_front_ok:
  assumes ok: "lists_ok lim B s" and lst: "is_list s lst ((b, w) # ys)"
  obtains s' where "list_remove_front lst s = Inr (w, s')"
    and "removed lim B lst b (insert b (addrs ys)) ys s s'"
proof -
  obtain l where l: "list_mem s lst = Some l" "lock (list_lk l) = 0" and rep: "list_rep (node_mem s) l ((b, w) # ys)"
    using lst by (auto simp: is_list_def)
  have rep': "list_length l = of_nat (Suc (length ys))" "list_root l = b" "list_tail l = last_of b ys"
    "dseg (node_mem s) b ys NULL" "distinct (List.map fst ys)" "b \<notin> addrs ys" "b \<noteq> NULL"
    "node_mem s b = Some \<lparr>node_value = w, node_previous = NULL, node_next = first_of ys NULL\<rparr>"
    using rep by (auto simp: list_rep_def)
  have bdom: "b \<in> dom (node_mem s)" using rep'(8) by auto
  then have Bb: "B b = Some sizeof_list_node_t" and bl: "lst \<noteq> b" using ok l(1) by (auto simp: lists_ok_def)
  have heap: "heap_ok lim B s" by (rule lists_okD [OF ok])
  let ?lk = "(list_lk l)\<lparr>lock := 1, last_acquirer := acquirer_of (''lists.c'', ''list_remove_front'', 117) s\<rparr>"
  have "\<exists>s' l'. list_remove_front lst s = Inr (w, s') \<and> list_mem s' = (list_mem s)(lst \<mapsto> l') \<and> lock (list_lk l') = 0
    \<and> list_rep (node_mem s') l' ys \<and> (\<forall>a. a \<notin> insert b (addrs ys) \<longrightarrow> node_mem s' a = node_mem s a)
    \<and> dom (node_mem s') = dom (node_mem s) - {b} \<and> heap_ok lim (B(b := None)) s' \<and> klist_frame s s'"
  proof (cases ys)
    case Nil
    let ?s2 = "(list_taken ''list_remove_front'' 117 lst l s)\<lparr>list_mem := (list_mem s)
      (lst \<mapsto> l\<lparr>list_lk := ?lk, list_root := NULL, list_tail := NULL\<rparr>)\<rparr>"
    have "heap_ok lim B ?s2" using heap by simp
    from this Bb obtain s3 where s3: "free_node b ?s2 = Inr s3" "heap_ok lim (B(b := None)) s3" "klist_frame ?s2 s3"
      "list_mem s3 = list_mem ?s2" "node_mem s3 = (node_mem ?s2)(b := None)"
      by (rule free_node_ok)
    have "klist_frame (list_taken ''list_remove_front'' 117 lst l s) s3"
      by (rule klist_frame_trans [OF _ s3(3)]) simp
    then show ?thesis
      using rep' l s3 Nil
      by (auto simp: list_remove_front_def list_lock_eq list_steps list_rep_def intro!: frame_through_lock)
  next
    case (Cons t zs)
    obtain c u where t: "t = (c, u)" by (cases t)
    have c: "node_mem s c = Some \<lparr>node_value = u, node_previous = b, node_next = first_of zs NULL\<rparr>" "c \<noteq> NULL"
      and cb: "c \<noteq> b"
      using rep'(4,6) by (auto simp: Cons t)
    let ?s2 = "(list_taken ''list_remove_front'' 117 lst l s)\<lparr>list_mem := (list_mem s)
      (lst \<mapsto> l\<lparr>list_lk := ?lk, list_root := c\<rparr>),
      node_mem := (node_mem s)(c \<mapsto> \<lparr>node_value = u, node_previous = NULL, node_next = first_of zs NULL\<rparr>)\<rparr>"
    have "heap_ok lim B ?s2" using heap by simp
    from this Bb obtain s3 where s3: "free_node b ?s2 = Inr s3" "heap_ok lim (B(b := None)) s3" "klist_frame ?s2 s3"
      "list_mem s3 = list_mem ?s2" "node_mem s3 = (node_mem ?s2)(b := None)"
      by (rule free_node_ok)
    have "klist_frame (list_taken ''list_remove_front'' 117 lst l s) s3"
      by (rule klist_frame_trans [OF _ s3(3)]) simp
    moreover have "dseg (node_mem s3) NULL ys NULL"
      using rep'(4,5,6) cb by (auto simp: s3(5) Cons t)
    ultimately show ?thesis
      using rep' l s3 c cb
      by (auto simp: list_remove_front_def list_lock_eq list_steps list_rep_def Cons t intro!: frame_through_lock)
  qed
  then obtain s' l' where "list_remove_front lst s = Inr (w, s')" "list_mem s' = (list_mem s)(lst \<mapsto> l')" "lock (list_lk l') = 0"
    "list_rep (node_mem s') l' ys" "\<forall>a. a \<notin> insert b (addrs ys) \<longrightarrow> node_mem s' a = node_mem s a"
    "dom (node_mem s') = dom (node_mem s) - {b}" "heap_ok lim (B(b := None)) s'" "klist_frame s s'"
    by blast
  with ok l(1) bdom show ?thesis by (intro that [of s'] removedI) auto
qed

text \<open>\<open>list_pop\<close> takes the last node out of the list and hands it over; the node stays allocated.\<close>

lemma list_pop_ok:
  assumes ok: "lists_ok lim B s" and lst: "is_list s lst (ys @ [(b, w)])"
  obtains s' n where "list_pop lst s = Inr (b, s')" and "lists_ok lim B s'" and "is_list s' lst ys"
    and "others_same lst (addrs ys) s s'" and "node_mem s' b = Some n" and "node_value n = w" and "klist_frame s s'"
proof -
  obtain l where l: "list_mem s lst = Some l" "lock (list_lk l) = 0" and rep: "list_rep (node_mem s) l (ys @ [(b, w)])"
    using lst by (auto simp: is_list_def)
  have rep': "list_length l = of_nat (Suc (length ys))" "list_root l = first_of ys b" "list_tail l = b"
    "dseg (node_mem s) NULL ys b" "distinct (List.map fst ys)" "b \<notin> addrs ys" "b \<noteq> NULL"
    "node_mem s b = Some \<lparr>node_value = w, node_previous = last_of NULL ys, node_next = NULL\<rparr>"
    using rep by (auto simp: list_rep_def dseg_append)
  have "\<exists>s' l'. list_pop lst s = Inr (b, s') \<and> list_mem s' = (list_mem s)(lst \<mapsto> l') \<and> lock (list_lk l') = 0
    \<and> list_rep (node_mem s') l' ys \<and> (\<forall>a. a \<notin> addrs ys \<longrightarrow> node_mem s' a = node_mem s a)
    \<and> dom (node_mem s') = dom (node_mem s) \<and> heap_ok lim B s' \<and> klist_frame s s'"
  proof (cases ys rule: rev_cases)
    case Nil
    then show ?thesis
      using rep' l lists_okD [OF ok]
      by (auto simp: list_pop_def list_lock_eq list_steps list_rep_def intro!: frame_through_lock)
  next
    case (snoc zs t)
    obtain c u where t: "t = (c, u)" by (cases t)
    have c: "node_mem s c = Some \<lparr>node_value = u, node_previous = last_of NULL zs, node_next = b\<rparr>" "c \<noteq> NULL"
      using rep'(4) by (auto simp: snoc t dseg_append)
    have "dseg ((node_mem s)(c \<mapsto> \<lparr>node_value = u, node_previous = last_of NULL zs, node_next = NULL\<rparr>)) NULL ys NULL"
      using rep'(4,5) by (auto simp: snoc t dseg_append)
    then show ?thesis
      using rep' l lists_okD [OF ok] c
      by (auto simp: list_pop_def list_lock_eq list_steps list_rep_def snoc t intro!: frame_through_lock)
  qed
  then obtain s' l' where s': "list_pop lst s = Inr (b, s')" "list_mem s' = (list_mem s)(lst \<mapsto> l')" "lock (list_lk l') = 0"
    "list_rep (node_mem s') l' ys" "\<forall>a. a \<notin> addrs ys \<longrightarrow> node_mem s' a = node_mem s a"
    "dom (node_mem s') = dom (node_mem s)" "heap_ok lim B s'" "klist_frame s s'"
    by blast
  then have "lists_ok lim B s'" using ok l(1) by (auto simp: lists_ok_def)
  moreover have "node_mem s' b = node_mem s b" using s'(5) rep'(6) by blast
  ultimately show ?thesis
    using s' rep'(8) by (intro that [of s']) (auto simp: is_list_def others_same_def)
qed

text \<open>On an empty list the operations at the ends return null and change only the lock's record.\<close>

definition lock_only :: "addr \<Rightarrow> 'a klists_scheme \<Rightarrow> 'a klists_scheme \<Rightarrow> bool" where
  "lock_only lst s s' \<longleftrightarrow> (\<exists>l lk. list_mem s lst = Some l \<and> lock lk = 0 \<and> list_mem s' = (list_mem s)(lst \<mapsto> l\<lparr>list_lk := lk\<rparr>)) \<and>
     node_mem s' = node_mem s \<and> klist_frame s s' \<and> (\<forall>lim B. heap_ok lim B s' = heap_ok lim B s)"

lemma lock_only_keeps:
  assumes "lock_only lst s s'"
  shows "lists_ok lim B s \<Longrightarrow> lists_ok lim B s'" and "is_list s lst' xs \<Longrightarrow> is_list s' lst' xs"
    and "klist_frame s s'" and "others_same lst {} s s'"
proof -
  show "is_list s lst' xs \<Longrightarrow> is_list s' lst' xs"
    using assms by (cases "lst' = lst") (auto simp: lock_only_def is_list_def list_rep_def)
  have "dom (list_mem s') = dom (list_mem s)" and "node_mem s' = node_mem s"
    using assms by (auto simp: lock_only_def split: if_splits)
  then show "lists_ok lim B s \<Longrightarrow> lists_ok lim B s'"
    using assms by (simp add: lists_ok_def lock_only_def)
qed (use assms in \<open>auto simp: lock_only_def others_same_def\<close>)

lemma lock_onlyI:
  assumes "list_mem s lst = Some l"
  shows "lock_only lst s ((arch_cpu_decrement_preempt_counter (list_taken fn ln lst l s))
    \<lparr>list_mem := (list_mem s)(lst \<mapsto> l\<lparr>list_lk := (list_lk l)\<lparr>last_acquirer := a, lock := 0\<rparr>\<rparr>)\<rparr>)"
  using assms by (auto simp: lock_only_def intro!: exI [of _ "(list_lk l)\<lparr>last_acquirer := a, lock := 0\<rparr>"])

lemma list_get_ok:
  assumes lst: "is_list s lst xs"
  shows "\<exists>s'. list_get_front lst s = Inr (if xs = [] then NULL else snd (hd xs), s') \<and> lock_only lst s s'"
    and "\<exists>s'. list_get_back lst s = Inr (if xs = [] then NULL else snd (last xs), s') \<and> lock_only lst s s'"
proof -
  obtain l where l: "list_mem s lst = Some l" "lock (list_lk l) = 0" and rep: "list_rep (node_mem s) l xs"
    using lst by (auto simp: is_list_def)
  then have seg: "dseg (node_mem s) NULL xs NULL" and ends: "list_root l = first_of xs NULL" "list_tail l = last_of NULL xs"
    by (simp_all add: list_rep_def)
  show "\<exists>s'. list_get_front lst s = Inr (if xs = [] then NULL else snd (hd xs), s') \<and> lock_only lst s s'"
  proof (cases xs)
    case Nil
    then show ?thesis using l ends by (simp add: list_get_front_def list_lock_eq list_steps lock_onlyI)
  next
    case (Cons t zs)
    obtain a v where t: "t = (a, v)" by (cases t)
    then show ?thesis
      using Cons l ends seg by (simp add: list_get_front_def list_lock_eq list_steps lock_onlyI)
  qed
  show "\<exists>s'. list_get_back lst s = Inr (if xs = [] then NULL else snd (last xs), s') \<and> lock_only lst s s'"
  proof (cases xs rule: rev_cases)
    case Nil
    then show ?thesis using l ends by (simp add: list_get_back_def list_lock_eq list_steps lock_onlyI)
  next
    case (snoc zs t)
    obtain a v where t: "t = (a, v)" by (cases t)
    then show ?thesis
      using snoc l ends seg by (simp add: list_get_back_def list_lock_eq list_steps lock_onlyI dseg_append)
  qed
qed

lemma list_remove_empty:
  assumes lst: "is_list s lst []"
  shows "\<exists>s'. list_remove_front lst s = Inr (NULL, s') \<and> lock_only lst s s'"
    and "\<exists>s'. list_remove_back lst s = Inr (NULL, s') \<and> lock_only lst s s'"
    and "\<exists>s'. list_pop lst s = Inr (NULL, s') \<and> lock_only lst s s'"
proof -
  obtain l where l: "list_mem s lst = Some l" "lock (list_lk l) = 0" "list_root l = NULL" "list_tail l = NULL"
    using lst by (auto simp: is_list_def list_rep_def)
  then show "\<exists>s'. list_remove_front lst s = Inr (NULL, s') \<and> lock_only lst s s'"
    and "\<exists>s'. list_remove_back lst s = Inr (NULL, s') \<and> lock_only lst s s'"
    and "\<exists>s'. list_pop lst s = Inr (NULL, s') \<and> lock_only lst s s'"
    by (simp_all add: list_remove_front_def list_remove_back_def list_pop_def list_lock_eq list_steps lock_onlyI)
qed

section \<open>Search\<close>

text \<open>Walking forward needs the values and the forward links only.\<close>

fun fseg :: "(addr \<rightharpoonup> list_node) \<Rightarrow> nodes \<Rightarrow> addr \<Rightarrow> bool" where
  "fseg h [] q = True"
| "fseg h ((a, v) # xs) q = (a \<noteq> NULL \<and> (\<exists>n. h a = Some n \<and> node_value n = v \<and> node_next n = first_of xs q) \<and> fseg h xs q)"

lemma dseg_fseg: "dseg h p xs q \<Longrightarrow> fseg h xs q"
  by (induction h p xs q rule: dseg.induct) auto

lemma fseg_append: "fseg h (xs @ ys) q \<longleftrightarrow> fseg h xs (first_of ys q) \<and> fseg h ys q"
  by (induction h xs q rule: fseg.induct) auto

lemma fseg_upd [simp]: "a \<notin> addrs xs \<Longrightarrow> fseg (h(a := n)) xs q = fseg h xs q"
  by (induction h xs q rule: fseg.induct) auto

lemma fseg_upd_same:
  "fseg h xs q \<Longrightarrow> h a = Some n \<Longrightarrow> node_value n' = node_value n \<Longrightarrow> node_next n' = node_next n \<Longrightarrow> fseg (h(a \<mapsto> n')) xs q"
  by (induction h xs q rule: fseg.induct) auto

fun index_of :: "addr \<Rightarrow> nodes \<Rightarrow> nat option" where
  "index_of val [] = None"
| "index_of val ((a, v) # xs) = (if v = val then Some 0 else map_option Suc (index_of val xs))"

lemma index_of_Some:
  "index_of val xs = Some i \<Longrightarrow> i < length xs \<and> snd (xs ! i) = val \<and> (\<forall>j<i. snd (xs ! j) \<noteq> val)"
proof (induction val xs arbitrary: i rule: index_of.induct)
  case (2 val a v xs)
  then show ?case by (cases i) (auto split: if_splits simp: less_Suc_eq_0_disj)
qed simp

lemma index_of_None: "index_of val xs = None \<longleftrightarrow> val \<notin> snd ` set xs"
  by (induction val xs rule: index_of.induct) auto

lemma contains_loop_fseg:
  "fseg h xs NULL \<Longrightarrow> contains_loop h (first_of xs NULL) val k =
     Some (Inr (map_option (\<lambda>i. k + of_nat i) (index_of val xs)))"
proof (induction xs arbitrary: k)
  case (Cons t xs)
  obtain a v where t: "t = (a, v)" by (cases t)
  have "contains_loop h (first_of xs NULL) val (k + 1) = Some (Inr (map_option (\<lambda>i. k + 1 + of_nat i) (index_of val xs)))"
    using Cons.prems by (intro Cons.IH) (simp add: t)
  then show ?case
    using Cons.prems
    by (subst contains_loop.simps) (auto simp: t option.map_comp o_def add.assoc)
qed (subst contains_loop.simps, simp)

text \<open>
  The interface of the searches that other components run over a list: a loop that goes from node to
  node and stops at the first one for which \<open>item\<close> has a result.
\<close>

fun first_some :: "'r option list \<Rightarrow> 'r option" where
  "first_some [] = None"
| "first_some (r # rs) = (case r of None \<Rightarrow> first_some rs | Some x \<Rightarrow> Some x)"

locale list_walk =
  fixes heap :: "'s \<Rightarrow> addr \<rightharpoonup> list_node"
    and loop :: "addr \<Rightarrow> 's \<Rightarrow> 'r option res option"
    and item :: "addr \<Rightarrow> 's \<Rightarrow> 'r option res"
  assumes walk_end: "loop NULL s = Some (Inr None)"
    and walk_hit: "a \<noteq> NULL \<Longrightarrow> heap s a = Some n \<Longrightarrow> item (node_value n) s = Inr (Some r) \<Longrightarrow> loop a s = Some (Inr (Some r))"
    and walk_miss: "a \<noteq> NULL \<Longrightarrow> heap s a = Some n \<Longrightarrow> item (node_value n) s = Inr None \<Longrightarrow> loop a s = loop (node_next n) s"
begin

lemma first_hit:
  "fseg (heap s) xs NULL \<Longrightarrow> list_all2 (\<lambda>(a, v) r. item v s = Inr r) xs rs \<Longrightarrow> loop (first_of xs NULL) s = Some (Inr (first_some rs))"
proof (induction xs arbitrary: rs)
  case Nil
  then show ?case by (simp add: walk_end)
next
  case (Cons t xs)
  obtain a v where t: "t = (a, v)" by (cases t)
  obtain r rs' where rs: "rs = r # rs'" "item v s = Inr r" "list_all2 (\<lambda>(a, v) r. item v s = Inr r) xs rs'"
    using Cons.prems(2) by (auto simp: t list_all2_Cons1)
  obtain n where n: "a \<noteq> NULL" "heap s a = Some n" "node_value n = v" "node_next n = first_of xs NULL" "fseg (heap s) xs NULL"
    using Cons.prems(1) by (auto simp: t)
  show ?case using walk_hit [OF n(1,2)] walk_miss [OF n(1,2)] Cons.IH [OF n(5) rs(3)] n(3,4) rs(1,2) by (cases r) (simp_all add: t)
qed

end

lemma indexed_loop_fseg:
  "fseg h xs NULL \<Longrightarrow> length xs + unat k < 2 ^ 64 \<Longrightarrow> k \<le> index \<Longrightarrow> indexed_loop h (first_of xs NULL) k index =
     Some (Inr (if unat index - unat k < length xs then fst (xs ! (unat index - unat k)) else NULL))"
proof (induction xs arbitrary: k)
  case (Cons t xs)
  obtain a v where t: "t = (a, v)" by (cases t)
  show ?case
  proof (cases "k = index")
    case True
    then show ?thesis using Cons.prems by (subst indexed_loop.simps) (simp add: t)
  next
    case False
    then have "k < index" using Cons.prems(3) by simp
    then have u: "unat (k + 1) = Suc (unat k)" by (rule unat_Suc_u64)
    have lt: "unat k < unat index" using \<open>k < index\<close> by (simp add: word_less_nat_alt)
    have "indexed_loop h (first_of xs NULL) (k + 1) index =
      Some (Inr (if unat index - unat (k + 1) < length xs then fst (xs ! (unat index - unat (k + 1))) else NULL))"
      using Cons.prems lt by (intro Cons.IH) (auto simp: t u word_le_nat_alt)
    moreover have "unat index - unat k = Suc (unat index - unat (k + 1))" using lt by (simp add: u)
    ultimately show ?thesis
      using Cons.prems False by (subst indexed_loop.simps) (auto simp: t)
  qed
qed (subst indexed_loop.simps, simp)

lemma list_contains_ok:
  assumes lst: "is_list s lst xs"
  shows "\<exists>s'. list_contains lst val s =
      Inr (case index_of val xs of Some i \<Rightarrow> of_nat i | None \<Rightarrow> MINUS_ONE, s') \<and> lock_only lst s s'"
proof -
  obtain l where l: "list_mem s lst = Some l" "lock (list_lk l) = 0" and rep: "list_rep (node_mem s) l xs"
    using lst by (auto simp: is_list_def)
  then show ?thesis
    using contains_loop_fseg [of "node_mem s" xs val 0] dseg_fseg [of "node_mem s" NULL xs NULL]
    by (simp add: list_contains_def list_lock_eq list_steps lock_onlyI list_rep_def split: option.split)
qed

lemma list_get_indexed_ok:
  assumes lst: "is_list s lst xs" and "length xs < 2 ^ 64"
  shows "\<exists>s'. list_get_indexed lst index s =
      Inr (if unat index < length xs then fst (xs ! unat index) else NULL, s') \<and> lock_only lst s s'"
proof -
  obtain l where l: "list_mem s lst = Some l" "lock (list_lk l) = 0" and rep: "list_rep (node_mem s) l xs"
    using lst by (auto simp: is_list_def)
  then show ?thesis
    using indexed_loop_fseg [of "node_mem s" xs 0 index] dseg_fseg [of "node_mem s" NULL xs NULL] assms(2)
    by (simp add: list_get_indexed_def list_lock_eq list_steps lock_onlyI list_rep_def)
qed

section \<open>Removal of any node\<close>

lemma removed_after_lock:
  assumes "lock_only lst s s1" and "removed lim B lst b A ys s1 s'"
  shows "removed lim B lst b A ys s s'"
  using assms klist_frame_trans [of s s1 s']
  by (auto simp: removed_def lock_only_def others_same_def)

lemma list_remove_middle:
  assumes ok: "lists_ok lim B s" and lst: "is_list s lst (ys @ (c, u) # (b, w) # (d, x) # zs)"
  obtains s' where "list_remove lst b s = Inr (w, s')"
    and "removed lim B lst b (insert b (addrs (ys @ (c, u) # (d, x) # zs))) (ys @ (c, u) # (d, x) # zs) s s'"
proof -
  let ?xs = "ys @ (c, u) # (d, x) # zs"
  obtain l where l: "list_mem s lst = Some l" "lock (list_lk l) = 0"
    and rep: "list_rep (node_mem s) l (ys @ (c, u) # (b, w) # (d, x) # zs)"
    using lst by (auto simp: is_list_def)
  have rep': "list_length l = of_nat (Suc (length ?xs))" "list_root l = first_of ys c" "list_tail l = last_of d zs"
    "dseg (node_mem s) NULL ys c" "dseg (node_mem s) d zs NULL" "distinct (List.map fst ?xs)" "b \<notin> addrs ?xs"
    "node_mem s c = Some \<lparr>node_value = u, node_previous = last_of NULL ys, node_next = b\<rparr>"
    "node_mem s b = Some \<lparr>node_value = w, node_previous = c, node_next = d\<rparr>"
    "node_mem s d = Some \<lparr>node_value = x, node_previous = b, node_next = first_of zs NULL\<rparr>"
    "c \<noteq> NULL" "b \<noteq> NULL" "d \<noteq> NULL" "c \<noteq> b" "d \<noteq> b" "c \<noteq> d"
    using rep by (auto simp: list_rep_def dseg_append)
  have root: "b \<noteq> list_root l" using rep'(2,7) by (cases ys) auto
  have tail: "b \<noteq> list_tail l"
    using rep'(3,7,15) last_of_in [of zs d] by (cases "zs = []") auto
  have bdom: "b \<in> dom (node_mem s)" using rep'(9) by auto
  then have Bb: "B b = Some sizeof_list_node_t" using ok by (auto simp: lists_ok_def)
  let ?lk = "(list_lk l)\<lparr>lock := 1, last_acquirer := acquirer_of (''lists.c'', ''list_remove'', 162) s\<rparr>"
  let ?s2 = "(list_taken ''list_remove'' 162 lst l s)\<lparr>
      node_mem := (node_mem s)(c \<mapsto> \<lparr>node_value = u, node_previous = last_of NULL ys, node_next = d\<rparr>,
        d \<mapsto> \<lparr>node_value = x, node_previous = c, node_next = first_of zs NULL\<rparr>),
      list_mem := (list_mem s)(lst \<mapsto> l\<lparr>list_lk := ?lk, list_length := list_length l - 1\<rparr>)\<rparr>"
  have "heap_ok lim B ?s2" using lists_okD [OF ok] by simp
  from this Bb obtain s3 where s3: "free_node b ?s2 = Inr s3" "heap_ok lim (B(b := None)) s3" "klist_frame ?s2 s3"
    "list_mem s3 = list_mem ?s2" "node_mem s3 = (node_mem ?s2)(b := None)"
    by (rule free_node_ok)
  have fr: "klist_frame (list_taken ''list_remove'' 162 lst l s) s3"
    by (rule klist_frame_trans [OF _ s3(3)]) simp
  have seg: "dseg (node_mem s3) NULL ?xs NULL"
    using rep' by (auto simp: s3(5) dseg_append image_Un)
  have "\<exists>s' l'. list_remove lst b s = Inr (w, s') \<and> list_mem s' = (list_mem s)(lst \<mapsto> l') \<and> lock (list_lk l') = 0
    \<and> list_rep (node_mem s') l' ?xs \<and> node_mem s' = node_mem s3 \<and> heap_ok lim (B(b := None)) s' \<and> klist_frame s s'"
    using rep' l root tail seg fr s3
    by (auto simp: list_remove_def list_lock_eq list_steps list_rep_def intro!: frame_through_lock)
  then obtain s' l' where s': "list_remove lst b s = Inr (w, s')" "list_mem s' = (list_mem s)(lst \<mapsto> l')" "lock (list_lk l') = 0"
    "list_rep (node_mem s') l' ?xs" "node_mem s' = node_mem s3" "heap_ok lim (B(b := None)) s'" "klist_frame s s'"
    by blast
  moreover have "\<forall>a. a \<notin> insert b (addrs ?xs) \<longrightarrow> node_mem s' a = node_mem s a" using s3(5) s'(5) by simp
  moreover have "dom (node_mem s') = dom (node_mem s) - {b}" using s3(5) s'(5) rep'(8,10) by auto
  ultimately show ?thesis using ok l(1) bdom by (intro that [of s'] removedI) auto
qed

lemma list_remove_ok:
  assumes ok: "lists_ok lim B s" and lst: "is_list s lst (ys @ (b, w) # zs)"
  obtains s' where "list_remove lst b s = Inr (w, s')"
    and "removed lim B lst b (insert b (addrs (ys @ zs))) (ys @ zs) s s'"
proof -
  obtain l where l: "list_mem s lst = Some l" "lock (list_lk l) = 0" and rep: "list_rep (node_mem s) l (ys @ (b, w) # zs)"
    using lst by (auto simp: is_list_def)
  have b: "node_mem s b = Some \<lparr>node_value = w, node_previous = last_of NULL ys, node_next = first_of zs NULL\<rparr>"
    and ends: "list_root l = first_of ys b" "list_tail l = last_of b zs" and notin: "b \<notin> addrs ys" "b \<notin> addrs zs"
    using rep by (auto simp: list_rep_def dseg_append)
  define s1 where "s1 = (arch_cpu_decrement_preempt_counter (list_taken ''list_remove'' 162 lst l s))\<lparr>list_mem := (list_mem s)(lst \<mapsto>
    l\<lparr>list_lk := (list_lk l)\<lparr>last_acquirer := acquirer_of (''lists.c'', ''list_remove'', 162) s, lock := 0\<rparr>\<rparr>)\<rparr>"
  have s1: "lock_only lst s s1" unfolding s1_def using l(1) by (rule lock_onlyI)
  note keep = lock_only_keeps [OF s1]
  show ?thesis
  proof (cases "ys = []")
    case True
    then have "is_list s1 lst ((b, w) # zs)" using keep(2) [OF lst] by simp
    from keep(1) [OF ok] this obtain s' where s': "list_remove_front lst s1 = Inr (w, s')"
      "removed lim B lst b (insert b (addrs zs)) zs s1 s'"
      by (rule list_remove_front_ok)
    have "list_remove lst b s = Inr (w, s')"
      using l b ends True s'(1) by (simp add: list_remove_def list_lock_eq list_steps s1_def)
    then show ?thesis using removed_after_lock [OF s1 s'(2)] True by (intro that) auto
  next
    case ys: False
    then have root: "b \<noteq> list_root l" using ends(1) notin(1) by (cases ys) auto
    show ?thesis
    proof (cases zs)
      case Nil
      then have "is_list s1 lst (ys @ [(b, w)])" using keep(2) [OF lst] by simp
      from keep(1) [OF ok] this obtain s' where s': "list_remove_back lst s1 = Inr (w, s')"
        "removed lim B lst b (insert b (addrs ys)) ys s1 s'"
        by (rule list_remove_back_ok)
      have "list_remove lst b s = Inr (w, s')"
        using l b ends Nil root s'(1) by (simp add: list_remove_def list_lock_eq list_steps s1_def)
      then show ?thesis using removed_after_lock [OF s1 s'(2)] Nil by (intro that) auto
    next
      case (Cons t zs')
      obtain d x where t: "t = (d, x)" by (cases t)
      obtain ys' c u where y: "ys = ys' @ [(c, u)]" using ys by (metis rev_exhaust surj_pair)
      have "is_list s lst (ys' @ (c, u) # (b, w) # (d, x) # zs')" using lst by (simp add: y Cons t)
      from ok this obtain s' where "list_remove lst b s = Inr (w, s')"
        "removed lim B lst b (insert b (addrs (ys' @ (c, u) # (d, x) # zs'))) (ys' @ (c, u) # (d, x) # zs') s s'"
        by (rule list_remove_middle)
      then show ?thesis by (intro that [of s']) (simp_all add: y Cons t)
    qed
  qed
qed

lemma list_remove_indexed_ok:
  assumes ok: "lists_ok lim B s" and lst: "is_list s lst xs" and len: "length xs < 2 ^ 64" and i: "unat index < length xs"
  obtains s' where "list_remove_indexed lst index s = Inr (snd (xs ! unat index), s')"
    and "removed lim B lst (fst (xs ! unat index)) (addrs xs) (take (unat index) xs @ drop (Suc (unat index)) xs) s s'"
proof -
  obtain s1 where s1: "list_get_indexed lst index s = Inr (fst (xs ! unat index), s1)" "lock_only lst s s1"
    using list_get_indexed_ok [OF lst len, of index] i by auto
  note keep = lock_only_keeps [OF s1(2)]
  obtain b w where bw: "xs ! unat index = (b, w)" by (cases "xs ! unat index")
  let ?ys = "take (unat index) xs" and ?zs = "drop (Suc (unat index)) xs"
  have xs: "xs = ?ys @ (b, w) # ?zs" using i bw by (metis id_take_nth_drop)
  then have "is_list s1 lst (?ys @ (b, w) # ?zs)" using keep(2) [OF lst] by simp
  from keep(1) [OF ok] this obtain s' where s': "list_remove lst b s1 = Inr (w, s')"
    "removed lim B lst b (insert b (addrs (?ys @ ?zs))) (?ys @ ?zs) s1 s'"
    by (rule list_remove_ok)
  have "addrs xs = insert b (addrs (?ys @ ?zs))" by (subst xs) auto
  moreover have "list_remove_indexed lst index s = Inr (w, s')"
    using s1(1) s'(1) bw by (simp add: list_remove_indexed_def)
  ultimately show ?thesis using removed_after_lock [OF s1(2) s'(2)] bw by (intro that [of s']) simp_all
qed

section \<open>Destruction\<close>

lemma destroy_nodes_ok:
  assumes "lists_ok lim B s" and "dseg (node_mem s) p xs NULL" and "distinct (List.map fst xs)"
  obtains s' where "destroy_nodes (first_of xs NULL) s = Some (Inr s')" and "lists_ok lim (B |` (- addrs xs)) s'"
    and "node_mem s' = node_mem s |` (- addrs xs)" and "list_mem s' = list_mem s" and "klist_frame s s'"
  using assms
proof (induction xs arbitrary: p B s thesis)
  case Nil
  show ?case
    by (rule Nil.prems(1) [of s]) (use Nil.prems(2) in \<open>simp_all add: destroy_nodes.simps\<close>)
next
  case (Cons t xs)
  obtain a v where t: "t = (a, v)" by (cases t)
  have a: "a \<noteq> NULL" "node_mem s a = Some \<lparr>node_value = v, node_previous = p, node_next = first_of xs NULL\<rparr>"
    and seg: "dseg (node_mem s) a xs NULL" and notin: "a \<notin> addrs xs" and dist: "distinct (List.map fst xs)"
    using Cons.prems(3,4) by (auto simp: t)
  have Ba: "B a = Some sizeof_list_node_t" using Cons.prems(2) a(2) by (auto simp: lists_ok_def)
  from lists_okD [OF Cons.prems(2)] this obtain s1 where s1: "free_node a s = Inr s1" "heap_ok lim (B(a := None)) s1"
    "klist_frame s s1" "list_mem s1 = list_mem s" "node_mem s1 = (node_mem s)(a := None)"
    by (rule free_node_ok)
  have "a \<notin> dom (list_mem s)" using Cons.prems(2) a(2) by (auto simp: lists_ok_def)
  then have ok1: "lists_ok lim (B(a := None)) s1" using Cons.prems(2) s1 by (auto simp: lists_ok_def)
  have "dseg (node_mem s1) a xs NULL" using seg notin by (simp add: s1(5))
  from Cons.IH [OF _ ok1 this dist] obtain s' where s': "destroy_nodes (first_of xs NULL) s1 = Some (Inr s')"
    "lists_ok lim ((B(a := None)) |` (- addrs xs)) s'" "node_mem s' = node_mem s1 |` (- addrs xs)"
    "list_mem s' = list_mem s1" "klist_frame s1 s'"
    by blast
  show ?case
  proof (rule Cons.prems(1) [of s'])
    show "destroy_nodes (first_of (t # xs) NULL) s = Some (Inr s')"
      using a s1(1) s'(1) by (subst destroy_nodes.simps) (simp add: t)
    have "(B(a := None)) |` (- addrs xs) = B |` (- addrs (t # xs))"
      by (auto simp: restrict_map_def t)
    then show "lists_ok lim (B |` (- addrs (t # xs))) s'" using s'(2) by simp
    show "node_mem s' = node_mem s |` (- addrs (t # xs))"
      unfolding s'(3) s1(5) by (auto simp: restrict_map_def t)
    show "list_mem s' = list_mem s" using s'(4) s1(4) by simp
    show "klist_frame s s'" using s1(3) s'(5) by (rule klist_frame_trans)
  qed
qed

lemma lists_ok_drop_list:
  assumes "lists_ok lim B s" and "heap_ok lim (B(p := None)) s'" and "node_mem s' = node_mem s"
    and "list_mem s' = (list_mem s)(p := None)" and "p \<in> dom (list_mem s)"
  shows "lists_ok lim (B(p := None)) s'"
  using assms by (auto simp: lists_ok_def)

lemma list_destroy_ok:
  assumes ok: "lists_ok lim B s" and lst: "is_list s lst xs"
  obtains s' where "list_destroy lst s = Inr s'" and "lists_ok lim (B |` (- insert lst (addrs xs))) s'"
    and "list_mem s' = (list_mem s)(lst := None)" and "node_mem s' = node_mem s |` (- addrs xs)" and "klist_frame s s'"
proof -
  obtain l where l: "list_mem s lst = Some l" and rep: "list_rep (node_mem s) l xs"
    using lst by (auto simp: is_list_def)
  then have seg: "dseg (node_mem s) NULL xs NULL" and dist: "distinct (List.map fst xs)" and root: "list_root l = first_of xs NULL"
    by (simp_all add: list_rep_def)
  from ok seg dist obtain s1 where s1: "destroy_nodes (first_of xs NULL) s = Some (Inr s1)"
    "lists_ok lim (B |` (- addrs xs)) s1" "node_mem s1 = node_mem s |` (- addrs xs)" "list_mem s1 = list_mem s" "klist_frame s s1"
    by (rule destroy_nodes_ok)
  have "B lst = Some sizeof_list_t" and "lst \<notin> addrs xs"
    using ok l dseg_dom [OF seg] by (auto simp: lists_ok_def)
  then have "(B |` (- addrs xs)) lst = Some sizeof_list_t" by simp
  from lists_okD [OF s1(2)] this obtain s' where s': "free_list lst s1 = Inr s'"
    "heap_ok lim ((B |` (- addrs xs))(lst := None)) s'" "klist_frame s1 s'" "node_mem s' = node_mem s1"
    "list_mem s' = (list_mem s1)(lst := None)"
    by (rule free_list_ok)
  have e: "(B |` (- addrs xs))(lst := None) = B |` (- insert lst (addrs xs))" by (auto simp: restrict_map_def)
  have "lists_ok lim (B |` (- insert lst (addrs xs))) s'"
    unfolding e [symmetric] using s1(2) s'(2,4,5) by (rule lists_ok_drop_list) (use s1(4) l in auto)
  moreover have "list_destroy lst s = Inr s'" using l root s1(1) s'(1) by (simp add: list_destroy_def ld_list_def)
  ultimately show ?thesis
    using s'(4,5) s1(3,4) klist_frame_trans [OF s1(5) s'(3)] by (intro that [of s']) simp_all
qed

section \<open>Insertion before a node\<close>

text \<open>
  \<open>list_push_before\<close> links the new node to its successor but not from its predecessor, and never
  makes it the root: walking forward from the root meets the old nodes only.
\<close>

lemma list_push_before_ok:
  assumes ok: "lists_ok lim B s" and room: "room s 2" and lst: "is_list s lst (ys @ (c, u) # zs)"
  obtains node s' l' where "list_push_before lst c v s = Inr (node, s')" and "node \<noteq> NULL" and "node \<notin> addrs (ys @ (c, u) # zs)"
    and "list_mem s' lst = Some l'" and "list_length l' = of_nat (Suc (length (ys @ (c, u) # zs)))" and "lock (list_lk l') = 0"
    and "list_root l' = first_of (ys @ (c, u) # zs) NULL" and "fseg (node_mem s') (ys @ (c, u) # zs) NULL" and "klist_frame s s'"
proof -
  let ?xs = "ys @ (c, u) # zs"
  obtain l where l: "list_mem s lst = Some l" "lock (list_lk l) = 0" and rep: "list_rep (node_mem s) l ?xs"
    using lst by (auto simp: is_list_def)
  let ?s1 = "list_taken ''list_push_before'' 30 lst l s"
  have "heap_ok lim B ?s1" and "room ?s1 2" using lists_okD [OF ok] room by simp_all
  then obtain node s2 where s2: "new_node ?s1 = Inr (node, s2)" "node \<noteq> NULL" "B node = None"
    "heap_ok lim (B(node \<mapsto> sizeof_list_node_t)) s2" "klist_frame ?s1 s2" "list_mem s2 = list_mem ?s1"
    "node_mem s2 = (node_mem ?s1)(node \<mapsto> \<lparr>node_value = 0, node_previous = NULL, node_next = NULL\<rparr>)" "took ?s1 s2 2"
    by (rule new_node_ok)
  have rep': "list_length l = of_nat (length ?xs)" "list_root l = first_of ?xs NULL" "dseg (node_mem s) NULL ?xs NULL"
    using rep by (simp_all add: list_rep_def)
  have "node \<notin> dom (node_mem s)" using ok s2(3) by (force simp: lists_ok_def)
  then have fresh: "node \<notin> addrs ?xs" using dseg_dom [OF rep'(3)] by blast
  obtain n where n: "node_mem s c = Some n" using rep'(3) by (auto simp: dseg_append)
  have fwd: "fseg ((node_mem s)(node \<mapsto> m, c \<mapsto> n\<lparr>node_previous := node\<rparr>)) ?xs NULL" for m
  proof (rule fseg_upd_same)
    show "fseg ((node_mem s)(node \<mapsto> m)) ?xs NULL" using dseg_fseg [OF rep'(3)] fresh by simp
    show "((node_mem s)(node \<mapsto> m)) c = Some n" using n fresh by auto
  qed simp_all
  have cn: "c \<noteq> node" using fresh by auto
  have "\<exists>s' l'. list_push_before lst c v s = Inr (node, s') \<and> list_mem s' lst = Some l' \<and> lock (list_lk l') = 0
    \<and> list_length l' = of_nat (Suc (length ?xs)) \<and> list_root l' = first_of ?xs NULL
    \<and> fseg (node_mem s') ?xs NULL \<and> klist_frame s s'"
    using l s2 rep' n cn fwd
    by (cases "list_tail l = c") (auto simp: list_push_before_def list_lock_eq list_steps intro!: frame_through_lock)
  then show ?thesis using s2(2) fresh that by blast
qed

section \<open>Insertion succeeds only with memory\<close>

text \<open>
  The list code does not check what \<open>kmalloc\<close> returns: without memory for the node it stores through
  a null pointer. So an insertion that returns has had its node.
\<close>

lemma kmalloc_null_frame:
  assumes "heap_ok lim B s" and "kmalloc n s = Inr (NULL, s')"
  shows "pmm_frame s s'"
proof -
  have pok: "pmm_ok lim s" using assms(1) by (simp add: heap_ok_def)
  obtain a s1 where al: "pmm_alloc (pages_of n + 1) s = Inr (a, s1)"
    using assms(2) by (auto simp: kmalloc_def Let_def pages_of_def [symmetric] bnd_eq_Inr)
  show ?thesis
  proof (cases "a = NULL")
    case True
    then have "s' = s1" using al assms(2) by (simp add: kmalloc_def Let_def pages_of_def [symmetric])
    then show ?thesis using pmm_alloc_null(3) [OF pok] al True by blast
  next
    case False
    have "pmm_frame s s1" using pmm_alloc_frame [OF pok al False] .
    moreover obtain m where "s' = s1\<lparr>bytes := m\<rparr>"
      using al False assms(2) by (auto simp: kmalloc_def Let_def pages_of_def [symmetric] bnd_eq_Inr)
    ultimately show ?thesis by (simp add: pmm_frame_def same_hart_def)
  qed
qed

lemma kmalloc_needs_room:
  assumes "heap_ok lim B s" and "kmalloc n s = Inr (p, s')" and "p \<noteq> NULL"
  shows "room s (pages_of n + 1)"
proof -
  obtain a s1 where al: "pmm_alloc (pages_of n + 1) s = Inr (a, s1)" "a \<noteq> NULL"
    using assms by (rule kmalloc_success)
  have "pmm_ok lim s" using assms(1) by (simp add: heap_ok_def)
  from this al show ?thesis by (rule pmm_alloc_success) (auto simp: room_def)
qed

lemma null_not_mapped:
  assumes "lists_ok lim B s"
  shows "list_mem s NULL = None" and "node_mem s NULL = None"
  using assms heap_block_nonnull [OF lists_okD [OF assms]] by (auto simp: lists_ok_def) (metis domIff option.exhaust)+

lemma list_push_back_needs_room:
  assumes ok: "lists_ok lim B s" and lst: "is_list s lst xs" and call: "list_push_back lst v s = Inr (node, s')"
  shows "room s 2"
proof -
  obtain l where l: "list_mem s lst = Some l" "lock (list_lk l) = 0" using lst by (auto simp: is_list_def)
  let ?s1 = "list_taken ''list_push_back'' 52 lst l s"
  obtain p s2 where new: "new_node ?s1 = Inr (p, s2)"
    and up: "\<exists>s3. up_node p (\<lambda>n. n\<lparr>node_value := v\<rparr>) s2 = Inr s3"
    using call l by (auto simp: list_push_back_def list_lock_eq bnd_eq_Inr)
  then obtain s0 where km: "kmalloc sizeof_list_node_t ?s1 = Inr (p, s0)" and s2: "p = NULL \<Longrightarrow> s2 = s0"
    by (auto simp: new_node_def bnd_eq_Inr)
  have heap: "heap_ok lim B ?s1" using lists_okD [OF ok] by simp
  have "p \<noteq> NULL"
  proof
    assume p: "p = NULL"
    have "node_mem s0 NULL = None"
      using km p null_not_mapped(2) [OF ok] frame_of_pmm(3) kmalloc_null_frame [OF heap] by fastforce
    then show False using up s2 p by (auto simp: up_node_def ld_node_def)
  qed
  from kmalloc_needs_room [OF heap km this] show ?thesis by (simp add: node_pages)
qed

section \<open>The interface: a queue of values\<close>

text \<open>Inserting a sequence of values, and taking a number of values out again.\<close>

primrec push_all :: "(addr \<Rightarrow> addr \<Rightarrow> 's \<Rightarrow> (addr \<times> 's) res) \<Rightarrow> addr \<Rightarrow> addr list \<Rightarrow> 's \<Rightarrow> 's res" where
  "push_all push q [] s = Inr s"
| "push_all push q (v # vs) s = bnd (push q v s) (\<lambda>(_, s). push_all push q vs s)"

primrec take_all :: "(addr \<Rightarrow> 's \<Rightarrow> (addr \<times> 's) res) \<Rightarrow> addr \<Rightarrow> nat \<Rightarrow> 's \<Rightarrow> (addr list \<times> 's) res" where
  "take_all take_front q 0 s = Inr ([], s)"
| "take_all take_front q (Suc k) s =
     bnd (take_front q s) (\<lambda>(v, s). bnd (take_all take_front q k s) (\<lambda>(vs, s). Inr (v # vs, s)))"

text \<open>
  What the users of a list rely on: the state \<open>ok\<close>, the values \<open>vals s q\<close> in the queue \<open>q\<close> (none
  when there is no such queue), insertion at the back, removal at the front.
\<close>

locale value_queue =
  fixes ok :: "'s \<Rightarrow> bool"
    and holds :: "'s \<Rightarrow> addr \<Rightarrow> addr list \<Rightarrow> bool"
    and push :: "addr \<Rightarrow> addr \<Rightarrow> 's \<Rightarrow> (addr \<times> 's) res"
    and take_front :: "addr \<Rightarrow> 's \<Rightarrow> (addr \<times> 's) res"
  assumes push_holds: "ok s \<Longrightarrow> holds s q vs \<Longrightarrow> push q v s = Inr (n, s') \<Longrightarrow> ok s' \<and> holds s' q (vs @ [v])"
    and take_holds: "ok s \<Longrightarrow> holds s q (v # vs) \<Longrightarrow> \<exists>s'. take_front q s = Inr (v, s') \<and> ok s' \<and> holds s' q vs"
begin

lemma push_all_holds:
  "ok s \<Longrightarrow> holds s q vs \<Longrightarrow> push_all push q ws s = Inr s' \<Longrightarrow> ok s' \<and> holds s' q (vs @ ws)"
proof (induction ws arbitrary: s vs)
  case (Cons w ws)
  then obtain n s1 where s1: "push q w s = Inr (n, s1)" "push_all push q ws s1 = Inr s'" by auto
  with Cons.IH [of s1 "vs @ [w]"] push_holds [OF Cons.prems(1,2) s1(1)] show ?case by simp
qed simp

lemma take_all_holds:
  "ok s \<Longrightarrow> holds s q (vs @ ws) \<Longrightarrow> \<exists>s'. take_all take_front q (length vs) s = Inr (vs, s') \<and> ok s' \<and> holds s' q ws"
proof (induction vs arbitrary: s)
  case (Cons v vs)
  then obtain s1 where "take_front q s = Inr (v, s1)" "ok s1" "holds s1 q (vs @ ws)"
    using take_holds [of s q v "vs @ ws"] by auto
  with Cons.IH [of s1] show ?case by auto
qed simp

lemma first_in_first_out:
  assumes "ok s" and "holds s q []" and "push_all push q vs s = Inr s1"
  shows "\<exists>s2. take_all take_front q (length vs) s1 = Inr (vs, s2) \<and> ok s2 \<and> holds s2 q []"
proof -
  have "ok s1 \<and> holds s1 q (vs @ [])" using push_all_holds [OF assms] by simp
  then show ?thesis using take_all_holds [of s1 q vs "[]"] by blast
qed

end

definition list_values :: "'a klists_scheme \<Rightarrow> addr \<Rightarrow> addr list \<Rightarrow> bool" where
  "list_values s lst vs \<longleftrightarrow> (\<exists>xs. is_list s lst xs \<and> List.map snd xs = vs)"

interpretation lq: value_queue "\<lambda>s. \<exists>B. lists_ok lim B s" list_values list_push_back list_remove_front for lim
proof
  fix s :: "'a klists_scheme" and q vs v n s'
  assume "\<exists>B. lists_ok lim B s" and "list_values s q vs" and call: "list_push_back q v s = Inr (n, s')"
  then obtain B xs where ok: "lists_ok lim B s" and lst: "is_list s q xs" and vs: "List.map snd xs = vs"
    by (auto simp: list_values_def)
  from ok list_push_back_needs_room [OF ok lst call] lst obtain node s'' where
    "list_push_back q v s = Inr (node, s'')" "node \<noteq> NULL" "B node = None"
    "lists_ok lim (B(node \<mapsto> sizeof_list_node_t)) s''" "is_list s'' q (xs @ [(node, v)])"
    "others_same q (insert node (addrs xs)) s s''" "klist_frame s s''" "took s s'' 2"
    by (rule list_push_back_ok)
  with call vs show "(\<exists>B. lists_ok lim B s') \<and> list_values s' q (vs @ [v])"
    by (auto simp: list_values_def intro!: exI [of _ "xs @ [(node, v)]"])
next
  fix s :: "'a klists_scheme" and q v vs
  assume "\<exists>B. lists_ok lim B s" and "list_values s q (v # vs)"
  then obtain B a xs where ok: "lists_ok lim B s" and lst: "is_list s q ((a, v) # xs)" and vs: "List.map snd xs = vs"
    by (auto simp: list_values_def)
  from ok lst obtain s' where "list_remove_front q s = Inr (v, s')" "removed lim B q a (insert a (addrs xs)) xs s s'"
    by (rule list_remove_front_ok)
  with vs show "\<exists>s'. list_remove_front q s = Inr (v, s') \<and> (\<exists>B. lists_ok lim B s') \<and> list_values s' q vs"
    by (auto simp: removed_def list_values_def)
qed

section \<open>Properties\<close>

text \<open>A machine for the instances: 16 frames, 0 and 1 in use, an empty heap and no list.\<close>

definition demo_bitmap :: "u64 \<Rightarrow> u32" where
  "demo_bitmap = (\<lambda>i. if i = 0 then 0xFFFF0003 else - 1)"

definition demo_lists :: klists where
  "demo_lists = \<lparr>cpu_is_inited = True, cpu_struct = demo_cpu, sstatus = 2, bytes = (\<lambda>_. Some 7),
     PmmBitmap = 0xFFFF800000001000, bitmap = demo_bitmap, PmmLength = 16, PmmFreePages = 14,
     MEM_PHYS_OFFSET = 0xFFFF800000000000, PmmLock = INIT_SPINLOCK, list_mem = Map.empty, node_mem = Map.empty\<rparr>"

lemma demo_bits:
  "test_bit demo_bitmap 0" "test_bit demo_bitmap 1" "\<not> test_bit demo_bitmap 2" "\<not> test_bit demo_bitmap 3"
  "\<not> test_bit demo_bitmap 4" "\<not> test_bit demo_bitmap 5" "\<not> test_bit demo_bitmap 6" "\<not> test_bit demo_bitmap 7"
  "\<not> test_bit demo_bitmap 8" "\<not> test_bit demo_bitmap 9" "test_bit demo_bitmap 16"
  by (simp_all add: demo_bitmap_def test_bit_def)

lemma demo_lists_ok: "lists_ok 16 Map.empty demo_lists"
  by (simp add: lists_ok_def heap_ok_def pmm_ok_def demo_lists_def demo_bits INIT_SPINLOCK_def mapped_def)

lemma demo_scans:
  "pmm_scan demo_bitmap 16 2 1 0 = Some (Some 2)"
  "pmm_scan (set_bits demo_bitmap 2 4) 16 2 1 0 = Some (Some 4)"
  "pmm_scan (set_bits (set_bits demo_bitmap 2 4) 4 6) 16 2 1 0 = Some (Some 6)"
  by (simp_all add: pmm_scan.simps is_bitmap_page_free_def test_set_bits demo_bits)

lemma room_scan: "pmm_scan (bitmap s) (PmmLength s) n 1 0 = Some (Some i) \<Longrightarrow> room s n"
  using pmm_scan_found [of "bitmap s" "PmmLength s" n 1 0 i] by (auto simp: room_def)

lemma demo_room: "room demo_lists 2"
  using demo_scans(1) by (intro room_scan) (simp add: demo_lists_def)

lemma took_scan:
  "took s s' n \<Longrightarrow> pmm_scan (bitmap s) (PmmLength s) n 1 0 = Some (Some i) \<Longrightarrow>
    bitmap s' = set_bits (bitmap s) i (n + i) \<and> PmmLength s' = PmmLength s"
  by (auto simp: took_def)

lemma demo_list0:
  "\<exists>L s. list_create demo_lists = Inr (L, s) \<and> lists_ok 16 [L \<mapsto> sizeof_list_t] s \<and> is_list s L []
     \<and> bitmap s = set_bits demo_bitmap 2 4 \<and> PmmLength s = 16"
proof -
  from demo_lists_ok demo_room obtain L s where s: "list_create demo_lists = Inr (L, s)" "L \<noteq> NULL" "(Map.empty :: addr \<rightharpoonup> size_t) L = None"
    "lists_ok 16 (Map.empty(L \<mapsto> sizeof_list_t)) s" "is_list s L []" "others_same L {} demo_lists s" "klist_frame demo_lists s"
    "took demo_lists s 2"
    by (rule list_create_ok)
  moreover have "bitmap s = set_bits demo_bitmap 2 4 \<and> PmmLength s = 16"
    using took_scan [OF s(8), of 2] demo_scans(1) by (simp add: demo_lists_def)
  ultimately show ?thesis by blast
qed

lemma demo_push:
  assumes "lists_ok 16 B s" and "is_list s L xs" and "PmmLength s = 16" and "pmm_scan (bitmap s) 16 2 1 0 = Some (Some i)"
  shows "\<exists>a s'. list_push_back L v s = Inr (a, s') \<and> lists_ok 16 (B(a \<mapsto> sizeof_list_node_t)) s' \<and> is_list s' L (xs @ [(a, v)])
     \<and> bitmap s' = set_bits (bitmap s) i (2 + i) \<and> PmmLength s' = 16"
proof -
  have scan: "pmm_scan (bitmap s) (PmmLength s) 2 1 0 = Some (Some i)" using assms(3,4) by simp
  from assms(1) room_scan [OF scan] assms(2) obtain a s' where s': "list_push_back L v s = Inr (a, s')" "a \<noteq> NULL" "B a = None"
    "lists_ok 16 (B(a \<mapsto> sizeof_list_node_t)) s'" "is_list s' L (xs @ [(a, v)])"
    "others_same L (insert a (addrs xs)) s s'" "klist_frame s s'" "took s s' 2"
    by (rule list_push_back_ok)
  with took_scan [OF s'(8) scan] assms(3) show ?thesis by auto
qed

lemma demo_list1:
  "\<exists>L a (s :: klists) B. lists_ok 16 B s \<and> is_list s L [(a, 5)] \<and> bitmap s = set_bits (set_bits demo_bitmap 2 4) 4 6 \<and> PmmLength s = 16"
proof -
  obtain L and s :: klists where s: "lists_ok 16 [L \<mapsto> sizeof_list_t] s" "is_list s L []" "bitmap s = set_bits demo_bitmap 2 4" "PmmLength s = 16"
    using demo_list0 by blast
  then show ?thesis using demo_push [OF s(1,2,4), of 4 5] demo_scans(2) by auto
qed

lemma demo_room1: "bitmap s = set_bits (set_bits demo_bitmap 2 4) 4 6 \<Longrightarrow> PmmLength s = 16 \<Longrightarrow> room s 2"
  using demo_scans(3) by (intro room_scan [of s 2 6]) simp

text \<open>
  Property C17. On a well-formed state with memory for one node, \<open>list_push_back\<close> and \<open>list_push_front\<close>
  return a new node; the list is the old sequence with the node appended, or in front; every other
  list, every node that is not in the list, and the hart are as before, and the lock is free again.
\<close>

theorem list_push_ends:
  assumes "lists_ok lim B s" and "room s 2" and "is_list s lst xs"
  shows "(\<exists>node s'. list_push_back lst v s = Inr (node, s') \<and> B node = None
      \<and> lists_ok lim (B(node \<mapsto> sizeof_list_node_t)) s' \<and> is_list s' lst (xs @ [(node, v)])
      \<and> others_same lst (insert node (addrs xs)) s s' \<and> klist_frame s s')
    \<and> (\<exists>node s'. list_push_front lst v s = Inr (node, s') \<and> B node = None
      \<and> lists_ok lim (B(node \<mapsto> sizeof_list_node_t)) s' \<and> is_list s' lst ((node, v) # xs)
      \<and> others_same lst (insert node (addrs xs)) s s' \<and> klist_frame s s')"
  using list_push_back_ok [OF assms, of v] list_push_front_ok [OF assms, of v] by metis

theorem list_push_ends_witness:
  "\<exists>L s node s'. list_create demo_lists = Inr (L, s) \<and> list_push_back L 5 s = Inr (node, s') \<and> is_list s' L [(node, 5)]"
proof -
  obtain L s where s: "list_create demo_lists = Inr (L, s)" "lists_ok 16 [L \<mapsto> sizeof_list_t] s" "is_list s L []"
    "bitmap s = set_bits demo_bitmap 2 4" "PmmLength s = 16"
    using demo_list0 by blast
  have "room s 2" using demo_scans(2) s(4,5) by (intro room_scan [of s 2 4]) simp
  from list_push_ends [OF s(2) this s(3), of 5] s(1) show ?thesis by auto
qed

text \<open>
  Property C18. \<open>list_remove\<close> of a node at any place of a list, first, last or in between, returns
  the node's value; the list is the old sequence without the node, the node's block is released,
  and other lists and the hart are as before.
\<close>

theorem list_remove_unlinks:
  assumes "lists_ok lim B s" and "is_list s lst (ys @ (b, w) # zs)"
  shows "\<exists>s'. list_remove lst b s = Inr (w, s') \<and> lists_ok lim (B(b := None)) s' \<and> is_list s' lst (ys @ zs)
    \<and> others_same lst (insert b (addrs (ys @ zs))) s s' \<and> klist_frame s s'"
  using list_remove_ok [OF assms] unfolding removed_def by metis

theorem list_remove_unlinks_witness:
  "\<exists>(s :: klists) L b s'. is_list s L [(b, 5)] \<and> list_remove L b s = Inr (5, s') \<and> is_list s' L []"
proof -
  obtain L a B and s :: klists where s: "lists_ok 16 B s" "is_list s L [(a, 5)]" using demo_list1 by blast
  then obtain s' where "list_remove L a s = Inr (5, s')" "is_list s' L []"
    using list_remove_unlinks [of 16 B s L "[]" a 5 "[]"] by auto
  with s show ?thesis by blast
qed

text \<open>
  Property C19. A list used as a queue is first in, first out: if values are pushed to the back of
  an empty list one after the other, removing that many values from the front returns all of them,
  in the order in which they were pushed, and leaves the list empty.
\<close>

theorem list_queue_fifo:
  assumes "lists_ok lim B s" and "is_list s lst []" and "push_all list_push_back lst vs s = Inr s1"
  shows "\<exists>s2. take_all list_remove_front lst (length vs) s1 = Inr (vs, s2) \<and> is_list s2 lst []"
proof -
  have "list_values s lst []" using assms(2) by (auto simp: list_values_def)
  from lq.first_in_first_out [of lim s lst vs s1, OF _ this assms(3)] assms(1)
  show ?thesis by (auto simp: list_values_def)
qed

theorem list_queue_fifo_witness:
  "\<exists>L s s1 s2. list_create demo_lists = Inr (L, s) \<and> push_all list_push_back L [5, 6] s = Inr s1
     \<and> take_all list_remove_front L 2 s1 = Inr ([5, 6], s2)"
proof -
  obtain L s where s: "list_create demo_lists = Inr (L, s)" "lists_ok 16 [L \<mapsto> sizeof_list_t] s" "is_list s L []"
    "bitmap s = set_bits demo_bitmap 2 4" "PmmLength s = 16"
    using demo_list0 by blast
  obtain a sa where sa: "list_push_back L 5 s = Inr (a, sa)" "lists_ok 16 ([L \<mapsto> sizeof_list_t](a \<mapsto> sizeof_list_node_t)) sa"
    "is_list sa L [(a, 5)]" "bitmap sa = set_bits (set_bits demo_bitmap 2 4) 4 6" "PmmLength sa = 16"
    using demo_push [OF s(2,3,5), of 4 5] demo_scans(2) s(4) by auto
  obtain b sb where "list_push_back L 6 sa = Inr (b, sb)"
    using demo_push [OF sa(2,3,5), of 6 6] demo_scans(3) sa(4) by auto
  then have all: "push_all list_push_back L [5, 6] s = Inr sb" using sa(1) by simp
  have two: "length [5, 6 :: addr] = 2" by simp
  from list_queue_fifo [OF s(2,3) all, unfolded two] all s(1) show ?thesis by blast
qed

text \<open>
  Property C20. \<open>list_contains\<close> returns the index of the first node that holds the value, or -1 when
  none does, and \<open>list_get_indexed\<close> the node at the index, or null past the end; both leave the list,
  all others and the hart as they were.
\<close>

theorem list_search:
  assumes "is_list s lst xs" and "length xs < 2 ^ 64"
  shows "(\<exists>s'. (if val \<in> snd ` set xs
       then \<exists>i < length xs. list_contains lst val s = Inr (of_nat i, s') \<and> snd (xs ! i) = val \<and> (\<forall>j < i. snd (xs ! j) \<noteq> val)
       else list_contains lst val s = Inr (MINUS_ONE, s')) \<and> lock_only lst s s')
    \<and> (\<exists>s'. list_get_indexed lst index s = Inr (if unat index < length xs then fst (xs ! unat index) else NULL, s') \<and> lock_only lst s s')"
proof
  show "\<exists>s'. list_get_indexed lst index s = Inr (if unat index < length xs then fst (xs ! unat index) else NULL, s') \<and> lock_only lst s s'"
    using assms by (rule list_get_indexed_ok)
  obtain s' where s': "list_contains lst val s = Inr (case index_of val xs of Some i \<Rightarrow> of_nat i | None \<Rightarrow> MINUS_ONE, s')" "lock_only lst s s'"
    using list_contains_ok [OF assms(1)] by blast
  show "\<exists>s'. (if val \<in> snd ` set xs
       then \<exists>i < length xs. list_contains lst val s = Inr (of_nat i, s') \<and> snd (xs ! i) = val \<and> (\<forall>j < i. snd (xs ! j) \<noteq> val)
       else list_contains lst val s = Inr (MINUS_ONE, s')) \<and> lock_only lst s s'"
  proof (cases "index_of val xs")
    case None
    then have "val \<notin> snd ` set xs" using index_of_None [of val xs] by blast
    then show ?thesis using s' None by auto
  next
    case (Some i)
    then have "val \<in> snd ` set xs" using index_of_None [of val xs] by auto
    then show ?thesis using s' Some index_of_Some [OF Some] by auto
  qed
qed

theorem list_search_witness:
  "\<exists>(s :: klists) L a s' s''. is_list s L [(a, 5)] \<and> list_contains L 5 s = Inr (0, s') \<and> list_get_indexed L 0 s = Inr (a, s'')"
proof -
  obtain L a and s :: klists where s: "is_list s L [(a, 5)]" using demo_list1 by blast
  from list_search [OF s, of 5 0] obtain s' s'' where "list_contains L 5 s = Inr (0, s')" "list_get_indexed L 0 s = Inr (a, s'')"
    by auto
  with s show ?thesis by blast
qed

text \<open>
  Property C21. \<open>list_remove_indexed\<close> removes the node at an index inside the list and returns its
  value; with an index past the end the code goes on with a null node and dereferences it.
\<close>

theorem list_remove_indexed_bounds:
  assumes "lists_ok lim B s" and "is_list s lst xs" and "length xs < 2 ^ 64"
  shows "if unat index < length xs
    then \<exists>s'. list_remove_indexed lst index s = Inr (snd (xs ! unat index), s')
      \<and> lists_ok lim (B(fst (xs ! unat index) := None)) s'
      \<and> is_list s' lst (take (unat index) xs @ drop (Suc (unat index)) xs) \<and> klist_frame s s'
    else list_remove_indexed lst index s = Inl Fault"
proof (cases "unat index < length xs")
  case True
  from list_remove_indexed_ok [OF assms True] True show ?thesis unfolding removed_def by metis
next
  case False
  obtain s1 where s1: "list_get_indexed lst index s = Inr (NULL, s1)" "lock_only lst s s1"
    using list_get_indexed_ok [OF assms(2,3), of index] False by auto
  have ok1: "lists_ok lim B s1" and "is_list s1 lst xs" using lock_only_keeps [OF s1(2)] assms(1,2) by auto
  then obtain l where "list_mem s1 lst = Some l" "lock (list_lk l) = 0" by (auto simp: is_list_def)
  moreover have "node_mem s1 NULL = None" using ok1 by (rule null_not_mapped)
  ultimately have "list_remove lst NULL s1 = Inl Fault" by (simp add: list_remove_def list_lock_eq list_steps)
  then show ?thesis using False s1(1) by (simp add: list_remove_indexed_def)
qed

theorem list_remove_indexed_bounds_witness:
  "\<exists>(s :: klists) L a. is_list s L [(a, 5)] \<and> list_remove_indexed L 1 s = Inl Fault"
proof -
  obtain L a B and s :: klists where s: "lists_ok 16 B s" "is_list s L [(a, 5)]" using demo_list1 by blast
  from list_remove_indexed_bounds [OF s, of 1] s(2) show ?thesis by auto
qed

text \<open>
  \<open>list_destroy\<close> of a well-formed list returns and releases the list and every one of
  its nodes, and nothing else.
\<close>

theorem list_destroy_releases:
  assumes "lists_ok lim B s" and "is_list s lst xs"
  shows "\<exists>s'. list_destroy lst s = Inr s' \<and> lists_ok lim (B |` (- insert lst (addrs xs))) s'
    \<and> list_mem s' = (list_mem s)(lst := None) \<and> node_mem s' = node_mem s |` (- addrs xs) \<and> klist_frame s s'"
  using list_destroy_ok [OF assms] by metis

theorem list_destroy_releases_witness:
  "\<exists>L s s'. list_create demo_lists = Inr (L, s) \<and> list_destroy L s = Inr s' \<and> lists_ok 16 Map.empty s'"
proof -
  obtain L s where s: "list_create demo_lists = Inr (L, s)" "lists_ok 16 [L \<mapsto> sizeof_list_t] s" "is_list s L []"
    using demo_list0 by blast
  have "[L \<mapsto> sizeof_list_t] |` (- insert L (addrs [])) = Map.empty" by (auto simp: restrict_map_def)
  with list_destroy_releases [OF s(2,3)] s(1) show ?thesis by auto
qed

text \<open>
  \<open>list_push_before\<close> counts a node that cannot be reached: on a well-formed state with
  memory for a node it returns and increments the length, but walking from the root still meets
  exactly the old nodes, so that \<open>list_get_indexed\<close> never returns the new one.
\<close>

theorem list_push_before_unreachable:
  assumes "lists_ok lim B s" and "room s 2" and "is_list s lst (ys @ (c, u) # zs)" and "length (ys @ (c, u) # zs) < 2 ^ 64"
  shows "\<exists>node s' l'. list_push_before lst c v s = Inr (node, s') \<and> list_mem s' lst = Some l'
    \<and> list_length l' = of_nat (Suc (length (ys @ (c, u) # zs)))
    \<and> (\<forall>index. \<exists>a s''. list_get_indexed lst index s' = Inr (a, s'') \<and> a \<noteq> node)"
proof -
  let ?xs = "ys @ (c, u) # zs"
  from assms(1-3) obtain node s' l' where s': "list_push_before lst c v s = Inr (node, s')" "node \<noteq> NULL"
    "node \<notin> addrs ?xs" "list_mem s' lst = Some l'" "list_length l' = of_nat (Suc (length ?xs))" "lock (list_lk l') = 0"
    "list_root l' = first_of ?xs NULL" "fseg (node_mem s') ?xs NULL" "klist_frame s s'"
    by (rule list_push_before_ok)
  have "\<exists>a s''. list_get_indexed lst index s' = Inr (a, s'') \<and> a \<noteq> node" for index
  proof -
    have "indexed_loop (node_mem s') (first_of ?xs NULL) 0 index =
        Some (Inr (if unat index < length ?xs then fst (?xs ! unat index) else NULL))"
      using indexed_loop_fseg [OF s'(8), of 0 index] assms(4) by simp
    then have "\<exists>s''. list_get_indexed lst index s' = Inr (if unat index < length ?xs then fst (?xs ! unat index) else NULL, s'')"
      using s'(4,6,7) by (simp add: list_get_indexed_def list_lock_eq list_steps del: length_append)
    moreover have "(if unat index < length ?xs then fst (?xs ! unat index) else NULL) \<noteq> node"
      using s'(2,3) nth_mem [of "unat index" ?xs] by (auto simp del: length_append)
    ultimately show ?thesis by blast
  qed
  with s'(1,4,5) show ?thesis by blast
qed

theorem list_push_before_unreachable_witness:
  "\<exists>(s :: klists) L a node s'. is_list s L [(a, 5)] \<and> list_push_before L a 6 s = Inr (node, s')
     \<and> (\<forall>index. \<exists>b s''. list_get_indexed L index s' = Inr (b, s'') \<and> b \<noteq> node)"
proof -
  obtain L a B and s :: klists where s: "lists_ok 16 B s" "is_list s L [(a, 5)]"
    "bitmap s = set_bits (set_bits demo_bitmap 2 4) 4 6" "PmmLength s = 16"
    using demo_list1 by blast
  have "is_list s L ([] @ (a, 5) # [])" and "length ([] @ (a, 5 :: addr) # []) < 2 ^ 64" using s(2) by simp_all
  from list_push_before_unreachable [OF s(1) demo_room1 [OF s(3,4)] this, of 6] s(2) show ?thesis by blast
qed

end
