(* ===== verification/Hashmap.thy ===== *)
theory Hashmap
  imports Klist
begin

text \<open>
  The hash maps of \<open>kernel/utils/lists.c\<close> (lines 327 to 496): an array of chains of entries, each with
  a private copy of its key. The keys are strings in the byte memory and are compared there; the
  entries, the maps and the arrays of chains are seen through typed heaps, as in the theory of the
  lists.
\<close>

section \<open>Data\<close>

record hashmap_entry =
  entry_key :: addr
  entry_value :: addr
  entry_next :: addr

record hashmap_t =
  map_lk :: spinlock_t
  map_hashSize :: size_t
  map_hashmap :: addr

record khash = klists +
  entry_mem :: "addr \<rightharpoonup> hashmap_entry"
  map_mem :: "addr \<rightharpoonup> hashmap_t"
  bucket_mem :: "addr \<rightharpoonup> addr list"

definition sizeof_hashmap_entry_t :: size_t where
  "sizeof_hashmap_entry_t = 24"

definition sizeof_hashmap_t :: size_t where
  "sizeof_hashmap_t = 56"

section \<open>Access to the structures\<close>

definition ld_entry :: "'a khash_scheme \<Rightarrow> addr \<Rightarrow> hashmap_entry res" where
  "ld_entry s p = need (entry_mem s p)"

definition ld_map :: "'a khash_scheme \<Rightarrow> addr \<Rightarrow> hashmap_t res" where
  "ld_map s p = need (map_mem s p)"

definition up_entry :: "addr \<Rightarrow> (hashmap_entry \<Rightarrow> hashmap_entry) \<Rightarrow> 'a khash_scheme \<Rightarrow> 'a khash_scheme res" where
  "up_entry p f s = bnd (ld_entry s p) (\<lambda>e. Inr (s\<lparr>entry_mem := (entry_mem s)(p \<mapsto> f e)\<rparr>))"

definition up_map :: "addr \<Rightarrow> (hashmap_t \<Rightarrow> hashmap_t) \<Rightarrow> 'a khash_scheme \<Rightarrow> 'a khash_scheme res" where
  "up_map p f s = bnd (ld_map s p) (\<lambda>h. Inr (s\<lparr>map_mem := (map_mem s)(p \<mapsto> f h)\<rparr>))"

definition new_entry :: "'a khash_scheme \<Rightarrow> (addr \<times> 'a khash_scheme) res" where
  "new_entry s = bnd (kmalloc sizeof_hashmap_entry_t s) (\<lambda>(p, s).
     Inr (p, if p = NULL then s
             else s\<lparr>entry_mem := (entry_mem s)(p \<mapsto> \<lparr>entry_key = NULL, entry_value = 0, entry_next = NULL\<rparr>)\<rparr>))"

definition new_map :: "'a khash_scheme \<Rightarrow> (addr \<times> 'a khash_scheme) res" where
  "new_map s = bnd (kmalloc sizeof_hashmap_t s) (\<lambda>(p, s).
     Inr (p, if p = NULL then s
             else s\<lparr>map_mem := (map_mem s)(p \<mapsto> \<lparr>map_lk = zero_lock, map_hashSize = 0, map_hashmap = NULL\<rparr>)\<rparr>))"

text \<open>The array of chains: as many pointers as fit in the block, whose size may have wrapped around.\<close>

definition new_buckets :: "size_t \<Rightarrow> 'a khash_scheme \<Rightarrow> (addr \<times> 'a khash_scheme) res" where
  "new_buckets n s = bnd (kmalloc (8 * n) s) (\<lambda>(p, s).
     Inr (p, if p = NULL then s
             else s\<lparr>bucket_mem := (bucket_mem s)(p \<mapsto> replicate (unat (8 * n) div 8) NULL)\<rparr>))"

definition free_entry :: "addr \<Rightarrow> 'a khash_scheme \<Rightarrow> 'a khash_scheme res" where
  "free_entry p s = bnd (kfree p s) (\<lambda>s. Inr (s\<lparr>entry_mem := (entry_mem s)(p := None)\<rparr>))"

definition free_map :: "addr \<Rightarrow> 'a khash_scheme \<Rightarrow> 'a khash_scheme res" where
  "free_map p s = bnd (kfree p s) (\<lambda>s. Inr (s\<lparr>map_mem := (map_mem s)(p := None)\<rparr>))"

definition ld_bucket :: "'a khash_scheme \<Rightarrow> addr \<Rightarrow> u64 \<Rightarrow> addr res" where
  "ld_bucket s p i = bnd (need (bucket_mem s p)) (\<lambda>bs. if unat i < length bs then Inr (bs ! unat i) else Inl Fault)"

definition st_bucket :: "addr \<Rightarrow> u64 \<Rightarrow> addr \<Rightarrow> 'a khash_scheme \<Rightarrow> 'a khash_scheme res" where
  "st_bucket p i e s = bnd (need (bucket_mem s p)) (\<lambda>bs.
     if unat i < length bs then Inr (s\<lparr>bucket_mem := (bucket_mem s)(p \<mapsto> bs[unat i := e])\<rparr>) else Inl Fault)"

definition map_lock :: "string \<Rightarrow> int \<Rightarrow> addr \<Rightarrow> 'a khash_scheme \<Rightarrow> 'a khash_scheme res" where
  "map_lock fn ln p s =
     bnd (ld_map s p) (\<lambda>h.
     bnd (spinlock_lock (''lists.c'', fn, ln) (map_lk h) s) (\<lambda>(lk, s).
     Inr (s\<lparr>map_mem := (map_mem s)(p \<mapsto> h\<lparr>map_lk := lk\<rparr>)\<rparr>)))"

definition map_unlock :: "addr \<Rightarrow> 'a khash_scheme \<Rightarrow> 'a khash_scheme res" where
  "map_unlock p s =
     bnd (ld_map s p) (\<lambda>h.
     case spinlock_unlock (map_lk h) s of (lk, s) \<Rightarrow>
     Inr (s\<lparr>map_mem := (map_mem s)(p \<mapsto> h\<lparr>map_lk := lk\<rparr>)\<rparr>))"

text \<open>A remainder by 0 is undefined.\<close>

definition umod :: "u64 \<Rightarrow> u64 \<Rightarrow> u64 res" where
  "umod a b = (if b = 0 then Inl Fault else Inr (a mod b))"

section \<open>Operations\<close>

text \<open>\<open>char\<close> is unsigned on riscv64.\<close>

definition hash_step :: "u32 \<Rightarrow> u8 \<Rightarrow> u32" where
  "hash_step hash c = ucast c + push_bit 6 hash + push_bit 16 hash - hash"

partial_function (option) hash_loop :: "mem \<Rightarrow> addr \<Rightarrow> u32 \<Rightarrow> u32 res option" where
  "hash_loop m key hash =
     (case m key of
        None \<Rightarrow> Some (Inl Fault)
      | Some c \<Rightarrow> (if c = 0 then Some (Inr hash) else hash_loop m (key + 1) (hash_step hash c)))"

definition hashmap_string_hash :: "mem \<Rightarrow> addr \<Rightarrow> u32 res" where
  "hashmap_string_hash m key = loop_res (hash_loop m key 0)"

definition hashmap_create :: "size_t \<Rightarrow> 'a khash_scheme \<Rightarrow> (addr \<times> 'a khash_scheme) res" where
  "hashmap_create hashSize s =
     bnd (new_map s) (\<lambda>(hashmap, s).
     bnd (up_map hashmap (\<lambda>h. h\<lparr>map_hashSize := hashSize\<rparr>) s) (\<lambda>s.
     bnd (new_buckets hashSize s) (\<lambda>(table, s).
     bnd (up_map hashmap (\<lambda>h. h\<lparr>map_hashmap := table\<rparr>) s) (\<lambda>s.
     bnd (up_map hashmap (\<lambda>h. h\<lparr>map_lk := INIT_SPINLOCK\<rparr>) s) (\<lambda>s.
     Inr (hashmap, s))))))"

partial_function (option) delete_chain :: "addr \<Rightarrow> 'a khash_scheme \<Rightarrow> 'a khash_scheme res option" where
  "delete_chain entry s =
     (if entry = NULL then Some (Inr s)
      else case entry_mem s entry of
          None \<Rightarrow> Some (Inl Fault)
        | Some e \<Rightarrow> (case bnd (kfree (entry_key e) s) (free_entry entry) of
              Inl x \<Rightarrow> Some (Inl x)
            | Inr s \<Rightarrow> delete_chain (entry_next e) s))"

text \<open>The loop over the array reads the size and the array of the map again in each turn.\<close>

partial_function (option) delete_buckets :: "addr \<Rightarrow> size_t \<Rightarrow> 'a khash_scheme \<Rightarrow> 'a khash_scheme res option" where
  "delete_buckets mp i s =
     (case ld_map s mp of
        Inl x \<Rightarrow> Some (Inl x)
      | Inr h \<Rightarrow>
         (if i < map_hashSize h
          then (case bnd (ld_bucket s (map_hashmap h) i) (\<lambda>entry. loop_res (delete_chain entry s)) of
                  Inl x \<Rightarrow> Some (Inl x)
                | Inr s \<Rightarrow> delete_buckets mp (i + 1) s)
          else Some (Inr s)))"

definition hashmap_delete :: "addr \<Rightarrow> 'a khash_scheme \<Rightarrow> 'a khash_scheme res" where
  "hashmap_delete mp s =
     bnd (map_lock ''hashmap_delete'' 349 mp s) (\<lambda>s.
     bnd (loop_res (delete_buckets mp 0 s)) (\<lambda>s.
     free_map mp s))"

text \<open>
  The walks along a chain. Each returns the entry whose key compares equal, or null at the end of
  the chain; those of \<open>hashmap_set\<close> and \<open>hashmap_remove\<close> return \<open>lastEntry\<close> as well.
\<close>

partial_function (option) set_walk :: "(addr \<rightharpoonup> hashmap_entry) \<Rightarrow> mem \<Rightarrow> addr \<Rightarrow> addr \<Rightarrow> addr \<Rightarrow> (addr \<times> addr) res option" where
  "set_walk h m key entry lastEntry =
     (if entry = NULL then Some (Inr (NULL, lastEntry))
      else case h entry of
          None \<Rightarrow> Some (Inl Fault)
        | Some e \<Rightarrow> (case strcmp m (entry_key e) key of
              Inl x \<Rightarrow> Some (Inl x)
            | Inr c \<Rightarrow> (if c = 0 then Some (Inr (entry, entry)) else set_walk h m key (entry_next e) entry)))"

definition entry_fill :: "addr \<Rightarrow> addr \<Rightarrow> 'a khash_scheme \<Rightarrow> (addr \<times> 'a khash_scheme) res" where
  "entry_fill key val s =
     bnd (new_entry s) (\<lambda>(entry, s).
     bnd (strdup key s) (\<lambda>(copy, s).
     bnd (up_entry entry (\<lambda>e. e\<lparr>entry_key := copy\<rparr>) s) (\<lambda>s.
     bnd (up_entry entry (\<lambda>e. e\<lparr>entry_next := NULL\<rparr>) s) (\<lambda>s.
     bnd (up_entry entry (\<lambda>e. e\<lparr>entry_value := val\<rparr>) s) (\<lambda>s.
     Inr (entry, s))))))"

definition hashmap_set :: "addr \<Rightarrow> addr \<Rightarrow> addr \<Rightarrow> 'a khash_scheme \<Rightarrow> (addr \<times> 'a khash_scheme) res" where
  "hashmap_set mp key val s =
     bnd (hashmap_string_hash (bytes s) key) (\<lambda>hash.
     bnd (map_lock ''hashmap_set'' 368 mp s) (\<lambda>s.
     bnd (ld_map s mp) (\<lambda>h.
     bnd (umod (ucast hash) (map_hashSize h)) (\<lambda>i.
     bnd (ld_bucket s (map_hashmap h) i) (\<lambda>entry.
     if entry \<noteq> NULL
     then bnd (loop_res (set_walk (entry_mem s) (bytes s) key entry entry)) (\<lambda>(entry, lastEntry).
          if entry \<noteq> NULL
          then bnd (ld_entry s entry) (\<lambda>e.
               bnd (up_entry entry (\<lambda>e. e\<lparr>entry_value := val\<rparr>) s) (\<lambda>s.
               bnd (map_unlock mp s) (\<lambda>s.
               Inr (entry_value e, s))))
          else bnd (entry_fill key val s) (\<lambda>(entry, s).
               bnd (up_entry lastEntry (\<lambda>e. e\<lparr>entry_next := entry\<rparr>) s) (\<lambda>s.
               bnd (map_unlock mp s) (\<lambda>s.
               Inr (NULL, s)))))
     else bnd (entry_fill key val s) (\<lambda>(entry, s).
          bnd (ld_map s mp) (\<lambda>h.
          bnd (umod (ucast hash) (map_hashSize h)) (\<lambda>i.
          bnd (st_bucket (map_hashmap h) i entry s) (\<lambda>s.
          bnd (map_unlock mp s) (\<lambda>s.
          Inr (NULL, s))))))))))) "

partial_function (option) get_walk :: "(addr \<rightharpoonup> hashmap_entry) \<Rightarrow> mem \<Rightarrow> addr \<Rightarrow> addr \<Rightarrow> addr res option" where
  "get_walk h m key entry =
     (if entry = NULL then Some (Inr NULL)
      else case h entry of
          None \<Rightarrow> Some (Inl Fault)
        | Some e \<Rightarrow> (case strcmp m (entry_key e) key of
              Inl x \<Rightarrow> Some (Inl x)
            | Inr c \<Rightarrow> (if c = 0 then Some (Inr entry) else get_walk h m key (entry_next e))))"

definition hashmap_get :: "addr \<Rightarrow> addr \<Rightarrow> 'a khash_scheme \<Rightarrow> (addr \<times> 'a khash_scheme) res" where
  "hashmap_get mp key s =
     bnd (hashmap_string_hash (bytes s) key) (\<lambda>hash.
     bnd (map_lock ''hashmap_get'' 410 mp s) (\<lambda>s.
     bnd (ld_map s mp) (\<lambda>h.
     bnd (umod (ucast hash) (map_hashSize h)) (\<lambda>i.
     bnd (ld_bucket s (map_hashmap h) i) (\<lambda>entry.
     bnd (loop_res (get_walk (entry_mem s) (bytes s) key entry)) (\<lambda>entry.
     if entry \<noteq> NULL
     then bnd (ld_entry s entry) (\<lambda>e.
          bnd (map_unlock mp s) (\<lambda>s.
          Inr (entry_value e, s)))
     else bnd (map_unlock mp s) (\<lambda>s. Inr (NULL, s))))))))"

partial_function (option) remove_walk :: "(addr \<rightharpoonup> hashmap_entry) \<Rightarrow> mem \<Rightarrow> addr \<Rightarrow> addr \<Rightarrow> addr \<Rightarrow> (addr \<times> addr) res option" where
  "remove_walk h m key entry lastEntry =
     (if entry = NULL then Some (Inr (NULL, lastEntry))
      else case h entry of
          None \<Rightarrow> Some (Inl Fault)
        | Some e \<Rightarrow> (case strcmp m (entry_key e) key of
              Inl x \<Rightarrow> Some (Inl x)
            | Inr c \<Rightarrow> (if c = 0 then Some (Inr (entry, lastEntry)) else remove_walk h m key (entry_next e) entry)))"

definition hashmap_remove :: "addr \<Rightarrow> addr \<Rightarrow> 'a khash_scheme \<Rightarrow> (addr \<times> 'a khash_scheme) res" where
  "hashmap_remove mp key s =
     bnd (hashmap_string_hash (bytes s) key) (\<lambda>hash.
     bnd (map_lock ''hashmap_remove'' 432 mp s) (\<lambda>s.
     bnd (ld_map s mp) (\<lambda>h.
     bnd (umod (ucast hash) (map_hashSize h)) (\<lambda>i.
     bnd (ld_bucket s (map_hashmap h) i) (\<lambda>entry.
     bnd (loop_res (remove_walk (entry_mem s) (bytes s) key entry NULL)) (\<lambda>(entry, lastEntry).
     if entry \<noteq> NULL
     then bnd (ld_entry s entry) (\<lambda>e.
          bnd (if lastEntry \<noteq> NULL then up_entry lastEntry (\<lambda>l. l\<lparr>entry_next := entry_next e\<rparr>) s
               else st_bucket (map_hashmap h) i (entry_next e) s) (\<lambda>s.
          bnd (ld_entry s entry) (\<lambda>e'.
          bnd (kfree (entry_key e') s) (\<lambda>s.
          bnd (free_entry entry s) (\<lambda>s.
          bnd (map_unlock mp s) (\<lambda>s.
          Inr (entry_value e, s)))))))
     else bnd (map_unlock mp s) (\<lambda>s. Inr (NULL, s))))))))"

definition hashmap_has :: "addr \<Rightarrow> addr \<Rightarrow> 'a khash_scheme \<Rightarrow> (bool \<times> 'a khash_scheme) res" where
  "hashmap_has mp key s =
     bnd (hashmap_string_hash (bytes s) key) (\<lambda>hash.
     bnd (map_lock ''hashmap_has'' 464 mp s) (\<lambda>s.
     bnd (ld_map s mp) (\<lambda>h.
     bnd (umod (ucast hash) (map_hashSize h)) (\<lambda>i.
     bnd (ld_bucket s (map_hashmap h) i) (\<lambda>entry.
     bnd (loop_res (get_walk (entry_mem s) (bytes s) key entry)) (\<lambda>entry.
     bnd (map_unlock mp s) (\<lambda>s.
     Inr (entry \<noteq> NULL, s))))))))"

partial_function (option) list_chain :: "addr \<Rightarrow> addr \<Rightarrow> 'a khash_scheme \<Rightarrow> 'a khash_scheme res option" where
  "list_chain lst entry s =
     (if entry = NULL then Some (Inr s)
      else case entry_mem s entry of
          None \<Rightarrow> Some (Inl Fault)
        | Some e \<Rightarrow> (case list_push_back lst (entry_key e) s of
              Inl x \<Rightarrow> Some (Inl x)
            | Inr (_, s) \<Rightarrow> (case entry_mem s entry of
                  None \<Rightarrow> Some (Inl Fault)
                | Some e \<Rightarrow> list_chain lst (entry_next e) s)))"

partial_function (option) list_buckets :: "addr \<Rightarrow> addr \<Rightarrow> size_t \<Rightarrow> 'a khash_scheme \<Rightarrow> 'a khash_scheme res option" where
  "list_buckets mp lst i s =
     (case ld_map s mp of
        Inl x \<Rightarrow> Some (Inl x)
      | Inr h \<Rightarrow>
         (if i < map_hashSize h
          then (case bnd (ld_bucket s (map_hashmap h) i) (\<lambda>entry. loop_res (list_chain lst entry s)) of
                  Inl x \<Rightarrow> Some (Inl x)
                | Inr s \<Rightarrow> list_buckets mp lst (i + 1) s)
          else Some (Inr s)))"

definition hashmap_to_list :: "addr \<Rightarrow> 'a khash_scheme \<Rightarrow> (addr \<times> 'a khash_scheme) res" where
  "hashmap_to_list mp s =
     bnd (map_lock ''hashmap_to_list'' 482 mp s) (\<lambda>s.
     bnd (list_create s) (\<lambda>(lst, s).
     bnd (loop_res (list_buckets mp lst 0 s)) (\<lambda>s.
     bnd (map_unlock mp s) (\<lambda>s.
     Inr (lst, s)))))"

section \<open>Chains\<close>

text \<open>An entry of a chain: its address, the address of its key, the key and the value.\<close>

datatype ent = Ent (eaddr: addr) (ekey: addr) (estr: "u8 list") (evalue: addr)

fun eseg :: "(addr \<rightharpoonup> hashmap_entry) \<Rightarrow> mem \<Rightarrow> addr \<Rightarrow> ent list \<Rightarrow> addr \<Rightarrow> bool" where
  "eseg h m p [] q \<longleftrightarrow> p = q"
| "eseg h m p (e # es) q \<longleftrightarrow> p = eaddr e \<and> p \<noteq> NULL \<and> cstr m (ekey e) (estr e) \<and>
     (\<exists>n. h p = Some \<lparr>entry_key = ekey e, entry_value = evalue e, entry_next = n\<rparr> \<and> eseg h m n es q)"

lemma eseg_append: "eseg h m p (xs @ ys) q \<longleftrightarrow> (\<exists>r. eseg h m p xs r \<and> eseg h m r ys q)"
  by (induction h m p xs q rule: eseg.induct) auto

lemma eseg_upd [simp]: "a \<notin> eaddr ` set es \<Longrightarrow> eseg (h(a := n)) m p es q = eseg h m p es q"
  by (induction h m p es q rule: eseg.induct) auto

lemma eseg_mem:
  assumes "\<And>e. e \<in> set es \<Longrightarrow> cstr m (ekey e) (estr e) \<Longrightarrow> cstr m' (ekey e) (estr e)" and "eseg h m p es q"
  shows "eseg h m' p es q"
  using assms by (induction h m p es q rule: eseg.induct) auto

lemma eseg_dom: "eseg h m p es q \<Longrightarrow> eaddr ` set es \<subseteq> dom h"
  by (induction h m p es q rule: eseg.induct) auto

lemma eseg_first_null: "eseg h m p es NULL \<Longrightarrow> p = NULL \<longleftrightarrow> es = []"
  by (cases es) auto

definition last_entry :: "addr \<Rightarrow> ent list \<Rightarrow> addr" where
  "last_entry p es = (if es = [] then p else eaddr (last es))"

lemma last_entry_simps [simp]: "last_entry p [] = p" "last_entry p (e # es) = last_entry (eaddr e) es"
  by (simp_all add: last_entry_def)

lemma walk_found:
  assumes "eseg h m p (ys @ e # zs) NULL" and "cstr m key (estr e)" and "estr e \<notin> estr ` set ys"
  shows "get_walk h m key p = Some (Inr (eaddr e))"
    and "set_walk h m key p l = Some (Inr (eaddr e, eaddr e))"
    and "remove_walk h m key p l = Some (Inr (eaddr e, last_entry l ys))"
proof -
  show "get_walk h m key p = Some (Inr (eaddr e))" using assms
  proof (induction ys arbitrary: p)
    case Nil
    then show ?case by (subst get_walk.simps) (auto simp: strcmp_cstr)
  next
    case (Cons y ys)
    then show ?case by (subst get_walk.simps) (auto simp: strcmp_cstr)
  qed
  show "set_walk h m key p l = Some (Inr (eaddr e, eaddr e))" using assms
  proof (induction ys arbitrary: p l)
    case Nil
    then show ?case by (subst set_walk.simps) (auto simp: strcmp_cstr)
  next
    case (Cons y ys)
    then show ?case by (subst set_walk.simps) (auto simp: strcmp_cstr)
  qed
  show "remove_walk h m key p l = Some (Inr (eaddr e, last_entry l ys))" using assms
  proof (induction ys arbitrary: p l)
    case Nil
    then show ?case by (subst remove_walk.simps) (auto simp: strcmp_cstr)
  next
    case (Cons y ys)
    then show ?case by (subst remove_walk.simps) (auto simp: strcmp_cstr)
  qed
qed

lemma walk_end:
  assumes "eseg h m p es NULL" and "cstr m key x" and "x \<notin> estr ` set es"
  shows "get_walk h m key p = Some (Inr NULL)"
    and "set_walk h m key p l = Some (Inr (NULL, last_entry l es))"
    and "remove_walk h m key p l = Some (Inr (NULL, last_entry l es))"
proof -
  show "get_walk h m key p = Some (Inr NULL)" using assms
  proof (induction es arbitrary: p)
    case Nil
    then show ?case by (subst get_walk.simps) simp
  next
    case (Cons y es)
    then show ?case by (subst get_walk.simps) (auto simp: strcmp_cstr)
  qed
  show "set_walk h m key p l = Some (Inr (NULL, last_entry l es))" using assms
  proof (induction es arbitrary: p l)
    case Nil
    then show ?case by (subst set_walk.simps) simp
  next
    case (Cons y es)
    then show ?case by (subst set_walk.simps) (auto simp: strcmp_cstr)
  qed
  show "remove_walk h m key p l = Some (Inr (NULL, last_entry l es))" using assms
  proof (induction es arbitrary: p l)
    case Nil
    then show ?case by (subst remove_walk.simps) simp
  next
    case (Cons y es)
    then show ?case by (subst remove_walk.simps) (auto simp: strcmp_cstr)
  qed
qed

text \<open>The hash of a string, and the place of every chain in the array.\<close>

definition hash_of :: "u8 list \<Rightarrow> u32" where
  "hash_of x = foldl hash_step 0 x"

lemma hash_loop_cstr: "cstr m p x \<Longrightarrow> hash_loop m p h = Some (Inr (foldl hash_step h x))"
proof (induction x arbitrary: p h)
  case Nil
  then show ?case by (subst hash_loop.simps) simp
next
  case (Cons c x)
  then show ?case by (subst hash_loop.simps) simp
qed

lemma hash_cstr: "cstr m p x \<Longrightarrow> hashmap_string_hash m p = Inr (hash_of x)"
  by (simp add: hashmap_string_hash_def hash_loop_cstr hash_of_def)

definition slot :: "size_t \<Rightarrow> u8 list \<Rightarrow> nat" where
  "slot n x = unat ((ucast (hash_of x) :: u64) mod n)"

primrec placed :: "(ent \<Rightarrow> nat) \<Rightarrow> nat \<Rightarrow> ent list list \<Rightarrow> bool" where
  "placed H k [] \<longleftrightarrow> True"
| "placed H k (c # cs) \<longleftrightarrow> (\<forall>e \<in> set c. H e = k) \<and> placed H (Suc k) cs"

lemma placed_append: "placed H k (cs @ ds) \<longleftrightarrow> placed H k cs \<and> placed H (k + length cs) ds"
  by (induction cs arbitrary: k) auto

lemma placed_bounds: "placed H k cs \<Longrightarrow> e \<in> set (concat cs) \<Longrightarrow> k \<le> H e \<and> H e < k + length cs"
  by (induction cs arbitrary: k) fastforce+

lemma placed_only:
  assumes "placed H 0 (cs @ c # ds)" and "e \<in> set (concat cs) \<union> set (concat ds)"
  shows "H e \<noteq> length cs"
proof
  assume h: "H e = length cs"
  have "placed H 0 cs" "placed H (Suc (length cs)) ds" using assms(1) by (simp_all add: placed_append)
  from placed_bounds [OF this(1), of e] placed_bounds [OF this(2), of e] h assms(2) show False by auto
qed

lemma slot_less: "n \<noteq> 0 \<Longrightarrow> slot n x < unat n"
  unfolding slot_def by (simp add: unat_mod unat_gt_0)

text \<open>The abstract map of a sequence of entries.\<close>

definition emap :: "ent list \<Rightarrow> u8 list \<rightharpoonup> addr" where
  "emap es = map_of (List.map (\<lambda>e. (estr e, evalue e)) es)"

lemma emap_dom: "dom (emap es) = estr ` set es"
  by (force simp: emap_def dom_map_of_conv_image_fst)

lemma emap_None: "emap es x = None \<longleftrightarrow> x \<notin> estr ` set es"
  using emap_dom [of es] by blast

lemma emap_insert: "estr e \<notin> estr ` set xs \<Longrightarrow> emap (xs @ e # ys) = (emap (xs @ ys))(estr e \<mapsto> evalue e)"
  by (induction xs) (auto simp: emap_def fun_upd_twist)

lemma emap_delete:
  assumes "estr e \<notin> estr ` set (xs @ ys)"
  shows "emap (xs @ ys) = (emap (xs @ e # ys))(estr e := None)"
proof -
  have "emap (xs @ ys) (estr e) = None" using assms emap_dom [of "xs @ ys"] by auto
  moreover have "estr e \<notin> estr ` set xs" using assms by auto
  ultimately show ?thesis by (simp add: emap_insert fun_upd_idem)
qed

section \<open>Maps in a state\<close>

text \<open>Every structure sits in a live block, and no two structures of different kinds in the same one.\<close>

definition hash_ok :: "u64 \<Rightarrow> (addr \<rightharpoonup> size_t) \<Rightarrow> 'a khash_scheme \<Rightarrow> bool" where
  "hash_ok lim B s \<longleftrightarrow> heap_ok lim B s \<and> dom (entry_mem s) \<union> dom (map_mem s) \<union> dom (bucket_mem s) \<subseteq> dom B \<and>
     dom (entry_mem s) \<inter> dom (map_mem s) = {} \<and> dom (entry_mem s) \<inter> dom (bucket_mem s) = {} \<and> dom (map_mem s) \<inter> dom (bucket_mem s) = {}"

text \<open>
  The entries of a map: no two with the same address, the same key block or the same key; every key
  in a block of its own of the right size, in which no other structure sits.
\<close>

definition entries_ok :: "(addr \<rightharpoonup> size_t) \<Rightarrow> 'a khash_scheme \<Rightarrow> ent list \<Rightarrow> bool" where
  "entries_ok B s es \<longleftrightarrow> distinct (List.map eaddr es) \<and> distinct (List.map ekey es) \<and> distinct (List.map estr es) \<and>
     (\<forall>e \<in> set es. B (ekey e) = Some (of_nat (length (estr e) + 1)) \<and> length (estr e) + 1 < 2 ^ 64 \<and>
       ekey e \<notin> dom (entry_mem s) \<union> dom (map_mem s) \<union> dom (bucket_mem s))"

definition map_rep :: "(addr \<rightharpoonup> size_t) \<Rightarrow> 'a khash_scheme \<Rightarrow> addr \<Rightarrow> hashmap_t \<Rightarrow> addr list \<Rightarrow> ent list list \<Rightarrow> bool" where
  "map_rep B s mp h bs cs \<longleftrightarrow> map_mem s mp = Some h \<and> bucket_mem s (map_hashmap h) = Some bs \<and>
     map_hashSize h \<noteq> 0 \<and> length bs = unat (map_hashSize h) \<and>
     list_all2 (\<lambda>p c. eseg (entry_mem s) (bytes s) p c NULL) bs cs \<and>
     placed (\<lambda>e. slot (map_hashSize h) (estr e)) 0 cs \<and> entries_ok B s (concat cs)"

definition is_map :: "u64 \<Rightarrow> (addr \<rightharpoonup> size_t) \<Rightarrow> 'a khash_scheme \<Rightarrow> addr \<Rightarrow> (u8 list \<rightharpoonup> addr) \<Rightarrow> bool" where
  "is_map lim B s mp f \<longleftrightarrow> hash_ok lim B s \<and> (\<exists>h bs cs. lock (map_lk h) = 0 \<and> map_rep B s mp h bs cs \<and> f = emap (concat cs))"

lemma hmore_eq:
  assumes "klists.more s' = klists.more (s :: 'a khash_scheme)"
  shows "entry_mem s' = entry_mem s" and "map_mem s' = map_mem s" and "bucket_mem s' = bucket_mem s"
  using assms by (cases s; cases s'; simp)+

lemma klist_frame_hash:
  assumes "klist_frame s (s' :: 'a khash_scheme)"
  shows "entry_mem s' = entry_mem s" and "map_mem s' = map_mem s" and "bucket_mem s' = bucket_mem s"
  using assms hmore_eq [of s' s] by (simp_all add: klist_frame_def)

lemma preempt_hash [simp]:
  "entry_mem (arch_cpu_increment_preempt_counter s) = entry_mem s"
  "map_mem (arch_cpu_increment_preempt_counter s) = map_mem s"
  "bucket_mem (arch_cpu_increment_preempt_counter s) = bucket_mem s"
  "bytes (arch_cpu_increment_preempt_counter s) = bytes s"
  "entry_mem (arch_cpu_decrement_preempt_counter s) = entry_mem s"
  "map_mem (arch_cpu_decrement_preempt_counter s) = map_mem s"
  "bucket_mem (arch_cpu_decrement_preempt_counter s) = bucket_mem s"
  "bytes (arch_cpu_decrement_preempt_counter s) = bytes s"
  by (simp_all add: arch_cpu_increment_preempt_counter_def arch_cpu_decrement_preempt_counter_def)

lemma heap_ok_hash_upd [simp]:
  "heap_ok lim B (s\<lparr>entry_mem := x\<rparr>) = heap_ok lim B s" "heap_ok lim B (s\<lparr>map_mem := y\<rparr>) = heap_ok lim B s"
  "heap_ok lim B (s\<lparr>bucket_mem := z\<rparr>) = heap_ok lim B s"
  by (rule heap_ok_cong; simp)+

lemma spacious_hash_upd [simp]:
  "spacious (s\<lparr>entry_mem := x\<rparr>) n = spacious s n" "spacious (s\<lparr>map_mem := y\<rparr>) n = spacious s n"
  "spacious (arch_cpu_increment_preempt_counter s) n = spacious s n"
  "spacious (s\<lparr>bucket_mem := z\<rparr>) n = spacious s n"
  by (simp_all add: spacious_def arch_cpu_increment_preempt_counter_def)

text \<open>The map's lock.\<close>

definition map_taken :: "string \<Rightarrow> int \<Rightarrow> addr \<Rightarrow> hashmap_t \<Rightarrow> 'a khash_scheme \<Rightarrow> 'a khash_scheme" where
  "map_taken fn ln p h s = (arch_cpu_increment_preempt_counter s)\<lparr>map_mem := (map_mem s)(p \<mapsto>
     h\<lparr>map_lk := (map_lk h)\<lparr>lock := 1, last_acquirer := acquirer_of (''lists.c'', fn, ln) s\<rparr>\<rparr>)\<rparr>"

lemma map_lock_eq:
  "map_mem s p = Some h \<Longrightarrow> lock (map_lk h) = 0 \<Longrightarrow> map_lock fn ln p s = Inr (map_taken fn ln p h s)"
  by (simp add: map_lock_def ld_map_def map_taken_def)

lemma map_unlock_eq:
  "map_mem s p = Some h \<Longrightarrow> map_unlock p s =
    Inr ((arch_cpu_decrement_preempt_counter s)\<lparr>map_mem := (map_mem s)(p \<mapsto> h\<lparr>map_lk := (map_lk h)\<lparr>lock := 0\<rparr>\<rparr>)\<rparr>)"
  by (simp add: map_unlock_def ld_map_def)

lemma map_taken_fields [simp]:
  "bytes (map_taken fn ln p h s) = bytes s" "entry_mem (map_taken fn ln p h s) = entry_mem s"
  "bucket_mem (map_taken fn ln p h s) = bucket_mem s"
  "map_mem (map_taken fn ln p h s) = (map_mem s)(p \<mapsto>
     h\<lparr>map_lk := (map_lk h)\<lparr>lock := 1, last_acquirer := acquirer_of (''lists.c'', fn, ln) s\<rparr>\<rparr>)"
  "heap_ok lim B (map_taken fn ln p h s) = heap_ok lim B s"
  "spacious (map_taken fn ln p h s) n = spacious s n"
  by (simp_all add: map_taken_def)

lemma map_taken_held [simp]: "addr_held lim (map_taken fn ln p h s) a = addr_held lim s a"
  by (simp add: map_taken_def addr_held_def in_use_def arch_cpu_increment_preempt_counter_def)

lemma hash_ok_same:
  assumes "hash_ok lim B s" and "heap_ok lim B' s'" and "dom (entry_mem s') = dom (entry_mem s)" and "dom (map_mem s') = dom (map_mem s)"
    and "dom (bucket_mem s') = dom (bucket_mem s)" and "dom B \<subseteq> dom B'"
  shows "hash_ok lim B' s'"
  using assms(1,2,6) unfolding hash_ok_def assms(3-5) by blast

text \<open>Taking and releasing the lock leaves the map as it is.\<close>

lemma map_rep_lock:
  assumes "map_rep B s mp h bs cs" and "map_mem s' mp = Some h'" and "map_hashSize h' = map_hashSize h" and "map_hashmap h' = map_hashmap h"
    and "dom (map_mem s') = dom (map_mem s)" and "bucket_mem s' = bucket_mem s" and "entry_mem s' = entry_mem s" and "bytes s' = bytes s"
  shows "map_rep B s' mp h' bs cs"
  using assms by (simp add: map_rep_def entries_ok_def)

text \<open>The chain that a key belongs to.\<close>

lemma map_rep_chain:
  assumes "map_rep B s mp h bs cs"
  obtains bs1 p bs2 cs1 c cs2 where "bs = bs1 @ p # bs2" and "cs = cs1 @ c # cs2" and "length bs1 = slot (map_hashSize h) x"
    and "length cs1 = length bs1" and "length cs2 = length bs2"
    and "eseg (entry_mem s) (bytes s) p c NULL"
    and "list_all2 (\<lambda>p c. eseg (entry_mem s) (bytes s) p c NULL) bs1 cs1"
    and "list_all2 (\<lambda>p c. eseg (entry_mem s) (bytes s) p c NULL) bs2 cs2"
    and "x \<notin> estr ` set (concat cs1)" and "x \<notin> estr ` set (concat cs2)"
proof -
  let ?i = "slot (map_hashSize h) x" and ?P = "\<lambda>p c. eseg (entry_mem s) (bytes s) p c NULL"
  have i: "?i < length bs" and all: "list_all2 ?P bs cs" and pl: "placed (\<lambda>e. slot (map_hashSize h) (estr e)) 0 cs"
    using assms slot_less [of "map_hashSize h" x] by (auto simp: map_rep_def)
  have bs: "bs = take ?i bs @ bs ! ?i # drop (Suc ?i) bs" using i by (rule id_take_nth_drop)
  have len: "length cs = length bs" using all by (simp add: list_all2_lengthD)
  then have cs: "cs = take ?i cs @ cs ! ?i # drop (Suc ?i) cs" using i by (intro id_take_nth_drop) simp
  have only: "slot (map_hashSize h) (estr e) \<noteq> ?i" if "e \<in> set (concat (take ?i cs)) \<union> set (concat (drop (Suc ?i) cs))" for e
    using placed_only [of "\<lambda>e. slot (map_hashSize h) (estr e)" "take ?i cs" "cs ! ?i" "drop (Suc ?i) cs" e] pl cs that i len by simp
  show ?thesis
  proof (rule that [OF bs cs])
    show "?P (bs ! ?i) (cs ! ?i)" using all i by (rule list_all2_nthD)
    show "list_all2 ?P (take ?i bs) (take ?i cs)" "list_all2 ?P (drop (Suc ?i) bs) (drop (Suc ?i) cs)"
      using all by (simp_all add: list_all2_takeI list_all2_dropI)
    show "x \<notin> estr ` set (concat (take ?i cs))" "x \<notin> estr ` set (concat (drop (Suc ?i) cs))" using only by blast+
  qed (use i len in simp_all)
qed

section \<open>Lookup\<close>

lemma chain_cases:
  obtains (found) ys e zs where "c = ys @ e # zs" and "estr e = x" and "x \<notin> estr ` set ys"
    | (none) "x \<notin> estr ` set c"
proof (cases "x \<in> estr ` set c")
  case True
  then have "\<exists>e \<in> set c. estr e = x" by auto
  then obtain ys e zs where "c = ys @ e # zs" "estr e = x" "\<forall>y \<in> set ys. estr y \<noteq> x"
    using split_list_first_prop [of c "\<lambda>e. estr e = x"] by blast
  then show ?thesis by (intro found) auto
qed (rule none)

lemma bucket_at:
  assumes "bucket_mem s p = Some (bs1 @ b # bs2)" and "length bs1 = slot n x" and "n \<noteq> 0"
  shows "umod (ucast (hash_of x)) n = Inr (ucast (hash_of x) mod n)"
    and "ld_bucket s p (ucast (hash_of x) mod n) = Inr b"
    and "st_bucket p (ucast (hash_of x) mod n) e s = Inr (s\<lparr>bucket_mem := (bucket_mem s)(p \<mapsto> bs1 @ e # bs2)\<rparr>)"
  using assms by (simp_all add: umod_def ld_bucket_def st_bucket_def slot_def nth_append list_update_append)

text \<open>The state after the lock has been taken and released with nothing in between.\<close>

definition map_touched :: "string \<Rightarrow> int \<Rightarrow> addr \<Rightarrow> hashmap_t \<Rightarrow> 'a khash_scheme \<Rightarrow> 'a khash_scheme" where
  "map_touched fn ln mp h s = (arch_cpu_decrement_preempt_counter (map_taken fn ln mp h s))\<lparr>map_mem := (map_mem s)(mp \<mapsto>
     h\<lparr>map_lk := (map_lk h)\<lparr>last_acquirer := acquirer_of (''lists.c'', fn, ln) s, lock := 0\<rparr>\<rparr>)\<rparr>"

lemma unlock_touched:
  "map_unlock mp (map_taken fn ln mp h s) = Inr (map_touched fn ln mp h s)"
  by (simp add: map_unlock_eq map_touched_def)

lemma touched_bytes [simp]: "bytes (map_touched fn ln mp h s) = bytes s"
  by (simp add: map_touched_def)

lemma touched_held [simp]: "addr_held lim (map_touched fn ln mp h s) y = addr_held lim s y"
  by (simp add: map_touched_def map_taken_def addr_held_def in_use_def arch_cpu_increment_preempt_counter_def
      arch_cpu_decrement_preempt_counter_def)

lemma is_map_touched:
  assumes "hash_ok lim B s" and "map_rep B s mp h bs cs"
  shows "is_map lim B (map_touched fn ln mp h s) mp (emap (concat cs))"
proof -
  let ?s = "map_touched fn ln mp h s" and ?h = "h\<lparr>map_lk := (map_lk h)\<lparr>last_acquirer := acquirer_of (''lists.c'', fn, ln) s, lock := 0\<rparr>\<rparr>"
  have mp: "map_mem s mp = Some h" using assms(2) by (simp add: map_rep_def)
  then have "map_rep B ?s mp ?h bs cs" by (intro map_rep_lock [OF assms(2)]) (auto simp: map_touched_def)
  moreover have "hash_ok lim B ?s"
    using assms(1) mp by (intro hash_ok_same [OF assms(1)]) (auto simp: map_touched_def hash_ok_def)
  ultimately show ?thesis unfolding is_map_def by (intro conjI exI [of _ ?h] exI [of _ bs] exI [of _ cs]) simp_all
qed

lemma hashmap_lookup_ok:
  assumes mp: "is_map lim B s mp f" and key: "cstr (bytes s) key x"
  shows "\<exists>s'. hashmap_get mp key s = Inr (case f x of Some v \<Rightarrow> v | None \<Rightarrow> NULL, s') \<and> is_map lim B s' mp f \<and> bytes s' = bytes s
      \<and> (\<forall>y. addr_held lim s' y = addr_held lim s y)"
    and "\<exists>s'. hashmap_has mp key s = Inr (f x \<noteq> None, s') \<and> is_map lim B s' mp f \<and> bytes s' = bytes s
      \<and> (\<forall>y. addr_held lim s' y = addr_held lim s y)"
proof -
  obtain h bs cs where h: "lock (map_lk h) = 0" and rep: "map_rep B s mp h bs cs" and f: "f = emap (concat cs)" and ok: "hash_ok lim B s"
    using mp by (auto simp: is_map_def)
  from rep obtain bs1 p bs2 cs1 c cs2 where sp: "bs = bs1 @ p # bs2" "cs = cs1 @ c # cs2" "length bs1 = slot (map_hashSize h) x"
    "length cs1 = length bs1" "length cs2 = length bs2" "eseg (entry_mem s) (bytes s) p c NULL"
    "list_all2 (\<lambda>p c. eseg (entry_mem s) (bytes s) p c NULL) bs1 cs1" "list_all2 (\<lambda>p c. eseg (entry_mem s) (bytes s) p c NULL) bs2 cs2"
    "x \<notin> estr ` set (concat cs1)" "x \<notin> estr ` set (concat cs2)"
    by (rule map_rep_chain)
  have m: "map_mem s mp = Some h" and b: "bucket_mem s (map_hashmap h) = Some (bs1 @ p # bs2)" and n: "map_hashSize h \<noteq> 0"
    using rep sp(1) by (simp_all add: map_rep_def)
  have at: "umod (ucast (hash_of x)) (map_hashSize h) = Inr (ucast (hash_of x) mod map_hashSize h)"
    "ld_bucket (map_taken fn ln mp h s) (map_hashmap h) (ucast (hash_of x) mod map_hashSize h) = Inr p" for fn ln
    using bucket_at [OF _ sp(3) n, of "map_taken fn ln mp h s" "map_hashmap h" p bs2] b by simp_all
  have keep: "is_map lim B (map_touched fn ln mp h s) mp f" for fn ln
    unfolding f using ok rep by (rule is_map_touched)
  have get: "get_walk (entry_mem s) (bytes s) key p = Some (Inr a) \<Longrightarrow> (a \<noteq> NULL \<Longrightarrow> entry_mem s a = Some e) \<Longrightarrow>
      hashmap_get mp key s = Inr (if a = NULL then NULL else entry_value e, map_touched ''hashmap_get'' 410 mp h s) \<and>
      hashmap_has mp key s = Inr (a \<noteq> NULL, map_touched ''hashmap_has'' 464 mp h s)" for a e
    using h m at by (simp add: hashmap_get_def hashmap_has_def hash_cstr [OF key] map_lock_eq ld_map_def ld_entry_def unlock_touched)
  have "hashmap_get mp key s = Inr (case f x of Some v \<Rightarrow> v | None \<Rightarrow> NULL, map_touched ''hashmap_get'' 410 mp h s) \<and>
      hashmap_has mp key s = Inr (f x \<noteq> None, map_touched ''hashmap_has'' 464 mp h s)"
  proof (cases c x rule: chain_cases)
    case (found ys e zs)
    have "estr e \<notin> estr ` set (concat cs1 @ ys)" using sp(9) found by auto
    from emap_insert [OF this, of "zs @ concat cs2"] have "f x = Some (evalue e)" using sp(2) found by (simp add: f)
    moreover have "get_walk (entry_mem s) (bytes s) key p = Some (Inr (eaddr e))"
      using sp(6) key found by (intro walk_found(1)) auto
    moreover obtain n where "entry_mem s (eaddr e) = Some \<lparr>entry_key = ekey e, entry_value = evalue e, entry_next = n\<rparr>" "eaddr e \<noteq> NULL"
      using sp(6) found(1) by (auto simp: eseg_append)
    ultimately show ?thesis using get by auto
  next
    case none
    have "f x = None" using sp(2,9,10) none by (auto simp: f emap_None)
    moreover have "get_walk (entry_mem s) (bytes s) key p = Some (Inr NULL)"
      using sp(6) key none by (rule walk_end(1))
    ultimately show ?thesis using get [of NULL] by auto
  qed
  with keep show "\<exists>s'. hashmap_get mp key s = Inr (case f x of Some v \<Rightarrow> v | None \<Rightarrow> NULL, s') \<and> is_map lim B s' mp f \<and> bytes s' = bytes s
      \<and> (\<forall>y. addr_held lim s' y = addr_held lim s y)"
    and "\<exists>s'. hashmap_has mp key s = Inr (f x \<noteq> None, s') \<and> is_map lim B s' mp f \<and> bytes s' = bytes s
      \<and> (\<forall>y. addr_held lim s' y = addr_held lim s y)"
    by auto
qed

section \<open>New entries\<close>

lemma block_held:
  assumes ok: "heap_ok lim B s" and "B k = Some n" and i: "i < 4096 * pages_for (unat n)"
  shows "addr_held lim s (k + of_nat i)"
proof -
  have blk: "block_ok lim s k n" and o: "unat (MEM_PHYS_OFFSET s) + unat lim * 4096 \<le> 2 ^ 64" using assms by (auto simp: heap_ok_def)
  have "block_span k n (k + of_nat i)" using payload_small [OF ok assms(2) i] i by (rule block_payload)
  from block_span_frame [OF _ heap_lim [OF ok] o this] blk show ?thesis by (auto simp: addr_held_def block_ok_def)
qed

lemma key_held:
  assumes "heap_ok lim B s" and "B k = Some (of_nat (length x + 1))" and "length x + 1 < 2 ^ 64" and "i \<le> length x"
  shows "addr_held lim s (k + of_nat i)"
proof (rule block_held [OF assms(1,2)])
  have "unat (of_nat (length x + 1) :: u64) = length x + 1" using assms(3) by (rule unat_of_nat_u64)
  with size_le_pages [of "of_nat (length x + 1)"] have "length x + 1 \<le> 4096 * pages_for (unat (of_nat (length x + 1) :: u64))" by metis
  moreover have "i < length x + 1" using assms(4) by simp
  ultimately show "i < 4096 * pages_for (unat (of_nat (length x + 1) :: u64))" by (rule order.strict_trans2 [rotated])
qed

lemma kmalloc_held_mono:
  assumes "heap_ok lim B s" and "kmalloc n s = Inr (p, s')" and "p \<noteq> NULL" and "addr_held lim s x"
  shows "addr_held lim s' x"
  using assms(4) kmalloc_block(2,3) [OF assms(1-3)] by (auto simp: addr_held_def pmm_frame_def)

lemma entry_fill_ok:
  assumes ok: "hash_ok lim B s" and str: "cstr (bytes s) key x" and len: "length x + 1 < 2 ^ 64"
    and held: "\<forall>i \<le> length x. addr_held lim s (key + of_nat i)"
    and room: "spacious s (2 + (pages_of (of_nat (length x + 1)) + 1))"
  obtains a q s' where "entry_fill key v s = Inr (a, s')" and "a \<noteq> NULL" and "B a = None" and "B q = None" and "a \<noteq> q"
    and "heap_ok lim (B(a \<mapsto> sizeof_hashmap_entry_t, q \<mapsto> of_nat (length x + 1))) s'"
    and "entry_mem s' = (entry_mem s)(a \<mapsto> \<lparr>entry_key = q, entry_value = v, entry_next = NULL\<rparr>)"
    and "map_mem s' = map_mem s" and "bucket_mem s' = bucket_mem s" and "cstr (bytes s') q x"
    and "\<forall>y. addr_held lim s y \<longrightarrow> bytes s' y = bytes s y" and "\<forall>y. addr_held lim s y \<longrightarrow> addr_held lim s' y"
proof -
  let ?n = "of_nat (length x + 1) :: u64"
  have heap: "heap_ok lim B s" using ok by (simp add: hash_ok_def)
  have pg: "unat (pages_of ?n + 1) = pages_for (unat ?n) + 1" by (rule unat_pages_of)
  have le: "pages_for (unat ?n) \<le> 2 ^ 52" using unat_u64_less [of ?n] by (intro pages_for_le) simp
  have two: "pages_of sizeof_hashmap_entry_t + 1 = 2" by (simp add: pages_of_def sizeof_hashmap_entry_t_def PAGE_SIZE_def)
  have nz: "pages_of ?n + 1 \<noteq> 0" using pg by auto
  have "room s (pages_of sizeof_hashmap_entry_t + 1)"
    unfolding two using pg le by (intro spacious_room spacious_sub [OF room]) simp_all
  with heap obtain a s1 where s1: "kmalloc sizeof_hashmap_entry_t s = Inr (a, s1)" "a \<noteq> NULL" "B a = None"
    "heap_ok lim (B(a \<mapsto> sizeof_hashmap_entry_t)) s1" "pmm_frame s s1" "took s s1 (pages_of sizeof_hashmap_entry_t + 1)"
    by (rule kmalloc_room)
  note fr1 = klist_frame_hash [OF frame_of_pmm(1) [OF s1(5)]] and hold1 = kmalloc_held [OF heap s1(1,2)]
  define s2 where "s2 = s1\<lparr>entry_mem := (entry_mem s1)(a \<mapsto> \<lparr>entry_key = NULL, entry_value = 0, entry_next = NULL\<rparr>)\<rparr>"
  have heap2: "heap_ok lim (B(a \<mapsto> sizeof_hashmap_entry_t)) s2" and b2: "bytes s2 = bytes s1" using s1(4) by (simp_all add: s2_def)
  have held2: "addr_held lim s2 y" if "addr_held lim s y" for y
    using kmalloc_held_mono [OF heap s1(1,2) that] by (simp add: s2_def addr_held_def in_use_def)
  have str2: "cstr (bytes s2) key x" using held hold1(2) b2 by (intro cstr_cong [OF str]) simp
  have "spacious s1 (pages_of ?n + 1)"
    using spacious_took [OF room _ nz s1(6) [unfolded two]] pg le by simp
  then have "room s2 (pages_of ?n + 1)" by (intro spacious_room) (simp add: s2_def)
  with heap2 obtain q s3 where s3: "kmalloc ?n s2 = Inr (q, s3)" "q \<noteq> NULL" "(B(a \<mapsto> sizeof_hashmap_entry_t)) q = None"
    "heap_ok lim ((B(a \<mapsto> sizeof_hashmap_entry_t))(q \<mapsto> ?n)) s3" "pmm_frame s2 s3" "took s2 s3 (pages_of ?n + 1)"
    by (rule kmalloc_room)
  have "addr_held lim s2 (key + of_nat i)" if "i \<le> length x" for i using held held2 that by blast
  from heap2 str2 len this s3(1,2) obtain s4 where s4: "strdup key s2 = Inr (q, s4)"
    "heap_ok lim ((B(a \<mapsto> sizeof_hashmap_entry_t))(q \<mapsto> ?n)) s4" "pmm_frame s2 s4" "cstr (bytes s4) q x"
    "\<forall>y. addr_held lim s2 y \<longrightarrow> bytes s4 y = bytes s2 y"
    by (rule strdup_ok)
  note fr4 = klist_frame_hash [OF frame_of_pmm(1) [OF s4(3)]]
  obtain m where m: "s4 = s3\<lparr>bytes := m\<rparr>"
    using s4(1) s3(1) strlen_cstr [OF str2] by (auto simp: strdup_def Let_def bnd_eq_Inr add.commute)
  have held4: "addr_held lim s4 y" if "addr_held lim s y" for y
    using kmalloc_held_mono [OF heap2 s3(1,2) held2 [OF that]] by (simp add: m addr_held_def in_use_def)
  let ?s' = "s4\<lparr>entry_mem := (entry_mem s)(a \<mapsto> \<lparr>entry_key = q, entry_value = v, entry_next = NULL\<rparr>)\<rparr>"
  have fill: "entry_fill key v s = Inr (a, ?s')"
    using s1(1,2) s4(1) fr1(1) fr4(1)
    by (simp add: entry_fill_def new_entry_def s2_def [symmetric] up_entry_def ld_entry_def) (simp add: s2_def)
  show ?thesis
  proof (rule that [OF fill s1(2,3)])
    show "B q = None" "a \<noteq> q" using s3(3) by (auto split: if_splits)
    show "\<forall>y. addr_held lim s y \<longrightarrow> bytes ?s' y = bytes s y" using s4(5) held2 hold1(2) b2 by simp
    show "\<forall>y. addr_held lim s y \<longrightarrow> addr_held lim ?s' y" using held4 by (simp add: addr_held_def in_use_def)
    show "map_mem ?s' = map_mem s" "bucket_mem ?s' = bucket_mem s" using fr1 fr4 by (simp_all add: s2_def)
  qed (use s4(2,4) in simp_all)
qed

section \<open>Changing one chain\<close>

lemma distinct_apart:
  assumes "distinct (List.map f (A @ e # C))"
  shows "\<forall>d \<in> set A \<union> set C. f d \<noteq> f e"
  using assms by (auto simp: image_iff)

lemma eseg_cong:
  assumes "\<And>e. e \<in> set es \<Longrightarrow> h' (eaddr e) = h (eaddr e)"
    and "\<And>e. e \<in> set es \<Longrightarrow> cstr m (ekey e) (estr e) \<Longrightarrow> cstr m' (ekey e) (estr e)" and "eseg h m p es q"
  shows "eseg h' m' p es q"
  using assms by (induction h m p es q rule: eseg.induct) auto

lemma chains_keep:
  assumes "list_all2 (\<lambda>p c. eseg (entry_mem s) (bytes s) p c NULL) bs cs"
    and "\<And>e. e \<in> set (concat cs) \<Longrightarrow> entry_mem s' (eaddr e) = entry_mem s (eaddr e)"
    and "\<And>e. e \<in> set (concat cs) \<Longrightarrow> cstr (bytes s) (ekey e) (estr e) \<Longrightarrow> cstr (bytes s') (ekey e) (estr e)"
  shows "list_all2 (\<lambda>p c. eseg (entry_mem s') (bytes s') p c NULL) bs cs"
proof (rule list.rel_mono_strong [OF assms(1)])
  fix p c assume c: "c \<in> set cs" and seg: "eseg (entry_mem s) (bytes s) p c NULL"
  show "eseg (entry_mem s') (bytes s') p c NULL"
    by (rule eseg_cong [OF _ _ seg]) (use c assms(2,3) in auto)
qed

lemma map_rep_chain_upd:
  assumes "map_rep B s mp h (bs1 @ p # bs2) (cs1 @ c # cs2)" and "length cs1 = length bs1"
    and "map_mem s' mp = Some h'" and "map_hashSize h' = map_hashSize h" and "map_hashmap h' = map_hashmap h"
    and "bucket_mem s' (map_hashmap h) = Some (bs1 @ p' # bs2)" and "eseg (entry_mem s') (bytes s') p' c' NULL"
    and "list_all2 (\<lambda>p c. eseg (entry_mem s') (bytes s') p c NULL) bs1 cs1"
    and "list_all2 (\<lambda>p c. eseg (entry_mem s') (bytes s') p c NULL) bs2 cs2"
    and "\<forall>e \<in> set c'. slot (map_hashSize h) (estr e) = length cs1" and "entries_ok B' s' (concat cs1 @ c' @ concat cs2)"
  shows "map_rep B' s' mp h' (bs1 @ p' # bs2) (cs1 @ c' # cs2)"
  using assms by (simp add: map_rep_def placed_append list_all2_append)

lemma entries_ok_value:
  assumes "entries_ok B s (A @ e # C)" and "dom (entry_mem s') = dom (entry_mem s)" and "dom (map_mem s') = dom (map_mem s)"
    and "dom (bucket_mem s') = dom (bucket_mem s)"
  shows "entries_ok B s' (A @ Ent (eaddr e) (ekey e) (estr e) v # C)"
  using assms(1) unfolding entries_ok_def assms(2-4) by auto

lemma entries_ok_new:
  assumes ent: "entries_ok B s (A @ C)" and ok: "hash_ok lim B s" and new: "B a = None" "B q = None" "a \<noteq> q"
    and x: "x \<notin> estr ` set (A @ C)" "length x + 1 < 2 ^ 64" and addrs: "eaddr ` set (A @ C) \<subseteq> dom (entry_mem s)"
    and s': "dom (entry_mem s') = insert a (dom (entry_mem s))" "dom (map_mem s') = dom (map_mem s)" "dom (bucket_mem s') = dom (bucket_mem s)"
  shows "entries_ok (B(a \<mapsto> k, q \<mapsto> of_nat (length x + 1))) s' (A @ Ent a q x v # C)"
proof -
  have typed: "dom (entry_mem s) \<union> dom (map_mem s) \<union> dom (bucket_mem s) \<subseteq> dom B" using ok by (simp add: hash_ok_def)
  have keys: "\<forall>e \<in> set (A @ C). B (ekey e) = Some (of_nat (length (estr e) + 1)) \<and> length (estr e) + 1 < 2 ^ 64 \<and>
       ekey e \<notin> dom (entry_mem s) \<union> dom (map_mem s) \<union> dom (bucket_mem s)" using ent by (simp add: entries_ok_def)
  have a: "a \<notin> dom (entry_mem s)" "a \<notin> eaddr ` set (A @ C)" using typed addrs new(1) by blast+
  have qa: "ekey e \<noteq> q \<and> ekey e \<noteq> a" if "e \<in> set (A @ C)" for e using keys that new by auto
  have q: "q \<notin> insert a (dom (entry_mem s)) \<union> dom (map_mem s) \<union> dom (bucket_mem s)" using typed new by blast
  have "distinct (List.map eaddr (A @ Ent a q x v # C))" "distinct (List.map estr (A @ Ent a q x v # C))"
    using ent a(2) x(1) by (auto simp: entries_ok_def)
  moreover have "distinct (List.map ekey (A @ Ent a q x v # C))" using ent qa by (fastforce simp: entries_ok_def)
  moreover have "\<forall>e \<in> set (A @ Ent a q x v # C). (B(a \<mapsto> k, q \<mapsto> of_nat (length x + 1))) (ekey e) = Some (of_nat (length (estr e) + 1)) \<and>
      length (estr e) + 1 < 2 ^ 64 \<and> ekey e \<notin> insert a (dom (entry_mem s)) \<union> dom (map_mem s) \<union> dom (bucket_mem s)"
  proof
    fix e assume "e \<in> set (A @ Ent a q x v # C)"
    then consider "e = Ent a q x v" | "e \<in> set (A @ C)" by auto
    then show "(B(a \<mapsto> k, q \<mapsto> of_nat (length x + 1))) (ekey e) = Some (of_nat (length (estr e) + 1)) \<and>
        length (estr e) + 1 < 2 ^ 64 \<and> ekey e \<notin> insert a (dom (entry_mem s)) \<union> dom (map_mem s) \<union> dom (bucket_mem s)"
    proof cases
      case 1
      then show ?thesis using x(2) q by simp
    next
      case 2
      then show ?thesis using keys qa [OF 2] by simp
    qed
  qed
  ultimately show ?thesis unfolding entries_ok_def s' by blast
qed

lemma hash_ok_new:
  assumes ok: "hash_ok lim B s" and "heap_ok lim (B(a \<mapsto> k, q \<mapsto> j)) s'" and new: "B a = None" "a \<noteq> q"
    and s': "dom (entry_mem s') = insert a (dom (entry_mem s))" "dom (map_mem s') = dom (map_mem s)" "dom (bucket_mem s') = dom (bucket_mem s)"
  shows "hash_ok lim (B(a \<mapsto> k, q \<mapsto> j)) s'"
proof -
  have "a \<notin> dom (map_mem s)" "a \<notin> dom (bucket_mem s)" using ok new(1) by (auto simp: hash_ok_def)
  moreover have d: "dom (B(a \<mapsto> k, q \<mapsto> j)) = insert q (insert a (dom B))" by auto
  ultimately show ?thesis using assms(2) ok unfolding hash_ok_def s' d by simp blast
qed

lemma entries_ok_del:
  assumes ent: "entries_ok B s (A @ e # C)" and addrs: "eaddr e \<in> dom (entry_mem s)"
    and s': "dom (entry_mem s') = dom (entry_mem s) - {eaddr e}" "dom (map_mem s') = dom (map_mem s)" "dom (bucket_mem s') = dom (bucket_mem s)"
  shows "entries_ok (B(ekey e := None, eaddr e := None)) s' (A @ C)"
proof -
  let ?D = "dom (entry_mem s) \<union> dom (map_mem s) \<union> dom (bucket_mem s)"
  have k1: "ekey e \<notin> ekey ` set (A @ C)" using ent by (auto simp: entries_ok_def)
  have k2: "\<forall>d \<in> set (A @ C). B (ekey d) = Some (of_nat (length (estr d) + 1)) \<and> length (estr d) + 1 < 2 ^ 64 \<and> ekey d \<notin> ?D"
    using ent by (simp add: entries_ok_def)
  have "(B(ekey e := None, eaddr e := None)) (ekey d) = Some (of_nat (length (estr d) + 1)) \<and> length (estr d) + 1 < 2 ^ 64 \<and>
      ekey d \<notin> dom (entry_mem s) - {eaddr e} \<union> dom (map_mem s) \<union> dom (bucket_mem s)" if d: "d \<in> set (A @ C)" for d
  proof -
    have "ekey d \<noteq> ekey e" using k1 d by (metis imageI)
    moreover have "ekey d \<noteq> eaddr e" using k2 d addrs by (metis UnI1)
    ultimately show ?thesis using k2 d by simp
  qed
  moreover have "distinct (List.map eaddr (A @ C))" "distinct (List.map ekey (A @ C))" "distinct (List.map estr (A @ C))"
    using ent by (auto simp: entries_ok_def)
  ultimately show ?thesis unfolding entries_ok_def s' by blast
qed

lemma hash_ok_del:
  assumes ok: "hash_ok lim B s" and "heap_ok lim (B(k := None, a := None)) s'" and "a \<in> dom (entry_mem s)"
    and "k \<notin> dom (entry_mem s) \<union> dom (map_mem s) \<union> dom (bucket_mem s)"
    and s': "dom (entry_mem s') = dom (entry_mem s) - {a}" "dom (map_mem s') = dom (map_mem s)" "dom (bucket_mem s') = dom (bucket_mem s)"
  shows "hash_ok lim (B(k := None, a := None)) s'"
proof -
  have d: "dom (B(k := None, a := None)) = dom B - {k, a}" by auto
  show ?thesis using assms(1-4) unfolding hash_ok_def s' d by simp blast
qed

section \<open>Insertion\<close>

text \<open>The state in which an operation releases the lock of a map it has changed.\<close>

lemma is_map_unlock:
  assumes "hash_ok lim B s" and "map_rep B s mp h bs cs"
  shows "\<exists>s'. map_unlock mp s = Inr s' \<and> is_map lim B s' mp (emap (concat cs)) \<and> bytes s' = bytes s \<and> in_use s' = in_use s
    \<and> MEM_PHYS_OFFSET s' = MEM_PHYS_OFFSET s"
proof -
  let ?h = "h\<lparr>map_lk := (map_lk h)\<lparr>lock := 0\<rparr>\<rparr>"
  let ?s = "(arch_cpu_decrement_preempt_counter s)\<lparr>map_mem := (map_mem s)(mp \<mapsto> ?h)\<rparr>"
  have mp: "map_mem s mp = Some h" using assms(2) by (simp add: map_rep_def)
  then have "map_rep B ?s mp ?h bs cs" by (intro map_rep_lock [OF assms(2)]) auto
  moreover have "hash_ok lim B ?s"
    using assms(1) mp by (intro hash_ok_same [OF assms(1)]) (auto simp: hash_ok_def)
  ultimately have "is_map lim B ?s mp (emap (concat cs))"
    unfolding is_map_def by (intro conjI exI [of _ ?h] exI [of _ bs] exI [of _ cs]) simp_all
  moreover have "map_unlock mp s = Inr ?s" using mp by (rule map_unlock_eq)
  ultimately show ?thesis by (auto simp: in_use_def arch_cpu_decrement_preempt_counter_def)
qed

lemma map_rep_taken:
  assumes "hash_ok lim B s" and "map_rep B s mp h bs cs"
  shows "hash_ok lim B (map_taken fn ln mp h s)"
    and "map_rep B (map_taken fn ln mp h s) mp (h\<lparr>map_lk := (map_lk h)\<lparr>lock := 1, last_acquirer := acquirer_of (''lists.c'', fn, ln) s\<rparr>\<rparr>) bs cs"
proof -
  have mp: "map_mem s mp = Some h" using assms(2) by (simp add: map_rep_def)
  then show "map_rep B (map_taken fn ln mp h s) mp (h\<lparr>map_lk := (map_lk h)\<lparr>lock := 1, last_acquirer := acquirer_of (''lists.c'', fn, ln) s\<rparr>\<rparr>) bs cs"
    by (intro map_rep_lock [OF assms(2)]) auto
  show "hash_ok lim B (map_taken fn ln mp h s)"
    using assms(1) mp by (intro hash_ok_same [OF assms(1)]) (auto simp: hash_ok_def)
qed

text \<open>Replacing the value of an entry that is there.\<close>

lemma set_value:
  assumes ok: "hash_ok lim B s" and rep: "map_rep B s mp h (bs1 @ p # bs2) (cs1 @ (ys @ e # zs) # cs2)" and len: "length cs1 = length bs1"
    and e: "entry_mem s (eaddr e) = Some e0"
  shows "hash_ok lim B (s\<lparr>entry_mem := (entry_mem s)(eaddr e \<mapsto> e0\<lparr>entry_value := v\<rparr>)\<rparr>)"
    and "map_rep B (s\<lparr>entry_mem := (entry_mem s)(eaddr e \<mapsto> e0\<lparr>entry_value := v\<rparr>)\<rparr>) mp h (bs1 @ p # bs2)
      (cs1 @ (ys @ Ent (eaddr e) (ekey e) (estr e) v # zs) # cs2)"
proof -
  let ?s = "s\<lparr>entry_mem := (entry_mem s)(eaddr e \<mapsto> e0\<lparr>entry_value := v\<rparr>)\<rparr>" and ?e = "Ent (eaddr e) (ekey e) (estr e) v"
  have all: "list_all2 (\<lambda>p c. eseg (entry_mem s) (bytes s) p c NULL) (bs1 @ p # bs2) (cs1 @ (ys @ e # zs) # cs2)"
    and ent: "entries_ok B s (concat cs1 @ ys @ e # zs @ concat cs2)"
    and pl: "placed (\<lambda>e. slot (map_hashSize h) (estr e)) 0 (cs1 @ (ys @ e # zs) # cs2)"
    using rep by (simp_all add: map_rep_def)
  then have segs: "eseg (entry_mem s) (bytes s) p (ys @ e # zs) NULL"
    "list_all2 (\<lambda>p c. eseg (entry_mem s) (bytes s) p c NULL) bs1 cs1" "list_all2 (\<lambda>p c. eseg (entry_mem s) (bytes s) p c NULL) bs2 cs2"
    using len by (simp_all add: list_all2_append)
  have dist: "\<forall>d \<in> set (concat cs1 @ ys) \<union> set (zs @ concat cs2). eaddr d \<noteq> eaddr e"
    using ent by (intro distinct_apart) (simp add: entries_ok_def)
  then have notin: "\<forall>d \<in> set (concat cs1). eaddr d \<noteq> eaddr e" "\<forall>d \<in> set (concat cs2). eaddr d \<noteq> eaddr e"
    "eaddr e \<notin> eaddr ` set ys" "eaddr e \<notin> eaddr ` set zs"
    by auto
  have doms: "dom (entry_mem ?s) = dom (entry_mem s)" using e by auto
  show "hash_ok lim B ?s" using ok doms by (intro hash_ok_same [OF ok]) (auto simp: hash_ok_def)
  show "map_rep B ?s mp h (bs1 @ p # bs2) (cs1 @ (ys @ ?e # zs) # cs2)"
  proof (rule map_rep_chain_upd [OF rep len])
    show "eseg (entry_mem ?s) (bytes ?s) p (ys @ ?e # zs) NULL"
      using segs(1) notin e by (auto simp: eseg_append)
    show "list_all2 (\<lambda>p c. eseg (entry_mem ?s) (bytes ?s) p c NULL) bs1 cs1"
      by (rule chains_keep [OF segs(2)]) (use notin(1) in \<open>auto simp del: set_concat\<close>)
    show "list_all2 (\<lambda>p c. eseg (entry_mem ?s) (bytes ?s) p c NULL) bs2 cs2"
      by (rule chains_keep [OF segs(3)]) (use notin(2) in \<open>auto simp del: set_concat\<close>)
    show "\<forall>d \<in> set (ys @ ?e # zs). slot (map_hashSize h) (estr d) = length cs1" using pl by (auto simp: placed_append)
    have "entries_ok B ?s ((concat cs1 @ ys) @ ?e # zs @ concat cs2)"
      by (rule entries_ok_value [of B s]) (use ent doms in simp_all)
    then show "entries_ok B ?s (concat cs1 @ (ys @ ?e # zs) @ concat cs2)" by simp
  qed (use rep in \<open>simp_all add: map_rep_def\<close>)
qed

lemma map_rep_addrs:
  assumes "map_rep B s mp h bs cs"
  shows "eaddr ` set (concat cs) \<subseteq> dom (entry_mem s)"
proof -
  have "list_all2 (\<lambda>p c. eseg (entry_mem s) (bytes s) p c NULL) bs cs" using assms by (simp add: map_rep_def)
  then show ?thesis by (induction rule: list_all2_induct) (auto dest: eseg_dom)
qed

lemma map_rep_keys:
  assumes ok: "hash_ok lim B s" and rep: "map_rep B s mp h bs cs" and e: "e \<in> set (concat cs)" "cstr (bytes s) (ekey e) (estr e)"
    and keep: "\<forall>y. addr_held lim s y \<longrightarrow> bytes s' y = bytes s y"
  shows "cstr (bytes s') (ekey e) (estr e)"
proof (rule cstr_cong [OF e(2)])
  fix i assume i: "i \<le> length (estr e)"
  have "heap_ok lim B s" and "entries_ok B s (concat cs)" using ok rep by (simp_all add: hash_ok_def map_rep_def)
  then have "addr_held lim s (ekey e + of_nat i)"
    using e(1) i by (intro key_held [of lim B s _ "estr e"]) (auto simp: entries_ok_def simp del: set_concat)
  then show "bytes s' (ekey e + of_nat i) = bytes s (ekey e + of_nat i)" using keep by blast
qed

text \<open>Adding an entry at the end of the chain of its key.\<close>

lemma add_entry:
  assumes ok: "hash_ok lim B s" and rep: "map_rep B s mp h (bs1 @ p # bs2) (cs1 @ c # cs2)" and len: "length cs1 = length bs1"
    and x: "x \<notin> estr ` set (concat (cs1 @ c # cs2))" "length x + 1 < 2 ^ 64" "slot (map_hashSize h) x = length bs1"
    and new: "B a = None" "B q = None" "a \<noteq> q" "heap_ok lim (B(a \<mapsto> k, q \<mapsto> of_nat (length x + 1))) s'" "a \<noteq> NULL" "cstr (bytes s') q x"
    and keep: "\<forall>y. addr_held lim s y \<longrightarrow> bytes s' y = bytes s y" "map_mem s' = map_mem s"
    and ents: "\<forall>e \<in> set (concat cs1) \<union> set (concat cs2). entry_mem s' (eaddr e) = entry_mem s (eaddr e)"
      "eseg (entry_mem s') (bytes s') p' (c @ [Ent a q x v]) NULL" "dom (entry_mem s') = insert a (dom (entry_mem s))"
      "bucket_mem s' = (bucket_mem s)(map_hashmap h \<mapsto> bs1 @ p' # bs2)"
  shows "hash_ok lim (B(a \<mapsto> k, q \<mapsto> of_nat (length x + 1))) s'"
    and "map_rep (B(a \<mapsto> k, q \<mapsto> of_nat (length x + 1))) s' mp h (bs1 @ p' # bs2) (cs1 @ (c @ [Ent a q x v]) # cs2)"
    and "emap (concat (cs1 @ (c @ [Ent a q x v]) # cs2)) = (emap (concat (cs1 @ c # cs2)))(x \<mapsto> v)"
proof -
  let ?B = "B(a \<mapsto> k, q \<mapsto> of_nat (length x + 1))" and ?e = "Ent a q x v"
  have ent: "entries_ok B s ((concat cs1 @ c) @ concat cs2)"
    and pl: "placed (\<lambda>e. slot (map_hashSize h) (estr e)) 0 (cs1 @ c # cs2)"
    and all: "list_all2 (\<lambda>p c. eseg (entry_mem s) (bytes s) p c NULL) (bs1 @ p # bs2) (cs1 @ c # cs2)"
    and bm: "bucket_mem s (map_hashmap h) = Some (bs1 @ p # bs2)"
    using rep by (simp_all add: map_rep_def)
  then have segs: "eseg (entry_mem s) (bytes s) p c NULL"
    "list_all2 (\<lambda>p c. eseg (entry_mem s) (bytes s) p c NULL) bs1 cs1" "list_all2 (\<lambda>p c. eseg (entry_mem s) (bytes s) p c NULL) bs2 cs2"
    using len by (simp_all add: list_all2_append)
  have addrs: "eaddr ` set ((concat cs1 @ c) @ concat cs2) \<subseteq> dom (entry_mem s)" using map_rep_addrs [OF rep] by simp
  have doms: "dom (map_mem s') = dom (map_mem s)" "dom (bucket_mem s') = dom (bucket_mem s)" using keep(2) ents(4) bm by auto
  have keys: "cstr (bytes s') (ekey e) (estr e)" if "e \<in> set ((concat cs1 @ c) @ concat cs2)" "cstr (bytes s) (ekey e) (estr e)" for e
    using map_rep_keys [OF ok rep _ that(2) keep(1)] that(1) by simp
  show "hash_ok lim ?B s'" using hash_ok_new [OF ok new(4,1,3) ents(3) doms] .
  show "map_rep ?B s' mp h (bs1 @ p' # bs2) (cs1 @ (c @ [?e]) # cs2)"
  proof (rule map_rep_chain_upd [OF rep len])
    show "list_all2 (\<lambda>p c. eseg (entry_mem s') (bytes s') p c NULL) bs1 cs1"
      by (rule chains_keep [OF segs(2)]) (use ents(1) keys in auto)
    show "list_all2 (\<lambda>p c. eseg (entry_mem s') (bytes s') p c NULL) bs2 cs2"
      by (rule chains_keep [OF segs(3)]) (use ents(1) keys in auto)
    show "\<forall>d \<in> set (c @ [?e]). slot (map_hashSize h) (estr d) = length cs1" using pl x(3) len by (auto simp: placed_append)
    have "entries_ok ?B s' ((concat cs1 @ c) @ ?e # concat cs2)"
      using x(1) by (intro entries_ok_new [OF ent ok new(1-3) _ x(2) addrs ents(3) doms]) auto
    then show "entries_ok ?B s' (concat cs1 @ (c @ [?e]) @ concat cs2)" by simp
  qed (use rep keep(2) ents(2,4) in \<open>simp_all add: map_rep_def\<close>)
  have "estr ?e \<notin> estr ` set (concat cs1 @ c)" using x(1) by auto
  from emap_insert [OF this, of "concat cs2"] show "emap (concat (cs1 @ (c @ [?e]) # cs2)) = (emap (concat (cs1 @ c # cs2)))(x \<mapsto> v)" by simp
qed

lemma hashmap_set_ok:
  assumes mp: "is_map lim B s mp f" and key: "cstr (bytes s) key x" and len: "length x + 1 < 2 ^ 64"
    and held: "\<forall>i \<le> length x. addr_held lim s (key + of_nat i)"
    and room: "spacious s (2 + (pages_of (of_nat (length x + 1)) + 1))"
  shows "\<exists>B' s'. hashmap_set mp key v s = Inr (case f x of Some w \<Rightarrow> w | None \<Rightarrow> NULL, s') \<and> is_map lim B' s' mp (f(x \<mapsto> v))
    \<and> (\<forall>y. addr_held lim s y \<longrightarrow> bytes s' y = bytes s y \<and> addr_held lim s' y)"
proof -
  obtain h0 bs cs where h0: "lock (map_lk h0) = 0" and rep0: "map_rep B s mp h0 bs cs" and f: "f = emap (concat cs)" and ok0: "hash_ok lim B s"
    using mp by (auto simp: is_map_def)
  define h s1 where "h = h0\<lparr>map_lk := (map_lk h0)\<lparr>lock := 1, last_acquirer := acquirer_of (''lists.c'', ''hashmap_set'', 368) s\<rparr>\<rparr>"
    and "s1 = map_taken ''hashmap_set'' 368 mp h0 s"
  have ok: "hash_ok lim B s1" and rep: "map_rep B s1 mp h bs cs"
    unfolding s1_def h_def using map_rep_taken [OF ok0 rep0] by simp_all
  have s1: "bytes s1 = bytes s" "\<And>n. spacious s1 n = spacious s n" "\<And>y. addr_held lim s1 y = addr_held lim s y" by (simp_all add: s1_def)
  have lk: "map_lock ''hashmap_set'' 368 mp s = Inr s1"
    using h0 rep0 by (simp add: s1_def map_rep_def map_lock_eq)
  from rep obtain bs1 p bs2 cs1 c cs2 where sp: "bs = bs1 @ p # bs2" "cs = cs1 @ c # cs2" "length bs1 = slot (map_hashSize h) x"
    "length cs1 = length bs1" "length cs2 = length bs2" "eseg (entry_mem s1) (bytes s1) p c NULL"
    "list_all2 (\<lambda>p c. eseg (entry_mem s1) (bytes s1) p c NULL) bs1 cs1" "list_all2 (\<lambda>p c. eseg (entry_mem s1) (bytes s1) p c NULL) bs2 cs2"
    "x \<notin> estr ` set (concat cs1)" "x \<notin> estr ` set (concat cs2)"
    by (rule map_rep_chain)
  have m: "map_mem s1 mp = Some h" and b: "bucket_mem s1 (map_hashmap h) = Some (bs1 @ p # bs2)" and n: "map_hashSize h \<noteq> 0"
    using rep sp(1) by (simp_all add: map_rep_def)
  note at = bucket_at [OF b sp(3) n] and rep = rep [unfolded sp(1,2)]
  have key1: "cstr (bytes s1) key x" using key s1(1) by simp
  show ?thesis
  proof (cases c x rule: chain_cases)
    case (found ys e zs)
    obtain n' where e: "entry_mem s1 (eaddr e) = Some \<lparr>entry_key = ekey e, entry_value = evalue e, entry_next = n'\<rparr>" "eaddr e \<noteq> NULL"
      using sp(6) found(1) by (auto simp: eseg_append)
    let ?s2 = "s1\<lparr>entry_mem := (entry_mem s1)(eaddr e \<mapsto> \<lparr>entry_key = ekey e, entry_value = evalue e, entry_next = n'\<rparr>\<lparr>entry_value := v\<rparr>)\<rparr>"
    note upd = set_value [OF ok rep [unfolded found(1)] sp(4) e(1), of v]
    obtain s3 where s3: "map_unlock mp ?s2 = Inr s3" "is_map lim B s3 mp (emap (concat (cs1 @ (ys @ Ent (eaddr e) (ekey e) (estr e) v # zs) # cs2)))"
      "bytes s3 = bytes ?s2" "in_use s3 = in_use ?s2" "MEM_PHYS_OFFSET s3 = MEM_PHYS_OFFSET ?s2"
      using is_map_unlock [OF upd] by blast
    have notin: "estr e \<notin> estr ` set (concat cs1 @ ys)" using sp(9) found by auto
    note ins = emap_insert [OF this, of "zs @ concat cs2"]
    have "estr (Ent (eaddr e) (ekey e) (estr e) v) \<notin> estr ` set (concat cs1 @ ys)" using notin by simp
    note ins' = emap_insert [OF this, of "zs @ concat cs2"]
    have fx: "f x = Some (evalue e)" and f': "emap (concat (cs1 @ (ys @ Ent (eaddr e) (ekey e) (estr e) v # zs) # cs2)) = f(x \<mapsto> v)"
      using ins ins' sp(2) found by (simp_all add: f)
    have "p \<noteq> NULL" using sp(6) eseg_first_null [OF sp(6)] found(1) by simp
    moreover have "set_walk (entry_mem s1) (bytes s1) key p p = Some (Inr (eaddr e, eaddr e))"
      using sp(6) key1 found by (intro walk_found(2)) auto
    ultimately have "hashmap_set mp key v s = Inr (evalue e, s3)"
      using m at e s3(1) by (simp add: hashmap_set_def hash_cstr [OF key] lk ld_map_def ld_entry_def up_entry_def)
    then show ?thesis using fx f' s3(2-5) s1(1) s1(3) by (intro exI [of _ B] exI [of _ s3]) (simp add: addr_held_def in_use_def)
  next
    case none
    have x: "x \<notin> estr ` set (concat (cs1 @ c # cs2))" using none sp(9,10) by auto
    then have fx: "f x = None" using sp(2) by (simp add: f emap_None)
    have "\<forall>i \<le> length x. addr_held lim s1 (key + of_nat i)" "spacious s1 (2 + (pages_of (of_nat (length x + 1)) + 1))"
      using held room s1 by simp_all
    with ok key1 len obtain a q s2 where s2: "entry_fill key v s1 = Inr (a, s2)" "a \<noteq> NULL" "B a = None" "B q = None" "a \<noteq> q"
      "heap_ok lim (B(a \<mapsto> sizeof_hashmap_entry_t, q \<mapsto> of_nat (length x + 1))) s2"
      "entry_mem s2 = (entry_mem s1)(a \<mapsto> \<lparr>entry_key = q, entry_value = v, entry_next = NULL\<rparr>)"
      "map_mem s2 = map_mem s1" "bucket_mem s2 = bucket_mem s1" "cstr (bytes s2) q x"
      "\<forall>y. addr_held lim s1 y \<longrightarrow> bytes s2 y = bytes s1 y" "\<forall>y. addr_held lim s1 y \<longrightarrow> addr_held lim s2 y"
      by (rule entry_fill_ok)
    let ?B = "B(a \<mapsto> sizeof_hashmap_entry_t, q \<mapsto> of_nat (length x + 1))"
    have a1: "a \<notin> dom (entry_mem s1)" using ok s2(3) by (auto simp: hash_ok_def)
    have d2: "eaddr d \<in> dom (entry_mem s1)" if "d \<in> set (concat cs1) \<union> set c \<union> set (concat cs2)" for d
    proof -
      have "d \<in> set (concat (cs1 @ c # cs2))" using that by auto
      then show ?thesis using map_rep_addrs [OF rep] by blast
    qed
    have addr: "\<forall>d \<in> set (concat cs1) \<union> set c \<union> set (concat cs2). eaddr d \<noteq> a" using d2 a1 by metis
    have d1: "distinct (List.map eaddr (concat (cs1 @ c # cs2)))" using rep by (simp add: map_rep_def entries_ok_def)
    have keys: "cstr (bytes s2) (ekey d) (estr d)" if "d \<in> set c" "cstr (bytes s1) (ekey d) (estr d)" for d
      using map_rep_keys [OF ok rep _ that(2) s2(11)] that(1) by simp
    have "\<exists>s3 p'. (hashmap_set mp key v s = bnd (map_unlock mp s3) (\<lambda>s. Inr (NULL, s))) \<and> heap_ok lim ?B s3 \<and> bytes s3 = bytes s2
        \<and> map_mem s3 = map_mem s1 \<and> (\<forall>e \<in> set (concat cs1) \<union> set (concat cs2). entry_mem s3 (eaddr e) = entry_mem s1 (eaddr e))
        \<and> eseg (entry_mem s3) (bytes s3) p' (c @ [Ent a q x v]) NULL \<and> dom (entry_mem s3) = insert a (dom (entry_mem s1))
        \<and> bucket_mem s3 = (bucket_mem s1)(map_hashmap h \<mapsto> bs1 @ p' # bs2) \<and> in_use s3 = in_use s2 \<and> MEM_PHYS_OFFSET s3 = MEM_PHYS_OFFSET s2"
    proof (cases c rule: rev_cases)
      case Nil
      then have p: "p = NULL" using sp(6) by simp
      have b2: "bucket_mem s2 (map_hashmap h) = Some (bs1 @ p # bs2)" using b s2(9) by simp
      note at2 = bucket_at [OF b2 sp(3) n]
      show ?thesis
      proof (intro exI conjI)
        show "hashmap_set mp key v s = bnd (map_unlock mp (s2\<lparr>bucket_mem := (bucket_mem s2)(map_hashmap h \<mapsto> bs1 @ a # bs2)\<rparr>)) (\<lambda>s. Inr (NULL, s))"
          using m at p s2(1,8) at2 by (simp add: hashmap_set_def hash_cstr [OF key] lk ld_map_def)
        show "\<forall>e \<in> set (concat cs1) \<union> set (concat cs2). entry_mem (s2\<lparr>bucket_mem := (bucket_mem s2)(map_hashmap h \<mapsto> bs1 @ a # bs2)\<rparr>) (eaddr e)
            = entry_mem s1 (eaddr e)"
          using addr s2(7) by auto
      qed (use s2 Nil in \<open>auto simp: in_use_def\<close>)
    next
      case (snoc c0 l)
      have l: "entry_mem s1 (eaddr l) = Some \<lparr>entry_key = ekey l, entry_value = evalue l, entry_next = NULL\<rparr>" "eaddr l \<noteq> NULL"
        and seg0: "eseg (entry_mem s1) (bytes s1) p c0 (eaddr l)"
        using sp(6) snoc by (auto simp: eseg_append)
      have la: "eaddr l \<noteq> a" using l(1) a1 by auto
      have ne: "p \<noteq> NULL" using eseg_first_null [OF sp(6)] snoc by simp
      have walk: "set_walk (entry_mem s1) (bytes s1) key p p = Some (Inr (NULL, eaddr l))"
        using walk_end(2) [OF sp(6) key1 none, of p] snoc by (simp add: last_entry_def)
      let ?e = "(entry_mem s1)(a \<mapsto> \<lparr>entry_key = q, entry_value = v, entry_next = NULL\<rparr>,
        eaddr l \<mapsto> \<lparr>entry_key = ekey l, entry_value = evalue l, entry_next = a\<rparr>)"
      have dist: "\<forall>d \<in> set (concat cs1) \<union> set c0 \<union> set (concat cs2). eaddr d \<noteq> eaddr l"
        using distinct_apart [of eaddr "concat cs1 @ c0" l "concat cs2"] d1 snoc by auto
      have "eseg ?e (bytes s2) p c0 (eaddr l)"
        by (rule eseg_cong [OF _ _ seg0]) (use dist addr snoc keys in auto)
      moreover have "cstr (bytes s2) (ekey l) (estr l)" using keys sp(6) snoc by (auto simp: eseg_append)
      ultimately have seg: "eseg ?e (bytes s2) p (c @ [Ent a q x v]) NULL"
        using l la s2(2,10) snoc by (auto simp: eseg_append)
      show ?thesis
      proof (intro exI conjI)
        show "hashmap_set mp key v s = bnd (map_unlock mp (s2\<lparr>entry_mem := ?e\<rparr>)) (\<lambda>s. Inr (NULL, s))"
          using m at ne walk l la s2(1,7) by (simp add: hashmap_set_def hash_cstr [OF key] lk ld_map_def up_entry_def ld_entry_def)
        show "eseg (entry_mem (s2\<lparr>entry_mem := ?e\<rparr>)) (bytes (s2\<lparr>entry_mem := ?e\<rparr>)) p (c @ [Ent a q x v]) NULL" using seg by simp
        show "dom (entry_mem (s2\<lparr>entry_mem := ?e\<rparr>)) = insert a (dom (entry_mem s1))" using l(1) by auto
      qed (use s2 b dist addr in \<open>auto simp: in_use_def fun_upd_idem\<close>)
    qed
    then obtain s3 p' where s3: "hashmap_set mp key v s = bnd (map_unlock mp s3) (\<lambda>s. Inr (NULL, s))" "heap_ok lim ?B s3" "bytes s3 = bytes s2"
      "map_mem s3 = map_mem s1" "\<forall>e \<in> set (concat cs1) \<union> set (concat cs2). entry_mem s3 (eaddr e) = entry_mem s1 (eaddr e)"
      "eseg (entry_mem s3) (bytes s3) p' (c @ [Ent a q x v]) NULL" "dom (entry_mem s3) = insert a (dom (entry_mem s1))"
      "bucket_mem s3 = (bucket_mem s1)(map_hashmap h \<mapsto> bs1 @ p' # bs2)" "in_use s3 = in_use s2" "MEM_PHYS_OFFSET s3 = MEM_PHYS_OFFSET s2"
      by blast
    have cs3: "cstr (bytes s3) q x" and keep: "\<forall>y. addr_held lim s1 y \<longrightarrow> bytes s3 y = bytes s1 y" using s2(10,11) s3(3) by simp_all
    note add = add_entry [OF ok rep sp(4) x len sp(3) [symmetric] s2(3-5) s3(2) s2(2) cs3 keep s3(4-8)]
    obtain s4 where s4: "map_unlock mp s3 = Inr s4" "is_map lim ?B s4 mp (emap (concat (cs1 @ (c @ [Ent a q x v]) # cs2)))"
      "bytes s4 = bytes s3" "in_use s4 = in_use s3" "MEM_PHYS_OFFSET s4 = MEM_PHYS_OFFSET s3"
      using is_map_unlock [OF add(1,2)] by blast
    have "\<forall>y. addr_held lim s y \<longrightarrow> bytes s4 y = bytes s y \<and> addr_held lim s4 y"
      using s2(11,12) s3(3,9,10) s4(3-5) s1 by (simp add: addr_held_def)
    then show ?thesis using s3(1) s4(1,2) add(3) fx sp(2) by (intro exI [of _ ?B] exI [of _ s4]) (simp add: f)
  qed
qed

section \<open>Removal\<close>

text \<open>Unlinking an entry, from its predecessor or from the array, and releasing it with its key.\<close>

lemma drop_entry:
  assumes ok: "hash_ok lim B s" and rep: "map_rep B s mp h (bs1 @ p # bs2) (cs1 @ (ys @ e # zs) # cs2)" and len: "length cs1 = length bs1"
    and heap: "heap_ok lim (B(ekey e := None, eaddr e := None)) s'"
    and same: "bytes s' = bytes s" "map_mem s' = map_mem s" "bucket_mem s' = (bucket_mem s)(map_hashmap h \<mapsto> bs1 @ p' # bs2)"
    and ents: "\<forall>d \<in> set (concat cs1) \<union> set (concat cs2). entry_mem s' (eaddr d) = entry_mem s (eaddr d)"
      "eseg (entry_mem s') (bytes s) p' (ys @ zs) NULL" "dom (entry_mem s') = dom (entry_mem s) - {eaddr e}"
  shows "hash_ok lim (B(ekey e := None, eaddr e := None)) s'"
    and "map_rep (B(ekey e := None, eaddr e := None)) s' mp h (bs1 @ p' # bs2) (cs1 @ (ys @ zs) # cs2)"
    and "emap (concat (cs1 @ (ys @ zs) # cs2)) = (emap (concat (cs1 @ (ys @ e # zs) # cs2)))(estr e := None)"
proof -
  let ?B = "B(ekey e := None, eaddr e := None)"
  have ent: "entries_ok B s ((concat cs1 @ ys) @ e # zs @ concat cs2)"
    and pl: "placed (\<lambda>e. slot (map_hashSize h) (estr e)) 0 (cs1 @ (ys @ e # zs) # cs2)"
    and all: "list_all2 (\<lambda>p c. eseg (entry_mem s) (bytes s) p c NULL) (bs1 @ p # bs2) (cs1 @ (ys @ e # zs) # cs2)"
    and bm: "bucket_mem s (map_hashmap h) = Some (bs1 @ p # bs2)"
    using rep by (simp_all add: map_rep_def)
  then have segs: "list_all2 (\<lambda>p c. eseg (entry_mem s) (bytes s) p c NULL) bs1 cs1" "list_all2 (\<lambda>p c. eseg (entry_mem s) (bytes s) p c NULL) bs2 cs2"
    using len by (simp_all add: list_all2_append)
  have ea: "eaddr e \<in> dom (entry_mem s)" using map_rep_addrs [OF rep] by simp
  have doms: "dom (map_mem s') = dom (map_mem s)" "dom (bucket_mem s') = dom (bucket_mem s)" using same bm by auto
  show "hash_ok lim ?B s'"
    using ent by (intro hash_ok_del [OF ok heap ea _ ents(3) doms]) (simp add: entries_ok_def)
  show "map_rep ?B s' mp h (bs1 @ p' # bs2) (cs1 @ (ys @ zs) # cs2)"
  proof (rule map_rep_chain_upd [OF rep len])
    show "list_all2 (\<lambda>p c. eseg (entry_mem s') (bytes s') p c NULL) bs1 cs1"
      by (rule chains_keep [OF segs(1)]) (use ents(1) same(1) in auto)
    show "list_all2 (\<lambda>p c. eseg (entry_mem s') (bytes s') p c NULL) bs2 cs2"
      by (rule chains_keep [OF segs(2)]) (use ents(1) same(1) in auto)
    show "\<forall>d \<in> set (ys @ zs). slot (map_hashSize h) (estr d) = length cs1" using pl by (auto simp: placed_append)
    have "entries_ok ?B s' ((concat cs1 @ ys) @ zs @ concat cs2)" by (rule entries_ok_del [OF ent ea ents(3) doms])
    then show "entries_ok ?B s' (concat cs1 @ (ys @ zs) @ concat cs2)" by simp
  qed (use rep same ents(2) in \<open>simp_all add: map_rep_def\<close>)
  have "distinct (List.map estr ((concat cs1 @ ys) @ e # zs @ concat cs2))" using ent by (simp add: entries_ok_def)
  from distinct_apart [OF this] have "estr e \<notin> estr ` set ((concat cs1 @ ys) @ zs @ concat cs2)" by (metis imageE set_append)
  from emap_delete [OF this] show "emap (concat (cs1 @ (ys @ zs) # cs2)) = (emap (concat (cs1 @ (ys @ e # zs) # cs2)))(estr e := None)" by simp
qed

lemma release_entry:
  assumes "heap_ok lim B s" and "B k = Some i" and "B a = Some j" and "a \<noteq> k"
  obtains s1 s' where "kfree k s = Inr s1" and "free_entry a s1 = Inr s'" and "heap_ok lim (B(k := None, a := None)) s'"
    and "bytes s' = bytes s" and "map_mem s' = map_mem s" and "bucket_mem s' = bucket_mem s" and "entry_mem s' = (entry_mem s)(a := None)"
proof -
  from assms(1,2) obtain s1 where s1: "kfree k s = Inr s1" "heap_ok lim (B(k := None)) s1" "pmm_frame s s1" "bytes s1 = bytes s"
    "in_use s1 = in_use s - block_frames s k i"
    by (rule kfree_ok)
  have "(B(k := None)) a = Some j" using assms(3,4) by simp
  with s1(2) obtain s2 where s2: "kfree a s1 = Inr s2" "heap_ok lim (B(k := None, a := None)) s2" "pmm_frame s1 s2" "bytes s2 = bytes s1"
    "in_use s2 = in_use s1 - block_frames s1 a j"
    by (rule kfree_ok)
  have fr: "klist_frame s s2" using frame_of_pmm(1) [OF s1(3)] frame_of_pmm(1) [OF s2(3)] by (rule klist_frame_trans)
  show ?thesis
  proof (rule that [OF s1(1)])
    show "free_entry a s1 = Inr (s2\<lparr>entry_mem := (entry_mem s2)(a := None)\<rparr>)" using s2(1) by (simp add: free_entry_def)
  qed (use s1(4) s2(2,4) klist_frame_hash [OF fr] in simp_all)
qed

lemma hashmap_remove_ok:
  assumes mp: "is_map lim B s mp f" and key: "cstr (bytes s) key x"
  shows "\<exists>B' s'. hashmap_remove mp key s = Inr (case f x of Some w \<Rightarrow> w | None \<Rightarrow> NULL, s') \<and> is_map lim B' s' mp (f(x := None))
    \<and> bytes s' = bytes s \<and> (if f x = None then B' = B else \<exists>a k. a \<noteq> k \<and> {a, k} \<subseteq> dom B \<and> B' = B(k := None, a := None))"
proof -
  obtain h0 bs cs where h0: "lock (map_lk h0) = 0" and rep0: "map_rep B s mp h0 bs cs" and f: "f = emap (concat cs)" and ok0: "hash_ok lim B s"
    using mp by (auto simp: is_map_def)
  define h s1 where "h = h0\<lparr>map_lk := (map_lk h0)\<lparr>lock := 1, last_acquirer := acquirer_of (''lists.c'', ''hashmap_remove'', 432) s\<rparr>\<rparr>"
    and "s1 = map_taken ''hashmap_remove'' 432 mp h0 s"
  have ok: "hash_ok lim B s1" and rep: "map_rep B s1 mp h bs cs"
    unfolding s1_def h_def using map_rep_taken [OF ok0 rep0] by simp_all
  have s1: "bytes s1 = bytes s" by (simp add: s1_def)
  have lk: "map_lock ''hashmap_remove'' 432 mp s = Inr s1"
    using h0 rep0 by (simp add: s1_def map_rep_def map_lock_eq)
  from rep obtain bs1 p bs2 cs1 c cs2 where sp: "bs = bs1 @ p # bs2" "cs = cs1 @ c # cs2" "length bs1 = slot (map_hashSize h) x"
    "length cs1 = length bs1" "length cs2 = length bs2" "eseg (entry_mem s1) (bytes s1) p c NULL"
    "list_all2 (\<lambda>p c. eseg (entry_mem s1) (bytes s1) p c NULL) bs1 cs1" "list_all2 (\<lambda>p c. eseg (entry_mem s1) (bytes s1) p c NULL) bs2 cs2"
    "x \<notin> estr ` set (concat cs1)" "x \<notin> estr ` set (concat cs2)"
    by (rule map_rep_chain)
  have m: "map_mem s1 mp = Some h" and b: "bucket_mem s1 (map_hashmap h) = Some (bs1 @ p # bs2)" and n: "map_hashSize h \<noteq> 0"
    using rep sp(1) by (simp_all add: map_rep_def)
  note at = bucket_at [OF b sp(3) n] and rep' = rep and rep = rep [unfolded sp(1,2)]
  have key1: "cstr (bytes s1) key x" using key s1 by simp
  show ?thesis
  proof (cases c x rule: chain_cases)
    case (found ys e zs)
    obtain n' where e: "entry_mem s1 (eaddr e) = Some \<lparr>entry_key = ekey e, entry_value = evalue e, entry_next = n'\<rparr>" "eaddr e \<noteq> NULL"
      and segz: "eseg (entry_mem s1) (bytes s1) n' zs NULL" and segy: "eseg (entry_mem s1) (bytes s1) p ys (eaddr e)"
      using sp(6) found(1) by (auto simp: eseg_append)
    have walk: "remove_walk (entry_mem s1) (bytes s1) key p NULL = Some (Inr (eaddr e, last_entry NULL ys))"
      using sp(6) key1 found by (intro walk_found(3)) auto
    have ent: "entries_ok B s1 ((concat cs1 @ ys) @ e # zs @ concat cs2)" using rep found(1) by (simp add: map_rep_def)
    then have dist: "\<forall>d \<in> set (concat cs1 @ ys) \<union> set (zs @ concat cs2). eaddr d \<noteq> eaddr e"
      by (intro distinct_apart) (simp add: entries_ok_def)
    have Be: "B (ekey e) \<noteq> None" "B (eaddr e) \<noteq> None" and ne: "eaddr e \<noteq> ekey e"
      using ent ok e(1) by (auto simp: entries_ok_def hash_ok_def)
    then obtain i j where Bij: "B (ekey e) = Some i" "B (eaddr e) = Some j" by blast
    have "\<exists>s2 p' le. (if last_entry NULL ys \<noteq> NULL then up_entry (last_entry NULL ys) (\<lambda>l. l\<lparr>entry_next := n'\<rparr>) s1
          else st_bucket (map_hashmap h) (ucast (hash_of x) mod map_hashSize h) n' s1) = Inr s2
        \<and> heap_ok lim B s2 \<and> bytes s2 = bytes s1 \<and> map_mem s2 = map_mem s1 \<and> entry_mem s2 = le
        \<and> (\<forall>d \<in> set (concat cs1) \<union> set (concat cs2) \<union> {e}. le (eaddr d) = entry_mem s1 (eaddr d)) \<and> dom le = dom (entry_mem s1)
        \<and> eseg (le(eaddr e := None)) (bytes s1) p' (ys @ zs) NULL \<and> bucket_mem s2 = (bucket_mem s1)(map_hashmap h \<mapsto> bs1 @ p' # bs2)"
    proof (cases ys rule: rev_cases)
      case Nil
      have "eaddr e \<notin> eaddr ` set zs" using dist by auto
      then have seg: "eseg ((entry_mem s1)(eaddr e := None)) (bytes s1) n' (ys @ zs) NULL" using segz Nil by simp
      show ?thesis
        by (rule exI [of _ "s1\<lparr>bucket_mem := (bucket_mem s1)(map_hashmap h \<mapsto> bs1 @ n' # bs2)\<rparr>"])
          (use Nil at seg ok in \<open>simp add: hash_ok_def\<close>)
    next
      case (snoc y0 l)
      have l: "entry_mem s1 (eaddr l) = Some \<lparr>entry_key = ekey l, entry_value = evalue l, entry_next = eaddr e\<rparr>" "eaddr l \<noteq> NULL"
        and str: "cstr (bytes s1) (ekey l) (estr l)" and seg0: "eseg (entry_mem s1) (bytes s1) p y0 (eaddr l)"
        using segy snoc by (auto simp: eseg_append)
      let ?le = "(entry_mem s1)(eaddr l \<mapsto> \<lparr>entry_key = ekey l, entry_value = evalue l, entry_next = n'\<rparr>)"
      have dl: "\<forall>d \<in> set (concat cs1 @ y0) \<union> set (e # zs @ concat cs2). eaddr d \<noteq> eaddr l"
        using ent snoc by (intro distinct_apart) (simp add: entries_ok_def)
      have notin: "eaddr l \<notin> eaddr ` set y0" "eaddr l \<notin> eaddr ` set zs" "eaddr e \<notin> eaddr ` set y0" "eaddr e \<notin> eaddr ` set zs" "eaddr l \<noteq> eaddr e"
        using dl dist snoc by auto
      have seg: "eseg (?le(eaddr e := None)) (bytes s1) p (ys @ zs) NULL"
        using seg0 segz l str notin snoc by (auto simp: eseg_append)
      have last: "last_entry NULL ys = eaddr l" using snoc by (simp add: last_entry_def)
      show ?thesis
      proof (intro exI conjI)
        show "(if last_entry NULL ys \<noteq> NULL then up_entry (last_entry NULL ys) (\<lambda>l. l\<lparr>entry_next := n'\<rparr>) s1
          else st_bucket (map_hashmap h) (ucast (hash_of x) mod map_hashSize h) n' s1) = Inr (s1\<lparr>entry_mem := ?le\<rparr>)"
          using last l by (simp add: up_entry_def ld_entry_def)
        show "entry_mem (s1\<lparr>entry_mem := ?le\<rparr>) = ?le" by simp
        show "\<forall>d \<in> set (concat cs1) \<union> set (concat cs2) \<union> {e}. ?le (eaddr d) = entry_mem s1 (eaddr d)" using dl by (auto simp del: set_concat)
        show "eseg (?le(eaddr e := None)) (bytes s1) p (ys @ zs) NULL" by (rule seg)
        show "dom ?le = dom (entry_mem s1)" using l(1) by auto
      qed (use ok b in \<open>simp_all add: hash_ok_def fun_upd_idem\<close>)
    qed
    then obtain s2 p' le where s2: "(if last_entry NULL ys \<noteq> NULL then up_entry (last_entry NULL ys) (\<lambda>l. l\<lparr>entry_next := n'\<rparr>) s1
          else st_bucket (map_hashmap h) (ucast (hash_of x) mod map_hashSize h) n' s1) = Inr s2"
      "heap_ok lim B s2" "bytes s2 = bytes s1" "map_mem s2 = map_mem s1" "entry_mem s2 = le"
      "\<forall>d \<in> set (concat cs1) \<union> set (concat cs2) \<union> {e}. le (eaddr d) = entry_mem s1 (eaddr d)" "dom le = dom (entry_mem s1)"
      "eseg (le(eaddr e := None)) (bytes s1) p' (ys @ zs) NULL" "bucket_mem s2 = (bucket_mem s1)(map_hashmap h \<mapsto> bs1 @ p' # bs2)"
      by (auto simp: bnd_eq_Inr)
    from s2(2) Bij ne obtain s3 s4 where s4: "kfree (ekey e) s2 = Inr s3" "free_entry (eaddr e) s3 = Inr s4"
      "heap_ok lim (B(ekey e := None, eaddr e := None)) s4" "bytes s4 = bytes s2" "map_mem s4 = map_mem s2" "bucket_mem s4 = bucket_mem s2"
      "entry_mem s4 = (entry_mem s2)(eaddr e := None)"
      by (rule release_entry)
    have "\<forall>d \<in> set (concat cs1) \<union> set (concat cs2). entry_mem s4 (eaddr d) = entry_mem s1 (eaddr d)"
      using s4(7) s2(5,6) dist by (auto simp del: set_concat)
    moreover have "eseg (entry_mem s4) (bytes s1) p' (ys @ zs) NULL" using s2(5,8) s4(7) by simp
    moreover have "dom (entry_mem s4) = dom (entry_mem s1) - {eaddr e}" using s2(5,7) s4(7) by auto
    moreover have "bytes s4 = bytes s1" "map_mem s4 = map_mem s1" "bucket_mem s4 = (bucket_mem s1)(map_hashmap h \<mapsto> bs1 @ p' # bs2)"
      using s2(3,4,9) s4(4-6) by simp_all
    ultimately have drop: "hash_ok lim (B(ekey e := None, eaddr e := None)) s4"
      "map_rep (B(ekey e := None, eaddr e := None)) s4 mp h (bs1 @ p' # bs2) (cs1 @ (ys @ zs) # cs2)"
      "emap (concat (cs1 @ (ys @ zs) # cs2)) = (emap (concat (cs1 @ (ys @ e # zs) # cs2)))(estr e := None)"
      using drop_entry [OF ok rep [unfolded found(1)] sp(4) s4(3)] by blast+
    obtain s5 where s5: "map_unlock mp s4 = Inr s5" "is_map lim (B(ekey e := None, eaddr e := None)) s5 mp (emap (concat (cs1 @ (ys @ zs) # cs2)))"
      "bytes s5 = bytes s4"
      using is_map_unlock [OF drop(1,2)] by blast
    have "estr e \<notin> estr ` set (concat cs1 @ ys)" using sp(9) found by auto
    from emap_insert [OF this, of "zs @ concat cs2"] have fx: "f x = Some (evalue e)" using sp(2) found by (simp add: f)
    have "hashmap_remove mp key s = Inr (evalue e, s5)"
      using m at e walk s2(1,5,6) s4(1,2) s5(1)
      by (simp add: hashmap_remove_def hash_cstr [OF key] lk ld_map_def ld_entry_def cong: if_cong split del: if_split)
    moreover have "is_map lim (B(ekey e := None, eaddr e := None)) s5 mp (f(x := None))" using s5(2) drop(3) sp(2) found by (simp add: f)
    moreover have "bytes s5 = bytes s" using s5(3) s4(4) s2(3) s1 by simp
    ultimately show ?thesis using fx ne Be by auto
  next
    case none
    have x: "x \<notin> estr ` set (concat (cs1 @ c # cs2))" using none sp(9,10) by auto
    then have fx: "f x = None" using sp(2) by (simp add: f emap_None)
    obtain s2 where s2: "map_unlock mp s1 = Inr s2" "is_map lim B s2 mp (emap (concat cs))" "bytes s2 = bytes s1"
      using is_map_unlock [OF ok rep'] by blast
    have "remove_walk (entry_mem s1) (bytes s1) key p NULL = Some (Inr (NULL, last_entry NULL c))"
      using sp(6) key1 none by (rule walk_end(3))
    then have "hashmap_remove mp key s = Inr (NULL, s2)"
      using m at s2(1) by (simp add: hashmap_remove_def hash_cstr [OF key] lk ld_map_def)
    moreover have "f(x := None) = f" using fx by (rule fun_upd_idem)
    ultimately show ?thesis using fx s2(2,3) s1 by (intro exI [of _ B] exI [of _ s2]) (simp add: f)
  qed
qed

section \<open>Creation\<close>

lemma hashmap_create_ok:
  assumes ok: "hash_ok lim B s" and n: "n \<noteq> 0" "8 * unat n < 2 ^ 64" and room: "spacious s (2 + (pages_of (8 * n) + 1 + r))"
    and r: "r \<noteq> 0" "unat r < 2 ^ 62"
  shows "\<exists>mp table s'. hashmap_create n s = Inr (mp, s') \<and> B mp = None \<and> is_map lim (B(mp \<mapsto> sizeof_hashmap_t, table \<mapsto> 8 * n)) s' mp Map.empty
    \<and> spacious s' r \<and> (\<forall>y. addr_held lim s y \<longrightarrow> bytes s' y = bytes s y \<and> addr_held lim s' y)"
proof -
  have heap: "heap_ok lim B s" using ok by (simp add: hash_ok_def)
  have pg: "unat (pages_of (8 * n) + 1) = pages_for (unat (8 * n)) + 1" by (rule unat_pages_of)
  have le: "pages_for (unat (8 * n)) \<le> 2 ^ 52" using unat_u64_less [of "8 * n"] by (intro pages_for_le) simp
  have nz: "pages_of (8 * n) + 1 \<noteq> 0" using pg by auto
  have sum: "unat (pages_of (8 * n) + 1 + r) = unat (pages_of (8 * n) + 1) + unat r" using pg le r(2) by (intro unat_add_u64) simp
  then have nz2: "pages_of (8 * n) + 1 + r \<noteq> 0" using pg by auto
  have u8: "unat (8 * n) = 8 * unat n" using n(2) by (simp add: unat_mult_u64)
  have two: "pages_of sizeof_hashmap_t + 1 = 2" by (simp add: pages_of_def sizeof_hashmap_t_def PAGE_SIZE_def)
  have "room s (pages_of sizeof_hashmap_t + 1)"
    unfolding two using pg le r(2) sum by (intro spacious_room spacious_sub [OF room]) simp_all
  with heap obtain mp s1 where s1: "kmalloc sizeof_hashmap_t s = Inr (mp, s1)" "mp \<noteq> NULL" "B mp = None"
    "heap_ok lim (B(mp \<mapsto> sizeof_hashmap_t)) s1" "pmm_frame s s1" "took s s1 (pages_of sizeof_hashmap_t + 1)"
    by (rule kmalloc_room)
  note fr1 = klist_frame_hash [OF frame_of_pmm(1) [OF s1(5)]] and hold1 = kmalloc_held [OF heap s1(1,2)]
  define s2 where "s2 = s1\<lparr>map_mem := (map_mem s1)(mp \<mapsto> \<lparr>map_lk = zero_lock, map_hashSize = n, map_hashmap = NULL\<rparr>)\<rparr>"
  have heap2: "heap_ok lim (B(mp \<mapsto> sizeof_hashmap_t)) s2" using s1(4) by (simp add: s2_def)
  have sp2: "spacious s2 (pages_of (8 * n) + 1 + r)"
    using spacious_took [OF room _ nz2 s1(6) [unfolded two]] pg le r(2) sum by (simp add: s2_def)
  then have "room s2 (pages_of (8 * n) + 1)" using nz pg le r(2) by (intro spacious_room spacious_sub [OF sp2]) simp_all
  with heap2 obtain tb s3 where s3: "kmalloc (8 * n) s2 = Inr (tb, s3)" "tb \<noteq> NULL" "(B(mp \<mapsto> sizeof_hashmap_t)) tb = None"
    "heap_ok lim ((B(mp \<mapsto> sizeof_hashmap_t))(tb \<mapsto> 8 * n)) s3" "pmm_frame s2 s3" "took s2 s3 (pages_of (8 * n) + 1)"
    by (rule kmalloc_room)
  note fr3 = klist_frame_hash [OF frame_of_pmm(1) [OF s3(5)]] and hold3 = kmalloc_held [OF heap2 s3(1,2)]
  let ?h = "\<lparr>map_lk = INIT_SPINLOCK, map_hashSize = n, map_hashmap = tb\<rparr>" and ?B = "B(mp \<mapsto> sizeof_hashmap_t, tb \<mapsto> 8 * n)"
  let ?s' = "s3\<lparr>bucket_mem := (bucket_mem s)(tb \<mapsto> replicate (unat n) NULL), map_mem := (map_mem s)(mp \<mapsto> ?h)\<rparr>"
  have call: "hashmap_create n s = Inr (mp, ?s')"
    using s1(1,2) s3(1,2) fr1 fr3 u8
    by (simp add: hashmap_create_def new_map_def up_map_def ld_map_def new_buckets_def s2_def)
  have fresh: "mp \<notin> dom (entry_mem s) \<union> dom (map_mem s) \<union> dom (bucket_mem s)" "tb \<notin> dom (entry_mem s) \<union> dom (map_mem s) \<union> dom (bucket_mem s)"
    "mp \<noteq> tb"
    using ok s1(3) s3(3) by (auto simp: hash_ok_def split: if_splits)
  have em: "entry_mem s3 = entry_mem s" using fr1(1) fr3(1) by (simp add: s2_def)
  have hok: "hash_ok lim ?B ?s'"
  proof -
    have "dom ?B = insert tb (insert mp (dom B))" by auto
    note d = this
    show ?thesis using ok s3(4) fresh unfolding hash_ok_def d by (simp add: em) blast
  qed
  have all: "list_all2 (\<lambda>p c. eseg (entry_mem ?s') (bytes ?s') p c NULL) (replicate (unat n) NULL) (replicate (unat n) [])"
    by (simp add: list_all2_conv_all_nth)
  have pl: "placed H k (replicate j [])" for H k j by (induction j arbitrary: k) simp_all
  have rep: "map_rep ?B ?s' mp ?h (replicate (unat n) NULL) (replicate (unat n) [])"
    using all n(1) pl by (simp add: map_rep_def entries_ok_def)
  have "is_map lim ?B ?s' mp Map.empty"
    unfolding is_map_def using hok rep by (intro conjI exI [of _ ?h] exI [of _ "replicate (unat n) NULL"] exI [of _ "replicate (unat n) []"])
      (simp_all add: INIT_SPINLOCK_def emap_def)
  moreover have "spacious ?s' r" using spacious_took [OF sp2 _ r(1) s3(6)] pg le r(2) by simp
  moreover have "bytes ?s' y = bytes s y \<and> addr_held lim ?s' y" if "addr_held lim s y" for y
  proof -
    have "addr_held lim s2 y" using kmalloc_held_mono [OF heap s1(1,2) that] by (simp add: s2_def addr_held_def in_use_def)
    then have "addr_held lim s3 y" "bytes s3 y = bytes s2 y" using kmalloc_held_mono [OF heap2 s3(1,2)] hold3(2) by blast+
    then show ?thesis using hold1(2) [OF that] by (simp add: s2_def addr_held_def in_use_def)
  qed
  ultimately show ?thesis using call s1(3) by blast
qed

section \<open>The interface: a map from strings to values\<close>

text \<open>
  What a user of a map relies on: \<open>holds s m f\<close> says that the map at \<open>m\<close> is the function \<open>f\<close>,
  \<open>names s k x\<close> that the pointer \<open>k\<close> is the string \<open>x\<close>, and \<open>room s x\<close> that there is memory for
  an entry with key \<open>x\<close>.
\<close>

locale string_map =
  fixes holds :: "'s \<Rightarrow> addr \<Rightarrow> (u8 list \<rightharpoonup> addr) \<Rightarrow> bool"
    and names :: "'s \<Rightarrow> addr \<Rightarrow> u8 list \<Rightarrow> bool"
    and room_for :: "'s \<Rightarrow> u8 list \<Rightarrow> bool"
    and get :: "addr \<Rightarrow> addr \<Rightarrow> 's \<Rightarrow> (addr \<times> 's) res"
    and put :: "addr \<Rightarrow> addr \<Rightarrow> addr \<Rightarrow> 's \<Rightarrow> (addr \<times> 's) res"
  assumes get_holds: "holds s m f \<Longrightarrow> names s k x \<Longrightarrow>
      \<exists>s'. get m k s = Inr (case f x of Some v \<Rightarrow> v | None \<Rightarrow> NULL, s') \<and> holds s' m f \<and> (\<forall>j y. names s j y \<longrightarrow> names s' j y)"
    and put_holds: "holds s m f \<Longrightarrow> names s k x \<Longrightarrow> room_for s x \<Longrightarrow>
      \<exists>s'. put m k v s = Inr (case f x of Some w \<Rightarrow> w | None \<Rightarrow> NULL, s') \<and> holds s' m (f(x \<mapsto> v)) \<and> (\<forall>j y. names s j y \<longrightarrow> names s' j y)"
begin

lemma put_get:
  assumes "holds s m f" and "names s k x" and "room_for s x" and "names s j y"
  shows "\<exists>w s1 s2. put m k v s = Inr (w, s1) \<and> get m j s1 = Inr (if y = x then v else case f y of Some w \<Rightarrow> w | None \<Rightarrow> NULL, s2)
    \<and> holds s2 m (f(x \<mapsto> v))"
proof -
  obtain w s1 where s1: "put m k v s = Inr (w, s1)" "holds s1 m (f(x \<mapsto> v))" "names s1 j y"
    using put_holds [OF assms(1-3), of v] assms(4) by blast
  from get_holds [OF s1(2,3)] s1(1) show ?thesis by auto
qed

lemma put_put_get:
  assumes "holds s m f" and "names s k x" and "room_for s x" and "names s j x" and "put m k v s = Inr (u, s1)" and "room_for s1 x"
  shows "\<exists>s2 s3. put m j w s1 = Inr (v, s2) \<and> get m k s2 = Inr (w, s3)"
proof -
  obtain u' s1' where "put m k v s = Inr (u', s1')" "holds s1' m (f(x \<mapsto> v))" "\<forall>j y. names s j y \<longrightarrow> names s1' j y"
    using put_holds [OF assms(1-3), of v] by blast
  with assms(5) have s1: "holds s1 m (f(x \<mapsto> v))" "\<forall>j y. names s j y \<longrightarrow> names s1 j y" by simp_all
  obtain s2 where s2: "put m j w s1 = Inr (v, s2)" "holds s2 m (f(x \<mapsto> v, x \<mapsto> w))" "names s2 k x"
    using put_holds [OF s1(1) _ assms(6), of j w] s1(2) assms(2,4) by auto
  from get_holds [OF s2(2,3)] s2(1) show ?thesis by auto
qed

end

definition key_names :: "u64 \<Rightarrow> 'a khash_scheme \<Rightarrow> addr \<Rightarrow> u8 list \<Rightarrow> bool" where
  "key_names lim s k x \<longleftrightarrow> cstr (bytes s) k x \<and> length x + 1 < 2 ^ 64 \<and> (\<forall>i \<le> length x. addr_held lim s (k + of_nat i))"

definition entry_room :: "'a khash_scheme \<Rightarrow> u8 list \<Rightarrow> bool" where
  "entry_room s x \<longleftrightarrow> spacious s (2 + (pages_of (of_nat (length x + 1)) + 1))"

lemma key_names_keep:
  assumes "\<forall>y. addr_held lim s y \<longrightarrow> bytes s' y = bytes s y \<and> addr_held lim s' y" and "key_names lim s k x"
  shows "key_names lim s' k x"
  using assms cstr_cong [of "bytes s" k x "bytes s'"] by (auto simp: key_names_def)

interpretation hm: string_map "\<lambda>s m f. \<exists>B. is_map lim B s m f" "key_names lim" entry_room hashmap_get hashmap_set for lim
proof
  fix s :: "'a khash_scheme" and m f k x
  assume "\<exists>B. is_map lim B s m f" and k: "key_names lim s k x"
  then obtain B where B: "is_map lim B s m f" by blast
  have "cstr (bytes s) k x" using k by (simp add: key_names_def)
  from hashmap_lookup_ok(1) [OF B this] obtain s' where s': "hashmap_get m k s = Inr (case f x of Some v \<Rightarrow> v | None \<Rightarrow> NULL, s')"
    "is_map lim B s' m f" "\<forall>y. addr_held lim s y \<longrightarrow> bytes s' y = bytes s y \<and> addr_held lim s' y"
    by auto
  with key_names_keep [OF s'(3)] show "\<exists>s'. hashmap_get m k s = Inr (case f x of Some v \<Rightarrow> v | None \<Rightarrow> NULL, s') \<and> (\<exists>B. is_map lim B s' m f) \<and> (\<forall>j y. key_names lim s j y \<longrightarrow> key_names lim s' j y)"
    by blast
next
  fix s :: "'a khash_scheme" and m f k x v
  assume "\<exists>B. is_map lim B s m f" and k: "key_names lim s k x" and "entry_room s x"
  then obtain B where B: "is_map lim B s m f" and room: "spacious s (2 + (pages_of (of_nat (length x + 1)) + 1))"
    by (auto simp: entry_room_def)
  have "cstr (bytes s) k x" "length x + 1 < 2 ^ 64" "\<forall>i \<le> length x. addr_held lim s (k + of_nat i)" using k by (simp_all add: key_names_def)
  from hashmap_set_ok [OF B this room, of v]
  show "\<exists>s'. hashmap_set m k v s = Inr (case f x of Some w \<Rightarrow> w | None \<Rightarrow> NULL, s') \<and> (\<exists>B. is_map lim B s' m (f(x \<mapsto> v))) \<and> (\<forall>j y. key_names lim s j y \<longrightarrow> key_names lim s' j y)"
    by (blast intro: key_names_keep)
qed

section \<open>Properties\<close>

text \<open>The machine of the list instances with two strings in memory that is not the allocator's: "a" at 0x1000, "b" at 0x2000.\<close>

definition demo_hash :: khash where
  "demo_hash = (klists.extend demo_lists \<lparr>entry_mem = Map.empty, map_mem = Map.empty, bucket_mem = Map.empty\<rparr>)
     \<lparr>bytes := (\<lambda>a. if a = 0x1000 then Some 97 else if a = 0x2000 then Some 98
       else if a = 0x1001 \<or> a = 0x2001 then Some 0 else Some 7)\<rparr>"

lemma demo_hash_ok: "hash_ok 16 Map.empty demo_hash"
  by (simp add: hash_ok_def heap_ok_def pmm_ok_def demo_hash_def demo_lists_def demo_bits INIT_SPINLOCK_def mapped_def klists.defs)

lemma demo_hash_names: "key_names 16 demo_hash 0x1000 [97]" "key_names 16 demo_hash 0x2000 [98]"
  by (auto simp: key_names_def demo_hash_def demo_lists_def klists.defs le_Suc_eq addr_held_def)

lemma demo_map:
  "\<exists>mp B s. hashmap_create 4 demo_hash = Inr (mp, s) \<and> is_map 16 B s mp Map.empty \<and> entry_room s [97] \<and>
     key_names 16 s 0x1000 [97] \<and> key_names 16 s 0x2000 [98]"
proof -
  have "spacious demo_hash (2 + (pages_of (8 * 4) + 1 + 4))"
    unfolding spacious_def
    by (intro conjI exI [of _ 2]) (simp_all add: is_bitmap_page_free_def demo_hash_def demo_lists_def klists.defs demo_bitmap_def test_bit_def
        pages_of_def PAGE_SIZE_def)
  then obtain mp tb s where s: "hashmap_create 4 demo_hash = Inr (mp, s)" "is_map 16 (Map.empty(mp \<mapsto> sizeof_hashmap_t, tb \<mapsto> 8 * 4)) s mp Map.empty"
    "spacious s 4" "\<forall>y. addr_held 16 demo_hash y \<longrightarrow> bytes s y = bytes demo_hash y \<and> addr_held 16 s y"
    using hashmap_create_ok [OF demo_hash_ok, of 4 4] by auto
  have "entry_room s [97]" using s(3) by (simp add: entry_room_def pages_of_def PAGE_SIZE_def)
  with s(1,2) demo_hash_names [THEN key_names_keep [OF s(4)]] show ?thesis by blast
qed

text \<open>
  Property C24. Every hash map of the heap is a finite map from strings to values, whatever its
  number of chains and however the keys collide: \<open>hashmap_get\<close> returns the value of a key or null,
  \<open>hashmap_has\<close> whether it is there, \<open>hashmap_set\<close> overwrites the value and returns the old one,
  \<open>hashmap_remove\<close> deletes it and releases the entry and the copy of the key. All return, for keys
  that are C strings outside free memory, and with memory for an entry in the case of \<open>hashmap_set\<close>.
\<close>

theorem hashmap_refines_map:
  assumes "is_map lim B s mp f" and "key_names lim s key x"
  shows "(\<exists>s'. hashmap_get mp key s = Inr (case f x of Some v \<Rightarrow> v | None \<Rightarrow> NULL, s') \<and> is_map lim B s' mp f)
    \<and> (\<exists>s'. hashmap_has mp key s = Inr (f x \<noteq> None, s') \<and> is_map lim B s' mp f)
    \<and> (entry_room s x \<longrightarrow> (\<exists>B' s'. hashmap_set mp key v s = Inr (case f x of Some w \<Rightarrow> w | None \<Rightarrow> NULL, s') \<and> is_map lim B' s' mp (f(x \<mapsto> v))))
    \<and> (\<exists>B' s'. hashmap_remove mp key s = Inr (case f x of Some w \<Rightarrow> w | None \<Rightarrow> NULL, s') \<and> is_map lim B' s' mp (f(x := None))
        \<and> (if f x = None then B' = B else \<exists>a k. a \<noteq> k \<and> {a, k} \<subseteq> dom B \<and> B' = B(k := None, a := None)))"
proof -
  have key: "cstr (bytes s) key x" and len: "length x + 1 < 2 ^ 64" and held: "\<forall>i \<le> length x. addr_held lim s (key + of_nat i)"
    using assms(2) by (simp_all add: key_names_def)
  show ?thesis
    using hashmap_lookup_ok [OF assms(1) key] hashmap_remove_ok [OF assms(1) key] hashmap_set_ok [OF assms(1) key len held]
    unfolding entry_room_def by blast
qed

theorem hashmap_refines_map_witness:
  "\<exists>mp s s' s''. hashmap_create 4 demo_hash = Inr (mp, s) \<and> hashmap_set mp 0x1000 5 s = Inr (NULL, s') \<and> hashmap_get mp 0x1000 s = Inr (NULL, s'')"
proof -
  obtain mp B s where s: "hashmap_create 4 demo_hash = Inr (mp, s)" "is_map 16 B s mp Map.empty" "entry_room s [97]" "key_names 16 s 0x1000 [97]"
    using demo_map by blast
  from hashmap_refines_map [OF s(2,4), of 5] s(1,3) show ?thesis by auto
qed

text \<open>
  What has been stored is found again: after \<open>hashmap_set\<close> of a key, \<open>hashmap_get\<close> with
  any pointer to the same string returns the value, and with any other string what it returned
  before.
\<close>

theorem hashmap_set_get:
  assumes "is_map lim B s mp f" and "key_names lim s k x" and "entry_room s x" and "key_names lim s j y"
  shows "\<exists>w s1 s2 B'. hashmap_set mp k v s = Inr (w, s1)
    \<and> hashmap_get mp j s1 = Inr (if y = x then v else case f y of Some w \<Rightarrow> w | None \<Rightarrow> NULL, s2) \<and> is_map lim B' s2 mp (f(x \<mapsto> v))"
proof -
  have "\<exists>B. is_map lim B s mp f" using assms(1) by blast
  from hm.put_get [of lim s mp f k x j y v, OF this assms(2-4)] show ?thesis by blast
qed

theorem hashmap_set_get_witness:
  "\<exists>mp s s1 s2. hashmap_create 4 demo_hash = Inr (mp, s) \<and> hashmap_set mp 0x1000 5 s = Inr (NULL, s1)
     \<and> hashmap_get mp 0x1000 s1 = Inr (5, s2)"
proof -
  obtain mp B s where s: "hashmap_create 4 demo_hash = Inr (mp, s)" "is_map 16 B s mp Map.empty" "entry_room s [97]" "key_names 16 s 0x1000 [97]"
    using demo_map by blast
  have "cstr (bytes s) 0x1000 [97]" "length [97 :: u8] + 1 < 2 ^ 64" "\<forall>i \<le> length [97 :: u8]. addr_held 16 s (0x1000 + of_nat i)"
    "spacious s (2 + (pages_of (of_nat (length [97 :: u8] + 1)) + 1))"
    using s(3,4) unfolding key_names_def entry_room_def by blast+
  from hashmap_set_ok [OF s(2) this, of 5] obtain s1 where "hashmap_set mp 0x1000 5 s = Inr (NULL, s1)" by auto
  with hashmap_set_get [OF s(2,4,3,4), of 5] s(1) show ?thesis by auto
qed

end
