(* ===== verification/Printf.thy ===== *)
theory Printf
  imports Pmm
begin

text \<open>
  Formatted output, \<open>kernel/utils/system.c\<close>, with \<open>isdigit\<close> of \<open>kernel/utils/ctype.h\<close> and the writer of
  \<open>kernel/arch/riscv64/common.c\<close>. The format and the strings it names are read from the byte memory,
  which \<open>sprintf\<close> also writes to. A variable argument occupies a 64-bit word, as in the calling
  convention of riscv64, where \<open>char\<close> is an unsigned type.
\<close>

section \<open>Data\<close>

record debug_printf_function_t =
  pf_data :: addr
  currentPos :: size_t
  pf_size :: size_t

text \<open>
  The serial port: \<open>uart_lsr k\<close> is what the \<open>k\<close>-th read of its status register gives, which is up to the
  device, and \<open>uart_out\<close> is what was sent.
\<close>

record kio = pmm +
  PrintLock :: spinlock_t
  PrintLock2 :: spinlock_t
  uart_lsr :: "nat \<Rightarrow> u8"
  uart_reads :: nat
  uart_out :: "u8 list"

type_synonym 'a pout = "debug_printf_function_t \<times> 'a kio_scheme"
type_synonym 'a writer = "u8 \<Rightarrow> 'a pout \<Rightarrow> 'a pout res"

definition PRINT_FLAG_LEFT :: "'b :: len word" where
  "PRINT_FLAG_LEFT = 0x1"

definition PRINT_FLAG_PLUS :: "'b :: len word" where
  "PRINT_FLAG_PLUS = 0x2"

definition PRINT_FLAG_SPACE :: "'b :: len word" where
  "PRINT_FLAG_SPACE = 0x4"

definition PRINT_FLAG_HASH :: "'b :: len word" where
  "PRINT_FLAG_HASH = 0x8"

definition PRINT_FLAG_ZEROPAD :: "'b :: len word" where
  "PRINT_FLAG_ZEROPAD = 0x10"

definition PRINT_FLAG_PRECISION :: "'b :: len word" where
  "PRINT_FLAG_PRECISION = 0x20"

definition PRINT_FLAG_CHAR :: "'b :: len word" where
  "PRINT_FLAG_CHAR = 0x40"

definition PRINT_FLAG_SHORT :: "'b :: len word" where
  "PRINT_FLAG_SHORT = 0x80"

definition PRINT_FLAG_LONG :: "'b :: len word" where
  "PRINT_FLAG_LONG = 0x100"

definition PRINT_FLAG_LONG_LONG :: "'b :: len word" where
  "PRINT_FLAG_LONG_LONG = 0x200"

definition PRINT_FLAG_UPPERCASE :: "'b :: len word" where
  "PRINT_FLAG_UPPERCASE = 0x400"

lemmas print_flags = PRINT_FLAG_LEFT_def PRINT_FLAG_PLUS_def PRINT_FLAG_SPACE_def PRINT_FLAG_HASH_def
  PRINT_FLAG_ZEROPAD_def PRINT_FLAG_PRECISION_def PRINT_FLAG_CHAR_def PRINT_FLAG_SHORT_def
  PRINT_FLAG_LONG_def PRINT_FLAG_LONG_LONG_def PRINT_FLAG_UPPERCASE_def

definition PRINTF_NTOA_BUFFER_SIZE :: nat where
  "PRINTF_NTOA_BUFFER_SIZE = 32"

text \<open>A flag of a word is set.\<close>

definition has :: "'b :: len word \<Rightarrow> 'b word \<Rightarrow> bool" where
  "has fl f \<longleftrightarrow> fl AND f \<noteq> 0"

section \<open>Writing\<close>

text \<open>\<open>n\<close> times the same character, and a buffer from its end.\<close>

fun write_n :: "'a writer \<Rightarrow> nat \<Rightarrow> u8 \<Rightarrow> 'a pout \<Rightarrow> 'a pout res" where
  "write_n wr 0 c p = Inr p"
| "write_n wr (Suc n) c p = bnd (wr c p) (write_n wr n c)"

fun write_all :: "'a writer \<Rightarrow> u8 list \<Rightarrow> 'a pout \<Rightarrow> 'a pout res" where
  "write_all wr [] p = Inr p"
| "write_all wr (c # cs) p = bnd (wr c p) (write_all wr cs)"

definition out_rev :: "'a writer \<Rightarrow> u8 list \<Rightarrow> u32 \<Rightarrow> u32 \<Rightarrow> 'a pout \<Rightarrow> 'a pout res" where
  "out_rev wr buf width fl p =
     bnd (if \<not> has fl PRINT_FLAG_LEFT \<and> \<not> has fl PRINT_FLAG_ZEROPAD
          then write_n wr (unat width - length buf) 32 p else Inr p) (\<lambda>p.
     bnd (write_all wr (rev buf) p) (\<lambda>p.
     if has fl PRINT_FLAG_LEFT then write_n wr (unat width - length buf) 32 p else Inr p))"

section \<open>Numbers\<close>

text \<open>
  The buffer of 32 characters is the list of those written so far; \<open>buf[len++] = c\<close> is a fault when
  it is full.
\<close>

definition buf_put :: "u8 list \<Rightarrow> u8 \<Rightarrow> u8 list res" where
  "buf_put buf c = (if length buf < PRINTF_NTOA_BUFFER_SIZE then Inr (buf @ [c]) else Inl Fault)"

function zero_fill :: "nat \<Rightarrow> u8 list \<Rightarrow> u8 list res" where
  "zero_fill n buf =
     (if length buf < n \<and> length buf < PRINTF_NTOA_BUFFER_SIZE then bnd (buf_put buf 48) (zero_fill n) else Inr buf)"
  by pat_completeness auto
termination
  by (relation "measure (\<lambda>(n, buf). PRINTF_NTOA_BUFFER_SIZE - length buf)") (auto simp: buf_put_def split: if_splits)

declare zero_fill.simps [simp del]

text \<open>The digits of a number; the letters are capital whatever the flags are.\<close>

definition digit_char :: "u8 \<Rightarrow> u8" where
  "digit_char digit = (if digit < 10 then 48 + digit else 65 + digit - 10)"

function ntoa_digits :: "u64 \<Rightarrow> u32 \<Rightarrow> u8 list \<Rightarrow> u8 list res" where
  "ntoa_digits value base buf =
     bnd (if base = 0 then Inl Fault else Inr (ucast (value mod ucast base))) (\<lambda>digit.
     bnd (buf_put buf (digit_char digit)) (\<lambda>buf.
     let value = value div ucast base in
     if value \<noteq> 0 \<and> length buf < PRINTF_NTOA_BUFFER_SIZE then ntoa_digits value base buf else Inr buf))"
  by pat_completeness auto
termination
  by (relation "measure (\<lambda>(value, base, buf). PRINTF_NTOA_BUFFER_SIZE - length buf)") (auto simp: buf_put_def split: if_splits)

declare ntoa_digits.simps [simp del]

text \<open>The parts of \<open>_ntoa_format\<close>: leading zeros, the prefix of the base, the sign.\<close>

definition format_zeros :: "u8 list \<Rightarrow> u32 \<Rightarrow> u32 \<Rightarrow> u32 \<Rightarrow> u8 list res" where
  "format_zeros buf prec width fl =
     bnd (zero_fill (unat prec) buf) (\<lambda>buf.
     if has fl PRINT_FLAG_ZEROPAD then zero_fill (unat width) buf else Inr buf)"

definition format_hash :: "u8 list \<Rightarrow> u32 \<Rightarrow> u32 \<Rightarrow> u32 \<Rightarrow> u32 \<Rightarrow> u8 list res" where
  "format_hash buf base prec width fl =
     (let buf = (if \<not> has fl PRINT_FLAG_PRECISION \<and> buf \<noteq> [] \<and> (length buf = unat prec \<or> length buf = unat width)
                 then let buf = butlast buf in if buf \<noteq> [] \<and> base = 16 then butlast buf else buf
                 else buf)
      in bnd (if base = 16 \<and> \<not> has fl PRINT_FLAG_UPPERCASE \<and> length buf < PRINTF_NTOA_BUFFER_SIZE then buf_put buf 120
              else if base = 16 \<and> has fl PRINT_FLAG_UPPERCASE \<and> length buf < PRINTF_NTOA_BUFFER_SIZE then buf_put buf 88
              else if base = 2 \<and> length buf < PRINTF_NTOA_BUFFER_SIZE then buf_put buf 98
              else Inr buf) (\<lambda>buf.
         if length buf < PRINTF_NTOA_BUFFER_SIZE then buf_put buf 48 else Inr buf))"

definition format_sign :: "u8 list \<Rightarrow> bool \<Rightarrow> u32 \<Rightarrow> u8 list res" where
  "format_sign buf negative fl =
     (if length buf < PRINTF_NTOA_BUFFER_SIZE
      then if negative then buf_put buf 45
           else if has fl PRINT_FLAG_PLUS then buf_put buf 43
           else if has fl PRINT_FLAG_SPACE then buf_put buf 32
           else Inr buf
      else Inr buf)"

definition ntoa_format :: "'a writer \<Rightarrow> u8 list \<Rightarrow> bool \<Rightarrow> u32 \<Rightarrow> u32 \<Rightarrow> u32 \<Rightarrow> u32 \<Rightarrow> 'a pout \<Rightarrow> 'a pout res" where
  "ntoa_format wr buf negative base prec width fl p =
     (let width = (if \<not> has fl PRINT_FLAG_LEFT \<and> width \<noteq> 0 \<and> has fl PRINT_FLAG_ZEROPAD \<and>
                      (negative \<or> has fl (PRINT_FLAG_PLUS OR PRINT_FLAG_SPACE))
                   then width - 1 else width)
      in bnd (if \<not> has fl PRINT_FLAG_LEFT then format_zeros buf prec width fl else Inr buf) (\<lambda>buf.
         bnd (if has fl PRINT_FLAG_HASH then format_hash buf base prec width fl else Inr buf) (\<lambda>buf.
         bnd (format_sign buf negative fl) (\<lambda>buf.
         out_rev wr buf width fl p))))"

definition ntoa_long :: "'a writer \<Rightarrow> u64 \<Rightarrow> bool \<Rightarrow> u32 \<Rightarrow> u32 \<Rightarrow> u32 \<Rightarrow> u32 \<Rightarrow> 'a pout \<Rightarrow> 'a pout res" where
  "ntoa_long wr value negative base prec width fl p =
     (let fl = (if value = 0 then fl AND NOT PRINT_FLAG_HASH else fl)
      in bnd (if \<not> has fl PRINT_FLAG_PRECISION \<or> value \<noteq> 0 then ntoa_digits value base [] else Inr []) (\<lambda>buf.
         ntoa_format wr buf negative base prec width fl p))"

definition ntoa_long_long :: "'a writer \<Rightarrow> u64 \<Rightarrow> bool \<Rightarrow> u32 \<Rightarrow> u32 \<Rightarrow> u32 \<Rightarrow> u32 \<Rightarrow> 'a pout \<Rightarrow> 'a pout res" where
  "ntoa_long_long wr value negative base prec width fl p =
     (let fl = (if value = 0 then fl AND NOT PRINT_FLAG_HASH else fl)
      in bnd (if \<not> has fl PRINT_FLAG_PRECISION \<or> value \<noteq> 0 then ntoa_digits value base [] else Inr []) (\<lambda>buf.
         ntoa_format wr buf negative base prec width fl p))"

section \<open>Directives\<close>

text \<open>The next variable argument; asking for one that was not passed has no meaning in C.\<close>

definition va_arg :: "u64 list \<Rightarrow> (u64 \<times> u64 list) res" where
  "va_arg args = (case args of [] \<Rightarrow> Inl Fault | w # ws \<Rightarrow> Inr (w, ws))"

definition isdigit :: "u8 \<Rightarrow> bool" where
  "isdigit c \<longleftrightarrow> c - 48 \<le> 9"

partial_function (option) parse_flags :: "mem \<Rightarrow> addr \<Rightarrow> u16 \<Rightarrow> (u16 \<times> addr) res option" where
  "parse_flags m fmt fl =
     (case ld8 m fmt of Inl e \<Rightarrow> Some (Inl e) | Inr c \<Rightarrow>
       if c = 45 then parse_flags m (fmt + 1) (fl OR PRINT_FLAG_LEFT)
       else if c = 43 then parse_flags m (fmt + 1) (fl OR PRINT_FLAG_PLUS)
       else if c = 32 then parse_flags m (fmt + 1) (fl OR PRINT_FLAG_SPACE)
       else if c = 35 then parse_flags m (fmt + 1) (fl OR PRINT_FLAG_HASH)
       else if c = 48 then parse_flags m (fmt + 1) (fl OR PRINT_FLAG_ZEROPAD)
       else Some (Inr (fl, fmt)))"

text \<open>The loop over decimal digits of a width or a precision.\<close>

partial_function (option) parse_number :: "mem \<Rightarrow> addr \<Rightarrow> u32 \<Rightarrow> (u32 \<times> addr) res option" where
  "parse_number m fmt n =
     (case ld8 m fmt of Inl e \<Rightarrow> Some (Inl e) | Inr c \<Rightarrow>
       if isdigit c then parse_number m (fmt + 1) (n * 10 + (ucast c - 48)) else Some (Inr (n, fmt)))"

definition parse_width :: "mem \<Rightarrow> addr \<Rightarrow> u64 list \<Rightarrow> u16 \<Rightarrow> (u32 \<times> u16 \<times> addr \<times> u64 list) res" where
  "parse_width m fmt args fl =
     bnd (ld8 m fmt) (\<lambda>c.
     if isdigit c then bnd (loop_res (parse_number m fmt 0)) (\<lambda>(width, fmt). Inr (width, fl, fmt, args))
     else if c = 42
     then bnd (va_arg args) (\<lambda>(w, args).
          let w = ucast w :: u32 in
          if sint w < 0 then Inr (- w, fl OR PRINT_FLAG_LEFT, fmt + 1, args) else Inr (w, fl, fmt + 1, args))
     else Inr (0, fl, fmt, args))"

definition parse_precision :: "mem \<Rightarrow> addr \<Rightarrow> u64 list \<Rightarrow> u16 \<Rightarrow> (u32 \<times> u16 \<times> addr \<times> u64 list) res" where
  "parse_precision m fmt args fl =
     bnd (ld8 m fmt) (\<lambda>c.
     if c = 46
     then let fmt = fmt + 1; fl = fl OR PRINT_FLAG_PRECISION in
          bnd (ld8 m fmt) (\<lambda>c.
          if isdigit c then bnd (loop_res (parse_number m fmt 0)) (\<lambda>(precission, fmt). Inr (precission, fl, fmt, args))
          else if c = 42
          then bnd (va_arg args) (\<lambda>(w, args).
               let w = ucast w :: u32 in Inr (if sint w > 0 then w else 0, fl, fmt + 1, args))
          else Inr (0, fl, fmt, args))
     else Inr (0, fl, fmt, args))"

text \<open>\<open>intmax_t\<close> and \<open>size_t\<close> have the size of \<open>long\<close>.\<close>

definition parse_length :: "mem \<Rightarrow> addr \<Rightarrow> u16 \<Rightarrow> (u16 \<times> addr) res" where
  "parse_length m fmt fl =
     bnd (ld8 m fmt) (\<lambda>c.
     if c = 108
     then let fmt = fmt + 1; fl = fl OR PRINT_FLAG_LONG in
          bnd (ld8 m fmt) (\<lambda>c. if c = 108 then Inr (fl OR PRINT_FLAG_LONG_LONG, fmt + 1) else Inr (fl, fmt))
     else if c = 104
     then let fmt = fmt + 1; fl = fl OR PRINT_FLAG_SHORT in
          bnd (ld8 m fmt) (\<lambda>c. if c = 104 then Inr (fl OR PRINT_FLAG_CHAR, fmt + 1) else Inr (fl, fmt))
     else if c = 106 then Inr (fl OR PRINT_FLAG_LONG, fmt + 1)
     else if c = 122 then Inr (fl OR PRINT_FLAG_LONG, fmt + 1)
     else Inr (fl, fmt))"

section \<open>Conversions\<close>

definition conv_base :: "u8 \<Rightarrow> u32" where
  "conv_base c = (if c = 120 \<or> c = 88 then 16 else if c = 111 then 8 else if c = 98 then 2 else 10)"

definition conv_flags :: "u8 \<Rightarrow> u16 \<Rightarrow> u16" where
  "conv_flags c fl =
     (let fl = (if conv_base c = 10 then fl AND NOT PRINT_FLAG_HASH else fl);
          fl = (if c = 88 then fl OR PRINT_FLAG_UPPERCASE else fl);
          fl = (if c \<noteq> 105 \<and> c \<noteq> 100 then fl AND NOT (PRINT_FLAG_PLUS OR PRINT_FLAG_SPACE) else fl)
      in if has fl PRINT_FLAG_PRECISION then fl AND NOT PRINT_FLAG_ZEROPAD else fl)"

text \<open>The magnitude of a signed argument, and the value of a narrow one.\<close>

definition int_arg :: "u16 \<Rightarrow> u64 \<Rightarrow> u32" where
  "int_arg fl w =
     (if has fl PRINT_FLAG_CHAR then ucast (ucast w :: u8)
      else if has fl PRINT_FLAG_SHORT then scast (ucast w :: u16) else ucast w)"

definition uint_arg :: "u16 \<Rightarrow> u64 \<Rightarrow> u32" where
  "uint_arg fl w =
     (if has fl PRINT_FLAG_CHAR then ucast (ucast w :: u8)
      else if has fl PRINT_FLAG_SHORT then ucast (ucast w :: u16) else ucast w)"

definition convert_number :: "'a writer \<Rightarrow> u8 \<Rightarrow> u64 \<Rightarrow> u16 \<Rightarrow> u32 \<Rightarrow> u32 \<Rightarrow> 'a pout \<Rightarrow> 'a pout res" where
  "convert_number wr c w fl width precission p =
     (let base = conv_base c; fl = conv_flags c fl
      in if c = 105 \<or> c = 100
         then if has fl PRINT_FLAG_LONG_LONG
              then ntoa_long_long wr (if sint w > 0 then w else 0 - w) (sint w < 0) base precission width (ucast fl) p
              else if has fl PRINT_FLAG_LONG
              then ntoa_long wr (if sint w > 0 then w else 0 - w) (sint w < 0) base precission width (ucast fl) p
              else let v = int_arg fl w in
                   ntoa_long wr (ucast (if sint v > 0 then v else 0 - v)) (sint v < 0) base precission width (ucast fl) p
         else if has fl PRINT_FLAG_LONG_LONG then ntoa_long_long wr w False base precission width (ucast fl) p
         else if has fl PRINT_FLAG_LONG then ntoa_long_long wr w False base precission width (ucast fl) p
         else ntoa_long_long wr (ucast (uint_arg fl w)) False base precission width (ucast fl) p)"

definition convert_char :: "'a writer \<Rightarrow> u64 \<Rightarrow> u16 \<Rightarrow> u32 \<Rightarrow> 'a pout \<Rightarrow> 'a pout res" where
  "convert_char wr w fl width p =
     bnd (if \<not> has fl PRINT_FLAG_LEFT then write_n wr (unat width - 1) 32 p else Inr p) (\<lambda>p.
     bnd (wr (ucast w) p) (\<lambda>p.
     if has fl PRINT_FLAG_LEFT then write_n wr (unat width - 1) 32 p else Inr p))"

partial_function (option) str_span :: "mem \<Rightarrow> addr \<Rightarrow> size_t \<Rightarrow> addr res option" where
  "str_span m s maxsize =
     (case ld8 m s of Inl e \<Rightarrow> Some (Inl e) | Inr c \<Rightarrow>
       if c \<noteq> 0 \<and> maxsize \<noteq> 0 then str_span m (s + 1) (maxsize - 1) else Some (Inr s))"

partial_function (option) write_str :: "'a writer \<Rightarrow> addr \<Rightarrow> bool \<Rightarrow> u32 \<Rightarrow> 'a pout \<Rightarrow> 'a pout res option" where
  "write_str wr a limited precission p =
     (case ld8 (bytes (snd p)) a of Inl e \<Rightarrow> Some (Inl e) | Inr c \<Rightarrow>
       if c \<noteq> 0 \<and> (\<not> limited \<or> precission \<noteq> 0)
       then case wr c p of Inl e \<Rightarrow> Some (Inl e)
         | Inr p \<Rightarrow> write_str wr (a + 1) limited (if limited then precission - 1 else precission) p
       else Some (Inr p))"

definition convert_string :: "'a writer \<Rightarrow> addr \<Rightarrow> u16 \<Rightarrow> u32 \<Rightarrow> u32 \<Rightarrow> 'a pout \<Rightarrow> 'a pout res" where
  "convert_string wr a fl width precission p =
     bnd (loop_res (str_span (bytes (snd p)) a (if precission \<noteq> 0 then ucast precission else - 1))) (\<lambda>s.
     let l = ucast (s - a) :: u32;
         l = (if has fl PRINT_FLAG_PRECISION then if l < precission then l else precission else l)
     in bnd (if \<not> has fl PRINT_FLAG_LEFT then write_n wr (unat width - unat l) 32 p else Inr p) (\<lambda>p.
        bnd (loop_res (write_str wr a (has fl PRINT_FLAG_PRECISION) precission p)) (\<lambda>p.
        if has fl PRINT_FLAG_LEFT then write_n wr (unat width - unat l) 32 p else Inr p)))"

definition is_number_conv :: "u8 \<Rightarrow> bool" where
  "is_number_conv c \<longleftrightarrow> c = 100 \<or> c = 105 \<or> c = 117 \<or> c = 120 \<or> c = 88 \<or> c = 111 \<or> c = 98"

definition convert :: "'a writer \<Rightarrow> u8 \<Rightarrow> u64 list \<Rightarrow> u16 \<Rightarrow> u32 \<Rightarrow> u32 \<Rightarrow> 'a pout \<Rightarrow> (u64 list \<times> 'a pout) res" where
  "convert wr c args fl width precission p =
     (if is_number_conv c
      then bnd (va_arg args) (\<lambda>(w, args). bnd (convert_number wr c w fl width precission p) (\<lambda>p. Inr (args, p)))
      else if c = 99
      then bnd (va_arg args) (\<lambda>(w, args). bnd (convert_char wr w fl width p) (\<lambda>p. Inr (args, p)))
      else if c = 115
      then bnd (va_arg args) (\<lambda>(w, args). bnd (convert_string wr w fl width precission p) (\<lambda>p. Inr (args, p)))
      else if c = 112
      then bnd (va_arg args) (\<lambda>(w, args).
           bnd (ntoa_long_long wr w False 16 precission 16 (ucast (fl OR (PRINT_FLAG_ZEROPAD OR PRINT_FLAG_UPPERCASE))) p) (\<lambda>p.
           Inr (args, p)))
      else bnd (wr c p) (\<lambda>p. Inr (args, p)))"

definition directive :: "'a writer \<Rightarrow> addr \<Rightarrow> u64 list \<Rightarrow> 'a pout \<Rightarrow> (addr \<times> u64 list \<times> 'a pout) res" where
  "directive wr fmt args p =
     (let m = bytes (snd p) in
      bnd (loop_res (parse_flags m fmt 0)) (\<lambda>(fl, fmt).
      bnd (parse_width m fmt args fl) (\<lambda>(width, fl, fmt, args).
      bnd (parse_precision m fmt args fl) (\<lambda>(precission, fl, fmt, args).
      bnd (parse_length m fmt fl) (\<lambda>(fl, fmt).
      bnd (ld8 m fmt) (\<lambda>c.
      bnd (convert wr c args fl width precission p) (\<lambda>(args, p).
      Inr (fmt + 1, args, p))))))))"

partial_function (option) vsnprintf_loop :: "'a writer \<Rightarrow> addr \<Rightarrow> u64 list \<Rightarrow> 'a pout \<Rightarrow> 'a pout res option" where
  "vsnprintf_loop wr fmt args p =
     (case ld8 (bytes (snd p)) fmt of Inl e \<Rightarrow> Some (Inl e) | Inr c \<Rightarrow>
       if c = 0 then Some (Inr p)
       else case (if c = 37 then directive wr (fmt + 1) args p else bnd (wr c p) (\<lambda>p. Inr (fmt + 1, args, p))) of
           Inl e \<Rightarrow> Some (Inl e)
         | Inr (fmt, args, p) \<Rightarrow> vsnprintf_loop wr fmt args p)"

definition vsnprintf_internal :: "'a writer \<Rightarrow> addr \<Rightarrow> u64 list \<Rightarrow> 'a pout \<Rightarrow> (u32 \<times> 'a pout) res" where
  "vsnprintf_internal wr format args p =
     bnd (loop_res (vsnprintf_loop wr format args p)) (\<lambda>p.
     bnd (wr 0 p) (\<lambda>p.
     Inr (ucast (currentPos (fst p)), p)))"

section \<open>The writers and the callers\<close>

definition printf_write_char_str :: "'a writer" where
  "printf_write_char_str c p =
     (case p of (func, s) \<Rightarrow>
       if pf_data func \<noteq> NULL \<and> (pf_size func = 0 \<or> pf_size func < currentPos func)
       then bnd (st8 (bytes s) (pf_data func + currentPos func) c) (\<lambda>m.
            Inr (func\<lparr>currentPos := currentPos func + 1\<rparr>, s\<lparr>bytes := m\<rparr>))
       else Inr (func, s))"

partial_function (option) uart_wait :: "'a kio_scheme \<Rightarrow> 'a kio_scheme option" where
  "uart_wait s =
     (let v = uart_lsr s (uart_reads s); s = s\<lparr>uart_reads := Suc (uart_reads s)\<rparr>
      in if v AND push_bit 5 1 = 0 then uart_wait s else Some s)"

definition arch_debug_printf_function :: "'a writer" where
  "arch_debug_printf_function c p =
     (case p of (func, s) \<Rightarrow>
       if pf_size func = 0 \<or> pf_size func < currentPos func
       then case uart_wait s of None \<Rightarrow> Inl Hang
         | Some s \<Rightarrow> Inr (func\<lparr>currentPos := currentPos func + 1\<rparr>, s\<lparr>uart_out := uart_out s @ [c]\<rparr>)
       else Inr (func, s))"

definition print_lock :: "string \<Rightarrow> int \<Rightarrow> 'a kio_scheme \<Rightarrow> 'a kio_scheme res" where
  "print_lock fn ln s = bnd (spinlock_lock (''system.c'', fn, ln) (PrintLock s) s) (\<lambda>(lk, s). Inr (s\<lparr>PrintLock := lk\<rparr>))"

definition print_unlock :: "'a kio_scheme \<Rightarrow> 'a kio_scheme" where
  "print_unlock s = (case spinlock_unlock (PrintLock s) s of (lk, s) \<Rightarrow> s\<lparr>PrintLock := lk\<rparr>)"

definition sprintf :: "addr \<Rightarrow> addr \<Rightarrow> u64 list \<Rightarrow> 'a kio_scheme \<Rightarrow> (u32 \<times> 'a kio_scheme) res" where
  "sprintf str format args s =
     (let func = \<lparr>pf_data = str, currentPos = 0, pf_size = 0\<rparr>
      in bnd (print_lock ''sprintf'' 363 s) (\<lambda>s.
         bnd (vsnprintf_internal printf_write_char_str format args (func, s)) (\<lambda>(ret, _, s).
         Inr (ret, print_unlock s))))"

definition printf :: "addr \<Rightarrow> u64 list \<Rightarrow> 'a kio_scheme \<Rightarrow> (u32 \<times> 'a kio_scheme) res" where
  "printf format args s =
     (let func = \<lparr>pf_data = NULL, currentPos = 0, pf_size = 0\<rparr>
      in bnd (print_lock ''printf'' 379 s) (\<lambda>s.
         bnd (vsnprintf_internal arch_debug_printf_function format args (func, s)) (\<lambda>(ret, _, s).
         Inr (ret, print_unlock s))))"

definition printf_scheduler :: "addr \<Rightarrow> u64 list \<Rightarrow> 'a kio_scheme \<Rightarrow> (u32 \<times> 'a kio_scheme) res" where
  "printf_scheduler format args s =
     (let func = \<lparr>pf_data = NULL, currentPos = 0, pf_size = 0\<rparr>
      in bnd (spinlock_lock (''system.c'', ''printf_scheduler'', 395) (PrintLock2 s) s) (\<lambda>(lk, s).
         bnd (vsnprintf_internal arch_debug_printf_function format args (func, s\<lparr>PrintLock2 := lk\<rparr>)) (\<lambda>(ret, _, s).
         case spinlock_unlock (PrintLock2 s) s of (lk, s) \<Rightarrow>
         Inr (ret, s\<lparr>PrintLock2 := lk\<rparr>))))"

section \<open>Writing a text\<close>

lemma write_n_all: "write_n wr k c p = write_all wr (replicate k c) p"
proof (induction k arbitrary: p)
  case (Suc k)
  then have "write_n wr k c = write_all wr (replicate k c)" by blast
  then show ?case by simp
qed simp

lemma write_all_append: "write_all wr (xs @ ys) p = bnd (write_all wr xs p) (write_all wr ys)"
proof (induction xs arbitrary: p)
  case (Cons c xs)
  have "(\<lambda>q. write_all wr (xs @ ys) q) = (\<lambda>q. bnd (write_all wr xs q) (write_all wr ys))" by (rule ext) (rule Cons.IH)
  then show ?case by (simp add: bnd_assoc)
qed simp

text \<open>A finished buffer goes out reversed, padded with spaces to the width.\<close>

lemma out_rev_all:
  "out_rev wr buf width fl p = write_all wr
    (if has fl PRINT_FLAG_LEFT then rev buf @ replicate (unat width - length buf) 32
     else if has fl PRINT_FLAG_ZEROPAD then rev buf
     else replicate (unat width - length buf) 32 @ rev buf) p"
proof -
  have e: "bnd r Inr = r" for r :: "'a pout res" by (cases r) simp_all
  have n: "write_n wr k c = write_all wr (replicate k c)" for k c by (rule ext) (rule write_n_all)
  show ?thesis by (simp add: out_rev_def write_all_append write_n_all n e)
qed

section \<open>What a writer promises\<close>

text \<open>
  A sink takes characters one by one: in a state that has room for one more it returns, appends the
  character to what was put out and leaves the memory at the safe addresses alone.
\<close>

locale char_sink =
  fixes wr :: "'a writer" and room :: "nat \<Rightarrow> 'a pout \<Rightarrow> bool" and out :: "'a pout \<Rightarrow> u8 list" and safe :: "addr \<Rightarrow> bool"
  assumes put: "room (Suc n) p \<Longrightarrow> \<exists>p'. wr c p = Inr p' \<and> room n p' \<and> out p' = out p @ [c] \<and>
    (\<forall>a. safe a \<longrightarrow> bytes (snd p') a = bytes (snd p) a)"
begin

lemma write_all_ok:
  "room (length cs + n) p \<Longrightarrow> \<exists>p'. write_all wr cs p = Inr p' \<and> room n p' \<and> out p' = out p @ cs \<and>
    (\<forall>a. safe a \<longrightarrow> bytes (snd p') a = bytes (snd p) a)"
proof (induction cs arbitrary: p)
  case (Cons c cs)
  from put [of "length cs + n" p c] Cons.prems obtain p1 where p1: "wr c p = Inr p1" "room (length cs + n) p1" "out p1 = out p @ [c]"
    "\<forall>a. safe a \<longrightarrow> bytes (snd p1) a = bytes (snd p) a" by auto
  from Cons.IH [OF p1(2)] p1 show ?case by auto
qed simp

end

section \<open>Numbers in a buffer\<close>

text \<open>The digits of a number in a base, the most significant first.\<close>

fun digits_of :: "nat \<Rightarrow> nat \<Rightarrow> nat list" where
  "digits_of b n = (if n < b \<or> b < 2 then [n] else digits_of b (n div b) @ [n mod b])"

declare digits_of.simps [simp del]

lemma digits_of_value: "foldl (\<lambda>a d. a * b + d) 0 (digits_of b n) = n"
  by (induction b n rule: digits_of.induct) (subst digits_of.simps, simp)

lemma digits_of_bound: "2 \<le> b \<Longrightarrow> d \<in> set (digits_of b n) \<Longrightarrow> d < b"
proof (induction b n rule: digits_of.induct)
  case (1 b n)
  from 1(3) have "d \<in> set (if n < b \<or> b < 2 then [n] else digits_of b (n div b) @ [n mod b])" by (subst (asm) digits_of.simps)
  then show ?case using 1(1,2) by (auto split: if_splits)
qed

lemma digits_of_length: "2 \<le> b \<Longrightarrow> n < b ^ Suc k \<Longrightarrow> length (digits_of b n) \<le> Suc k"
proof (induction k arbitrary: n)
  case 0
  then show ?case by (subst digits_of.simps) simp
next
  case (Suc k)
  have "n div b < b ^ Suc k" using Suc.prems by (simp add: less_mult_imp_div_less mult.commute)
  then show ?case using Suc.IH [of "n div b"] Suc.prems(1) by (subst digits_of.simps) simp
qed

lemma digits_of_nonempty [simp]: "digits_of b n \<noteq> []"
  by (subst digits_of.simps) simp

definition digit_text :: "nat \<Rightarrow> nat \<Rightarrow> u8 list" where
  "digit_text b n = map (\<lambda>d. digit_char (of_nat d)) (digits_of b n)"

lemma digit_text_step:
  "2 \<le> b \<Longrightarrow> digit_text b n = (if n < b then [] else digit_text b (n div b)) @ [digit_char (of_nat (n mod b))]"
  unfolding digit_text_def by (subst digits_of.simps) simp

lemma ntoa_digits_text:
  assumes "2 \<le> base" and "base \<le> 255"
  shows "length buf + length (digit_text (unat base) (unat w)) \<le> PRINTF_NTOA_BUFFER_SIZE \<Longrightarrow>
    ntoa_digits w base buf = Inr (buf @ rev (digit_text (unat base) (unat w)))"
proof (induction "unat w" arbitrary: w buf rule: less_induct)
  case less
  have b: "2 \<le> unat base" "unat base \<le> 255" "base \<noteq> 0" using assms by (auto simp: word_le_nat_alt)
  have ub: "unat (ucast base :: u64) = unat base" using b(2) by (simp add: unsigned_ucast_eq take_bit_nat_eq_self)
  let ?d = "digit_char (of_nat (unat w mod unat base))" and ?v = "w div ucast base"
  have v: "unat ?v = unat w div unat base" by (simp add: unat_div_distrib ub)
  have m: "(ucast (w mod ucast base) :: u8) = of_nat (unat w mod unat base)"

  proof -
    have "unat w mod unat base < 256" using b mod_less_divisor [of "unat base" "unat w"] by linarith
    moreover have "unat (w mod ucast base) = unat w mod unat base" by (simp only: unat_mod_distrib ub)
    ultimately have "unat (ucast (w mod ucast base) :: u8) = unat (of_nat (unat w mod unat base) :: u8)"
      by (simp add: unsigned_ucast_eq [where w = "w mod ucast base"] unat_of_nat take_bit_nat_eq_self)
    then show ?thesis by (metis unsigned_word_eqI)
  qed
  have v0: "?v = 0 \<longleftrightarrow> unat w < unat base" using v b(1) by (auto simp: unat_eq_0 [symmetric] div_eq_0_iff)
  note step = digit_text_step [OF b(1), of "unat w"]
  have put: "buf_put buf ?d = Inr (buf @ [?d])" using less.prems unfolding step by (simp add: buf_put_def split: if_splits)
  show ?case
  proof (cases "?v = 0")
    case True
    then show ?thesis using put b v0 step m by (subst ntoa_digits.simps) simp
  next
    case False
    then have big: "\<not> unat w < unat base" using v0 by simp
    then have "unat ?v < unat w" using b(1) by (simp add: v)
    moreover have fits: "length (buf @ [?d]) + length (digit_text (unat base) (unat ?v)) \<le> PRINTF_NTOA_BUFFER_SIZE"
      using less.prems big unfolding step v by simp
    ultimately have "ntoa_digits ?v base (buf @ [?d]) = Inr ((buf @ [?d]) @ rev (digit_text (unat base) (unat ?v)))"
      by (rule less.hyps)
    moreover have "length (buf @ [?d]) < PRINTF_NTOA_BUFFER_SIZE"
    proof -
      have "digit_text (unat base) (unat ?v) \<noteq> []" by (simp add: digit_text_def)
      then show ?thesis using fits by (cases "digit_text (unat base) (unat ?v)") simp_all
    qed
    ultimately show ?thesis using put b False big step m v by (subst ntoa_digits.simps) simp
  qed
qed

lemma digit_text_length:
  assumes "8 \<le> b"
  shows "length (digit_text b (unat (w :: u64))) \<le> 22"
proof -
  have "(2 :: nat) ^ 64 \<le> 8 ^ Suc 21" by simp
  also have "\<dots> \<le> b ^ Suc 21" using assms by (intro power_mono) simp_all
  finally have "unat w < b ^ Suc 21" using unat_u64_less [of w] by linarith
  from digits_of_length [OF _ this] assms show ?thesis by (simp add: digit_text_def)
qed

lemma zero_fill_eq:
  "length buf \<le> PRINTF_NTOA_BUFFER_SIZE \<Longrightarrow>
    zero_fill n buf = Inr (buf @ replicate (min n PRINTF_NTOA_BUFFER_SIZE - length buf) 48)"
proof (induction n buf rule: zero_fill.induct)
  case (1 n buf)
  show ?case
  proof (cases "length buf < n \<and> length buf < PRINTF_NTOA_BUFFER_SIZE")
    case True
    then have put: "buf_put buf 48 = Inr (buf @ [48])" by (simp add: buf_put_def)
    have "min n PRINTF_NTOA_BUFFER_SIZE - length buf = Suc (min n PRINTF_NTOA_BUFFER_SIZE - length (buf @ [48]))"
      using True by (auto simp: min_def)
    moreover have "zero_fill n (buf @ [48]) = Inr ((buf @ [48]) @ replicate (min n PRINTF_NTOA_BUFFER_SIZE - length (buf @ [48])) 48)"
      using 1(1) [OF True put] True by simp
    ultimately show ?thesis using True put by (subst zero_fill.simps) simp
  next
    case False
    then show ?thesis by (subst zero_fill.simps) auto
  qed
qed

text \<open>
  The text C prescribes for a number without precision and alternative form: the sign and the
  digits, filled to the width with spaces on the right, with zeros after the sign, or with spaces
  on the left.
\<close>

definition sign_text :: "bool \<Rightarrow> u32 \<Rightarrow> u8 list" where
  "sign_text negative fl =
     (if negative then [45] else if has fl PRINT_FLAG_PLUS then [43] else if has fl PRINT_FLAG_SPACE then [32] else [])"

definition number_text :: "bool \<Rightarrow> u8 list \<Rightarrow> nat \<Rightarrow> u32 \<Rightarrow> u8 list" where
  "number_text negative digits width fl =
     (let sign = sign_text negative fl; n = width - length (sign @ digits)
      in if has fl PRINT_FLAG_LEFT then sign @ digits @ replicate n 32
         else if has fl PRINT_FLAG_ZEROPAD then sign @ replicate n 48 @ digits
         else replicate n 32 @ sign @ digits)"

lemma format_sign_eq:
  "length buf < PRINTF_NTOA_BUFFER_SIZE \<Longrightarrow> format_sign buf negative fl = Inr (buf @ sign_text negative fl)"
  by (simp add: format_sign_def sign_text_def buf_put_def)

lemma has_or: "has fl (a OR b) \<longleftrightarrow> has fl a \<or> has fl b"
proof -
  have "fl AND (a OR b) = 0 \<longleftrightarrow> fl AND a = 0 \<and> fl AND b = 0"
    by (auto simp: bit_eq_iff bit_simps)
  then show ?thesis by (simp add: has_def)
qed

lemma sign_text_empty: "sign_text negative fl = [] \<longleftrightarrow> \<not> (negative \<or> has fl (PRINT_FLAG_PLUS OR PRINT_FLAG_SPACE))"
  by (simp add: sign_text_def has_or)

lemma sign_text_length: "length (sign_text negative fl) = (if sign_text negative fl = [] then 0 else 1)"
  by (simp add: sign_text_def)

lemma rev_sign_text [simp]: "rev (sign_text negative fl) = sign_text negative fl"
  by (simp add: sign_text_def)

lemma format_sign_text:
  "length buf < PRINTF_NTOA_BUFFER_SIZE \<or> sign_text negative fl = [] \<Longrightarrow> format_sign buf negative fl = Inr (buf @ sign_text negative fl)"
  by (auto simp: format_sign_def sign_text_def buf_put_def split: if_splits)

lemma ntoa_format_text:
  assumes len: "length ds \<le> 22" and hash: "\<not> has fl PRINT_FLAG_HASH"
    and wid: "\<not> has fl PRINT_FLAG_LEFT \<and> has fl PRINT_FLAG_ZEROPAD \<longrightarrow> unat width \<le> 32"
  shows "ntoa_format wr (rev ds) negative base 0 width fl p = write_all wr (number_text negative ds (unat width) fl) p"
proof (cases "has fl PRINT_FLAG_LEFT \<or> \<not> has fl PRINT_FLAG_ZEROPAD")
  case True
  have "format_zeros (rev ds) 0 width fl = Inr (rev ds)" if "\<not> has fl PRINT_FLAG_ZEROPAD"
    using len that by (simp add: format_zeros_def zero_fill_eq PRINTF_NTOA_BUFFER_SIZE_def)
  then show ?thesis using True len hash
    by (auto simp: ntoa_format_def format_sign_text PRINTF_NTOA_BUFFER_SIZE_def out_rev_all number_text_def Let_def add.commute)
next
  case False
  define w where "w = (if width \<noteq> 0 \<and> sign_text negative fl \<noteq> [] then width - 1 else width)"
  have w: "unat w = unat width - length (sign_text negative fl)"
  proof (cases "width \<noteq> 0 \<and> sign_text negative fl \<noteq> []")
    case True
    then have "unat (width - 1) = unat width - 1" by (simp add: unat_minus_one)
    then show ?thesis using True sign_text_length [of negative fl] by (simp add: w_def)
  next
    case False
    then show ?thesis using sign_text_length [of negative fl] by (auto simp: w_def)
  qed
  have wid': "unat width \<le> 32" using wid False by simp
  let ?buf = "rev ds @ replicate (unat w - length ds) 48"
  have z: "format_zeros (rev ds) 0 w fl = Inr ?buf"
    using len False w wid' by (simp add: format_zeros_def zero_fill_eq PRINTF_NTOA_BUFFER_SIZE_def min_def)
  have "length ?buf < PRINTF_NTOA_BUFFER_SIZE \<or> sign_text negative fl = []"
    using len wid' sign_text_length [of negative fl] by (auto simp: PRINTF_NTOA_BUFFER_SIZE_def w)
  then have s: "format_sign ?buf negative fl = Inr (?buf @ sign_text negative fl)" by (rule format_sign_text)
  have n: "unat w - length ds = unat width - length (sign_text negative fl @ ds)" using w by simp
  have e: "(if \<not> has fl PRINT_FLAG_LEFT \<and> width \<noteq> 0 \<and> has fl PRINT_FLAG_ZEROPAD \<and> (negative \<or> has fl (PRINT_FLAG_PLUS OR PRINT_FLAG_SPACE))
     then width - 1 else width) = w"
    using False sign_text_empty [of negative fl] by (auto simp: w_def)
  have "ntoa_format wr (rev ds) negative base 0 width fl p = out_rev wr (?buf @ sign_text negative fl) w fl p"
    unfolding ntoa_format_def e using False hash z s by (simp add: Let_def)
  also have "\<dots> = write_all wr (number_text negative ds (unat width) fl) p"
    using False n by (simp add: out_rev_all number_text_def Let_def)
  finally show ?thesis .
qed

text \<open>Whatever the flags, the buffer is never written beyond its end.\<close>

lemma ntoa_digits_fits:
  "base \<noteq> 0 \<Longrightarrow> length buf < PRINTF_NTOA_BUFFER_SIZE \<Longrightarrow>
    \<exists>buf'. ntoa_digits w base buf = Inr buf' \<and> length buf' \<le> PRINTF_NTOA_BUFFER_SIZE"
proof (induction w base buf rule: ntoa_digits.induct)
  case (1 w base buf)
  let ?d = "digit_char (ucast (w mod ucast base))"
  have put: "buf_put buf ?d = Inr (buf @ [?d])" using 1(3) by (simp add: buf_put_def)
  show ?case
  proof (cases "w div ucast base \<noteq> 0 \<and> length (buf @ [?d]) < PRINTF_NTOA_BUFFER_SIZE")
    case True
    then show ?thesis using 1(1) [OF _ put refl] 1(2) put by (subst ntoa_digits.simps) simp
  next
    case False
    then have "ntoa_digits w base buf = Inr (buf @ [?d])" using put 1(2) by (subst ntoa_digits.simps) auto
    then show ?thesis using 1(3) by simp
  qed
qed

lemma format_hash_fits:
  "length buf \<le> PRINTF_NTOA_BUFFER_SIZE \<Longrightarrow>
    \<exists>buf'. format_hash buf base prec width fl = Inr buf' \<and> length buf' \<le> PRINTF_NTOA_BUFFER_SIZE"
  by (auto simp: format_hash_def buf_put_def Let_def)

lemma format_sign_fits:
  "length buf \<le> PRINTF_NTOA_BUFFER_SIZE \<Longrightarrow>
    \<exists>buf'. format_sign buf negative fl = Inr buf' \<and> length buf' \<le> PRINTF_NTOA_BUFFER_SIZE"
  by (auto simp: format_sign_def buf_put_def)

lemma format_zeros_fits:
  "length buf \<le> PRINTF_NTOA_BUFFER_SIZE \<Longrightarrow>
    \<exists>buf'. format_zeros buf prec width fl = Inr buf' \<and> length buf' \<le> PRINTF_NTOA_BUFFER_SIZE"
  by (auto simp: format_zeros_def zero_fill_eq)

lemma fits_if:
  "\<exists>b. r = Inr b \<and> length b \<le> n \<Longrightarrow> length b0 \<le> n \<Longrightarrow> \<exists>b. (if P then r else Inr b0) = Inr b \<and> length b \<le> n"
  by auto

lemma ntoa_format_fits:
  assumes "length buf \<le> PRINTF_NTOA_BUFFER_SIZE"
  shows "\<exists>cs. ntoa_format wr buf negative base prec width fl p = write_all wr cs p \<and> length cs \<le> max 32 (unat width)"
proof -
  define w where "w = (if \<not> has fl PRINT_FLAG_LEFT \<and> width \<noteq> 0 \<and> has fl PRINT_FLAG_ZEROPAD \<and>
    (negative \<or> has fl (PRINT_FLAG_PLUS OR PRINT_FLAG_SPACE)) then width - 1 else width)"
  have w: "unat w \<le> unat width" by (auto simp: w_def unat_minus_one)
  obtain b1 where b1: "(if \<not> has fl PRINT_FLAG_LEFT then format_zeros buf prec w fl else Inr buf) = Inr b1"
    "length b1 \<le> PRINTF_NTOA_BUFFER_SIZE" using fits_if [OF format_zeros_fits [OF assms] assms] by blast
  obtain b2 where b2: "(if has fl PRINT_FLAG_HASH then format_hash b1 base prec w fl else Inr b1) = Inr b2"
    "length b2 \<le> PRINTF_NTOA_BUFFER_SIZE" using fits_if [OF format_hash_fits [OF b1(2)] b1(2)] by blast
  obtain b3 where b3: "format_sign b2 negative fl = Inr b3" "length b3 \<le> PRINTF_NTOA_BUFFER_SIZE"
    using format_sign_fits [OF b2(2)] by auto
  have "ntoa_format wr buf negative base prec width fl p = out_rev wr b3 w fl p"
    using b1(1) b2(1) b3(1) unfolding ntoa_format_def w_def [symmetric] Let_def by simp
  then show ?thesis using b3(2) w by (auto simp: out_rev_all PRINTF_NTOA_BUFFER_SIZE_def)
qed

lemma ntoa_same: "ntoa_long = ntoa_long_long"
  by (intro ext) (simp add: ntoa_long_def ntoa_long_long_def)

lemma ntoa_fits:
  assumes "base \<noteq> 0"
  shows "\<exists>cs. ntoa_long_long wr w negative base prec width fl p = write_all wr cs p \<and> length cs \<le> max 32 (unat width)"
proof -
  let ?fl = "if w = 0 then fl AND NOT PRINT_FLAG_HASH else fl"
  obtain buf where buf: "(if \<not> has ?fl PRINT_FLAG_PRECISION \<or> w \<noteq> 0 then ntoa_digits w base [] else Inr []) = Inr buf"
    "length buf \<le> PRINTF_NTOA_BUFFER_SIZE"
    using fits_if [OF ntoa_digits_fits [OF assms, of "[]" w], of "[]"] by (force simp: PRINTF_NTOA_BUFFER_SIZE_def)
  show ?thesis unfolding ntoa_long_long_def Let_def buf(1) bnd_Inr by (rule ntoa_format_fits [OF buf(2)])
qed

lemma ntoa_text:
  assumes "base = 8 \<or> base = 10 \<or> base = 16" and "\<not> has fl PRINT_FLAG_HASH" and "\<not> has fl PRINT_FLAG_PRECISION"
    and "\<not> has fl PRINT_FLAG_LEFT \<and> has fl PRINT_FLAG_ZEROPAD \<longrightarrow> unat width \<le> 32"
  shows "ntoa_long_long wr w negative base 0 width fl p =
    write_all wr (number_text negative (digit_text (unat base) (unat w)) (unat width) fl) p"
proof -
  have b: "2 \<le> base" "base \<le> 255" "8 \<le> unat base" using assms(1) by auto
  note len = digit_text_length [OF b(3), of w]
  have fl: "(if w = 0 then fl AND NOT PRINT_FLAG_HASH else fl) = fl"
    using assms(2) by (auto simp: has_def bit_eq_iff bit_simps)
  have ds: "ntoa_digits w base [] = Inr (rev (digit_text (unat base) (unat w)))"
    using ntoa_digits_text [OF b(1,2), of "[]" w] len by (simp add: PRINTF_NTOA_BUFFER_SIZE_def)
  show ?thesis
    unfolding ntoa_long_long_def Let_def fl ds using assms(3) ntoa_format_text [OF len assms(2,4)] by (simp only: if_True simp_thms bnd_Inr)
qed

section \<open>The two writers as sinks\<close>

text \<open>The serial port, as long as its transmitter becomes free again and again.\<close>

definition uart_live :: "'a kio_scheme \<Rightarrow> bool" where
  "uart_live s \<longleftrightarrow> (\<forall>k. \<exists>j\<ge>k. uart_lsr s j AND push_bit 5 1 \<noteq> 0)"

lemma uart_wait_returns:
  assumes "uart_live s"
  shows "\<exists>n. uart_wait s = Some (s\<lparr>uart_reads := n\<rparr>)"
proof -
  obtain j where j: "uart_reads s \<le> j" "uart_lsr s j AND push_bit 5 1 \<noteq> 0" using assms by (auto simp: uart_live_def)
  then show ?thesis
  proof (induction "j - uart_reads s" arbitrary: s)
    case 0
    then have "uart_lsr s (uart_reads s) AND push_bit 5 1 \<noteq> 0" by simp
    then show ?case by (subst uart_wait.simps) (auto simp: Let_def)
  next
    case (Suc d)
    let ?s = "s\<lparr>uart_reads := Suc (uart_reads s)\<rparr>"
    have "\<exists>n. uart_wait ?s = Some (?s\<lparr>uart_reads := n\<rparr>)" using Suc by (intro Suc.hyps(1)) auto
    then show ?case by (subst uart_wait.simps) (auto simp: Let_def)
  qed
qed

text \<open>The current position counts the characters sent since there were \<open>k\<close> of them.\<close>

definition uart_room :: "nat \<Rightarrow> nat \<Rightarrow> 'a pout \<Rightarrow> bool" where
  "uart_room k n p \<longleftrightarrow> pf_size (fst p) = 0 \<and> uart_live (snd p) \<and> currentPos (fst p) + of_nat k = of_nat (length (uart_out (snd p)))"

lemma uart_sink: "char_sink arch_debug_printf_function (uart_room k) (\<lambda>p. uart_out (snd p)) (\<lambda>_. True)"
proof
  fix n and p :: "'a pout" and c
  assume room: "uart_room k (Suc n) p"
  obtain func s where p: "p = (func, s)" by fastforce
  then obtain j where "uart_wait s = Some (s\<lparr>uart_reads := j\<rparr>)" using uart_wait_returns room by (auto simp: uart_room_def)
  then show "\<exists>p'. arch_debug_printf_function c p = Inr p' \<and> uart_room k n p' \<and> uart_out (snd p') = uart_out (snd p) @ [c] \<and>
      (\<forall>a. True \<longrightarrow> bytes (snd p') a = bytes (snd p) a)"
    using room by (simp add: p arch_debug_printf_function_def uart_room_def uart_live_def algebra_simps)
qed

interpretation uart: char_sink arch_debug_printf_function "uart_room k" "\<lambda>p. uart_out (snd p)" "\<lambda>_. True" for k
  by (rule uart_sink)

text \<open>
  A buffer of \<open>n\<close> more mapped bytes: what was put out are the bytes from its start to the current
  position, and every address outside the buffer is safe.
\<close>

definition str_room :: "addr \<Rightarrow> nat \<Rightarrow> nat \<Rightarrow> 'a pout \<Rightarrow> bool" where
  "str_room str cap n p \<longleftrightarrow> str \<noteq> NULL \<and> pf_data (fst p) = str \<and> pf_size (fst p) = 0 \<and> cap < 2 ^ 64 \<and>
     unat (currentPos (fst p)) + n \<le> cap \<and> mapped (bytes (snd p)) str cap"

definition str_out :: "addr \<Rightarrow> 'a pout \<Rightarrow> u8 list" where
  "str_out str p = map (\<lambda>i. the (bytes (snd p) (str + of_nat i))) [0..<unat (currentPos (fst p))]"

lemma str_sink: "char_sink printf_write_char_str (str_room str cap) (str_out str) (\<lambda>a. \<not> in_span str cap a)"
proof
  fix n and p :: "'a pout" and c
  assume room: "str_room str cap (Suc n) p"
  obtain func s where p: "p = (func, s)" by fastforce
  let ?k = "unat (currentPos func)" and ?a = "str + currentPos func"
  have k: "?k < cap" "cap < 2 ^ 64" "str \<noteq> NULL" "pf_data func = str" "pf_size func = 0" "?k + Suc n \<le> cap" "mapped (bytes s) str cap"
    using room by (simp_all add: p str_room_def)
  have a: "?a = str + of_nat ?k" by simp
  have next': "unat (currentPos func + 1) = Suc ?k" using k by (simp add: unat_add_u64)
  have "bytes s ?a \<noteq> None" using k(1,7) unfolding a mapped_def by blast
  then have call: "printf_write_char_str c p = Inr (func\<lparr>currentPos := currentPos func + 1\<rparr>, s\<lparr>bytes := (bytes s)(?a := Some c)\<rparr>)"
    using k by (simp add: printf_write_char_str_def p st8_def)
  have "in_span str cap ?a" unfolding a by (rule in_span_offset) (use k(1,2) in simp_all)
  then have safe: "\<forall>a. \<not> in_span str cap a \<longrightarrow> ((bytes s)(?a := Some c)) a = bytes s a" by auto
  have "str + of_nat i \<noteq> ?a" if "i < ?k" for i

  proof
    assume "str + of_nat i = ?a"
    then have "of_nat i = currentPos func" by simp
    then have "i = ?k" using unat_of_nat_u64 [of i] that k by (metis less_trans)
    with that show False by simp
  qed
  then have out: "map (\<lambda>i. the (((bytes s)(?a := Some c)) (str + of_nat i))) [0..<Suc ?k] = map (\<lambda>i. the (bytes s (str + of_nat i))) [0..<?k] @ [c]"
    by simp
  have e: "bytes (s\<lparr>bytes := m\<rparr>) = m" "currentPos (func\<lparr>currentPos := x\<rparr>) = x" for m x by simp_all
  show "\<exists>p'. printf_write_char_str c p = Inr p' \<and> str_room str cap n p' \<and> str_out str p' = str_out str p @ [c] \<and>
      (\<forall>a. \<not> in_span str cap a \<longrightarrow> bytes (snd p') a = bytes (snd p) a)"
  proof (intro exI conjI)
    show "printf_write_char_str c p = Inr (func\<lparr>currentPos := currentPos func + 1\<rparr>, s\<lparr>bytes := (bytes s)(?a := Some c)\<rparr>)" by (rule call)
    show "str_room str cap n (func\<lparr>currentPos := currentPos func + 1\<rparr>, s\<lparr>bytes := (bytes s)(?a := Some c)\<rparr>)"
      using k next' by (simp add: str_room_def)
    show "str_out str (func\<lparr>currentPos := currentPos func + 1\<rparr>, s\<lparr>bytes := (bytes s)(?a := Some c)\<rparr>) = str_out str p @ [c]"
      using out unfolding str_out_def p fst_conv snd_conv e next' .
    show "\<forall>a. \<not> in_span str cap a \<longrightarrow> bytes (snd (func\<lparr>currentPos := currentPos func + 1\<rparr>, s\<lparr>bytes := (bytes s)(?a := Some c)\<rparr>)) a = bytes (snd p) a"
      using safe unfolding p snd_conv e .
  qed
qed

interpretation str: char_sink printf_write_char_str "str_room str cap" "str_out str" "\<lambda>a. \<not> in_span str cap a" for str cap
  by (rule str_sink)

section \<open>Formats\<close>

text \<open>
  A format as the pieces it is made of: plain characters, long integers, strings and the percent
  sign; the text of a piece in the format, the arguments it takes and the text C prescribes for it.
  That text is written down from the language, without the definitions of the code: the letters of
  the conversions, their bases, and the digits as a table. The one place where the code differs from
  C is in the table: \<open>%x\<close> prints the digits above 9 as capital letters too.
\<close>

datatype piece = Lit u8 | Long u8 u64 | Str addr "u8 list" | Percent

fun piece_text :: "piece \<Rightarrow> u8 list" where
  "piece_text (Lit c) = [c]"
| "piece_text (Long c w) = [of_char CHR ''%'', of_char CHR ''l'', c]"
| "piece_text (Str a cs) = [of_char CHR ''%'', of_char CHR ''s'']"
| "piece_text Percent = [of_char CHR ''%'', of_char CHR ''%'']"

fun piece_args :: "piece \<Rightarrow> u64 list" where
  "piece_args (Long c w) = [w]"
| "piece_args (Str a cs) = [a]"
| "piece_args _ = []"

definition C_DIGITS :: string where
  "C_DIGITS = ''0123456789ABCDEF''"

definition C_CONVERSIONS :: string where
  "C_CONVERSIONS = ''diuoxX''"

definition c_digit :: "nat \<Rightarrow> u8" where
  "c_digit d = of_char (C_DIGITS ! d)"

definition c_number :: "nat \<Rightarrow> nat \<Rightarrow> u8 list" where
  "c_number b n = map c_digit (digits_of b n)"

definition c_base :: "u8 \<Rightarrow> nat" where
  "c_base c = (if c = of_char CHR ''o'' then 8 else if c = of_char CHR ''x'' \<or> c = of_char CHR ''X'' then 16 else 10)"

definition signed_conv :: "u8 \<Rightarrow> bool" where
  "signed_conv c \<longleftrightarrow> c = of_char CHR ''d'' \<or> c = of_char CHR ''i''"

fun piece_out :: "piece \<Rightarrow> u8 list" where
  "piece_out (Lit c) = [c]"
| "piece_out (Long c w) =
     (if signed_conv c then (if sint w < 0 then [of_char CHR ''-''] else []) @ c_number 10 (nat \<bar>sint w\<bar>)
      else c_number (c_base c) (unat w))"
| "piece_out (Str a cs) = cs"
| "piece_out Percent = [of_char CHR ''%'']"

text \<open>Bytes of memory at safe addresses.\<close>

fun held_at :: "(addr \<Rightarrow> bool) \<Rightarrow> mem \<Rightarrow> addr \<Rightarrow> u8 list \<Rightarrow> bool" where
  "held_at safe m a [] = True"
| "held_at safe m a (c # cs) = (safe a \<and> m a = Some c \<and> held_at safe m (a + 1) cs)"

fun piece_ok :: "(addr \<Rightarrow> bool) \<Rightarrow> mem \<Rightarrow> piece \<Rightarrow> bool" where
  "piece_ok safe m (Lit c) \<longleftrightarrow> c \<noteq> 0 \<and> c \<noteq> of_char CHR ''%''"
| "piece_ok safe m (Long c w) \<longleftrightarrow> c \<in> of_char ` set C_CONVERSIONS"
| "piece_ok safe m (Str a cs) \<longleftrightarrow> 0 \<notin> set cs \<and> length cs < 2 ^ 32 \<and> held_at safe m a (cs @ [0])"
| "piece_ok safe m Percent \<longleftrightarrow> True"

lemma held_at_keep:
  "held_at safe m a cs \<Longrightarrow> \<forall>a. safe a \<longrightarrow> m' a = m a \<Longrightarrow> held_at safe m' a cs"
  by (induction cs arbitrary: a) auto

lemma held_at_append: "held_at safe m a (xs @ ys) \<longleftrightarrow> held_at safe m a xs \<and> held_at safe m (a + of_nat (length xs)) ys"
  by (induction xs arbitrary: a) (auto simp: algebra_simps)

lemma piece_ok_keep: "piece_ok safe m q \<Longrightarrow> \<forall>a. safe a \<longrightarrow> m' a = m a \<Longrightarrow> piece_ok safe m' q"
  by (cases q) (auto intro: held_at_keep)

text \<open>The code has the conversions, bases and digits of the specification.\<close>

lemma c_conversions: "c \<in> of_char ` set C_CONVERSIONS \<Longrightarrow> is_number_conv c \<and> c \<noteq> 98"
  by (auto simp: C_CONVERSIONS_def is_number_conv_def)

lemma c_base_eq: "c \<noteq> 98 \<Longrightarrow> unat (conv_base c) = c_base c"
  by (simp add: conv_base_def c_base_def)

lemma c_digit_eq: "d < 16 \<Longrightarrow> c_digit d = digit_char (of_nat d)"
proof -
  have "list_all (\<lambda>d. c_digit d = digit_char (of_nat d)) [0..<16]" by code_simp
  then show "d < 16 \<Longrightarrow> c_digit d = digit_char (of_nat d)" by (simp only: list_all_iff set_upt atLeastLessThan_iff) simp
qed

lemma c_number_eq: "2 \<le> b \<Longrightarrow> b \<le> 16 \<Longrightarrow> c_number b n = digit_text b n"
  unfolding c_number_def digit_text_def by (rule map_cong [OF refl c_digit_eq]) (use digits_of_bound [of b _ n] in fastforce)

text \<open>The magnitude of a signed word.\<close>

lemma magnitude: "unat (if sint w > 0 then w else 0 - w) = nat \<bar>sint (w :: u64)\<bar>"
proof -
  have w: "word_of_int (sint w) = w" by simp
  have r: "- (2 ^ 63) \<le> sint w" "sint w < 2 ^ 63" using sint_ge [of w] sint_lt [of w] by simp_all
  have u: "unat (word_of_int k :: u64) = nat k" if "0 \<le> k" "k < 2 ^ 64" for k
    using that by (simp add: unsigned_of_int take_bit_int_eq_self)
  show ?thesis
  proof (cases "sint w > 0")
    case True
    then show ?thesis using u [of "sint w"] r w by simp
  next
    case False
    moreover have "0 - w = word_of_int (- sint w)" using w by simp
    ultimately show ?thesis using u [of "- sint w"] r by simp
  qed
qed

lemma conv_flags_long:
  assumes "is_number_conv c"
  shows "\<not> has (ucast (conv_flags c PRINT_FLAG_LONG) :: u32) PRINT_FLAG_HASH"
    and "\<not> has (ucast (conv_flags c PRINT_FLAG_LONG) :: u32) PRINT_FLAG_PRECISION"
    and "\<not> has (ucast (conv_flags c PRINT_FLAG_LONG) :: u32) PRINT_FLAG_LEFT"
    and "\<not> has (ucast (conv_flags c PRINT_FLAG_LONG) :: u32) PRINT_FLAG_ZEROPAD"
    and "\<not> has (ucast (conv_flags c PRINT_FLAG_LONG) :: u32) PRINT_FLAG_PLUS"
    and "\<not> has (ucast (conv_flags c PRINT_FLAG_LONG) :: u32) PRINT_FLAG_SPACE"
    and "has (conv_flags c PRINT_FLAG_LONG) PRINT_FLAG_LONG" and "\<not> has (conv_flags c PRINT_FLAG_LONG) PRINT_FLAG_LONG_LONG"
  using assms by (auto simp: is_number_conv_def conv_flags_def conv_base_def has_def print_flags Let_def)

lemma convert_long:
  assumes "is_number_conv c" and "c \<noteq> 98"
  shows "convert_number wr c w PRINT_FLAG_LONG 0 0 p = write_all wr (piece_out (Long c w)) p"
proof -
  note fl = conv_flags_long [OF assms(1)]
  have base: "conv_base c = 8 \<or> conv_base c = 10 \<or> conv_base c = 16" using assms(2) by (simp add: conv_base_def)
  have sg: "signed_conv c \<Longrightarrow> c_base c = 10" by (auto simp: signed_conv_def c_base_def)
  have ntoa: "ntoa_long_long wr v neg (conv_base c) 0 0 (ucast (conv_flags c PRINT_FLAG_LONG)) p =
      write_all wr ((if neg then [45] else []) @ c_number (c_base c) (unat v)) p" for v neg
    using ntoa_text [OF base fl(1,2), of 0 wr v neg p] fl base c_number_eq [of "c_base c" "unat v"] c_base_eq [OF assms(2)]
    by (auto simp: number_text_def sign_text_def)
  show ?thesis
  proof (cases "signed_conv c")
    case True
    then show ?thesis using fl(7,8) ntoa sg magnitude [of w]
      by (auto simp: convert_number_def signed_conv_def ntoa_same Let_def)
  next
    case False
    then show ?thesis using fl(7,8) ntoa by (simp add: convert_number_def signed_conv_def Let_def)
  qed
qed

lemma str_span_held:
  "held_at safe m a (cs @ [0]) \<Longrightarrow> 0 \<notin> set cs \<Longrightarrow> length cs \<le> unat n \<Longrightarrow> str_span m a n = Some (Inr (a + of_nat (length cs)))"
proof (induction cs arbitrary: a n)
  case Nil
  then show ?case by (subst str_span.simps) (simp add: ld8_def)
next
  case (Cons c cs)
  then have "n \<noteq> 0" by (auto simp: unat_eq_0 [symmetric])
  moreover from this Cons.prems(3) have "length cs \<le> unat (n - 1)" by (simp add: unat_minus_one)
  ultimately show ?case using Cons by (subst str_span.simps) (simp add: ld8_def algebra_simps)
qed

context char_sink
begin

lemma write_str_ok:
  "held_at safe (bytes (snd p)) a (cs @ [0]) \<Longrightarrow> 0 \<notin> set cs \<Longrightarrow> room (length cs + n) p \<Longrightarrow>
    \<exists>p'. write_str wr a False prec p = Some (Inr p') \<and> room n p' \<and> out p' = out p @ cs \<and>
      (\<forall>a. safe a \<longrightarrow> bytes (snd p') a = bytes (snd p) a)"
proof (induction cs arbitrary: a p)
  case Nil
  then show ?case by (subst write_str.simps) (simp add: ld8_def)
next
  case (Cons c cs)
  from put [of "length cs + n" p c] Cons.prems(3) obtain p1 where p1: "wr c p = Inr p1" "room (length cs + n) p1" "out p1 = out p @ [c]"
    "\<forall>a. safe a \<longrightarrow> bytes (snd p1) a = bytes (snd p) a" by auto
  have "held_at safe (bytes (snd p1)) (a + 1) (cs @ [0])" using Cons.prems(1) p1(4) by (auto intro: held_at_keep)
  from Cons.IH [OF this _ p1(2)] Cons.prems(2) obtain p' where p': "write_str wr (a + 1) False prec p1 = Some (Inr p')" "room n p'"
    "out p' = out p1 @ cs" "\<forall>a. safe a \<longrightarrow> bytes (snd p') a = bytes (snd p1) a" by auto
  have "write_str wr a False prec p = Some (Inr p')"
    using Cons.prems(1,2) p1(1) p'(1) by (subst write_str.simps) (simp add: ld8_def)
  then show ?case using p'(2-4) p1(3,4) by simp
qed

text \<open>One piece of a format: the text of the piece is consumed with its arguments and its output appears.\<close>

lemma piece_step:
  assumes "held_at safe (bytes (snd p)) fmt (piece_text q)" and "piece_ok safe (bytes (snd p)) q" and "room (length (piece_out q) + n) p"
  shows "\<exists>p'. vsnprintf_loop wr fmt (piece_args q @ args) p = vsnprintf_loop wr (fmt + of_nat (length (piece_text q))) args p'
    \<and> room n p' \<and> out p' = out p @ piece_out q \<and> (\<forall>a. safe a \<longrightarrow> bytes (snd p') a = bytes (snd p) a)"
proof (cases q)
  case (Lit c)
  from put [of n p c] assms(3) Lit obtain p1 where p1: "wr c p = Inr p1" "room n p1" "out p1 = out p @ [c]"
    "\<forall>a. safe a \<longrightarrow> bytes (snd p1) a = bytes (snd p) a" by auto
  have "vsnprintf_loop wr fmt (piece_args q @ args) p = vsnprintf_loop wr (fmt + of_nat (length (piece_text q))) args p1"
    using p1(1) assms(1,2) Lit by (subst vsnprintf_loop.simps) (simp add: ld8_def)
  then show ?thesis using p1(2-4) Lit by (intro exI [of _ p1]) simp
next
  case (Long c w)
  from write_all_ok [OF assms(3)] obtain p1 where p1: "write_all wr (piece_out q) p = Inr p1" "room n p1" "out p1 = out p @ piece_out q"
    "\<forall>a. safe a \<longrightarrow> bytes (snd p1) a = bytes (snd p) a" by auto
  have m: "bytes (snd p) fmt = Some 37" "bytes (snd p) (fmt + 1) = Some 108" "bytes (snd p) (fmt + 1 + 1) = Some c"
    using assms(1) Long by simp_all
  have c: "is_number_conv c" "c \<noteq> 98" "c \<noteq> 108" using assms(2) Long c_conversions [of c] by (auto simp: is_number_conv_def)
  have pf: "parse_flags (bytes (snd p)) (fmt + 1) 0 = Some (Inr (0, fmt + 1))"
    using m by (subst parse_flags.simps) (simp add: ld8_def)
  have "directive wr (fmt + 1) (w # args) p = Inr (fmt + 1 + 1 + 1, args, p1)"
    using m c p1(1) convert_long [OF c(1,2), of wr w p]
    by (simp add: directive_def Let_def pf parse_width_def parse_precision_def parse_length_def ld8_def isdigit_def convert_def va_arg_def Long)
  then have "vsnprintf_loop wr fmt (piece_args q @ args) p = vsnprintf_loop wr (fmt + of_nat (length (piece_text q))) args p1"
    using m Long by (subst vsnprintf_loop.simps) (simp add: ld8_def add.assoc)
  then show ?thesis using p1(2-4) Long by (intro exI [of _ p1]) simp
next
  case (Str a cs)
  then have s: "held_at safe (bytes (snd p)) a (cs @ [0])" "0 \<notin> set cs" "length cs < 2 ^ 32" "room (length cs + n) p" using assms by simp_all
  from write_str_ok [OF s(1,2,4), of 0] obtain p1 where p1: "write_str wr a False 0 p = Some (Inr p1)" "room n p1" "out p1 = out p @ cs"
    "\<forall>a. safe a \<longrightarrow> bytes (snd p1) a = bytes (snd p) a" by auto
  have "length cs \<le> unat MINUS_ONE" using s(3) by (simp add: unat_MINUS_ONE)
  from str_span_held [OF s(1,2) this] have span: "str_span (bytes (snd p)) a (- 1) = Some (Inr (a + of_nat (length cs)))" .
  have m: "bytes (snd p) fmt = Some 37" "bytes (snd p) (fmt + 1) = Some 115" using assms(1) Str by simp_all
  have pf: "parse_flags (bytes (snd p)) (fmt + 1) 0 = Some (Inr (0, fmt + 1))"
    using m by (subst parse_flags.simps) (simp add: ld8_def)
  have "directive wr (fmt + 1) (a # args) p = Inr (fmt + 1 + 1, args, p1)"
    using m p1(1) span
    by (simp add: directive_def Let_def pf parse_width_def parse_precision_def parse_length_def ld8_def isdigit_def convert_def va_arg_def
        is_number_conv_def convert_string_def has_def)
  then have "vsnprintf_loop wr fmt (piece_args q @ args) p = vsnprintf_loop wr (fmt + of_nat (length (piece_text q))) args p1"
    using m Str by (subst vsnprintf_loop.simps) (simp add: ld8_def add.assoc)
  then show ?thesis using p1(2-4) Str by (intro exI [of _ p1]) simp
next
  case Percent
  from put [of n p 37] assms(3) Percent obtain p1 where p1: "wr 37 p = Inr p1" "room n p1" "out p1 = out p @ [37]"
    "\<forall>a. safe a \<longrightarrow> bytes (snd p1) a = bytes (snd p) a" by auto
  have m: "bytes (snd p) fmt = Some 37" "bytes (snd p) (fmt + 1) = Some 37" using assms(1) Percent by simp_all
  have pf: "parse_flags (bytes (snd p)) (fmt + 1) 0 = Some (Inr (0, fmt + 1))"
    using m by (subst parse_flags.simps) (simp add: ld8_def)
  have "directive wr (fmt + 1) args p = Inr (fmt + 1 + 1, args, p1)"
    using m p1(1)
    by (simp add: directive_def Let_def pf parse_width_def parse_precision_def parse_length_def ld8_def isdigit_def convert_def is_number_conv_def)
  then have "vsnprintf_loop wr fmt (piece_args q @ args) p = vsnprintf_loop wr (fmt + of_nat (length (piece_text q))) args p1"
    using m Percent by (subst vsnprintf_loop.simps) (simp add: ld8_def add.assoc)
  then show ?thesis using p1(2-4) Percent by (intro exI [of _ p1]) simp
qed

lemma format_ok:
  "held_at safe (bytes (snd p)) fmt (concat (map piece_text qs) @ [0]) \<Longrightarrow> \<forall>q\<in>set qs. piece_ok safe (bytes (snd p)) q \<Longrightarrow>
    room (length (concat (map piece_out qs)) + n) p \<Longrightarrow>
    \<exists>p'. vsnprintf_loop wr fmt (concat (map piece_args qs)) p = Some (Inr p') \<and> room n p' \<and> out p' = out p @ concat (map piece_out qs) \<and>
      (\<forall>a. safe a \<longrightarrow> bytes (snd p') a = bytes (snd p) a)"
proof (induction qs arbitrary: fmt p)
  case Nil
  then show ?case by (subst vsnprintf_loop.simps) (simp add: ld8_def)
next
  case (Cons q qs)
  have h: "held_at safe (bytes (snd p)) fmt (piece_text q)"
    "held_at safe (bytes (snd p)) (fmt + of_nat (length (piece_text q))) (concat (map piece_text qs) @ [0])"
    using Cons.prems(1) held_at_append [of safe "bytes (snd p)" fmt "piece_text q" "concat (map piece_text qs) @ [0]"] by simp_all
  from piece_step [OF h(1), of "length (concat (map piece_out qs)) + n" "concat (map piece_args qs)"] Cons.prems(2,3)
  obtain p1 where p1: "vsnprintf_loop wr fmt (piece_args q @ concat (map piece_args qs)) p =
      vsnprintf_loop wr (fmt + of_nat (length (piece_text q))) (concat (map piece_args qs)) p1"
    "room (length (concat (map piece_out qs)) + n) p1" "out p1 = out p @ piece_out q"
    "\<forall>a. safe a \<longrightarrow> bytes (snd p1) a = bytes (snd p) a" by (auto simp: add.assoc)
  have "\<forall>q\<in>set qs. piece_ok safe (bytes (snd p1)) q" using Cons.prems(2) p1(4) piece_ok_keep by (metis list.set_intros(2))
  from Cons.IH [OF held_at_keep [OF h(2) p1(4)] this p1(2)] p1 show ?case by auto
qed

end

section \<open>Properties\<close>

definition lock_taken :: "string \<Rightarrow> int \<Rightarrow> 'a kio_scheme \<Rightarrow> 'a kio_scheme" where
  "lock_taken fn ln s = (arch_cpu_increment_preempt_counter s)\<lparr>PrintLock :=
     (PrintLock s)\<lparr>lock := 1, last_acquirer := acquirer_of (''system.c'', fn, ln) s\<rparr>\<rparr>"

lemma preempt_io [simp]:
  "bytes (arch_cpu_increment_preempt_counter s) = bytes (s :: 'a kio_scheme)" "uart_out (arch_cpu_increment_preempt_counter s) = uart_out s"
  "uart_lsr (arch_cpu_increment_preempt_counter s) = uart_lsr s"
  "bytes (arch_cpu_decrement_preempt_counter s) = bytes s" "uart_out (arch_cpu_decrement_preempt_counter s) = uart_out s"
  by (simp_all add: arch_cpu_increment_preempt_counter_def arch_cpu_decrement_preempt_counter_def)

lemma print_lock_eq:
  assumes "lock (PrintLock s) = 0"
  shows "print_lock fn ln s = Inr (lock_taken fn ln s)"
  using assms by (simp add: print_lock_def lock_taken_def)

lemma lock_taken_fields [simp]:
  "bytes (lock_taken fn ln s) = bytes s" "uart_out (lock_taken fn ln s) = uart_out s" "uart_live (lock_taken fn ln s) = uart_live s"
  by (simp_all add: lock_taken_def uart_live_def)

lemma print_unlock_fields [simp]:
  "bytes (print_unlock s) = bytes s" "uart_out (print_unlock s) = uart_out s" "lock (PrintLock (print_unlock s)) = 0"
  by (simp_all add: print_unlock_def)

lemma ucast_of_nat_u32: "(ucast (of_nat n :: u64) :: u32) = of_nat n"
  by (simp add: unsigned_of_nat word_of_nat_eq_iff take_bit_take_bit)

lemma held_bytes: "held_at (\<lambda>_. True) m a cs \<longleftrightarrow> bytes_at m a cs"
  by (induction cs arbitrary: a) auto

text \<open>
  Property C27. Printing a format made of plain characters, long integers in octal, decimal or
  hexadecimal, strings and percent signs ends and sends, in order, what C prescribes for each piece
  (but hexadecimal digits above 9 in upper case for \<open>%x\<close> as well), and then, other than C, a zero
  byte; it returns the number of characters sent, the zero among them.
\<close>

theorem printf_prints_pieces:
  assumes "lock (PrintLock s) = 0" and "uart_live s" and "bytes_at (bytes s) fmt (concat (map piece_text qs) @ [0])"
    and "\<forall>q\<in>set qs. piece_ok (\<lambda>_. True) (bytes s) q"
  shows "\<exists>s'. printf fmt (concat (map piece_args qs)) s = Inr (of_nat (length (concat (map piece_out qs)) + 1), s')
    \<and> uart_out s' = uart_out s @ concat (map piece_out qs) @ [0] \<and> bytes s' = bytes s \<and> lock (PrintLock s') = 0"
proof -
  let ?s0 = "lock_taken ''printf'' 379 s" and ?func = "\<lparr>pf_data = NULL, currentPos = 0, pf_size = 0\<rparr>"
  let ?k = "length (uart_out s)" and ?out = "concat (map piece_out qs)"
  have r: "uart_room ?k (length ?out + Suc 0) (?func, ?s0)" using assms(2) by (simp add: uart_room_def)
  obtain p1 where p1: "vsnprintf_loop arch_debug_printf_function fmt (concat (map piece_args qs)) (?func, ?s0) = Some (Inr p1)"
    "uart_room ?k (Suc 0) p1" "uart_out (snd p1) = uart_out s @ ?out" "bytes (snd p1) = bytes s"
    using uart.format_ok [of "(?func, ?s0)" fmt qs ?k "Suc 0"] r assms(3,4) by (auto simp: held_bytes fun_eq_iff)
  obtain p2 where p2: "arch_debug_printf_function 0 p1 = Inr p2" "uart_room ?k 0 p2" "uart_out (snd p2) = uart_out s @ ?out @ [0]" "bytes (snd p2) = bytes s"
    using uart.put [OF p1(2), of 0] p1(3,4) by (auto simp: fun_eq_iff)
  have "currentPos (fst p2) + of_nat ?k = of_nat (length ?out + 1) + of_nat ?k" using p2(2,3) by (simp add: uart_room_def)
  then have "currentPos (fst p2) = of_nat (length ?out + 1)" by simp
  then have "(ucast (currentPos (fst p2)) :: u32) = of_nat (length ?out + 1)" by (simp only: ucast_of_nat_u32)
  then have "printf fmt (concat (map piece_args qs)) s = Inr (of_nat (length ?out + 1), print_unlock (snd p2))"
    using p1(1) p2(1) assms(1) by (simp add: printf_def print_lock_eq vsnprintf_internal_def Let_def split: prod.splits)
  then show ?thesis using p2(3,4) by simp
qed

definition demo_io :: kio where
  "demo_io = pmm.extend (demo_pmm\<lparr>bytes := (\<lambda>_. Some 7)(0x2000 := Some 110, 0x2001 := Some 61, 0x2002 := Some 37, 0x2003 := Some 108,
       0x2004 := Some 100, 0x2005 := Some 37, 0x2006 := Some 115, 0x2007 := Some 0, 0x3000 := Some 107, 0x3001 := Some 0)\<rparr>)
     \<lparr>PrintLock = INIT_SPINLOCK, PrintLock2 = INIT_SPINLOCK, uart_lsr = (\<lambda>k. if even k then 0 else 0x60), uart_reads = 0, uart_out = []\<rparr>"

lemma demo_io_fields:
  "bytes_at (bytes demo_io) 0x2000 [110, 61, 37, 108, 100, 37, 115, 0]" "bytes_at (bytes demo_io) 0x3000 [107, 0]"
  "lock (PrintLock demo_io) = 0" "uart_out demo_io = []" "mapped (bytes demo_io) 0x4000 7"
  by (simp_all add: demo_io_def pmm.defs INIT_SPINLOCK_def mapped_def)

lemma demo_uart_live: "uart_live demo_io"
  unfolding uart_live_def
proof
  fix k
  show "\<exists>j\<ge>k. uart_lsr demo_io j AND push_bit 5 1 \<noteq> 0"
    by (rule exI [of _ "Suc (2 * k)"]) (simp add: demo_io_def pmm.defs)
qed

text \<open>The format \<open>n=%ld%s\<close> with -12 and the string \<open>k\<close>.\<close>

definition demo_pieces :: "piece list" where
  "demo_pieces = [Lit 110, Lit 61, Long 100 (- 12), Str 0x3000 [107]]"

lemma demo_pieces_out: "concat (map piece_out demo_pieces) = [110, 61, 45, 49, 50, 107]"
proof -
  have "c_number 10 12 = [49, 50]" by (simp add: c_number_def digits_of.simps c_digit_def C_DIGITS_def)
  then show ?thesis by (simp add: demo_pieces_def signed_conv_def)
qed

theorem printf_prints_pieces_witness:
  "\<exists>s'. printf 0x2000 [- 12, 0x3000] demo_io = Inr (7, s') \<and> uart_out s' = [110, 61, 45, 49, 50, 107, 0]"
proof -
  have "bytes_at (bytes demo_io) 0x2000 (concat (map piece_text demo_pieces) @ [0])" using demo_io_fields(1) by (simp add: demo_pieces_def)
  moreover have "\<forall>q\<in>set demo_pieces. piece_ok (\<lambda>_. True) (bytes demo_io) q"
    using demo_io_fields(2) by (simp add: demo_pieces_def C_CONVERSIONS_def held_bytes)
  ultimately show ?thesis using printf_prints_pieces [OF demo_io_fields(3) demo_uart_live] demo_pieces_out demo_io_fields(4)
    by (fastforce simp: demo_pieces_def)
qed

text \<open>
  Property C28. Printing such a format into a buffer writes exactly the text and its terminator: the
  buffer needs that many mapped bytes and no more, memory outside it does not change, and the result
  is the length with the terminator, one more than C prescribes. The format and the strings must lie
  outside the buffer.
\<close>

theorem sprintf_writes_text:
  assumes "lock (PrintLock s) = 0" and "str \<noteq> NULL" and "cap = length (concat (map piece_out qs)) + 1" and "cap < 2 ^ 64"
    and "mapped (bytes s) str cap" and "held_at (\<lambda>a. \<not> in_span str cap a) (bytes s) fmt (concat (map piece_text qs) @ [0])"
    and "\<forall>q\<in>set qs. piece_ok (\<lambda>a. \<not> in_span str cap a) (bytes s) q"
  shows "\<exists>s'. sprintf str fmt (concat (map piece_args qs)) s = Inr (of_nat cap, s')
    \<and> bytes_at (bytes s') str (concat (map piece_out qs) @ [0])
    \<and> (\<forall>a. \<not> in_span str cap a \<longrightarrow> bytes s' a = bytes s a) \<and> lock (PrintLock s') = 0"
proof -
  let ?s0 = "lock_taken ''sprintf'' 363 s" and ?func = "\<lparr>pf_data = str, currentPos = 0, pf_size = 0\<rparr>"
  let ?out = "concat (map piece_out qs)"
  have r: "str_room str cap (length ?out + Suc 0) (?func, ?s0)" using assms(2-5) by (simp add: str_room_def)
  have o0: "str_out str (?func, ?s0) = []" by (simp add: str_out_def)
  obtain p1 where p1: "vsnprintf_loop printf_write_char_str fmt (concat (map piece_args qs)) (?func, ?s0) = Some (Inr p1)"
    "str_room str cap (Suc 0) p1" "str_out str p1 = ?out" "\<forall>a. \<not> in_span str cap a \<longrightarrow> bytes (snd p1) a = bytes s a"
    using str.format_ok [of str cap "(?func, ?s0)" fmt qs "Suc 0"] r o0 assms(6,7) by auto
  obtain p2 where p2: "printf_write_char_str 0 p1 = Inr p2" "str_room str cap 0 p2" "str_out str p2 = ?out @ [0]"
    "\<forall>a. \<not> in_span str cap a \<longrightarrow> bytes (snd p2) a = bytes s a"
    using str.put [OF p1(2), of 0] p1(3,4) by auto
  have pos: "unat (currentPos (fst p2)) = cap" using arg_cong [OF p2(3), of length] assms(3) by (simp add: str_out_def)
  then have "currentPos (fst p2) = of_nat cap" by auto
  then have "(ucast (currentPos (fst p2)) :: u32) = of_nat cap" by (simp only: ucast_of_nat_u32)
  then have "sprintf str fmt (concat (map piece_args qs)) s = Inr (of_nat cap, print_unlock (snd p2))"
    using p1(1) p2(1) assms(1) by (simp add: sprintf_def print_lock_eq vsnprintf_internal_def Let_def split: prod.splits)
  moreover have "bytes_at (bytes (snd p2)) str (?out @ [0])"
  proof -
    have m: "mapped (bytes (snd p2)) str cap" using p2(2) by (simp add: str_room_def)
    have "bytes (snd p2) (str + of_nat i) = Some ((?out @ [0]) ! i)" if "i < length (?out @ [0])" for i
    proof -
      have "i < cap" using that assms(3) by simp
      then have "bytes (snd p2) (str + of_nat i) \<noteq> None" and "str_out str p2 ! i = the (bytes (snd p2) (str + of_nat i))"
        using m pos by (auto simp: mapped_def str_out_def)
      then show ?thesis using p2(3) by auto
    qed
    then show ?thesis by (simp add: bytes_at_nth)
  qed
  ultimately show ?thesis using p2(4) by simp
qed

theorem sprintf_writes_text_witness:
  "\<exists>s'. sprintf 0x4000 0x2000 [- 12, 0x3000] demo_io = Inr (7, s') \<and> bytes_at (bytes s') 0x4000 [110, 61, 45, 49, 50, 107, 0]"
proof -
  have "held_at (\<lambda>a. \<not> in_span 0x4000 7 a) (bytes demo_io) 0x2000 (concat (map piece_text demo_pieces) @ [0])"
    using demo_io_fields(1) by (simp add: demo_pieces_def in_span_iff)
  moreover have "\<forall>q\<in>set demo_pieces. piece_ok (\<lambda>a. \<not> in_span 0x4000 7 a) (bytes demo_io) q"
    using demo_io_fields(2) by (simp add: demo_pieces_def C_CONVERSIONS_def in_span_iff)
  ultimately show ?thesis
    using sprintf_writes_text [OF demo_io_fields(3), of "0x4000" 7 demo_pieces "0x2000"] demo_pieces_out demo_io_fields(5)
    by (fastforce simp: demo_pieces_def)
qed

text \<open>
  Property C29. Converting a number never writes beyond its buffer of 32 characters, whatever the
  value, the base, the precision, the width and the flags are: the conversion is the output of some
  text that is no longer than the buffer or the width.
\<close>

theorem ntoa_never_overflows:
  assumes "base \<noteq> 0"
  shows "\<exists>cs. length cs \<le> max 32 (unat width)
    \<and> ntoa_long wr w negative base prec width fl p = write_all wr cs p
    \<and> ntoa_long_long wr w negative base prec width fl p = write_all wr cs p"
  using ntoa_fits [OF assms, of wr w negative prec width fl p] unfolding ntoa_same by blast

theorem ntoa_never_overflows_witness:
  "\<exists>cs. length cs \<le> 40 \<and> ntoa_long_long arch_debug_printf_function (- 1) True 2 40 40 0x1E (\<lparr>pf_data = NULL, currentPos = 0, pf_size = 0\<rparr>, demo_io)
     = write_all arch_debug_printf_function cs (\<lparr>pf_data = NULL, currentPos = 0, pf_size = 0\<rparr>, demo_io)"
  using ntoa_never_overflows [of 2 40 arch_debug_printf_function "- 1" True 40 "0x1E" "(\<lparr>pf_data = NULL, currentPos = 0, pf_size = 0\<rparr>, demo_io)"] by auto

end
