(* ===== verification/Vmm.thy ===== *)
theory Vmm
  imports Klist
begin

text \<open>
  The virtual memory manager for riscv64, \<open>kernel/arch/riscv64/vmm.c\<close>, and its initialisation in
  \<open>kernel/mem/vmm.c\<close>. Page tables are frames of 512 words, read and written in the byte memory
  through the direct map; what the theorems say about them is what the memory management unit
  finds when it walks them.
\<close>

section \<open>Data\<close>

record pt_t =
  pt_entries :: addr
  pt_lk :: spinlock_t

record kvmm = klists +
  pt_mem :: "addr \<rightharpoonup> pt_t"
  max_level :: size_t
  satp :: u64
  KernelPageMap :: addr
  VmmKernelBase :: addr
  VmmPhysicalKernelBase :: addr
  VmmKernelSize :: size_t

definition VMM_FLAG_MASK :: u64 where
  "VMM_FLAG_MASK = 0x3FF"

definition VMM_PRESENT :: u64 where
  "VMM_PRESENT = 1"

definition VMM_READ :: u64 where
  "VMM_READ = 2"

definition VMM_WRITE :: u64 where
  "VMM_WRITE = 4"

definition VMM_EXECUTE :: u64 where
  "VMM_EXECUTE = 8"

definition LIMINE_MEMMAP_KERNEL_AND_MODULES :: u64 where
  "LIMINE_MEMMAP_KERNEL_AND_MODULES = 6"

lemmas vmm_flags = VMM_FLAG_MASK_def VMM_PRESENT_def VMM_READ_def VMM_WRITE_def VMM_EXECUTE_def

section \<open>Access to page tables\<close>

text \<open>\<open>pt->entries[offset]\<close>, read and written, for a pointer \<open>pt\<close> to a table in the direct map.\<close>

definition pt_ld :: "addr \<Rightarrow> size_t \<Rightarrow> 'a pmm_scheme \<Rightarrow> u64 res" where
  "pt_ld pt offset s = ld64 (bytes s) (pt + 8 * offset)"

definition pt_st :: "addr \<Rightarrow> size_t \<Rightarrow> u64 \<Rightarrow> 'a pmm_scheme \<Rightarrow> 'a pmm_scheme res" where
  "pt_st pt offset e s = bnd (st64 (bytes s) (pt + 8 * offset) e) (\<lambda>m. Inr (s\<lparr>bytes := m\<rparr>))"

definition ld_pt :: "'a kvmm_scheme \<Rightarrow> addr \<Rightarrow> pt_t res" where
  "ld_pt s p = need (pt_mem s p)"

definition up_pt :: "addr \<Rightarrow> (pt_t \<Rightarrow> pt_t) \<Rightarrow> 'a kvmm_scheme \<Rightarrow> 'a kvmm_scheme res" where
  "up_pt p f s = bnd (ld_pt s p) (\<lambda>t. Inr (s\<lparr>pt_mem := (pt_mem s)(p \<mapsto> f t)\<rparr>))"

definition pt_lock :: "string \<Rightarrow> int \<Rightarrow> addr \<Rightarrow> 'a kvmm_scheme \<Rightarrow> 'a kvmm_scheme res" where
  "pt_lock fn ln p s =
     bnd (ld_pt s p) (\<lambda>t.
     bnd (spinlock_lock (''vmm.c'', fn, ln) (pt_lk t) s) (\<lambda>(lk, s).
     Inr (s\<lparr>pt_mem := (pt_mem s)(p \<mapsto> t\<lparr>pt_lk := lk\<rparr>)\<rparr>)))"

definition pt_unlock :: "addr \<Rightarrow> 'a kvmm_scheme \<Rightarrow> 'a kvmm_scheme res" where
  "pt_unlock p s =
     bnd (ld_pt s p) (\<lambda>t.
     case spinlock_unlock (pt_lk t) s of (lk, s) \<Rightarrow>
     Inr (s\<lparr>pt_mem := (pt_mem s)(p \<mapsto> t\<lparr>pt_lk := lk\<rparr>)\<rparr>))"

section \<open>Walking and growing the tables\<close>

definition arch_vmm_preinit :: "'a kvmm_scheme \<Rightarrow> 'a kvmm_scheme" where
  "arch_vmm_preinit s =
     (if MEM_PHYS_OFFSET s = 0xFFFFFFC000000000 then s\<lparr>max_level := 3\<rparr>
      else if MEM_PHYS_OFFSET s = 0xFFFF800000000000 then s\<lparr>max_level := 4\<rparr>
      else if MEM_PHYS_OFFSET s = 0xFF00000000000000 then s\<lparr>max_level := 5\<rparr>
      else s)"

definition riscv_vmm_create_satp :: "'a kvmm_scheme \<Rightarrow> addr \<Rightarrow> u64" where
  "riscv_vmm_create_satp s entries = (push_bit 60 (5 + max_level s) OR drop_bit 12 entries)"

definition vmm_set_pt :: "addr \<Rightarrow> 'a kvmm_scheme \<Rightarrow> 'a kvmm_scheme res" where
  "vmm_set_pt pt s = bnd (ld_pt s pt) (\<lambda>t. Inr (s\<lparr>satp := riscv_vmm_create_satp s (pt_entries t)\<rparr>))"

definition get_addr_offsets :: "addr \<Rightarrow> size_t list" where
  "get_addr_offsets addrValue =
     [drop_bit 12 (addrValue AND push_bit 12 0x1FF),
      drop_bit 21 (addrValue AND push_bit 21 0x1FF),
      drop_bit 30 (addrValue AND push_bit 30 0x1FF),
      drop_bit 39 (addrValue AND push_bit 39 0x1FF),
      drop_bit 48 (addrValue AND push_bit 48 0x1FF)]"

text \<open>An access to \<open>offset.levels[i]\<close>, an array of five.\<close>

definition level_at :: "size_t list \<Rightarrow> nat \<Rightarrow> size_t res" where
  "level_at levels i = (if i < length levels then Inr (levels ! i) else Inl Fault)"

text \<open>The table an entry refers to: the common end of \<open>vmm_get_or_alloc\<close> and \<open>vmm_get_or_null\<close>.\<close>

definition entry_table :: "u64 \<Rightarrow> u64 \<Rightarrow> addr" where
  "entry_table off e =
     (let a = push_bit 2 (e AND NOT VMM_FLAG_MASK);
          a = (if a AND off \<noteq> 0 then a OR off else a)
      in a + off)"

definition vmm_get_or_alloc :: "addr \<Rightarrow> size_t \<Rightarrow> u32 \<Rightarrow> 'a pmm_scheme \<Rightarrow> (addr \<times> 'a pmm_scheme) res" where
  "vmm_get_or_alloc pt offset fl s =
     bnd (pt_ld pt offset s) (\<lambda>a.
     bnd (if a AND VMM_PRESENT = 0
          then bnd (pmm_alloc 1 s) (\<lambda>(a, s).
               if a = 0 then Inl Hang
               else let a = drop_bit 2 a in
                    bnd (pt_st pt offset a s) (\<lambda>s.
                    bnd (pt_ld pt offset s) (\<lambda>e.
                    bnd (pt_st pt offset (e OR (ucast fl OR VMM_PRESENT)) s) (\<lambda>s.
                    Inr (a, s)))))
          else Inr (a, s)) (\<lambda>(a, s).
     Inr (entry_table (MEM_PHYS_OFFSET s) a, s)))"

definition vmm_get_or_null :: "addr \<Rightarrow> size_t \<Rightarrow> 'a pmm_scheme \<Rightarrow> addr res" where
  "vmm_get_or_null pt offset s =
     bnd (pt_ld pt offset s) (\<lambda>a.
     Inr (if a AND VMM_PRESENT = 0 then NULL else entry_table (MEM_PHYS_OFFSET s) a))"

text \<open>
  The loop of \<open>vmm_map_advanced\<close> over the levels above 1: the table of level 1, growing the tree on
  the way, or null as soon as a table is null.
\<close>

fun map_levels :: "nat \<Rightarrow> size_t list \<Rightarrow> addr \<Rightarrow> 'a pmm_scheme \<Rightarrow> (addr \<times> 'a pmm_scheme) res" where
  "map_levels i levels pt s =
     (if i > 1
      then bnd (level_at levels i) (\<lambda>offset.
           bnd (vmm_get_or_alloc pt offset (ucast VMM_PRESENT) s) (\<lambda>(pt, s).
           if pt = NULL then Inr (NULL, s) else map_levels (i - 1) levels pt s))
      else Inr (pt, s))"

declare map_levels.simps [simp del]

definition map_page :: "addr \<Rightarrow> addr \<Rightarrow> addr \<Rightarrow> u64 \<Rightarrow> bool \<Rightarrow> 'a kvmm_scheme \<Rightarrow> (bool \<times> 'a kvmm_scheme) res" where
  "map_page ptaddr va pa permissions huge s =
     bnd (ld_pt s ptaddr) (\<lambda>t.
     let levels = get_addr_offsets va;
         pt = pt_entries t + MEM_PHYS_OFFSET s
     in if pt = NULL then Inr (False, s)
        else bnd (map_levels (unat (max_level s - 1)) levels pt s) (\<lambda>(pt, s).
             if pt = NULL then Inr (False, s)
             else bnd (level_at levels 1) (\<lambda>offset1.
                  if huge
                  then bnd (pt_st pt offset1 (drop_bit 2 pa OR (permissions AND VMM_FLAG_MASK) OR VMM_PRESENT) s) (\<lambda>s.
                       Inr (True, s))
                  else bnd (vmm_get_or_alloc pt offset1 (ucast VMM_PRESENT) s) (\<lambda>(level1, s).
                       bnd (level_at levels 0) (\<lambda>offset0.
                       bnd (if level1 = NULL then Inl Fault
                            else pt_st level1 offset0 (drop_bit 2 pa OR (permissions AND VMM_FLAG_MASK) OR VMM_PRESENT) s) (\<lambda>s.
                       Inr (True, s)))))))"

fun map_loop :: "nat \<Rightarrow> addr \<Rightarrow> addr \<Rightarrow> addr \<Rightarrow> u64 \<Rightarrow> bool \<Rightarrow> 'a kvmm_scheme \<Rightarrow> (bool \<times> 'a kvmm_scheme) res" where
  "map_loop 0 ptaddr va pa permissions huge s = Inr (True, s)"
| "map_loop (Suc n) ptaddr va pa permissions huge s =
     bnd (map_page ptaddr va pa permissions huge s) (\<lambda>(ok, s).
     if ok then map_loop n ptaddr (va + (if huge then 0x200000 else 0x1000)) (pa + (if huge then 0x200000 else 0x1000)) permissions huge s
     else Inr (False, s))"

definition vmm_map_advanced :: "addr \<Rightarrow> addr \<Rightarrow> addr \<Rightarrow> size_t \<Rightarrow> u64 \<Rightarrow> bool \<Rightarrow> 'a kvmm_scheme \<Rightarrow> (bool \<times> 'a kvmm_scheme) res" where
  "vmm_map_advanced ptaddr va pa sz permissions huge s =
     bnd (pt_lock ''vmm_map_advanced'' 99 ptaddr s) (\<lambda>s.
     bnd (map_loop (unat sz) ptaddr va pa permissions huge s) (\<lambda>(ok, s).
     bnd (pt_unlock ptaddr s) (\<lambda>s.
     Inr (ok, s))))"

definition vmm_map :: "addr \<Rightarrow> addr \<Rightarrow> addr \<Rightarrow> size_t \<Rightarrow> u64 \<Rightarrow> 'a kvmm_scheme \<Rightarrow> (bool \<times> 'a kvmm_scheme) res" where
  "vmm_map pt va pa sz permissions s = vmm_map_advanced pt va pa sz permissions False s"

definition vmm_map_huge :: "addr \<Rightarrow> addr \<Rightarrow> addr \<Rightarrow> size_t \<Rightarrow> u64 \<Rightarrow> 'a kvmm_scheme \<Rightarrow> (bool \<times> 'a kvmm_scheme) res" where
  "vmm_map_huge pt va pa sz permissions s = vmm_map_advanced pt va pa sz permissions True s"

section \<open>Removing mappings\<close>

fun unmap_levels :: "nat \<Rightarrow> size_t list \<Rightarrow> addr \<Rightarrow> 'a pmm_scheme \<Rightarrow> addr res" where
  "unmap_levels i levels pt s =
     (if i > 1
      then bnd (level_at levels i) (\<lambda>offset.
           bnd (vmm_get_or_null pt offset s) (\<lambda>pt.
           if pt = NULL then Inr NULL else unmap_levels (i - 1) levels pt s))
      else Inr pt)"

declare unmap_levels.simps [simp del]

text \<open>
  One turn of the loop of \<open>vmm_unmap\<close>, after the decrement of \<open>size\<close>: \<open>None\<close> is the early return of
  false, otherwise the next address and the remaining size, which is a 64-bit word throughout.
\<close>

definition unmap_page :: "addr \<Rightarrow> addr \<Rightarrow> size_t \<Rightarrow> 'a kvmm_scheme \<Rightarrow> ((addr \<times> size_t) option \<times> 'a kvmm_scheme) res" where
  "unmap_page ptaddr va sz s =
     bnd (ld_pt s ptaddr) (\<lambda>t.
     let levels = get_addr_offsets va;
         pt = pt_entries t + MEM_PHYS_OFFSET s
     in if pt = NULL then Inr (None, s)
        else bnd (unmap_levels (unat (max_level s - 1)) levels pt s) (\<lambda>pt.
             if pt = NULL then Inr (None, s)
             else bnd (level_at levels 1) (\<lambda>offset1.
                  bnd (pt_ld pt offset1 s) (\<lambda>e.
                  if e AND (VMM_READ OR VMM_WRITE OR VMM_EXECUTE) \<noteq> 0
                  then if sz < 0x1FF then Inr (None, s)
                       else bnd (pt_st pt offset1 0 s) (\<lambda>s. Inr (Some (va + 0x200000, sz - 0x200), s))
                  else bnd (vmm_get_or_null pt offset1 s) (\<lambda>level1.
                       bnd (level_at levels 0) (\<lambda>offset0.
                       bnd (if level1 = NULL then Inl Fault else pt_st level1 offset0 0 s) (\<lambda>s.
                       Inr (Some (va + 0x1000, sz), s))))))))"

partial_function (option) unmap_loop :: "addr \<Rightarrow> addr \<Rightarrow> size_t \<Rightarrow> 'a kvmm_scheme \<Rightarrow> (bool \<times> 'a kvmm_scheme) res option" where
  "unmap_loop ptaddr va sz s =
     (if sz = 0 then Some (Inr (True, s))
      else case unmap_page ptaddr va (sz - 1) s of
          Inl e \<Rightarrow> Some (Inl e)
        | Inr (None, s) \<Rightarrow> Some (Inr (False, s))
        | Inr (Some (va, sz), s) \<Rightarrow> unmap_loop ptaddr va sz s)"

definition vmm_unmap :: "addr \<Rightarrow> addr \<Rightarrow> size_t \<Rightarrow> 'a kvmm_scheme \<Rightarrow> (bool \<times> 'a kvmm_scheme) res" where
  "vmm_unmap ptaddr va sz s =
     bnd (pt_lock ''vmm_unmap'' 143 ptaddr s) (\<lambda>s.
     bnd (loop_res (unmap_loop ptaddr va sz s)) (\<lambda>(ok, s).
     bnd (pt_unlock ptaddr s) (\<lambda>s.
     Inr (ok, s))))"

section \<open>Setting up\<close>

text \<open>The block is allocated with the size of a pointer, not of the structure.\<close>

definition new_pt :: "'a kvmm_scheme \<Rightarrow> (addr \<times> 'a kvmm_scheme) res" where
  "new_pt s = bnd (kmalloc 8 s) (\<lambda>(p, s).
     Inr (p, if p = NULL then s else s\<lparr>pt_mem := (pt_mem s)(p \<mapsto> \<lparr>pt_entries = NULL, pt_lk = zero_lock\<rparr>)\<rparr>))"

definition vmm_setup_pt :: "'a kvmm_scheme \<Rightarrow> (addr \<times> 'a kvmm_scheme) res" where
  "vmm_setup_pt s =
     bnd (new_pt s) (\<lambda>(pt, s).
     bnd (pmm_alloc 1 s) (\<lambda>(entries, s).
     bnd (up_pt pt (\<lambda>t. t\<lparr>pt_entries := entries\<rparr>) s) (\<lambda>s.
     bnd (up_pt pt (\<lambda>t. t\<lparr>pt_lk := INIT_SPINLOCK\<rparr>) s) (\<lambda>s.
     bnd (vmm_map pt (VmmKernelBase s) (VmmPhysicalKernelBase s) (ROUND_UP (VmmKernelSize s) 0x1000 div 0x1000)
            (VMM_EXECUTE OR VMM_READ OR VMM_WRITE) s) (\<lambda>(_, s).
     bnd (vmm_map_huge pt (MEM_PHYS_OFFSET s) NULL (4096 * 3) (VMM_EXECUTE OR VMM_READ OR VMM_WRITE) s) (\<lambda>(_, s).
     Inr (pt, s)))))))"

text \<open>The loop of \<open>vmm_init\<close> over the memory map, left at the entry of the kernel.\<close>

fun vmm_find_kernel :: "limine_memmap_entry list \<Rightarrow> 'a kvmm_scheme \<Rightarrow> 'a kvmm_scheme res" where
  "vmm_find_kernel [] s = Inr s"
| "vmm_find_kernel (entry # entries) s =
     (if entry_type entry = LIMINE_MEMMAP_KERNEL_AND_MODULES \<and> entry_base entry = VmmPhysicalKernelBase s
      then bnd (if VmmPhysicalKernelBase s mod 0x200000 \<noteq> 0
                then bnd (pmm_alloc_advanced (ROUND_UP (entry_length entry) PAGE_SIZE div PAGE_SIZE) 0x200 s) (\<lambda>(newPhysBase, s).
                     Inr (s\<lparr>VmmPhysicalKernelBase := newPhysBase\<rparr>))
                else Inr s) (\<lambda>s.
           Inr (s\<lparr>VmmKernelSize := entry_length entry\<rparr>))
      else vmm_find_kernel entries s)"

definition vmm_init :: "addr \<Rightarrow> addr \<Rightarrow> limine_memmap_entry list \<Rightarrow> 'a kvmm_scheme \<Rightarrow> 'a kvmm_scheme res" where
  "vmm_init kernelBase physKernelBase entries s =
     (let s = arch_vmm_preinit s;
          s = s\<lparr>VmmKernelBase := kernelBase, VmmPhysicalKernelBase := physKernelBase\<rparr>
      in bnd (vmm_find_kernel entries s) (\<lambda>s.
         bnd (vmm_setup_pt s) (\<lambda>(pt, s).
         let s = s\<lparr>KernelPageMap := pt\<rparr> in
         bnd (vmm_map_huge (KernelPageMap s) NULL NULL 0x100 (VMM_EXECUTE OR VMM_READ OR VMM_WRITE) s) (\<lambda>(_, s).
         bnd (memcpy (bytes s) (VmmPhysicalKernelBase s + MEM_PHYS_OFFSET s) (VmmKernelBase s) (VmmKernelSize s)) (\<lambda>(_, m).
         let s = s\<lparr>bytes := m\<rparr> in
         bnd (vmm_set_pt (KernelPageMap s) s) (\<lambda>s.
         if VmmPhysicalKernelBase s \<noteq> physKernelBase
         then pmm_free physKernelBase (ROUND_UP (VmmKernelSize s) PAGE_SIZE div PAGE_SIZE) s
         else Inr s))))))"

section \<open>What the memory management unit finds\<close>

text \<open>The index of an address at a level, and what is above that index: the key of the table it is in.\<close>

definition vpn :: "nat \<Rightarrow> addr \<Rightarrow> nat" where
  "vpn i va = unat va div 2 ^ (12 + 9 * i) mod 512"

definition vkey :: "nat \<Rightarrow> nat \<Rightarrow> addr \<Rightarrow> nat" where
  "vkey L i va = unat va mod 2 ^ (12 + 9 * L) div 2 ^ (12 + 9 * Suc i)"

definition vpage :: "nat \<Rightarrow> addr \<Rightarrow> nat" where
  "vpage L va = unat va mod 2 ^ (12 + 9 * L) div 4096"

definition is_leaf :: "u64 \<Rightarrow> bool" where
  "is_leaf e \<longleftrightarrow> e AND VMM_PRESENT \<noteq> 0 \<and> e AND (VMM_READ OR VMM_WRITE OR VMM_EXECUTE) \<noteq> 0"

definition is_ptr :: "u64 \<Rightarrow> bool" where
  "is_ptr e \<longleftrightarrow> e AND VMM_PRESENT \<noteq> 0 \<and> e AND (VMM_READ OR VMM_WRITE OR VMM_EXECUTE) = 0"

definition ptr_of :: "u64 \<Rightarrow> addr" where
  "ptr_of e = push_bit 2 (e AND NOT VMM_FLAG_MASK)"

text \<open>
  The walk from a table of level \<open>i\<close> at physical address \<open>a\<close>: the level of the leaf entry, the
  address and the flags in it, or none for a page fault. The walk is that of the translation only: what
  a processor does further (it refuses an entry that may be written and not read, an address that is
  not a sign extension or beyond its physical memory, and it keeps old translations until a fence,
  which the code does not execute) is left out.
\<close>

definition pt_ent :: "mem \<Rightarrow> u64 \<Rightarrow> addr \<Rightarrow> nat \<Rightarrow> u64 res" where
  "pt_ent m off a j = ld64 m (a + off + 8 * of_nat j)"

primrec mmu_walk :: "mem \<Rightarrow> u64 \<Rightarrow> nat \<Rightarrow> addr \<Rightarrow> addr \<Rightarrow> (nat \<times> addr \<times> u64) option" where
  "mmu_walk m off 0 a va = (case pt_ent m off a (vpn 0 va) of Inl _ \<Rightarrow> None | Inr e \<Rightarrow>
     if is_leaf e then Some (0, ptr_of e, e AND VMM_FLAG_MASK) else None)"
| "mmu_walk m off (Suc i) a va = (case pt_ent m off a (vpn (Suc i) va) of Inl _ \<Rightarrow> None | Inr e \<Rightarrow>
     if is_leaf e then Some (Suc i, ptr_of e, e AND VMM_FLAG_MASK)
     else if is_ptr e then mmu_walk m off i (ptr_of e) va else None)"

lemma vpn_less: "vpn i va < 512"
  by (simp add: vpn_def)

lemma offsets_vpn:
  assumes "i < 5"
  shows "get_addr_offsets va ! i = of_nat (vpn i va)" and "length (get_addr_offsets va) = 5"
proof -
  have e: "drop_bit n (va AND push_bit n 0x1FF) = (of_nat (unat va div 2 ^ n mod 512) :: u64)" if "n \<le> 48" for n
  proof -
    have "drop_bit n (va AND push_bit n 0x1FF) = take_bit 9 (drop_bit n va)"
    proof (rule bit_word_eqI)
      fix k assume "k < LENGTH(64)"
      have "bit (0x1FF :: u64) k \<longleftrightarrow> bit (mask 9 :: u64) k" by (simp add: mask_eq_exp_minus_1)
      then have "bit (0x1FF :: u64) k \<longleftrightarrow> k < 9 \<and> k < 64" by (auto simp: bit_mask_iff)
      then show "bit (drop_bit n (va AND push_bit n 0x1FF)) k = bit (take_bit 9 (drop_bit n va)) k"
        using that by (auto simp: bit_simps dest: bit_imp_le_length)
    qed
    moreover have "unat (take_bit 9 (drop_bit n va)) = unat va div 2 ^ n mod 512"
      unfolding unsigned_take_bit_eq unat_drop_bit_eq by (simp add: take_bit_eq_mod drop_bit_eq_div)
    moreover have "unat va div 2 ^ n mod 512 < 2 ^ 64" by (rule less_trans [of _ 512]) simp_all
    then have "unat (of_nat (unat va div 2 ^ n mod 512) :: u64) = unat va div 2 ^ n mod 512" by (rule unat_of_nat_u64)
    ultimately show ?thesis by (metis unsigned_word_eqI)
  qed
  have "i = 0 \<or> i = 1 \<or> i = 2 \<or> i = 3 \<or> i = 4" using assms by linarith
  then show "get_addr_offsets va ! i = of_nat (vpn i va)"
    using e [of 12] e [of 21] e [of 30] e [of 39] e [of 48] by (auto simp: get_addr_offsets_def vpn_def)
  show "length (get_addr_offsets va) = 5" by (simp add: get_addr_offsets_def)
qed

lemma vkey_top:
  assumes "0 < L"
  shows "vkey L (L - 1) va = 0"
proof -
  have "Suc (L - 1) = L" using assms by simp
  then show ?thesis unfolding vkey_def by (simp only:) (rule div_less, simp)
qed

lemma vkey_step:
  assumes "Suc i < L"
  shows "vkey L i va = vkey L (Suc i) va * 512 + vpn (Suc i) va"
proof -
  let ?x = "unat va mod 2 ^ (12 + 9 * L)" and ?a = "12 + 9 * Suc i"
  have "(12 + 9 * L) = ?a + (12 + 9 * L - ?a)" using assms by simp
  moreover define m where "m = 12 + 9 * L - ?a"
  ultimately have m: "12 + 9 * L = ?a + m" by simp
  have m9: "9 \<le> m" using assms by (simp add: m_def)
  have "?x div 2 ^ ?a = unat va div 2 ^ ?a mod 2 ^ m"
    unfolding m drop_bit_eq_div [symmetric] take_bit_eq_mod [symmetric] by (simp add: drop_bit_take_bit)
  then have "?x div 2 ^ ?a mod 512 = unat va div 2 ^ ?a mod 512"
    using m9 mod_mod_cancel [of 512 "2 ^ m" "unat va div 2 ^ ?a"] le_imp_power_dvd [OF m9, of "2 :: nat"] by simp
  moreover have "?x div 2 ^ (12 + 9 * Suc (Suc i)) = ?x div 2 ^ ?a div 512"
    by (simp add: div_mult2_eq [symmetric] power_add)
  ultimately show ?thesis unfolding vkey_def vpn_def by (metis div_mult_mod_eq)
qed

lemma vpage_vkey: "0 < L \<Longrightarrow> vpage L va = vkey L 0 va * 512 + vpn 0 va"
proof -
  assume "0 < L"
  then have m9: "9 \<le> 9 * L" by simp
  have "unat va mod 2 ^ (12 + 9 * L) div 4096 = unat va div 4096 mod 2 ^ (9 * L)"
    using mod_mult2_eq [of "unat va" 4096 "2 ^ (9 * L)"] by (simp add: power_add)
  then have "unat va mod 2 ^ (12 + 9 * L) div 4096 mod 512 = unat va div 4096 mod 512"
    using mod_mod_cancel [of 512 "2 ^ (9 * L)" "unat va div 4096"] le_imp_power_dvd [OF m9, of "2 :: nat"] by simp
  moreover have "unat va mod 2 ^ (12 + 9 * L) div 2 ^ 21 = unat va mod 2 ^ (12 + 9 * L) div 4096 div 512"
    by (simp add: div_mult2_eq [symmetric])
  moreover have "unat va mod 2 ^ (12 + 9 * L) div 4096 =
      unat va mod 2 ^ (12 + 9 * L) div 4096 div 512 * 512 + unat va mod 2 ^ (12 + 9 * L) div 4096 mod 512"
    by (rule div_mult_mod_eq [symmetric])
  ultimately show ?thesis unfolding vpage_def vkey_def vpn_def by simp
qed

lemma vpage_add:
  assumes "L \<le> 5"
  shows "vpage L (va + of_nat k * 4096) = (vpage L va + k) mod 2 ^ (9 * L)"
proof -
  have le: "12 + 9 * L \<le> 64" using assms by simp
  have "unat (va + of_nat k * 4096) = (unat va + k * 4096) mod 2 ^ 64"
    by (simp add: unat_word_ariths unat_of_nat mod_simps)
  then have "unat (va + of_nat k * 4096) mod 2 ^ (12 + 9 * L) = (unat va + k * 4096) mod 2 ^ (12 + 9 * L)"
    using mod_mod_cancel [OF le_imp_power_dvd [OF le]] by metis
  moreover have "y mod 2 ^ (12 + 9 * L) div 4096 = y div 4096 mod 2 ^ (9 * L)" for y :: nat
    using mod_mult2_eq [of y 4096 "2 ^ (9 * L)"] by (simp add: power_add)
  ultimately show ?thesis by (simp add: vpage_def mod_simps add.commute)
qed

section \<open>Trees of tables\<close>

text \<open>
  \<open>T i k\<close> is the physical address of the table of level \<open>i\<close> that serves the addresses with key \<open>k\<close>.
  Every table is a frame of its own that is in use; every entry above level 0 either refers to the
  table with the key it stands for, or to none; no table is without one that refers to it. The
  frames below \<open>lim\<close> have no address bit in common with the offset of the direct map.
\<close>

type_synonym tables = "nat \<Rightarrow> nat \<Rightarrow> addr option"

definition direct_ok :: "u64 \<Rightarrow> 'a pmm_scheme \<Rightarrow> bool" where
  "direct_ok lim s \<longleftrightarrow> pmm_ok lim s \<and> unat (MEM_PHYS_OFFSET s) + unat lim * 4096 \<le> 2 ^ 64 \<and>
     (\<forall>a. unat a < 4096 * unat lim \<longrightarrow> a AND MEM_PHYS_OFFSET s = 0)"

definition table_ok :: "u64 \<Rightarrow> 'a pmm_scheme \<Rightarrow> addr \<Rightarrow> bool" where
  "table_ok lim s a \<longleftrightarrow> frame_range lim a 1 \<and> a div PAGE_SIZE \<in> in_use s"

definition pt_tree :: "u64 \<Rightarrow> nat \<Rightarrow> tables \<Rightarrow> 'a pmm_scheme \<Rightarrow> bool" where
  "pt_tree lim L T s \<longleftrightarrow> direct_ok lim s \<and>
     (\<forall>i k a. T i k = Some a \<longrightarrow> i < L \<and> table_ok lim s a) \<and>
     (\<forall>i k i' k' a. T i k = Some a \<and> T i' k' = Some a \<longrightarrow> i = i' \<and> k = k') \<and>
     (\<forall>i k a. T i k = Some a \<and> Suc i < L \<longrightarrow> T (Suc i) (k div 512) \<noteq> None) \<and>
     (\<forall>i k a j. T i k = Some a \<and> j < 512 \<longrightarrow> (\<exists>e. pt_ent (bytes s) (MEM_PHYS_OFFSET s) a j = Inr e \<and>
        (0 < i \<longrightarrow> T (i - 1) (k * 512 + j) = (if is_ptr e then Some (ptr_of e) else None))))"

lemma tableD:
  assumes "pt_tree lim L T s" and "T i k = Some a"
  shows "i < L" and "table_ok lim s a" and "direct_ok lim s" and "T i' k' = Some a \<Longrightarrow> i' = i \<and> k' = k"
    and "Suc i < L \<Longrightarrow> T (Suc i) (k div 512) \<noteq> None"
proof -
  show "i < L" and "table_ok lim s a" and "direct_ok lim s" and "Suc i < L \<Longrightarrow> T (Suc i) (k div 512) \<noteq> None"
    using assms unfolding pt_tree_def by blast+
  show "T i' k' = Some a \<Longrightarrow> i' = i \<and> k' = k" using assms unfolding pt_tree_def by blast
qed

lemma tableE:
  assumes "pt_tree lim L T s" and "T i k = Some a" and "j < 512"
  obtains e where "pt_ent (bytes s) (MEM_PHYS_OFFSET s) a j = Inr e"
    and "0 < i \<Longrightarrow> T (i - 1) (k * 512 + j) = (if is_ptr e then Some (ptr_of e) else None)"
  using assms unfolding pt_tree_def by blast

lemma pt_treeI:
  assumes "direct_ok lim s" and "\<And>i k a. T i k = Some a \<Longrightarrow> i < L \<and> table_ok lim s a"
    and "\<And>i k i' k' a. T i k = Some a \<Longrightarrow> T i' k' = Some a \<Longrightarrow> i' = i \<and> k' = k"
    and "\<And>i k a. T i k = Some a \<Longrightarrow> Suc i < L \<Longrightarrow> T (Suc i) (k div 512) \<noteq> None"
    and "\<And>i k a j. T i k = Some a \<Longrightarrow> j < 512 \<Longrightarrow> \<exists>e. pt_ent (bytes s) (MEM_PHYS_OFFSET s) a j = Inr e \<and>
        (0 < i \<longrightarrow> T (i - 1) (k * 512 + j) = (if is_ptr e then Some (ptr_of e) else None))"
  shows "pt_tree lim L T s"
  unfolding pt_tree_def
proof (intro conjI allI impI)
  fix i k i' k' a assume "T i k = Some a \<and> T i' k' = Some a"
  then show "i = i'" "k = k'" using assms(3) [of i k a i' k'] by auto
next
  fix i k a assume "T i k = Some a"
  then show "i < L" "table_ok lim s a" using assms(2) by blast+
next
  fix i k a assume "T i k = Some a \<and> Suc i < L"
  then show "T (Suc i) (k div 512) \<noteq> None" using assms(4) by blast
next
  fix i k a and j :: nat assume "T i k = Some a \<and> j < 512"
  then show "\<exists>e. pt_ent (bytes s) (MEM_PHYS_OFFSET s) a j = Inr e \<and>
        (0 < i \<longrightarrow> T (i - 1) (k * 512 + j) = (if is_ptr e then Some (ptr_of e) else None))" using assms(5) by blast
qed (rule assms(1))

text \<open>The entries of tables lie apart.\<close>

lemma entry_addr:
  assumes "direct_ok lim s" and "table_ok lim s a" and "j < 512"
  shows "unat (a + MEM_PHYS_OFFSET s + 8 * of_nat j) = unat a + unat (MEM_PHYS_OFFSET s) + 8 * j"
    and "unat a + unat (MEM_PHYS_OFFSET s) + 8 * j + 8 \<le> 2 ^ 64" and "a + MEM_PHYS_OFFSET s \<noteq> NULL"
    and "mapped (bytes s) (a + MEM_PHYS_OFFSET s + 8 * of_nat j) 8"
proof -
  have pok: "pmm_ok lim s" and o: "unat (MEM_PHYS_OFFSET s) + unat lim * 4096 \<le> 2 ^ 64" using assms(1) by (simp_all add: direct_ok_def)
  have range: "frame_range lim a 1" using assms(2) by (simp add: table_ok_def)
  note fr = frame_range_div [OF range pmm_ok_lim [OF pok]]
  have b: "unat a + 4096 + unat (MEM_PHYS_OFFSET s) \<le> 2 ^ 64" using fr(2,4) o by simp
  then have u: "unat (a + MEM_PHYS_OFFSET s) = unat a + unat (MEM_PHYS_OFFSET s)" by (intro unat_add_u64) simp
  have j: "unat (8 * of_nat j :: u64) = 8 * j" using assms(3) by (simp add: unat_mult_u64 unat_of_nat_u64)
  show "unat (a + MEM_PHYS_OFFSET s + 8 * of_nat j) = unat a + unat (MEM_PHYS_OFFSET s) + 8 * j"
    using b assms(3) by (subst unat_add_u64) (simp_all add: u j)
  show "unat a + unat (MEM_PHYS_OFFSET s) + 8 * j + 8 \<le> 2 ^ 64" using b assms(3) by simp
  have "0 < unat (a + MEM_PHYS_OFFSET s)" using u fr(2,3) by simp
  then show "a + MEM_PHYS_OFFSET s \<noteq> NULL" by auto
  have "mapped (bytes s) (a div PAGE_SIZE * PAGE_SIZE + MEM_PHYS_OFFSET s) (4096 * unat (1 :: u64))"
    using pok fr(5) by (rule direct_map_span)
  then have "mapped (bytes s) (a + MEM_PHYS_OFFSET s) 4096" unfolding fr(1) [symmetric] by simp
  from mapped_sub [OF this, of "8 * j" 8] show "mapped (bytes s) (a + MEM_PHYS_OFFSET s + 8 * of_nat j) 8"
    using assms(3) by simp
qed

lemma entry_apart:
  assumes ok: "direct_ok lim s" and a: "table_ok lim s a" "j < 512" and b: "table_ok lim s b" "j' < 512" and ne: "a \<noteq> b \<or> j \<noteq> j'"
    and x: "in_span (b + MEM_PHYS_OFFSET s + 8 * of_nat j') 8 x"
  shows "\<not> in_span (a + MEM_PHYS_OFFSET s + 8 * of_nat j) 8 x"
proof
  assume y: "in_span (a + MEM_PHYS_OFFSET s + 8 * of_nat j) 8 x"
  have l52: "unat lim < 2 ^ 52" using ok by (intro pmm_ok_lim) (auto simp: direct_ok_def)
  have ra: "frame_range lim a 1" and rb: "frame_range lim b 1" using a b by (simp_all add: table_ok_def)
  note fa = frame_range_div [OF ra l52] and fb = frame_range_div [OF rb l52]
  note ea = entry_addr [OF ok a] and eb = entry_addr [OF ok b]
  have ua: "unat a + unat (MEM_PHYS_OFFSET s) + 8 * j \<le> unat x \<and> unat x < unat a + unat (MEM_PHYS_OFFSET s) + 8 * j + 8"
    using y ea(2) by (subst (asm) in_span_iff) (auto simp: ea(1))
  have ub: "unat b + unat (MEM_PHYS_OFFSET s) + 8 * j' \<le> unat x \<and> unat x < unat b + unat (MEM_PHYS_OFFSET s) + 8 * j' + 8"
    using x eb(2) by (subst (asm) in_span_iff) (auto simp: eb(1))
  obtain p q where p: "unat a = p * 4096" and q: "unat b = q * 4096" using fa(2) fb(2) by blast
  have "p = q" using ua ub a(2) b(2) unfolding p q by linarith
  then have "a = b" using p q by (metis unsigned_word_eqI)
  moreover have "j = j'" using ua ub \<open>p = q\<close> unfolding p q by linarith
  ultimately show False using ne by simp
qed

lemma table_apart:
  assumes ok: "direct_ok lim s" and b: "table_ok lim s b" "j' < 512" and f: "frame_range lim f 1" and ne: "b \<noteq> f"
    and x: "in_span (b + MEM_PHYS_OFFSET s + 8 * of_nat j') 8 x"
  shows "\<not> in_span (f + MEM_PHYS_OFFSET s) 4096 x"
proof
  assume y: "in_span (f + MEM_PHYS_OFFSET s) 4096 x"
  have pok: "pmm_ok lim s" and o: "unat (MEM_PHYS_OFFSET s) + unat lim * 4096 \<le> 2 ^ 64" using ok by (simp_all add: direct_ok_def)
  have rb: "frame_range lim b 1" using b by (simp add: table_ok_def)
  note ff = frame_range_div [OF f pmm_ok_lim [OF pok]] and fb = frame_range_div [OF rb pmm_ok_lim [OF pok]] and eb = entry_addr [OF ok b]
  have bf: "unat f + 4096 + unat (MEM_PHYS_OFFSET s) \<le> 2 ^ 64" using ff(2,4) o by simp
  then have u: "unat (f + MEM_PHYS_OFFSET s) = unat f + unat (MEM_PHYS_OFFSET s)" by (intro unat_add_u64) simp
  have ua: "unat f + unat (MEM_PHYS_OFFSET s) \<le> unat x \<and> unat x < unat f + unat (MEM_PHYS_OFFSET s) + 4096"
    using y bf by (subst (asm) in_span_iff) (auto simp: u)
  have ub: "unat b + unat (MEM_PHYS_OFFSET s) + 8 * j' \<le> unat x \<and> unat x < unat b + unat (MEM_PHYS_OFFSET s) + 8 * j' + 8"
    using x eb(2) by (subst (asm) in_span_iff) (auto simp: eb(1))
  obtain p q where p: "unat f = p * 4096" and q: "unat b = q * 4096" using ff(2) fb(2) by blast
  have "p = q" using ua ub b(2) unfolding p q by linarith
  then have "unat b = unat f" using p q by simp
  then show False using ne by (metis unsigned_word_eqI)
qed

lemma entry_put_other:
  assumes ok: "direct_ok lim s" and a: "table_ok lim s a" "j < 512" and b: "table_ok lim s b" "j' < 512" and ne: "a \<noteq> b \<or> j \<noteq> j'"
  shows "pt_ent (put64 (bytes s) (a + MEM_PHYS_OFFSET s + 8 * of_nat j) w) (MEM_PHYS_OFFSET s) b j' = pt_ent (bytes s) (MEM_PHYS_OFFSET s) b j'"
  unfolding pt_ent_def by (rule ld64_cong) (simp add: put64_outside entry_apart [OF assms])

section \<open>Storing a leaf\<close>

text \<open>Writing an entry that refers to no table, over one that refers to none.\<close>

lemma pt_store:
  assumes tree: "pt_tree lim L T s" and a: "T i k = Some a" and j: "j < 512"
    and e: "0 < i \<Longrightarrow> \<not> is_ptr e \<and> T (i - 1) (k * 512 + j) = None"
  defines "s' \<equiv> s\<lparr>bytes := put64 (bytes s) (a + MEM_PHYS_OFFSET s + 8 * of_nat j) e\<rparr>"
  shows "pt_st (a + MEM_PHYS_OFFSET s) (of_nat j) e s = Inr s'" and "pt_tree lim L T s'"
    and "pt_ent (bytes s') (MEM_PHYS_OFFSET s') a j = Inr e"
    and "T i' k' = Some b \<Longrightarrow> j' < 512 \<Longrightarrow> (i', k', j') \<noteq> (i, k, j) \<Longrightarrow>
      pt_ent (bytes s') (MEM_PHYS_OFFSET s') b j' = pt_ent (bytes s) (MEM_PHYS_OFFSET s) b j'"
proof -
  note d = tableD [OF tree a] and tab = tableD(2) [OF tree a]
  have ok: "direct_ok lim s" by (rule d(3))
  show "pt_st (a + MEM_PHYS_OFFSET s) (of_nat j) e s = Inr s'"
    using entry_addr(4) [OF ok d(2) j] by (simp add: pt_st_def st64_eq s'_def)
  show new: "pt_ent (bytes s') (MEM_PHYS_OFFSET s') a j = Inr e" by (simp add: s'_def pt_ent_def)
  have other: "pt_ent (bytes s') (MEM_PHYS_OFFSET s') b j' = pt_ent (bytes s) (MEM_PHYS_OFFSET s) b j'"
    if b: "T i' k' = Some b" "j' < 512" "(i', k', j') \<noteq> (i, k, j)" for i' k' b j'
  proof -
    have "a \<noteq> b \<or> j \<noteq> j'" using b d(4) [of i' k'] by auto
    from entry_put_other [OF ok d(2) j tableD(2) [OF tree b(1)] b(2) this] show ?thesis by (simp add: s'_def)
  qed
  then show "T i' k' = Some b \<Longrightarrow> j' < 512 \<Longrightarrow> (i', k', j') \<noteq> (i, k, j) \<Longrightarrow>
      pt_ent (bytes s') (MEM_PHYS_OFFSET s') b j' = pt_ent (bytes s) (MEM_PHYS_OFFSET s) b j'" .
  have dir: "direct_ok lim s'"
    using ok by (auto simp: direct_ok_def s'_def pmm_ok_def in_use_def)
  show "pt_tree lim L T s'"
  proof (rule pt_treeI [OF dir])
    fix i' k' b assume b: "T i' k' = Some b"
    show "i' < L \<and> table_ok lim s' b" using tableD(1,2) [OF tree b] by (simp add: table_ok_def s'_def in_use_def)
    show "Suc i' < L \<Longrightarrow> T (Suc i') (k' div 512) \<noteq> None" by (rule tableD(5) [OF tree b])
    show "T i'' k'' = Some b \<Longrightarrow> i'' = i' \<and> k'' = k'" for i'' k'' by (rule tableD(4) [OF tree b])
    fix j' :: nat assume j': "j' < 512"
    show "\<exists>e. pt_ent (bytes s') (MEM_PHYS_OFFSET s') b j' = Inr e \<and>
        (0 < i' \<longrightarrow> T (i' - 1) (k' * 512 + j') = (if is_ptr e then Some (ptr_of e) else None))"
    proof (cases "(i', k', j') = (i, k, j)")
      case True
      then show ?thesis using new a b e by auto
    next
      case False
      from tableE [OF tree b j'] other [OF b j' False] show ?thesis by metis
    qed
  qed
qed

lemma walk_other:
  assumes tree: "pt_tree lim L T s"
    and same: "\<And>i k a j. T i k = Some a \<Longrightarrow> j < 512 \<Longrightarrow> (i, k, j) \<noteq> (i0, k0, j0) \<Longrightarrow> pt_ent m off a j = pt_ent (bytes s) (MEM_PHYS_OFFSET s) a j"
    and a: "T i (vkey L i va) = Some a" and ne: "(vkey L i0 va, vpn i0 va) \<noteq> (k0, j0)"
  shows "mmu_walk m off i a va = mmu_walk (bytes s) (MEM_PHYS_OFFSET s) i a va"
  using a
proof (induction i arbitrary: a)
  case 0
  have "pt_ent m off a (vpn 0 va) = pt_ent (bytes s) (MEM_PHYS_OFFSET s) a (vpn 0 va)"
    using ne by (intro same [OF 0] vpn_less) auto
  then show ?case by simp
next
  case (Suc i)
  have eq: "pt_ent m off a (vpn (Suc i) va) = pt_ent (bytes s) (MEM_PHYS_OFFSET s) a (vpn (Suc i) va)"
    using ne by (intro same [OF Suc.prems] vpn_less) auto
  obtain e where e: "pt_ent (bytes s) (MEM_PHYS_OFFSET s) a (vpn (Suc i) va) = Inr e"
    "T i (vkey L (Suc i) va * 512 + vpn (Suc i) va) = (if is_ptr e then Some (ptr_of e) else None)"
    using tableE [OF tree Suc.prems vpn_less] by (metis diff_Suc_1 zero_less_Suc)
  have "Suc i < L" using tableD(1) [OF tree Suc.prems] .
  then have "T i (vkey L i va) = (if is_ptr e then Some (ptr_of e) else None)" using e(2) by (simp add: vkey_step)
  then show ?case using eq e(1) Suc.IH [of "ptr_of e"] by simp
qed

text \<open>The walk from the root comes past every table on the way.\<close>

lemma table_parent:
  assumes tree: "pt_tree lim L T s" and a: "T i (vkey L i va) = Some a" and i: "Suc i < L"
  obtains b e where "T (Suc i) (vkey L (Suc i) va) = Some b" and "pt_ent (bytes s) (MEM_PHYS_OFFSET s) b (vpn (Suc i) va) = Inr e"
    and "is_ptr e" and "ptr_of e = a"
proof -
  have "vkey L i va div 512 = vkey L (Suc i) va" using vkey_step [OF i] vpn_less [of "Suc i" va] by simp
  then obtain b where b: "T (Suc i) (vkey L (Suc i) va) = Some b"
    using tableD(5) [OF tree a i] by auto
  obtain e where e: "pt_ent (bytes s) (MEM_PHYS_OFFSET s) b (vpn (Suc i) va) = Inr e"
    "T i (vkey L (Suc i) va * 512 + vpn (Suc i) va) = (if is_ptr e then Some (ptr_of e) else None)"
    using tableE [OF tree b vpn_less] by (metis diff_Suc_1 zero_less_Suc)
  then have "is_ptr e" "ptr_of e = a" using a vkey_step [OF i, of va] by (auto split: if_splits)
  with b e(1) show ?thesis by (rule that)
qed

lemma walk_through:
  assumes tree: "pt_tree lim L T s" and a: "T i (vkey L i va) = Some a" and root: "T (L - 1) 0 = Some r"
  shows "mmu_walk (bytes s) (MEM_PHYS_OFFSET s) (L - 1) r va = mmu_walk (bytes s) (MEM_PHYS_OFFSET s) i a va"
  using a tableD(1) [OF tree a]
proof (induction "L - 1 - i" arbitrary: i a)
  case 0
  then have "i = L - 1" by simp
  then have "a = r" using 0 root vkey_top [of L va] by simp
  then show ?case using \<open>i = L - 1\<close> by simp
next
  case (Suc n)
  then have i: "Suc i < L" by simp
  obtain b e where b: "T (Suc i) (vkey L (Suc i) va) = Some b" and e: "pt_ent (bytes s) (MEM_PHYS_OFFSET s) b (vpn (Suc i) va) = Inr e"
    "is_ptr e" "ptr_of e = a"
    using table_parent [OF tree Suc.prems(1) i] .
  then have "mmu_walk (bytes s) (MEM_PHYS_OFFSET s) (Suc i) b va = mmu_walk (bytes s) (MEM_PHYS_OFFSET s) i a va"
    by (simp add: is_ptr_def is_leaf_def)
  moreover have "n = L - 1 - Suc i" using Suc.hyps(2) by simp
  ultimately show ?case using Suc.hyps(1) [OF _ b i] by simp
qed

section \<open>Entries as words\<close>

lemma bit_flag_mask: "bit VMM_FLAG_MASK n \<longleftrightarrow> n < 10"
proof -
  have e: "VMM_FLAG_MASK = mask 10" by (simp add: VMM_FLAG_MASK_def mask_eq_exp_minus_1)
  show ?thesis unfolding e bit_mask_iff by auto
qed

lemma bit_rwx: "bit (VMM_READ OR VMM_WRITE OR VMM_EXECUTE) n \<longleftrightarrow> n = 1 \<or> n = 2 \<or> n = 3"
proof -
  have "bit VMM_READ n \<longleftrightarrow> bit (2 ^ 1 :: u64) n" "bit VMM_WRITE n \<longleftrightarrow> bit (2 ^ 2 :: u64) n" "bit VMM_EXECUTE n \<longleftrightarrow> bit (2 ^ 3 :: u64) n"
    by (simp_all add: vmm_flags)
  then show ?thesis unfolding bit_or_iff bit_exp_iff by auto
qed

lemma bit_present: "bit VMM_PRESENT n \<longleftrightarrow> n = 0"
  by (simp add: VMM_PRESENT_def bit_simps)

lemmas flag_bits = bit_flag_mask bit_rwx bit_present

definition aligned :: "addr \<Rightarrow> bool" where
  "aligned a \<longleftrightarrow> (\<forall>n < 12. \<not> bit a n)"

lemma frame_aligned:
  assumes "frame_range lim a n" and "unat lim < 2 ^ 52"
  shows "aligned a"
proof -
  have "a = push_bit 12 (a div PAGE_SIZE)"
    using frame_range_div(1) [OF assms] by (simp add: push_bit_eq_mult PAGE_SIZE_def)
  moreover have "aligned (push_bit 12 w)" for w :: u64 by (auto simp: aligned_def bit_simps)
  ultimately show ?thesis by metis
qed

text \<open>The entry for an aligned address and flags below bit 10.\<close>

lemma pte_fields:
  assumes "aligned a" and fl: "\<And>n. bit fl n \<Longrightarrow> n < 10"
  shows "ptr_of (drop_bit 2 a OR fl OR VMM_PRESENT) = a"
    and "(drop_bit 2 a OR fl OR VMM_PRESENT) AND VMM_FLAG_MASK = fl OR VMM_PRESENT"
    and "(drop_bit 2 a OR fl OR VMM_PRESENT) AND VMM_PRESENT \<noteq> 0"
    and "(drop_bit 2 a OR fl OR VMM_PRESENT) AND (VMM_READ OR VMM_WRITE OR VMM_EXECUTE) = fl AND (VMM_READ OR VMM_WRITE OR VMM_EXECUTE)"
proof -
  have low: "\<not> bit a n" if "n < 12" for n using assms(1) that by (simp add: aligned_def)
  show "ptr_of (drop_bit 2 a OR fl OR VMM_PRESENT) = a"
    unfolding ptr_of_def
  proof (rule bit_word_eqI)
    fix n assume n: "n < LENGTH(64)"
    show "bit (push_bit 2 ((drop_bit 2 a OR fl OR VMM_PRESENT) AND NOT VMM_FLAG_MASK)) n = bit a n"
    proof (cases "n < 12")
      case True
      then show ?thesis using low [of n] by (auto simp: bit_simps flag_bits)
    next
      case False
      then have "\<not> bit fl (n - 2)" using fl [of "n - 2"] by auto
      moreover have "Suc (Suc (n - 2)) = n" using False by simp
      ultimately show ?thesis using False n by (auto simp: bit_simps flag_bits)
    qed
  qed
  show "(drop_bit 2 a OR fl OR VMM_PRESENT) AND VMM_FLAG_MASK = fl OR VMM_PRESENT"
  proof (rule bit_word_eqI)
    fix n assume "n < LENGTH(64)"
    show "bit ((drop_bit 2 a OR fl OR VMM_PRESENT) AND VMM_FLAG_MASK) n = bit (fl OR VMM_PRESENT) n"
      using low [of "n + 2"] fl [of n] by (auto simp: bit_simps flag_bits add.commute)
  qed
  have "bit ((drop_bit 2 a OR fl OR VMM_PRESENT) AND VMM_PRESENT) 0" by (simp add: bit_simps flag_bits)
  then show "(drop_bit 2 a OR fl OR VMM_PRESENT) AND VMM_PRESENT \<noteq> 0" by auto
  show "(drop_bit 2 a OR fl OR VMM_PRESENT) AND (VMM_READ OR VMM_WRITE OR VMM_EXECUTE) = fl AND (VMM_READ OR VMM_WRITE OR VMM_EXECUTE)"
  proof (rule bit_word_eqI)
    fix n assume "n < LENGTH(64)"
    show "bit ((drop_bit 2 a OR fl OR VMM_PRESENT) AND (VMM_READ OR VMM_WRITE OR VMM_EXECUTE)) n
        = bit (fl AND (VMM_READ OR VMM_WRITE OR VMM_EXECUTE)) n"
    proof (cases "bit (VMM_READ OR VMM_WRITE OR VMM_EXECUTE) n")
      case True
      then have "n = 1 \<or> n = 2 \<or> n = 3" unfolding bit_rwx .
      then have "\<not> bit (drop_bit 2 a) n" "\<not> bit VMM_PRESENT n" using low by (auto simp: bit_drop_bit_eq bit_present)
      then show ?thesis unfolding bit_and_iff by (simp only: bit_or_iff) blast
    next
      case False
      then show ?thesis unfolding bit_and_iff by simp
    qed
  qed
qed

lemma ptr_of_present: "ptr_of (w OR VMM_PRESENT) = ptr_of w"
proof -
  have "(w OR VMM_PRESENT) AND NOT VMM_FLAG_MASK = w AND NOT VMM_FLAG_MASK"
    by (rule bit_word_eqI) (auto simp: bit_simps flag_bits)
  then show ?thesis by (simp only: ptr_of_def)
qed

lemma entry_table_eq:
  assumes "direct_ok lim s" and "table_ok lim s a" and that: "ptr_of e = a"
  shows "entry_table (MEM_PHYS_OFFSET s) e = a + MEM_PHYS_OFFSET s"
proof -
  have l52: "unat lim < 2 ^ 52" using assms(1) by (intro pmm_ok_lim) (auto simp: direct_ok_def)
  have "frame_range lim a 1" using assms(2) by (simp add: table_ok_def)
  note fr = frame_range_div [OF this l52]
  have "unat a < 4096 * unat lim" using fr(2,4) by simp
  then have "a AND MEM_PHYS_OFFSET s = 0" using assms(1) by (simp add: direct_ok_def)
  then show ?thesis unfolding entry_table_def Let_def ptr_of_def [symmetric] that by simp
qed

lemma ld64_zero:
  assumes "\<And>i. i < 8 \<Longrightarrow> m (a + of_nat i) = Some 0"
  shows "ld64 m a = Inr 0"
proof -
  have "bytes_at m a (replicate 8 0)" using assms by (simp add: bytes_at_nth)
  from ld_bytes_eq [OF this] show ?thesis by (simp add: ld64_def numeral_eq_Suc)
qed

lemma put64_twice: "put64 (put64 m a v) a w = put64 m a w"
  by (rule ext) (simp add: put64_def)

lemma zero_walk: "pt_ent m off a (vpn n va) = Inr 0 \<Longrightarrow> mmu_walk m off n a va = None"
  by (cases n) (simp_all add: is_leaf_def is_ptr_def)

section \<open>Growing the tree\<close>

text \<open>Enough adjacent free frames for \<open>c\<close> allocations of one frame.\<close>

definition spare :: "'a pmm_scheme \<Rightarrow> nat \<Rightarrow> bool" where
  "spare s c \<longleftrightarrow> c = 0 \<or> c < 2 ^ 63 \<and> spacious s (of_nat c)"

lemma spare_cong: "bitmap s' = bitmap s \<Longrightarrow> PmmLength s' = PmmLength s \<Longrightarrow> spare s' c = spare s c"
  by (simp add: spare_def spacious_def)

lemma spare_less:
  assumes "spare s c" and "d \<le> c"
  shows "spare s d"
proof (cases "d = 0 \<or> d = c")
  case True
  then show ?thesis using assms(1) by (auto simp: spare_def)
next
  case False
  then have c: "c < 2 ^ 63" "spacious s (of_nat c)" and d: "d < c" "d \<noteq> 0" using assms by (auto simp: spare_def)
  have "(of_nat c :: u64) = of_nat d + of_nat (c - d)" using d(1) by (simp add: of_nat_add [symmetric] del: of_nat_add)
  then have "spacious s (of_nat d + of_nat (c - d))" using c(2) by simp
  moreover have u: "unat (of_nat d :: u64) = d" "unat (of_nat (c - d) :: u64) = c - d" using c(1) d by (intro unat_of_nat_u64; simp)+
  have "(of_nat d :: u64) \<noteq> 0" using u(1) d(2) by auto
  moreover have "unat (of_nat d :: u64) + unat (of_nat (c - d) :: u64) < 2 ^ 64" unfolding u using c(1) d by simp
  ultimately have "spacious s (of_nat d)" by (rule spacious_sub)
  then show ?thesis using c(1) d by (simp add: spare_def)
qed

lemma pmm_alloc_took:
  assumes "pmm_ok lim s" and "pmm_alloc n s = Inr (a, s')" and "a \<noteq> NULL"
  shows "took s s' n"
proof -
  have lk: "lock (PmmLock s) = 0" using assms(1) by (simp add: pmm_ok_def)
  obtain s0 m where "pmm_alloc_advanced n 1 s = Inr (a, s0)" and "s' = s0\<lparr>bytes := m\<rparr>"
    using assms(2) by (auto simp: pmm_alloc_def bnd_eq_Inr)
  then show ?thesis
    using assms(3) by (auto simp: took_def pmm_alloc_advanced_eq [OF lk] pmm_taken_def split: option.splits)
qed

lemma spare_alloc:
  assumes ok: "pmm_ok lim s" and sp: "spare s (Suc c)"
  obtains f s' where "pmm_alloc 1 s = Inr (f, s')" and "f \<noteq> NULL" and "spare s' c"
proof -
  have c: "Suc c < 2 ^ 63" and sc: "spacious s (1 + of_nat c)" using sp by (simp_all add: spare_def)
  have u: "unat (of_nat c :: u64) = c" using c by (intro unat_of_nat_u64) simp
  have "spacious s 1" by (rule spacious_sub [OF sc]) (use u c in simp_all)
  from spacious_room [OF this] obtain j where "j < PmmLength s" "is_bitmap_page_free (bitmap s) j 1" by (auto simp: room_def)
  then obtain f s' where call: "pmm_alloc 1 s = Inr (f, s')" "f \<noteq> NULL" using pmm_alloc_finds [OF ok] by force
  have "spare s' c"
  proof (cases "c = 0")
    case False
    then have "(of_nat c :: u64) \<noteq> 0" using u by auto
    from spacious_took [OF sc _ this pmm_alloc_took [OF ok call]] show ?thesis using u c by (simp add: spare_def)
  qed (simp add: spare_def)
  with call show ?thesis by (rule that)
qed

lemma frames_one: "frames a 1 = {a div PAGE_SIZE}"
proof -
  have "unat (j - a div PAGE_SIZE) < 1 \<longleftrightarrow> j = a div PAGE_SIZE" for j
    by (simp add: unat_eq_0)
  then show ?thesis by (auto simp: frames_def in_span_def)
qed

lemma get_or_alloc_present:
  assumes tree: "pt_tree lim L T s" and a: "T i k = Some a" and i: "0 < i" and j: "j < 512"
    and e: "pt_ent (bytes s) (MEM_PHYS_OFFSET s) a j = Inr e" and p: "is_ptr e"
  shows "vmm_get_or_alloc (a + MEM_PHYS_OFFSET s) (of_nat j) fl s = Inr (ptr_of e + MEM_PHYS_OFFSET s, s)"
    and "T (i - 1) (k * 512 + j) = Some (ptr_of e)"
proof -
  show t: "T (i - 1) (k * 512 + j) = Some (ptr_of e)" using tableE [OF tree a j] e p i by (metis sum.inject(2))
  from entry_table_eq [OF tableD(3,2) [OF tree t]]
  show "vmm_get_or_alloc (a + MEM_PHYS_OFFSET s) (of_nat j) fl s = Inr (ptr_of e + MEM_PHYS_OFFSET s, s)"
    using e p by (simp add: vmm_get_or_alloc_def pt_ld_def pt_ent_def [symmetric] is_ptr_def)
qed

text \<open>An entry that is not present gets a new empty table, which changes no translation.\<close>

lemma new_table:
  assumes tree: "pt_tree lim L T s" and a: "T i k = Some a" and i: "0 < i" and j: "j < 512"
    and e: "pt_ent (bytes s) (MEM_PHYS_OFFSET s) a j = Inr e" and np: "e AND VMM_PRESENT = 0"
    and al: "pmm_alloc 1 s = Inr (f, s1)" "f \<noteq> NULL"
  defines "s' \<equiv> s1\<lparr>bytes := put64 (bytes s1) (a + MEM_PHYS_OFFSET s + 8 * of_nat j) (drop_bit 2 f OR VMM_PRESENT)\<rparr>"
    and "T' \<equiv> T(i - 1 := (T (i - 1))(k * 512 + j \<mapsto> f))"
  shows "vmm_get_or_alloc (a + MEM_PHYS_OFFSET s) (of_nat j) (ucast VMM_PRESENT) s = Inr (f + MEM_PHYS_OFFSET s, s')"
    and "pt_tree lim L T' s'" and "pmm_frame s s'"
    and "T n (vkey L n va) = Some b \<Longrightarrow> mmu_walk (bytes s') (MEM_PHYS_OFFSET s') n b va = mmu_walk (bytes s) (MEM_PHYS_OFFSET s) n b va"
proof -
  have ok: "direct_ok lim s" and ta: "table_ok lim s a" and iL: "i < L" using tableD [OF tree a] by blast+
  then have pok: "pmm_ok lim s" by (simp add: direct_ok_def)
  note al' = pok al
  have l52: "unat lim < 2 ^ 52" using pok by (rule pmm_ok_lim)
  have range: "frame_range lim f 1" using pm.alloc_range [OF al'] .
  have fresh: "f div PAGE_SIZE \<notin> in_use s" using pm.alloc_fresh [OF al'] by (simp add: frames_one)
  have use: "in_use s1 = insert (f div PAGE_SIZE) (in_use s)" using pm.alloc_takes [OF al'] by (simp add: frames_one)
  have b1: "bytes s1 = filled (bytes s) (f + MEM_PHYS_OFFSET s) 0 4096" using pmm_alloc_bytes [OF al'] by simp
  have fr1: "pmm_frame s s1" using al' by (rule pmm_alloc_frame)
  then have off: "MEM_PHYS_OFFSET s1 = MEM_PHYS_OFFSET s" by (simp add: pmm_frame_def)
  have ok1: "direct_ok lim s1" using ok pm.alloc_keeps [OF al'] off by (simp add: direct_ok_def)
  have tab1: "table_ok lim s1 b" if "table_ok lim s b" for b using that use by (auto simp: table_ok_def)
  have tf: "table_ok lim s1 f" using range use by (simp add: table_ok_def)
  let ?x = "a + MEM_PHYS_OFFSET s + 8 * of_nat j" and ?e = "drop_bit 2 f OR VMM_PRESENT"
  have map1: "mapped (bytes s1) ?x 8" using entry_addr(4) [OF ok1 tab1 [OF ta] j] off by simp
  have flds: "ptr_of ?e = f" "is_ptr ?e"
    using pte_fields [OF frame_aligned [OF range l52], of 0] by (simp_all add: is_ptr_def)
  have fl: "(ucast (ucast VMM_PRESENT :: u32) :: u64) = VMM_PRESENT" by (simp add: VMM_PRESENT_def)
  have ld: "ld64 (bytes s) ?x = Inr e" using e by (simp add: pt_ent_def)
  have ent: "entry_table (MEM_PHYS_OFFSET s1) (drop_bit 2 f) = f + MEM_PHYS_OFFSET s1"
  proof (rule entry_table_eq [OF ok1 tf])
    have "aligned f" by (rule frame_aligned [OF range l52])
    then show "ptr_of (drop_bit 2 f) = f" using flds(1) ptr_of_present [of "drop_bit 2 f"] by simp
  qed
  have get: "vmm_get_or_alloc (a + MEM_PHYS_OFFSET s) (of_nat j) (ucast VMM_PRESENT) s = Inr (f + MEM_PHYS_OFFSET s, s')"
    using np al map1 ld ent off
    by (simp add: vmm_get_or_alloc_def pt_ld_def pt_st_def st64_eq put64_twice fl s'_def Let_def)
  then show "vmm_get_or_alloc (a + MEM_PHYS_OFFSET s) (of_nat j) (ucast VMM_PRESENT) s = Inr (f + MEM_PHYS_OFFSET s, s')" .
  show frame: "pmm_frame s s'" using fr1 by (simp add: s'_def pmm_frame_def same_hart_def)
  have off': "MEM_PHYS_OFFSET s' = MEM_PHYS_OFFSET s" and use': "in_use s' = in_use s1" using off by (simp_all add: s'_def in_use_def)
  have ok': "direct_ok lim s'" using ok1 by (auto simp: direct_ok_def s'_def pmm_ok_def in_use_def)
  have tab': "table_ok lim s' b \<longleftrightarrow> table_ok lim s1 b" for b by (simp add: table_ok_def use')
  have notf: "b \<noteq> f" if "table_ok lim s b" for b using that fresh by (auto simp: table_ok_def)
  have new: "pt_ent (bytes s') (MEM_PHYS_OFFSET s') a j = Inr ?e" by (simp add: s'_def pt_ent_def off)
  have other1: "pt_ent (bytes s') (MEM_PHYS_OFFSET s') b j' = pt_ent (bytes s1) (MEM_PHYS_OFFSET s1) b j'"
    if "table_ok lim s1 b" "j' < 512" "b \<noteq> a \<or> j' \<noteq> j" for b j'
  proof -
    have "a \<noteq> b \<or> j \<noteq> j'" using that(3) by auto
    from entry_put_other [OF ok1 tab1 [OF ta] j that(1,2) this, of ?e] show ?thesis by (simp add: s'_def off)
  qed
  have zeros: "pt_ent (bytes s1) (MEM_PHYS_OFFSET s1) f j' = Inr 0" if "j' < 512" for j'
    unfolding pt_ent_def
  proof (rule ld64_zero)
    fix n :: nat assume "n < 8"
    then have "in_span (f + MEM_PHYS_OFFSET s) 4096 (f + MEM_PHYS_OFFSET s + of_nat (8 * j' + n))" using that by (intro in_span_offset) simp_all
    then show "bytes s1 (f + MEM_PHYS_OFFSET s1 + 8 * of_nat j' + of_nat n) = Some 0" by (simp add: b1 filled_def off add.assoc)
  qed
  have keep: "pt_ent (bytes s1) (MEM_PHYS_OFFSET s1) b j' = pt_ent (bytes s) (MEM_PHYS_OFFSET s) b j'" if "table_ok lim s b" "j' < 512" for b j'
    unfolding pt_ent_def off
    by (rule ld64_cong) (use table_apart [OF ok that range notf [OF that(1)]] in \<open>simp add: b1 filled_def\<close>)
  have other: "pt_ent (bytes s') (MEM_PHYS_OFFSET s') b j' = pt_ent (bytes s) (MEM_PHYS_OFFSET s) b j'"
    if b: "T i' k' = Some b" "j' < 512" "(i', k', j') \<noteq> (i, k, j)" for i' k' b j'
  proof -
    have "table_ok lim s b" using tableD(2) [OF tree b(1)] .
    moreover have "b \<noteq> a \<or> j' \<noteq> j" using b tableD(4) [OF tree a, of i' k'] by auto
    ultimately show ?thesis using other1 [OF tab1 b(2)] keep b(2) by simp
  qed
  have zero': "pt_ent (bytes s') (MEM_PHYS_OFFSET s') f j' = Inr 0" if "j' < 512" for j'
    using other1 [OF tf that] notf [OF ta] zeros [OF that] by simp
  have none: "T (i - 1) (k * 512 + j) = None"
    using tableE [OF tree a j] e np i by (metis is_ptr_def sum.inject(2))
  define hit where "hit i' k' \<longleftrightarrow> i' = i - 1 \<and> k' = k * 512 + j" for i' k'
  have sub1: "T' (i - 1) (k * 512 + j) = Some f" by (simp add: T'_def)
  have sub2: "T' i' k' = T i' k'" if "\<not> hit i' k'" for i' k' using that by (auto simp: T'_def hit_def)
  show "pt_tree lim L T' s'"
  proof (rule pt_treeI [OF ok'])
    fix i' k' b assume b: "T' i' k' = Some b"
    have "i' = i - 1 \<and> k' = k * 512 + j \<and> b = f \<or> T i' k' = Some b \<and> \<not> hit i' k'"
    proof (cases "hit i' k'")
      case True
      then show ?thesis using b sub1 unfolding hit_def by (metis option.inject)
    next
      case False
      then show ?thesis using b sub2 by metis
    qed
    then consider (new) "i' = i - 1" "k' = k * 512 + j" "b = f" | (old) "T i' k' = Some b" "\<not> hit i' k'"
      by blast
    note cases = this
    show "i' < L \<and> table_ok lim s' b"
      using cases
    proof cases
      case new
      then show ?thesis using iL tf tab' by simp
    next
      case old
      then show ?thesis using tableD(1,2) [OF tree old(1)] tab1 tab' by simp
    qed
    show "T' i'' k'' = Some b \<Longrightarrow> i'' = i' \<and> k'' = k'" for i'' k''
    proof -
      assume c: "T' i'' k'' = Some b"
      show ?thesis
        using cases
      proof cases
        case new
        have "T i'' k'' \<noteq> Some f" using tableD(2) [OF tree, of i'' k'' f] notf [of f] by blast
        then have "hit i'' k''" using c new(3) sub2 [of i'' k''] by metis
        then show ?thesis using new by (simp add: hit_def)
      next
        case old
        have "b \<noteq> f" using tableD(2) [OF tree old(1)] notf by blast
        then have "\<not> hit i'' k''" using c sub1 unfolding hit_def by (metis option.inject)
        then have "T i'' k'' = Some b" using c sub2 by metis
        then show ?thesis by (rule tableD(4) [OF tree old(1)])
      qed
    qed
    show "Suc i' < L \<Longrightarrow> T' (Suc i') (k' div 512) \<noteq> None"
      using cases
    proof cases
      case new
      have "\<not> hit (Suc i') (k' div 512)" using new(1) by (simp add: hit_def)
      then show ?thesis using a i j new sub2 by simp
    next
      case old
      show "T' (Suc i') (k' div 512) \<noteq> None" if "Suc i' < L"
        using tableD(5) [OF tree old(1) that] sub1 sub2 [of "Suc i'" "k' div 512"] unfolding hit_def by (metis option.distinct(1))
    qed
    fix j' :: nat assume j': "j' < 512"
    show "\<exists>e. pt_ent (bytes s') (MEM_PHYS_OFFSET s') b j' = Inr e \<and>
        (0 < i' \<longrightarrow> T' (i' - 1) (k' * 512 + j') = (if is_ptr e then Some (ptr_of e) else None))"
      using cases
    proof cases
      case new
      have "T (i' - 1) (k' * 512 + j') = None" if "0 < i'"
      proof (rule ccontr)
        assume "T (i' - 1) (k' * 512 + j') \<noteq> None"
        then obtain c where "T (i' - 1) (k' * 512 + j') = Some c" by blast
        moreover have "Suc (i' - 1) = i'" "(k' * 512 + j') div 512 = k'" "i' < L" using that new(1) iL j' by simp_all
        ultimately have "T i' k' \<noteq> None" using tableD(5) [OF tree] by metis
        then show False using new(1,2) none by simp
      qed
      moreover have "\<not> is_ptr 0" by (simp add: is_ptr_def)
      moreover have "\<not> hit (i' - 1) (k' * 512 + j')" if "0 < i'" using that new(1) by (auto simp: hit_def)
      ultimately show ?thesis using zero' [OF j'] new(3) sub2 by simp
    next
      case old
      show ?thesis
      proof (cases "(i', k', j') = (i, k, j)")
        case True
        then show ?thesis using new old(1) a flds sub1 by simp
      next
        case False
        have "0 < i' \<Longrightarrow> T' (i' - 1) (k' * 512 + j') = T (i' - 1) (k' * 512 + j')"
        proof -
          assume i': "0 < i'"
          have "\<not> hit (i' - 1) (k' * 512 + j')"
          proof
            assume "hit (i' - 1) (k' * 512 + j')"
            then have eq: "i' - 1 = i - 1" "k' * 512 + j' = k * 512 + j" by (simp_all add: hit_def)
            then have "k' = k" using j j' by linarith
            with eq i i' False show False by auto
          qed
          then show ?thesis by (rule sub2)
        qed
        with tableE [OF tree old(1) j'] other [OF old(1) j' False] show ?thesis by metis
      qed
    qed
  qed
  show "T n (vkey L n va) = Some b \<Longrightarrow> mmu_walk (bytes s') (MEM_PHYS_OFFSET s') n b va = mmu_walk (bytes s) (MEM_PHYS_OFFSET s) n b va"
  proof (induction n arbitrary: b)
    case 0
    have "pt_ent (bytes s') (MEM_PHYS_OFFSET s') b (vpn 0 va) = pt_ent (bytes s) (MEM_PHYS_OFFSET s) b (vpn 0 va)"
      using i by (intro other [OF 0] vpn_less) simp
    then show ?case by simp
  next
    case (Suc n)
    show ?case
    proof (cases "(Suc n, vkey L (Suc n) va, vpn (Suc n) va) = (i, k, j)")
      case True
      then have "b = a" using Suc.prems a by auto
      moreover have "mmu_walk (bytes s') (MEM_PHYS_OFFSET s') n f va = None" by (rule zero_walk [OF zero' [OF vpn_less]])
      moreover have "\<not> is_leaf e" "\<not> is_ptr e" "\<not> is_leaf ?e" using np flds(2) by (simp_all add: is_leaf_def is_ptr_def)
      ultimately show ?thesis using True e new flds by auto
    next
      case False
      obtain e1 where e1: "pt_ent (bytes s) (MEM_PHYS_OFFSET s) b (vpn (Suc n) va) = Inr e1"
        "T n (vkey L (Suc n) va * 512 + vpn (Suc n) va) = (if is_ptr e1 then Some (ptr_of e1) else None)"
        using tableE [OF tree Suc.prems vpn_less] by (metis diff_Suc_1 zero_less_Suc)
      have "Suc n < L" using tableD(1) [OF tree Suc.prems] .
      then have "T n (vkey L n va) = (if is_ptr e1 then Some (ptr_of e1) else None)" using e1(2) by (simp add: vkey_step)
      then show ?thesis using other [OF Suc.prems vpn_less False] e1(1) Suc.IH [of "ptr_of e1"] by simp
    qed
  qed
qed

text \<open>A tree with more tables and the same translations.\<close>

definition grown :: "nat \<Rightarrow> tables \<Rightarrow> 'a pmm_scheme \<Rightarrow> tables \<Rightarrow> 'a pmm_scheme \<Rightarrow> bool" where
  "grown L T s T' s' \<longleftrightarrow> pmm_frame s s' \<and> (\<forall>i k a. T i k = Some a \<longrightarrow> T' i k = Some a) \<and>
     (\<forall>n va b. T n (vkey L n va) = Some b \<longrightarrow>
        mmu_walk (bytes s') (MEM_PHYS_OFFSET s') n b va = mmu_walk (bytes s) (MEM_PHYS_OFFSET s) n b va)"

lemma pmm_frame_refl [simp]: "pmm_frame s s"
  by (simp add: pmm_frame_def)

lemma grown_refl [simp]: "grown L T s T s"
  by (simp add: grown_def)

lemma grown_trans: "grown L T s T' s' \<Longrightarrow> grown L T' s' T'' s'' \<Longrightarrow> grown L T s T'' s''"
  unfolding grown_def using pmm_frame_trans [of s s' s''] by metis

lemma grow_step:
  assumes tree: "pt_tree lim L T s" and a: "T i (vkey L i va) = Some a" and i: "0 < i"
    and e: "pt_ent (bytes s) (MEM_PHYS_OFFSET s) a (vpn i va) = Inr e" and nl: "\<not> is_leaf e" and sp: "spare s (Suc c)"
  obtains b s' T' where "vmm_get_or_alloc (a + MEM_PHYS_OFFSET s) (of_nat (vpn i va)) (ucast VMM_PRESENT) s = Inr (b + MEM_PHYS_OFFSET s, s')"
    and "pt_tree lim L T' s'" and "T' (i - 1) (vkey L (i - 1) va) = Some b" and "grown L T s T' s'" and "spare s' c"
proof -
  have key: "vkey L (i - 1) va = vkey L i va * 512 + vpn i va" using vkey_step [of "i - 1" L va] i tableD(1) [OF tree a] by simp
  show ?thesis
  proof (cases "e AND VMM_PRESENT = 0")
    case True
    have "pmm_ok lim s" using tableD(3) [OF tree a] by (simp add: direct_ok_def)
    then obtain f s1 where al: "pmm_alloc 1 s = Inr (f, s1)" "f \<noteq> NULL" "spare s1 c" using sp by (rule spare_alloc)
    note new = new_table [OF tree a i vpn_less e True al(1,2)]
    show ?thesis
    proof (rule that [OF new(1,2)])
      show "(T(i - 1 := (T (i - 1))(vkey L i va * 512 + vpn i va \<mapsto> f))) (i - 1) (vkey L (i - 1) va) = Some f" unfolding key by simp
      have "T (i - 1) (vkey L i va * 512 + vpn i va) = None"
        using tableE [OF tree a vpn_less] e True i by (metis is_ptr_def sum.inject(2))
      then have "\<forall>i' k' a. T i' k' = Some a \<longrightarrow> (T(i - 1 := (T (i - 1))(vkey L i va * 512 + vpn i va \<mapsto> f))) i' k' = Some a" by auto
      then show "grown L T s (T(i - 1 := (T (i - 1))(vkey L i va * 512 + vpn i va \<mapsto> f)))
          (s1\<lparr>bytes := put64 (bytes s1) (a + MEM_PHYS_OFFSET s + 8 * of_nat (vpn i va)) (drop_bit 2 f OR VMM_PRESENT)\<rparr>)"
        unfolding grown_def using new(3,4) by blast
      show "spare (s1\<lparr>bytes := put64 (bytes s1) (a + MEM_PHYS_OFFSET s + 8 * of_nat (vpn i va)) (drop_bit 2 f OR VMM_PRESENT)\<rparr>) c"
        using al(3) by (subst spare_cong [of _ s1]) simp_all
    qed
  next
    case False
    then have "is_ptr e" using nl by (simp add: is_ptr_def is_leaf_def)
    note pres = get_or_alloc_present [OF tree a i vpn_less e this]
    show ?thesis
    proof (rule that [OF pres(1) tree])
      show "T (i - 1) (vkey L (i - 1) va) = Some (ptr_of e)" using pres(2) unfolding key .
      show "spare s c" using sp by (rule spare_less) simp
    qed simp
  qed
qed

lemma walk_entry:
  assumes tree: "pt_tree lim L T s" and a: "T i (vkey L i va) = Some a"
    and low: "\<forall>l x. mmu_walk (bytes s) (MEM_PHYS_OFFSET s) i a va = Some (l, x) \<longrightarrow> l < i"
  obtains e where "pt_ent (bytes s) (MEM_PHYS_OFFSET s) a (vpn i va) = Inr e" and "\<not> is_leaf e"
proof -
  obtain e where e: "pt_ent (bytes s) (MEM_PHYS_OFFSET s) a (vpn i va) = Inr e" using tree a vpn_less by (rule tableE)
  moreover have "\<not> is_leaf e" using low e by (cases i) auto
  ultimately show ?thesis by (rule that)
qed

lemma map_levels_ok:
  assumes "pt_tree lim L T s" and "T i (vkey L i va) = Some a" and "0 < i" and "i < 5"
    and "\<forall>l x. mmu_walk (bytes s) (MEM_PHYS_OFFSET s) i a va = Some (l, x) \<longrightarrow> l \<le> 1" and "spare s (i - 1 + c)"
  shows "\<exists>b s' T'. map_levels i (get_addr_offsets va) (a + MEM_PHYS_OFFSET s) s = Inr (b + MEM_PHYS_OFFSET s, s')
    \<and> pt_tree lim L T' s' \<and> T' 1 (vkey L 1 va) = Some b \<and> grown L T s T' s' \<and> spare s' c"
  using assms
proof (induction i arbitrary: T s a)
  case (Suc i)
  show ?case
  proof (cases "i = 0")
    case True
    then show ?thesis using Suc.prems by (subst map_levels.simps) (auto intro!: exI [of _ T])
  next
    case False
    obtain e where e: "pt_ent (bytes s) (MEM_PHYS_OFFSET s) a (vpn (Suc i) va) = Inr e" "\<not> is_leaf e"
    proof (rule walk_entry [OF Suc.prems(1,2)])
      show "\<forall>l x. mmu_walk (bytes s) (MEM_PHYS_OFFSET s) (Suc i) a va = Some (l, x) \<longrightarrow> l < Suc i" using Suc.prems(5) False by fastforce
    qed
    have sp: "spare s (Suc (i - 1 + c))" using Suc.prems(6) False by simp
    from Suc.prems(1,2) _ e sp obtain b s1 T1 where
      s1: "vmm_get_or_alloc (a + MEM_PHYS_OFFSET s) (of_nat (vpn (Suc i) va)) (ucast VMM_PRESENT) s = Inr (b + MEM_PHYS_OFFSET s, s1)"
      "pt_tree lim L T1 s1" "T1 (Suc i - 1) (vkey L (Suc i - 1) va) = Some b" "grown L T s T1 s1" "spare s1 (i - 1 + c)"
      by (rule grow_step) simp
    have b: "T1 i (vkey L i va) = Some b" using s1(3) by simp
    have off: "MEM_PHYS_OFFSET s1 = MEM_PHYS_OFFSET s" using s1(4) by (simp add: grown_def pmm_frame_def)
    have T1a: "T1 (Suc i) (vkey L (Suc i) va) = Some a" using s1(4) Suc.prems(2) by (simp add: grown_def)
    have "mmu_walk (bytes s1) (MEM_PHYS_OFFSET s1) (Suc i) a va = mmu_walk (bytes s1) (MEM_PHYS_OFFSET s1) i b va"
    proof -
      obtain e1 where e1: "pt_ent (bytes s1) (MEM_PHYS_OFFSET s1) a (vpn (Suc i) va) = Inr e1"
        "T1 i (vkey L (Suc i) va * 512 + vpn (Suc i) va) = (if is_ptr e1 then Some (ptr_of e1) else None)"
        using tableE [OF s1(2) T1a vpn_less] by (metis diff_Suc_1 zero_less_Suc)
      moreover have "vkey L i va = vkey L (Suc i) va * 512 + vpn (Suc i) va" using vkey_step tableD(1) [OF s1(2) T1a] by blast
      ultimately have "is_ptr e1" "ptr_of e1 = b" using b by (auto split: if_splits)
      then show ?thesis using e1(1) by (simp add: is_leaf_def is_ptr_def)
    qed
    moreover have "mmu_walk (bytes s1) (MEM_PHYS_OFFSET s1) (Suc i) a va = mmu_walk (bytes s) (MEM_PHYS_OFFSET s) (Suc i) a va"
      using s1(4) Suc.prems(2) unfolding grown_def by blast
    ultimately have low: "\<forall>l x. mmu_walk (bytes s1) (MEM_PHYS_OFFSET s1) i b va = Some (l, x) \<longrightarrow> l \<le> 1" using Suc.prems(5) by simp
    have i5: "0 < i" "i < 5" using False Suc.prems(4) by simp_all
    obtain b2 s2 T2 where s2: "map_levels i (get_addr_offsets va) (b + MEM_PHYS_OFFSET s1) s1 = Inr (b2 + MEM_PHYS_OFFSET s1, s2)"
      "pt_tree lim L T2 s2" "T2 1 (vkey L 1 va) = Some b2" "grown L T1 s1 T2 s2" "spare s2 c"
      using Suc.IH [OF s1(2) b i5 low s1(5)] by blast
    have "b + MEM_PHYS_OFFSET s \<noteq> NULL" using entry_addr(3) [OF tableD(3,2) [OF s1(2) b], of 0] off by simp
    moreover have "level_at (get_addr_offsets va) (Suc i) = Inr (of_nat (vpn (Suc i) va))"
      using offsets_vpn [of "Suc i" va] Suc.prems(4) by (simp add: level_at_def)
    ultimately have "map_levels (Suc i) (get_addr_offsets va) (a + MEM_PHYS_OFFSET s) s = Inr (b2 + MEM_PHYS_OFFSET s, s2)"
      using s1(1) s2(1) off False by (subst map_levels.simps) simp
    then show ?thesis using s2 grown_trans [OF s1(4) s2(4)] by blast
  qed
qed simp

section \<open>Mapping\<close>

definition mmu_translate :: "nat \<Rightarrow> 'a pmm_scheme \<Rightarrow> addr \<Rightarrow> addr \<Rightarrow> (nat \<times> addr \<times> u64) option" where
  "mmu_translate L s root va = mmu_walk (bytes s) (MEM_PHYS_OFFSET s) (L - 1) root va"

definition leaf_entry :: "addr \<Rightarrow> u64 \<Rightarrow> u64" where
  "leaf_entry pa permissions = (drop_bit 2 pa OR (permissions AND VMM_FLAG_MASK) OR VMM_PRESENT)"

lemma grown_translate:
  assumes "grown L T s T' s'" and "T (L - 1) 0 = Some r" and "0 < L"
  shows "mmu_translate L s' r va = mmu_translate L s r va" and "T' (L - 1) 0 = Some r"
  using assms vkey_top [of L va] by (auto simp: grown_def mmu_translate_def)

lemma vmm_more_eq:
  assumes "pmm_frame s (s' :: 'a kvmm_scheme)"
  shows "pt_mem s' = pt_mem s" and "max_level s' = max_level s" and "kvmm.more s' = kvmm.more s"
  using assms by (cases s; cases s'; simp add: pmm_frame_def)+

lemma store_entry:
  fixes e :: u64
  assumes tree: "pt_tree lim L T s" and L: "0 < L" and root: "T (L - 1) 0 = Some r" and d: "T i (vkey L i va) = Some d"
    and e: "0 < i \<Longrightarrow> \<not> is_ptr e \<and> T (i - 1) (vkey L i va * 512 + vpn i va) = None"
  defines "s' \<equiv> s\<lparr>bytes := put64 (bytes s) (d + MEM_PHYS_OFFSET s + 8 * of_nat (vpn i va)) e\<rparr>"
  shows "pt_st (d + MEM_PHYS_OFFSET s) (of_nat (vpn i va)) e s = Inr s'" and "pt_tree lim L T s'" and "pmm_frame s s'"
    and "mmu_translate L s' r va' = (if (vkey L i va', vpn i va') = (vkey L i va, vpn i va)
      then if is_leaf e then Some (i, ptr_of e, e AND VMM_FLAG_MASK) else None else mmu_translate L s r va')"
proof -
  note st = pt_store [OF tree d vpn_less e, folded s'_def]
  show "pt_st (d + MEM_PHYS_OFFSET s) (of_nat (vpn i va)) e s = Inr s'" by (rule st(1))
  show "pt_tree lim L T s'" by (rule st(2))
  show "pmm_frame s s'" by (simp add: s'_def pmm_frame_def same_hart_def)
  show "mmu_translate L s' r va' = (if (vkey L i va', vpn i va') = (vkey L i va, vpn i va)
      then if is_leaf e then Some (i, ptr_of e, e AND VMM_FLAG_MASK) else None else mmu_translate L s r va')"
  proof (cases "(vkey L i va', vpn i va') = (vkey L i va, vpn i va)")
    case True
    then have k: "vkey L i va' = vkey L i va" "vpn i va' = vpn i va" by simp_all
    have d': "T i (vkey L i va') = Some d" unfolding k(1) by (rule d)
    have "mmu_translate L s' r va' = mmu_walk (bytes s') (MEM_PHYS_OFFSET s') i d va'"
      unfolding mmu_translate_def by (rule walk_through [OF st(2) d' root])
    then show ?thesis using st(3) True k e by (cases i) simp_all
  next
    case False
    moreover have "T (L - 1) (vkey L (L - 1) va') = Some r" using root vkey_top [OF L] by simp
    ultimately have "mmu_walk (bytes s') (MEM_PHYS_OFFSET s') (L - 1) r va' = mmu_walk (bytes s) (MEM_PHYS_OFFSET s) (L - 1) r va'"
      using st(4) by (intro walk_other [OF tree, where ?i0.0 = i and ?k0.0 = "vkey L i va" and ?j0.0 = "vpn i va"]) auto
    then show ?thesis using False by (auto simp: mmu_translate_def)
  qed
qed

lemma same_key_page: "0 < L \<Longrightarrow> (vkey L 0 va', vpn 0 va') = (vkey L 0 va, vpn 0 va) \<longleftrightarrow> vpage L va' = vpage L va"
  and same_key_huge: "1 < L \<Longrightarrow> (vkey L 1 va', vpn 1 va') = (vkey L 1 va, vpn 1 va) \<longleftrightarrow> vkey L 0 va' = vkey L 0 va"
proof -
  have pair: "(a, x) = (b, y) \<longleftrightarrow> a * 512 + x = b * 512 + y" if "x < 512" "y < 512" for a b x y :: nat
  proof
    assume *: "a * 512 + x = b * 512 + y"
    have "(a * 512 + x) mod 512 = x" "(b * 512 + y) mod 512 = y" using that by simp_all
    then show "(a, x) = (b, y)" using * by simp
  qed simp
  show "(vkey L 0 va', vpn 0 va') = (vkey L 0 va, vpn 0 va) \<longleftrightarrow> vpage L va' = vpage L va" if "0 < L"
    unfolding vpage_vkey [OF that] by (rule pair [OF vpn_less vpn_less])
  show "(vkey L 1 va', vpn 1 va') = (vkey L 1 va, vpn 1 va) \<longleftrightarrow> vkey L 0 va' = vkey L 0 va" if "1 < L"
    using vkey_step [of 0 L va] vkey_step [of 0 L va'] pair [OF vpn_less vpn_less] that by simp
qed

lemma store_leaf:
  fixes e :: u64
  assumes tree: "pt_tree lim L T s" and L: "0 < L" and root: "T (L - 1) 0 = Some r" and d: "T 0 (vkey L 0 va) = Some d"
  defines "s' \<equiv> s\<lparr>bytes := put64 (bytes s) (d + MEM_PHYS_OFFSET s + 8 * of_nat (vpn 0 va)) e\<rparr>"
  shows "pt_st (d + MEM_PHYS_OFFSET s) (of_nat (vpn 0 va)) e s = Inr s'" and "pt_tree lim L T s'" and "pmm_frame s s'"
    and "mmu_translate L s' r va' = (if vpage L va' = vpage L va
      then if is_leaf e then Some (0, ptr_of e, e AND VMM_FLAG_MASK) else None else mmu_translate L s r va')"
  using store_entry [OF tree L root d, where e = e, folded s'_def, unfolded same_key_page [OF L]] by simp_all

lemma map_page_ok:
  assumes tree: "pt_tree lim L T s" and L: "L = unat (max_level s)" "2 \<le> L" "L \<le> 5" and pt: "pt_mem s pt = Some t"
    and root: "T (L - 1) 0 = Some (pt_entries t)" and low: "\<forall>l x. mmu_translate L s (pt_entries t) va = Some (l, x) \<longrightarrow> l = 0"
    and sp: "spare s (L - 1 + c)" and e: "is_leaf (leaf_entry pa permissions)"
  shows "\<exists>s' T'. map_page pt va pa permissions False s = Inr (True, s') \<and> pt_tree lim L T' s' \<and> T' (L - 1) 0 = Some (pt_entries t)
    \<and> pmm_frame s s' \<and> spare s' c \<and> (\<forall>va'. mmu_translate L s' (pt_entries t) va' =
      (if vpage L va' = vpage L va then Some (0, ptr_of (leaf_entry pa permissions), leaf_entry pa permissions AND VMM_FLAG_MASK)
       else mmu_translate L s (pt_entries t) va'))"
proof -
  let ?r = "pt_entries t"
  have L0: "0 < L" and top: "unat (max_level s - 1) = L - 1"
    using L by (auto simp: unat_diff_u64 word_le_nat_alt)
  have r: "T (L - 1) (vkey L (L - 1) va) = Some ?r" using root vkey_top [OF L0] by simp
  have lv: "level_at (get_addr_offsets va) 1 = Inr (of_nat (vpn 1 va))" "level_at (get_addr_offsets va) 0 = Inr (of_nat (vpn 0 va))"
    using offsets_vpn [of 1 va] offsets_vpn [of 0 va] by (simp_all add: level_at_def)
  have "\<forall>l x. mmu_walk (bytes s) (MEM_PHYS_OFFSET s) (L - 1) ?r va = Some (l, x) \<longrightarrow> l \<le> 1" using low by (auto simp: mmu_translate_def)
  moreover have "spare s (L - 1 - 1 + Suc c)"
  proof -
    have "L - 1 - 1 + Suc c = L - 1 + c" using L(2) by simp
    then show ?thesis using sp by (simp only:)
  qed
  moreover have "0 < L - 1" "L - 1 < 5" using L by simp_all
  ultimately obtain b s1 T1 where s1: "map_levels (L - 1) (get_addr_offsets va) (?r + MEM_PHYS_OFFSET s) s = Inr (b + MEM_PHYS_OFFSET s, s1)"
    "pt_tree lim L T1 s1" "T1 1 (vkey L 1 va) = Some b" "grown L T s T1 s1" "spare s1 (Suc c)"
    using map_levels_ok [OF tree r, of "Suc c"] by blast
  note tr1 = grown_translate [OF s1(4) root L0]
  have off1: "MEM_PHYS_OFFSET s1 = MEM_PHYS_OFFSET s" using s1(4) by (simp add: grown_def pmm_frame_def)
  have "mmu_walk (bytes s1) (MEM_PHYS_OFFSET s1) 1 b va = mmu_translate L s ?r va"
    using walk_through [OF s1(2,3) tr1(2)] tr1(1) by (simp add: mmu_translate_def)
  then have "\<forall>l x. mmu_walk (bytes s1) (MEM_PHYS_OFFSET s1) 1 b va = Some (l, x) \<longrightarrow> l < 1" using low by auto
  with s1(2,3) obtain e1 where e1: "pt_ent (bytes s1) (MEM_PHYS_OFFSET s1) b (vpn 1 va) = Inr e1" "\<not> is_leaf e1" by (rule walk_entry)
  from s1(2,3) _ e1 s1(5) obtain d s2 T2 where
    s2: "vmm_get_or_alloc (b + MEM_PHYS_OFFSET s1) (of_nat (vpn 1 va)) (ucast VMM_PRESENT) s1 = Inr (d + MEM_PHYS_OFFSET s1, s2)"
    "pt_tree lim L T2 s2" "T2 (1 - 1) (vkey L (1 - 1) va) = Some d" "grown L T1 s1 T2 s2" "spare s2 c"
    by (rule grow_step) simp
  have d: "T2 0 (vkey L 0 va) = Some d" using s2(3) by simp
  have off2: "MEM_PHYS_OFFSET s2 = MEM_PHYS_OFFSET s" using s2(4) off1 by (simp add: grown_def pmm_frame_def)
  note tr2 = grown_translate [OF s2(4) tr1(2) L0] and st = store_leaf [OF s2(2) L0 grown_translate(2) [OF s2(4) tr1(2) L0] d, where e = "leaf_entry pa permissions"]
  have nn: "?r + MEM_PHYS_OFFSET s \<noteq> NULL" "b + MEM_PHYS_OFFSET s \<noteq> NULL" "d + MEM_PHYS_OFFSET s \<noteq> NULL"
    using entry_addr(3) [OF tableD(3,2) [OF tree root], of 0] entry_addr(3) [OF tableD(3,2) [OF s1(2,3)], of 0]
      entry_addr(3) [OF tableD(3,2) [OF s2(2) d], of 0] off1 off2 by simp_all
  let ?s' = "s2\<lparr>bytes := put64 (bytes s2) (d + MEM_PHYS_OFFSET s2 + 8 * of_nat (vpn 0 va)) (leaf_entry pa permissions)\<rparr>"
  have "map_page pt va pa permissions False s = Inr (True, ?s')"
    using pt top nn lv s1(1) s2(1) st(1) off1 off2
    by (simp add: map_page_def ld_pt_def Let_def leaf_entry_def)
  moreover have "pmm_frame s ?s'"
  proof -
    have "pmm_frame s s1" "pmm_frame s1 s2" using s1(4) s2(4) by (simp_all add: grown_def)
    then show ?thesis using st(3) by (meson pmm_frame_trans)
  qed
  moreover have "spare ?s' c" using s2(5) by (subst spare_cong [of _ s2]) simp_all
  ultimately show ?thesis using st(2,4) tr1 tr2 e by (intro exI [of _ ?s'] exI [of _ T2]) simp
qed

text \<open>A page-aligned frame mapped with a permission gives an entry the memory management unit reads back.\<close>

lemma leaf_fields:
  assumes "aligned pa" and "permissions AND (VMM_READ OR VMM_WRITE OR VMM_EXECUTE) \<noteq> 0"
  shows "is_leaf (leaf_entry pa permissions)" and "ptr_of (leaf_entry pa permissions) = pa"
    and "leaf_entry pa permissions AND VMM_FLAG_MASK = permissions AND VMM_FLAG_MASK OR VMM_PRESENT"
proof -
  have m: "bit VMM_FLAG_MASK n \<longleftrightarrow> n < 10" for n
  proof -
    have e: "VMM_FLAG_MASK = mask 10" by (simp add: VMM_FLAG_MASK_def mask_eq_exp_minus_1)
    show ?thesis unfolding e by (auto simp: bit_mask_iff)
  qed
  have fl: "bit (permissions AND VMM_FLAG_MASK) n \<Longrightarrow> n < 10" for n by (simp add: bit_and_iff m)
  have "(permissions AND VMM_FLAG_MASK) AND (VMM_READ OR VMM_WRITE OR VMM_EXECUTE) = permissions AND (VMM_READ OR VMM_WRITE OR VMM_EXECUTE)"
  proof -
    have "VMM_FLAG_MASK AND (VMM_READ OR VMM_WRITE OR VMM_EXECUTE) = VMM_READ OR VMM_WRITE OR VMM_EXECUTE" by (simp add: vmm_flags)
    then show ?thesis by (simp only: and.assoc)
  qed
  then show "is_leaf (leaf_entry pa permissions)" "ptr_of (leaf_entry pa permissions) = pa"
    "leaf_entry pa permissions AND VMM_FLAG_MASK = permissions AND VMM_FLAG_MASK OR VMM_PRESENT"
    using assms(2) pte_fields [OF assms(1), of "permissions AND VMM_FLAG_MASK", OF fl] by (simp_all add: is_leaf_def leaf_entry_def)
qed

lemma aligned_next: "aligned pa \<Longrightarrow> aligned (pa + 0x1000)"
proof -
  assume pa: "aligned pa"
  have "12 \<le> n" if "bit pa n" for n using pa that by (auto simp: aligned_def not_less [symmetric])
  then have "pa = push_bit 12 (drop_bit 12 pa)" by (auto simp: bit_eq_iff bit_simps)
  then have "pa + 0x1000 = push_bit 12 (drop_bit 12 pa + 1)" by (simp add: push_bit_add)
  then show ?thesis by (auto simp: aligned_def bit_simps)
qed

lemma page_shift: "va + of_nat (Suc k) * 0x1000 = va + 0x1000 + of_nat k * (0x1000 :: u64)"
  by (simp add: algebra_simps)

lemma pages_differ:
  assumes "L \<le> 5" and "0 < k" and "k < 2 ^ (9 * L)"
  shows "vpage L (va + of_nat k * 0x1000) \<noteq> vpage L va"
proof -
  have "vpage L va < 2 ^ (9 * L)" 
    unfolding vpage_def by (rule less_mult_imp_div_less) (simp add: power_add mult.commute)
  then show ?thesis using assms vpage_add [OF assms(1), of va k] by (auto simp: mod_if split: if_splits)
qed

lemma map_loop_ok:
  assumes "pt_tree lim L T s" and "L = unat (max_level s)" and "2 \<le> L" and "L \<le> 5" and "pt_mem s pt = Some t"
    and "T (L - 1) 0 = Some (pt_entries t)" and "n \<le> 2 ^ (9 * L)"
    and "\<forall>k<n. \<forall>l x. mmu_translate L s (pt_entries t) (va + of_nat k * 0x1000) = Some (l, x) \<longrightarrow> l = 0"
    and "spare s (n * (L - 1) + c)" and "aligned pa" and "permissions AND (VMM_READ OR VMM_WRITE OR VMM_EXECUTE) \<noteq> 0"
  shows "\<exists>s' T'. map_loop n pt va pa permissions False s = Inr (True, s') \<and> pt_tree lim L T' s' \<and> T' (L - 1) 0 = Some (pt_entries t)
    \<and> pmm_frame s s' \<and> spare s' c
    \<and> (\<forall>k<n. \<forall>va'. vpage L va' = vpage L (va + of_nat k * 0x1000) \<longrightarrow> mmu_translate L s' (pt_entries t) va'
        = Some (0, pa + of_nat k * 0x1000, permissions AND VMM_FLAG_MASK OR VMM_PRESENT))
    \<and> (\<forall>va'. (\<forall>k<n. vpage L va' \<noteq> vpage L (va + of_nat k * 0x1000)) \<longrightarrow>
        mmu_translate L s' (pt_entries t) va' = mmu_translate L s (pt_entries t) va')"
  using assms
proof (induction n arbitrary: va pa s T)
  case 0
  then show ?case by (auto simp: pmm_frame_def)
next
  case (Suc n)
  let ?r = "pt_entries t" and ?x = "(0 :: nat, pa, permissions AND VMM_FLAG_MASK OR VMM_PRESENT)"
  have "\<forall>l x. mmu_translate L s ?r va = Some (l, x) \<longrightarrow> l = 0" using Suc.prems(8) by (metis add_0_right mult_zero_left of_nat_0 zero_less_Suc)
  moreover have "spare s (L - 1 + (n * (L - 1) + c))"
  proof -
    have "L - 1 + (n * (L - 1) + c) = Suc n * (L - 1) + c" by simp
    then show ?thesis using Suc.prems(9) by (simp only:)
  qed
  ultimately obtain s1 T1 where s1: "map_page pt va pa permissions False s = Inr (True, s1)" "pt_tree lim L T1 s1"
    "T1 (L - 1) 0 = Some ?r" "pmm_frame s s1" "spare s1 (n * (L - 1) + c)"
    "\<forall>va'. mmu_translate L s1 ?r va' = (if vpage L va' = vpage L va then Some ?x else mmu_translate L s ?r va')"
    using map_page_ok [OF Suc.prems(1-6), of va "n * (L - 1) + c" pa permissions] leaf_fields [OF Suc.prems(10,11)] by auto
  note eqs = vmm_more_eq [OF s1(4)]
  have le: "n \<le> 2 ^ (9 * L)" using Suc.prems(7) by simp
  have L1: "L = unat (max_level s1)" and p1: "pt_mem s1 pt = Some t" using eqs Suc.prems(2,5) by simp_all
  have apart: "vpage L (va + 0x1000 + of_nat k * 0x1000) \<noteq> vpage L va" if "k < n" for k
    using pages_differ [OF Suc.prems(4), of "Suc k" va] that Suc.prems(7) unfolding page_shift by simp
  have low: "\<forall>k<n. \<forall>l x. mmu_translate L s1 ?r (va + 0x1000 + of_nat k * 0x1000) = Some (l, x) \<longrightarrow> l = 0"
  proof (intro allI impI)
    fix k l x assume k: "k < n" "mmu_translate L s1 ?r (va + 0x1000 + of_nat k * 0x1000) = Some (l, x)"
    then have "mmu_translate L s ?r (va + of_nat (Suc k) * 0x1000) = Some (l, x)" unfolding page_shift using s1(6) apart by simp
    then show "l = 0" using Suc.prems(8) k(1) by (meson Suc_less_eq)
  qed
  obtain s' T' where s': "map_loop n pt (va + 0x1000) (pa + 0x1000) permissions False s1 = Inr (True, s')" "pt_tree lim L T' s'"
    "T' (L - 1) 0 = Some ?r" "pmm_frame s1 s'" "spare s' c"
    and new: "\<forall>k<n. \<forall>va'. vpage L va' = vpage L (va + 0x1000 + of_nat k * 0x1000) \<longrightarrow> mmu_translate L s' ?r va'
        = Some (0, pa + 0x1000 + of_nat k * 0x1000, permissions AND VMM_FLAG_MASK OR VMM_PRESENT)"
    and old: "\<forall>va'. (\<forall>k<n. vpage L va' \<noteq> vpage L (va + 0x1000 + of_nat k * 0x1000)) \<longrightarrow>
        mmu_translate L s' ?r va' = mmu_translate L s1 ?r va'"
    using Suc.IH [OF s1(2) L1 Suc.prems(3,4) p1 s1(3) le low s1(5) aligned_next [OF Suc.prems(10)] Suc.prems(11)] by blast
  have first: "mmu_translate L s' ?r va' = Some ?x" if "vpage L va' = vpage L va" for va'
  proof -
    have "\<forall>k<n. vpage L va' \<noteq> vpage L (va + 0x1000 + of_nat k * 0x1000)" using apart that by metis
    then show ?thesis using old s1(6) that by simp
  qed
  have "map_loop (Suc n) pt va pa permissions False s = Inr (True, s')" using s1(1) s'(1) by simp
  moreover have "\<forall>k<Suc n. \<forall>va'. vpage L va' = vpage L (va + of_nat k * 0x1000) \<longrightarrow> mmu_translate L s' ?r va'
      = Some (0, pa + of_nat k * 0x1000, permissions AND VMM_FLAG_MASK OR VMM_PRESENT)"
    using first new unfolding All_less_Suc2 page_shift by simp
  moreover have "\<forall>va'. (\<forall>k<Suc n. vpage L va' \<noteq> vpage L (va + of_nat k * 0x1000)) \<longrightarrow>
      mmu_translate L s' ?r va' = mmu_translate L s ?r va'"
    using old s1(6) unfolding All_less_Suc2 page_shift by simp
  ultimately show ?case using s'(2,3,5) pmm_frame_trans [OF s1(4) s'(4)] by blast
qed

text \<open>Taking and releasing the lock of a page map leave the tables alone.\<close>

lemma pt_tree_cong:
  assumes "bytes s' = bytes s" and "MEM_PHYS_OFFSET s' = MEM_PHYS_OFFSET s" and "PmmLock s' = PmmLock s"
    and "bitmap s' = bitmap s" and "PmmLength s' = PmmLength s"
  shows "pt_tree lim L T s' = pt_tree lim L T s" and "mmu_translate L s' r va = mmu_translate L s r va" and "spare s' c = spare s c"
  using assms by (simp_all add: pt_tree_def direct_ok_def table_ok_def pmm_ok_def in_use_def mmu_translate_def spare_def spacious_def)

definition pt_taken :: "string \<Rightarrow> int \<Rightarrow> addr \<Rightarrow> pt_t \<Rightarrow> 'a kvmm_scheme \<Rightarrow> 'a kvmm_scheme" where
  "pt_taken fn ln p t s = (arch_cpu_increment_preempt_counter s)\<lparr>pt_mem := (pt_mem s)(p \<mapsto>
     t\<lparr>pt_lk := (pt_lk t)\<lparr>lock := 1, last_acquirer := acquirer_of (''vmm.c'', fn, ln) s\<rparr>\<rparr>)\<rparr>"

lemma preempt_pt_fields [simp]:
  "pt_mem (arch_cpu_increment_preempt_counter s) = pt_mem s" "max_level (arch_cpu_increment_preempt_counter s) = max_level s"
  "pt_mem (arch_cpu_decrement_preempt_counter s) = pt_mem s" "max_level (arch_cpu_decrement_preempt_counter s) = max_level s"
  by (simp_all add: arch_cpu_increment_preempt_counter_def arch_cpu_decrement_preempt_counter_def)

lemma preempt_frames [simp]:
  "bytes (arch_cpu_increment_preempt_counter s) = bytes s" "MEM_PHYS_OFFSET (arch_cpu_increment_preempt_counter s) = MEM_PHYS_OFFSET s"
  "PmmLock (arch_cpu_increment_preempt_counter s) = PmmLock s" "bitmap (arch_cpu_increment_preempt_counter s) = bitmap s"
  "PmmLength (arch_cpu_increment_preempt_counter s) = PmmLength s"
  "bytes (arch_cpu_decrement_preempt_counter s) = bytes s" "MEM_PHYS_OFFSET (arch_cpu_decrement_preempt_counter s) = MEM_PHYS_OFFSET s"
  "PmmLock (arch_cpu_decrement_preempt_counter s) = PmmLock s" "bitmap (arch_cpu_decrement_preempt_counter s) = bitmap s"
  "PmmLength (arch_cpu_decrement_preempt_counter s) = PmmLength s"
  by (simp_all add: arch_cpu_increment_preempt_counter_def arch_cpu_decrement_preempt_counter_def)

lemma pt_lock_eq:
  "pt_mem s p = Some t \<Longrightarrow> lock (pt_lk t) = 0 \<Longrightarrow> pt_lock fn ln p s = Inr (pt_taken fn ln p t s)"
  by (simp add: pt_lock_def ld_pt_def pt_taken_def)

lemma pt_unlock_eq:
  "pt_mem s p = Some t \<Longrightarrow> pt_unlock p s =
    Inr ((arch_cpu_decrement_preempt_counter s)\<lparr>pt_mem := (pt_mem s)(p \<mapsto> t\<lparr>pt_lk := (pt_lk t)\<lparr>lock := 0\<rparr>\<rparr>)\<rparr>)"
  by (simp add: pt_unlock_def ld_pt_def)

lemma pt_taken_fields [simp]:
  "max_level (pt_taken fn ln p t s) = max_level s"
  "pt_mem (pt_taken fn ln p t s) p = Some (t\<lparr>pt_lk := (pt_lk t)\<lparr>lock := 1, last_acquirer := acquirer_of (''vmm.c'', fn, ln) s\<rparr>\<rparr>)"
  by (simp_all add: pt_taken_def)

lemma pt_taken_keeps [simp]:
  "pt_tree lim L T (pt_taken fn ln p t s) = pt_tree lim L T s"
  "mmu_translate L (pt_taken fn ln p t s) r va = mmu_translate L s r va" "spare (pt_taken fn ln p t s) c = spare s c"
  by (rule pt_tree_cong; simp add: pt_taken_def)+

section \<open>Unmapping\<close>

lemma get_or_null_present:
  assumes tree: "pt_tree lim L T s" and b: "T i k = Some (ptr_of e)" and e: "pt_ent (bytes s) (MEM_PHYS_OFFSET s) a j = Inr e" "is_ptr e"
  shows "vmm_get_or_null (a + MEM_PHYS_OFFSET s) (of_nat j) s = Inr (ptr_of e + MEM_PHYS_OFFSET s)"
  using entry_table_eq [OF tableD(3,2) [OF tree b]] e
  by (simp add: vmm_get_or_null_def pt_ld_def pt_ent_def [symmetric] is_ptr_def)

lemma unmap_levels_ok:
  assumes tree: "pt_tree lim L T s" and b: "T 1 (vkey L 1 va) = Some b" and L: "L \<le> 5"
  shows "Suc i < L \<Longrightarrow> \<exists>a. T (Suc i) (vkey L (Suc i) va) = Some a \<and>
    unmap_levels (Suc i) (get_addr_offsets va) (a + MEM_PHYS_OFFSET s) s = Inr (b + MEM_PHYS_OFFSET s)"
proof (induction i)
  case 0
  show ?case using b by (simp add: unmap_levels.simps)
next
  case (Suc i)
  then obtain a where a: "T (Suc i) (vkey L (Suc i) va) = Some a"
    "unmap_levels (Suc i) (get_addr_offsets va) (a + MEM_PHYS_OFFSET s) s = Inr (b + MEM_PHYS_OFFSET s)" by auto
  obtain c e where c: "T (Suc (Suc i)) (vkey L (Suc (Suc i)) va) = Some c"
    and e: "pt_ent (bytes s) (MEM_PHYS_OFFSET s) c (vpn (Suc (Suc i)) va) = Inr e" "is_ptr e" "ptr_of e = a"
    using table_parent [OF tree a(1) Suc.prems] .
  have "vmm_get_or_null (c + MEM_PHYS_OFFSET s) (of_nat (vpn (Suc (Suc i)) va)) s = Inr (a + MEM_PHYS_OFFSET s)"
    using get_or_null_present [OF tree _ e(1,2)] a(1) e(3) by simp
  moreover have "a + MEM_PHYS_OFFSET s \<noteq> NULL" using entry_addr(3) [OF tableD(3,2) [OF tree a(1)], of 0] by simp
  moreover have "level_at (get_addr_offsets va) (Suc (Suc i)) = Inr (of_nat (vpn (Suc (Suc i)) va))"
    using offsets_vpn [of "Suc (Suc i)" va] Suc.prems L by (simp add: level_at_def)
  ultimately show ?case using a(2) c by (subst unmap_levels.simps) simp
qed

lemma unmap_page_level1:
  assumes tree: "pt_tree lim L T s" and L: "L = unat (max_level s)" "2 \<le> L" "L \<le> 5" and pt: "pt_mem s pt = Some t"
    and root: "T (L - 1) 0 = Some (pt_entries t)" and b: "T 1 (vkey L 1 va) = Some b"
    and e: "pt_ent (bytes s) (MEM_PHYS_OFFSET s) b (vpn 1 va) = Inr e"
  shows "unmap_page pt va sz s =
    (if e AND (VMM_READ OR VMM_WRITE OR VMM_EXECUTE) \<noteq> 0
     then if sz < 0x1FF then Inr (None, s)
          else bnd (pt_st (b + MEM_PHYS_OFFSET s) (of_nat (vpn 1 va)) 0 s) (\<lambda>s. Inr (Some (va + 0x200000, sz - 0x200), s))
     else bnd (vmm_get_or_null (b + MEM_PHYS_OFFSET s) (of_nat (vpn 1 va)) s) (\<lambda>level1.
          bnd (if level1 = NULL then Inl Fault else pt_st level1 (of_nat (vpn 0 va)) 0 s) (\<lambda>s.
          Inr (Some (va + 0x1000, sz), s))))"
proof -
  have L0: "0 < L" "L - 1 = Suc (L - 2)" "Suc (L - 2) < L" and top: "unat (max_level s - 1) = L - 1"
    using L by (auto simp: unat_diff_u64 word_le_nat_alt)
  obtain a where a: "T (L - 1) (vkey L (L - 1) va) = Some a"
    "unmap_levels (L - 1) (get_addr_offsets va) (a + MEM_PHYS_OFFSET s) s = Inr (b + MEM_PHYS_OFFSET s)"
    using unmap_levels_ok [OF tree b L(3) L0(3)] unfolding L0(2) [symmetric] by blast
  then have r: "a = pt_entries t" using root vkey_top [OF L0(1)] by simp
  have nn: "pt_entries t + MEM_PHYS_OFFSET s \<noteq> NULL" "b + MEM_PHYS_OFFSET s \<noteq> NULL"
    using entry_addr(3) [OF tableD(3,2) [OF tree root], of 0] entry_addr(3) [OF tableD(3,2) [OF tree b], of 0] by simp_all
  have lv: "level_at (get_addr_offsets va) 1 = Inr (of_nat (vpn 1 va))" "level_at (get_addr_offsets va) 0 = Inr (of_nat (vpn 0 va))"
    using offsets_vpn [of 1 va] offsets_vpn [of 0 va] by (simp_all add: level_at_def)
  have ld: "pt_ld (b + MEM_PHYS_OFFSET s) (of_nat (vpn 1 va)) s = Inr e" using e by (simp add: pt_ld_def pt_ent_def)
  show ?thesis using pt nn lv ld a(2) r top by (simp add: unmap_page_def ld_pt_def Let_def)
qed

lemma walk_leaf:
  assumes tree: "pt_tree lim L T s"
  shows "T i (vkey L i va) = Some a \<Longrightarrow> mmu_walk (bytes s) (MEM_PHYS_OFFSET s) i a va = Some (l, x) \<Longrightarrow>
    \<exists>d e. T l (vkey L l va) = Some d \<and> pt_ent (bytes s) (MEM_PHYS_OFFSET s) d (vpn l va) = Inr e \<and> is_leaf e"
proof (induction i arbitrary: a)
  case 0
  then show ?case by (auto split: sum.splits if_splits)
next
  case (Suc i)
  obtain e where e: "pt_ent (bytes s) (MEM_PHYS_OFFSET s) a (vpn (Suc i) va) = Inr e"
    "T i (vkey L (Suc i) va * 512 + vpn (Suc i) va) = (if is_ptr e then Some (ptr_of e) else None)"
    using tableE [OF tree Suc.prems(1) vpn_less] by (metis diff_Suc_1 zero_less_Suc)
  have "vkey L i va = vkey L (Suc i) va * 512 + vpn (Suc i) va" using vkey_step tableD(1) [OF tree Suc.prems(1)] by blast
  then show ?case using Suc e by (auto split: if_splits)
qed

lemma unmap_page_ok:
  assumes tree: "pt_tree lim L T s" and L: "L = unat (max_level s)" "2 \<le> L" "L \<le> 5" and pt: "pt_mem s pt = Some t"
    and root: "T (L - 1) 0 = Some (pt_entries t)" and x: "mmu_translate L s (pt_entries t) va = Some (0, x)"
  shows "\<exists>s'. unmap_page pt va sz s = Inr (Some (va + 0x1000, sz), s') \<and> pt_tree lim L T s' \<and> pmm_frame s s'
    \<and> (\<forall>va'. mmu_translate L s' (pt_entries t) va' = (if vpage L va' = vpage L va then None else mmu_translate L s (pt_entries t) va'))"
proof -
  have L0: "0 < L" "Suc 0 < L" using L(2) by simp_all
  have "T (L - 1) (vkey L (L - 1) va) = Some (pt_entries t)" using root vkey_top [OF L0(1)] by simp
  from walk_leaf [OF tree this] obtain d where d: "T 0 (vkey L 0 va) = Some d" using x by (auto simp: mmu_translate_def)
  obtain b e where b: "T 1 (vkey L 1 va) = Some b" and e: "pt_ent (bytes s) (MEM_PHYS_OFFSET s) b (vpn 1 va) = Inr e" "is_ptr e" "ptr_of e = d"
    using table_parent [OF tree d L0(2)] by auto
  note st = store_leaf [OF tree L0(1) root d, where e = 0]
  have "d + MEM_PHYS_OFFSET s \<noteq> NULL" using entry_addr(3) [OF tableD(3,2) [OF tree d], of 0] by simp
  moreover have "vmm_get_or_null (b + MEM_PHYS_OFFSET s) (of_nat (vpn 1 va)) s = Inr (d + MEM_PHYS_OFFSET s)"
    using get_or_null_present [OF tree _ e(1,2)] d e(3) by simp
  ultimately have "unmap_page pt va sz s = Inr (Some (va + 0x1000, sz), s\<lparr>bytes := put64 (bytes s) (d + MEM_PHYS_OFFSET s + 8 * of_nat (vpn 0 va)) 0\<rparr>)"
    using e(2) st(1) unfolding unmap_page_level1 [OF tree L pt root b e(1)] is_ptr_def by simp
  then show ?thesis using st(2-4) by (auto simp: is_leaf_def)
qed

lemma unmap_loop_ok:
  assumes "pt_tree lim L T s" and "L = unat (max_level s)" and "2 \<le> L" and "L \<le> 5" and "pt_mem s pt = Some t"
    and "T (L - 1) 0 = Some (pt_entries t)" and "n \<le> 2 ^ (9 * L)" and "n < 2 ^ 64"
    and "\<forall>k<n. \<exists>x. mmu_translate L s (pt_entries t) (va + of_nat k * 0x1000) = Some (0, x)"
  shows "\<exists>s'. unmap_loop pt va (of_nat n) s = Some (Inr (True, s')) \<and> pt_tree lim L T s' \<and> pmm_frame s s'
    \<and> (\<forall>k<n. \<forall>va'. vpage L va' = vpage L (va + of_nat k * 0x1000) \<longrightarrow> mmu_translate L s' (pt_entries t) va' = None)
    \<and> (\<forall>va'. (\<forall>k<n. vpage L va' \<noteq> vpage L (va + of_nat k * 0x1000)) \<longrightarrow>
        mmu_translate L s' (pt_entries t) va' = mmu_translate L s (pt_entries t) va')"
  using assms
proof (induction n arbitrary: va s)
  case 0
  then show ?case by (subst unmap_loop.simps) (auto simp: pmm_frame_def)
next
  case (Suc n)
  let ?r = "pt_entries t"
  obtain x where "mmu_translate L s ?r va = Some (0, x)"
    using Suc.prems(9) by (metis add_0_right mult_zero_left of_nat_0 zero_less_Suc)
  from unmap_page_ok [OF Suc.prems(1-6) this, of "of_nat n"] obtain s1 where
    s1: "unmap_page pt va (of_nat n) s = Inr (Some (va + 0x1000, of_nat n), s1)" "pt_tree lim L T s1" "pmm_frame s s1"
    "\<forall>va'. mmu_translate L s1 ?r va' = (if vpage L va' = vpage L va then None else mmu_translate L s ?r va')" by blast
  note eqs = vmm_more_eq [OF s1(3)]
  have le: "n \<le> 2 ^ (9 * L)" "n < 2 ^ 64" using Suc.prems(7,8) by simp_all
  have L1: "L = unat (max_level s1)" and p1: "pt_mem s1 pt = Some t" using eqs Suc.prems(2,5) by simp_all
  have apart: "vpage L (va + 0x1000 + of_nat k * 0x1000) \<noteq> vpage L va" if "k < n" for k
    using pages_differ [OF Suc.prems(4), of "Suc k" va] that Suc.prems(7) unfolding page_shift by simp
  have low: "\<forall>k<n. \<exists>x. mmu_translate L s1 ?r (va + 0x1000 + of_nat k * 0x1000) = Some (0, x)"
    using Suc.prems(9) apart s1(4) unfolding All_less_Suc2 page_shift by simp
  obtain s' where s': "unmap_loop pt (va + 0x1000) (of_nat n) s1 = Some (Inr (True, s'))" "pt_tree lim L T s'" "pmm_frame s1 s'"
    and new: "\<forall>k<n. \<forall>va'. vpage L va' = vpage L (va + 0x1000 + of_nat k * 0x1000) \<longrightarrow> mmu_translate L s' ?r va' = None"
    and old: "\<forall>va'. (\<forall>k<n. vpage L va' \<noteq> vpage L (va + 0x1000 + of_nat k * 0x1000)) \<longrightarrow> mmu_translate L s' ?r va' = mmu_translate L s1 ?r va'"
    using Suc.IH [OF s1(2) L1 Suc.prems(3,4) p1 Suc.prems(6) le low] by blast
  have first: "mmu_translate L s' ?r va' = None" if "vpage L va' = vpage L va" for va'
  proof -
    have "\<forall>k<n. vpage L va' \<noteq> vpage L (va + 0x1000 + of_nat k * 0x1000)" using apart that by metis
    then show ?thesis using old s1(4) that by simp
  qed
  have "(of_nat (Suc n) :: u64) \<noteq> 0"
    using Suc.prems(8) unat_of_nat_u64 [of "Suc n"] by (metis nat.distinct(1) unsigned_0)
  then have "unmap_loop pt va (of_nat (Suc n)) s = Some (Inr (True, s'))"
    using s1(1) s'(1) by (subst unmap_loop.simps) simp
  moreover have "\<forall>k<Suc n. \<forall>va'. vpage L va' = vpage L (va + of_nat k * 0x1000) \<longrightarrow> mmu_translate L s' ?r va' = None"
    using first new unfolding All_less_Suc2 page_shift by simp
  moreover have "\<forall>va'. (\<forall>k<Suc n. vpage L va' \<noteq> vpage L (va + of_nat k * 0x1000)) \<longrightarrow> mmu_translate L s' ?r va' = mmu_translate L s ?r va'"
    using old s1(4) unfolding All_less_Suc2 page_shift by simp
  ultimately show ?case using s'(2) pmm_frame_trans [OF s1(3) s'(3)] by blast
qed

lemma unmap_huge_page:
  assumes tree: "pt_tree lim L T s" and L: "L = unat (max_level s)" "2 \<le> L" "L \<le> 5" and pt: "pt_mem s pt = Some t"
    and root: "T (L - 1) 0 = Some (pt_entries t)" and x: "mmu_translate L s (pt_entries t) va = Some (1, x)"
  shows "\<exists>s'. (\<forall>sz. unmap_page pt va sz s = (if sz < 0x1FF then Inr (None, s) else Inr (Some (va + 0x200000, sz - 0x200), s')))
    \<and> pt_tree lim L T s' \<and> pmm_frame s s'
    \<and> (\<forall>va'. mmu_translate L s' (pt_entries t) va' = (if vkey L 0 va' = vkey L 0 va then None else mmu_translate L s (pt_entries t) va'))"
proof -
  have L0: "0 < L" "1 < L" using L(2) by simp_all
  have "T (L - 1) (vkey L (L - 1) va) = Some (pt_entries t)" using root vkey_top [OF L0(1)] by simp
  from walk_leaf [OF tree this] obtain b e where b: "T 1 (vkey L 1 va) = Some b"
    and e: "pt_ent (bytes s) (MEM_PHYS_OFFSET s) b (vpn 1 va) = Inr e" "is_leaf e"
    using x unfolding mmu_translate_def by blast
  have ne: "0 < (1 :: nat) \<Longrightarrow> \<not> is_ptr 0 \<and> T (1 - 1) (vkey L 1 va * 512 + vpn 1 va) = None"
    using tableE [OF tree b vpn_less] e by (metis is_leaf_def is_ptr_def and_zero_eq sum.inject(2) zero_and_eq)
  note st = store_entry [OF tree L0(1) root b ne, unfolded same_key_huge [OF L0(2)]]
  let ?s' = "s\<lparr>bytes := put64 (bytes s) (b + MEM_PHYS_OFFSET s + 8 * of_nat (vpn 1 va)) 0\<rparr>"
  have "\<forall>sz. unmap_page pt va sz s = (if sz < 0x1FF then Inr (None, s) else Inr (Some (va + 0x200000, sz - 0x200), ?s'))"
    using e(2) st(1) unfolding unmap_page_level1 [OF tree L pt root b e(1)] is_leaf_def by simp
  then show ?thesis using st(2-4) by (auto simp: is_leaf_def)
qed

lemma vmm_map_ok:
  assumes "pt_tree lim (unat (max_level s)) T s" and "2 \<le> unat (max_level s)" and "unat (max_level s) \<le> 5"
    and "pt_mem s pt = Some t" and "lock (pt_lk t) = 0" and "T (unat (max_level s) - 1) 0 = Some (pt_entries t)"
    and "unat n \<le> 2 ^ (9 * unat (max_level s))" and "spare s (unat n * (unat (max_level s) - 1))"
    and "\<forall>k<unat n. \<forall>l x. mmu_translate (unat (max_level s)) s (pt_entries t) (va + of_nat k * 0x1000) = Some (l, x) \<longrightarrow> l = 0"
    and "aligned pa" and "permissions AND (VMM_READ OR VMM_WRITE OR VMM_EXECUTE) \<noteq> 0"
  shows "\<exists>s' T' t'. vmm_map pt va pa n permissions s = Inr (True, s') \<and> pt_tree lim (unat (max_level s)) T' s'
    \<and> pt_mem s' = (pt_mem s)(pt \<mapsto> t') \<and> pt_entries t' = pt_entries t \<and> lock (pt_lk t') = 0
    \<and> T' (unat (max_level s) - 1) 0 = Some (pt_entries t) \<and> max_level s' = max_level s
    \<and> (\<forall>k<unat n. \<forall>va'. vpage (unat (max_level s)) va' = vpage (unat (max_level s)) (va + of_nat k * 0x1000) \<longrightarrow>
        mmu_translate (unat (max_level s)) s' (pt_entries t) va'
        = Some (0, pa + of_nat k * 0x1000, permissions AND VMM_FLAG_MASK OR VMM_PRESENT))
    \<and> (\<forall>va'. (\<forall>k<unat n. vpage (unat (max_level s)) va' \<noteq> vpage (unat (max_level s)) (va + of_nat k * 0x1000)) \<longrightarrow>
        mmu_translate (unat (max_level s)) s' (pt_entries t) va' = mmu_translate (unat (max_level s)) s (pt_entries t) va')"
proof -
  let ?L = "unat (max_level s)" and ?s0 = "pt_taken ''vmm_map_advanced'' 99 pt t s"
  let ?t0 = "t\<lparr>pt_lk := (pt_lk t)\<lparr>lock := 1, last_acquirer := acquirer_of (''vmm.c'', ''vmm_map_advanced'', 99) s\<rparr>\<rparr>"
  have te: "pt_entries ?t0 = pt_entries t" by simp
  have a: "pt_tree lim ?L T ?s0" "?L = unat (max_level ?s0)" "pt_mem ?s0 pt = Some ?t0" "T (?L - 1) 0 = Some (pt_entries ?t0)"
    using assms(1,6) by simp_all
  have low: "\<forall>k<unat n. \<forall>l x. mmu_translate ?L ?s0 (pt_entries ?t0) (va + of_nat k * 0x1000) = Some (l, x) \<longrightarrow> l = 0"
    unfolding te pt_taken_keeps by (rule assms(9))
  have sp: "spare ?s0 (unat n * (?L - 1) + 0)" using assms(8) by simp
  obtain s1 T1 where s1: "map_loop (unat n) pt va pa permissions False ?s0 = Inr (True, s1)" "pt_tree lim ?L T1 s1"
    "T1 (?L - 1) 0 = Some (pt_entries t)" "pmm_frame ?s0 s1"
    and new: "\<forall>k<unat n. \<forall>va'. vpage ?L va' = vpage ?L (va + of_nat k * 0x1000) \<longrightarrow> mmu_translate ?L s1 (pt_entries t) va'
        = Some (0, pa + of_nat k * 0x1000, permissions AND VMM_FLAG_MASK OR VMM_PRESENT)"
    and old: "\<forall>va'. (\<forall>k<unat n. vpage ?L va' \<noteq> vpage ?L (va + of_nat k * 0x1000)) \<longrightarrow>
        mmu_translate ?L s1 (pt_entries t) va' = mmu_translate ?L s (pt_entries t) va'"
    using map_loop_ok [OF a(1,2) assms(2,3) a(3,4) assms(7) low sp assms(10,11), unfolded te pt_taken_keeps(2)] by blast
  let ?s' = "(arch_cpu_decrement_preempt_counter s1)\<lparr>pt_mem := (pt_mem s1)(pt \<mapsto> ?t0\<lparr>pt_lk := (pt_lk ?t0)\<lparr>lock := 0\<rparr>\<rparr>)\<rparr>"
  have mem: "pt_mem s1 = (pt_mem s)(pt \<mapsto> ?t0)" and ml: "max_level s1 = max_level s"
    using vmm_more_eq [OF s1(4)] by (simp_all add: pt_taken_def)
  have "vmm_map pt va pa n permissions s = Inr (True, ?s')"
    using s1(1) pt_unlock_eq [of s1 pt ?t0] mem assms(4,5) by (simp add: vmm_map_def vmm_map_advanced_def pt_lock_eq)
  moreover have same: "pt_tree lim ?L T1 ?s' = pt_tree lim ?L T1 s1" "mmu_translate ?L ?s' r a = mmu_translate ?L s1 r a" for r a
    by (rule pt_tree_cong; simp)+
  ultimately show ?thesis using s1(2,3) new old mem ml
    by (intro exI [of _ ?s'] exI [of _ T1] exI [of _ "?t0\<lparr>pt_lk := (pt_lk ?t0)\<lparr>lock := 0\<rparr>\<rparr>"]) (simp add: same)
qed

text \<open>
  A machine with 16 frames, of which the root table has frame 1, and four levels of tables; all of
  memory is zero.
\<close>

definition demo_vmm :: kvmm where
  "demo_vmm = klists.extend (demo_lists\<lparr>bytes := \<lambda>_. Some 0\<rparr>)
     \<lparr>pt_mem = [0xFFFF80000000F000 \<mapsto> \<lparr>pt_entries = 0x1000, pt_lk = INIT_SPINLOCK\<rparr>], max_level = 4, satp = 0,
      KernelPageMap = NULL, VmmKernelBase = 0xFFFFFFFF80000000, VmmPhysicalKernelBase = 0x80200000, VmmKernelSize = 0x1000\<rparr>"

definition demo_tables :: tables where
  "demo_tables = (\<lambda>_ _. None)(3 := [0 \<mapsto> 0x1000])"

lemma demo_vmm_fields [simp]:
  "bytes demo_vmm = (\<lambda>_. Some 0)" "MEM_PHYS_OFFSET demo_vmm = 0xFFFF800000000000" "max_level demo_vmm = 4"
  "bitmap demo_vmm = demo_bitmap" "PmmLength demo_vmm = 16" "PmmLock demo_vmm = INIT_SPINLOCK"
  "pt_mem demo_vmm 0xFFFF80000000F000 = Some \<lparr>pt_entries = 0x1000, pt_lk = INIT_SPINLOCK\<rparr>"
  by (simp_all add: demo_vmm_def demo_lists_def klists.defs)

lemma demo_direct: "direct_ok 16 demo_vmm"
proof -
  have "a AND 0xFFFF800000000000 = 0" if "unat a < 65536" for a :: u64
  proof (rule bit_word_eqI)
    fix n assume "n < LENGTH(64)"
    have a: "\<not> bit a n" if "16 \<le> n"
    proof -
      have "(65536 :: nat) \<le> 2 ^ n" using power_increasing [OF that, of "2 :: nat"] by simp
      then have "unat a div 2 ^ n = 0" using \<open>unat a < 65536\<close> by simp
      then have "\<not> bit (unat a) n" by (simp add: bit_iff_odd)
      then show ?thesis by (simp add: bit_unsigned_iff)
    qed
    have "(0xFFFF800000000000 :: u64) = push_bit 47 0x1FFFF" by simp
    then have "\<not> bit (0xFFFF800000000000 :: u64) n" if "n < 47" using that by (simp only: bit_push_bit_iff) simp
    then show "bit (a AND 0xFFFF800000000000) n = bit (0 :: u64) n" using a by (cases "16 \<le> n") (auto simp: bit_and_iff)
  qed
  then show ?thesis by (simp add: direct_ok_def pmm_ok_def INIT_SPINLOCK_def demo_bits mapped_def)
qed

lemma demo_pt_tree: "pt_tree 16 4 demo_tables demo_vmm"
proof (rule pt_treeI [OF demo_direct])
  fix i k a assume "demo_tables i k = Some a"
  then show "i < 4 \<and> table_ok 16 demo_vmm a"
    by (auto simp: demo_tables_def table_ok_def frame_range_def in_use_def demo_bits PAGE_SIZE_def split: if_splits intro!: exI [of _ 1])
next
  fix i k a and j :: nat assume *: "demo_tables i k = Some a" "j < 512"
  have "ld64 (\<lambda>_. Some 0) x = Inr 0" for x by (rule ld64_zero) simp
  then show "\<exists>e. pt_ent (bytes demo_vmm) (MEM_PHYS_OFFSET demo_vmm) a j = Inr e \<and>
      (0 < i \<longrightarrow> demo_tables (i - 1) (k * 512 + j) = (if is_ptr e then Some (ptr_of e) else None))"
    using * by (auto simp: pt_ent_def is_ptr_def demo_tables_def split: if_splits)
qed (auto simp: demo_tables_def split: if_splits)

lemma demo_untranslated: "mmu_translate 4 demo_vmm a va = None"
proof -
  have "ld64 (\<lambda>_. Some 0) x = Inr 0" for x by (rule ld64_zero) simp
  then show ?thesis unfolding mmu_translate_def by (intro zero_walk) (simp add: pt_ent_def)
qed

lemma demo_spare: "spare demo_vmm 3"
proof -
  have "is_bitmap_page_free demo_bitmap 2 3" by (simp add: is_bitmap_page_free_def demo_bitmap_def test_bit_def)
  then show ?thesis by (auto simp: spare_def spacious_def intro!: exI [of _ 2])
qed

lemma demo_aligned: "aligned 0x5000"
  using aligned_next [OF aligned_next [OF aligned_next [OF aligned_next [OF aligned_next]]], of 0] by (simp add: aligned_def)

text \<open>A huge page in a tree of three levels: a table of level 1 is made for it, and its entry written.\<close>

lemma demo_huge:
  "\<exists>(s :: kvmm) T x. pt_tree 16 3 T s \<and> max_level s = 3 \<and> pt_mem s 0xFFFF80000000F000 = Some \<lparr>pt_entries = 0x1000, pt_lk = INIT_SPINLOCK\<rparr>
     \<and> T 2 0 = Some 0x1000 \<and> mmu_translate 3 s 0x1000 0 = Some (1, x)"
proof -
  let ?s = "demo_vmm\<lparr>max_level := 3\<rparr>" and ?T = "(\<lambda>_ _. None)(2 := [0 \<mapsto> 0x1000]) :: tables"
  have e0: "pt_ent (bytes ?s) (MEM_PHYS_OFFSET ?s) a j = Inr 0" for a j
    unfolding pt_ent_def by (rule ld64_zero) simp
  have dir: "direct_ok 16 ?s" using demo_direct by (simp add: direct_ok_def pmm_ok_def)
  have tree: "pt_tree 16 3 ?T ?s"
  proof (rule pt_treeI [OF dir])
    fix i k a assume "?T i k = Some a"
    then show "i < 3 \<and> table_ok 16 ?s a"
      by (auto simp: table_ok_def frame_range_def in_use_def demo_bits PAGE_SIZE_def split: if_splits intro!: exI [of _ 1])
  next
    fix i k a and j :: nat assume "?T i k = Some a" "j < 512"
    then show "\<exists>e. pt_ent (bytes ?s) (MEM_PHYS_OFFSET ?s) a j = Inr e \<and> (0 < i \<longrightarrow> ?T (i - 1) (k * 512 + j) = (if is_ptr e then Some (ptr_of e) else None))"
      unfolding e0 by (auto simp: is_ptr_def split: if_splits)
  qed (auto split: if_splits)
  have "spare ?s (Suc 2)" using demo_spare by (simp add: spare_def spacious_def)
  then obtain f s1 where al: "pmm_alloc 1 ?s = Inr (f, s1)" "f \<noteq> NULL" using dir unfolding direct_ok_def by (metis spare_alloc)
  define s2 where "s2 = s1\<lparr>bytes := put64 (bytes s1) (0x1000 + MEM_PHYS_OFFSET ?s + 8 * of_nat 0) (drop_bit 2 f OR VMM_PRESENT)\<rparr>"
  define T2 where "T2 = ?T(2 - 1 := (?T (2 - 1))(0 * 512 + 0 \<mapsto> f))"
  have r: "?T 2 0 = Some 0x1000" by simp
  note new = new_table(2,3) [OF tree r _ _ e0 _ al, of 0, folded s2_def T2_def]
  have t2: "pt_tree 16 3 T2 s2" and fr: "pmm_frame ?s s2" using new by simp_all
  have T2: "T2 (3 - 1) 0 = Some 0x1000" "T2 1 (vkey 3 1 0) = Some f" "T2 (1 - 1) (vkey 3 1 0 * 512 + vpn 1 0) = None"
    by (simp_all add: T2_def vkey_def vpn_def)
  have leaf: "is_leaf 0xF" "\<not> is_ptr 0xF" by (simp_all add: is_leaf_def is_ptr_def vmm_flags)
  define s3 where "s3 = s2\<lparr>bytes := put64 (bytes s2) (f + MEM_PHYS_OFFSET s2 + 8 * of_nat (vpn 1 0)) 0xF\<rparr>"
  note st = store_entry(2-4) [OF t2 _ T2(1,2), where e = "0xF", folded s3_def]
  have "pt_tree 16 3 T2 s3" "pmm_frame s2 s3" "mmu_translate 3 s3 0x1000 0 = Some (1, ptr_of 0xF, 0xF AND VMM_FLAG_MASK)"
    using st T2(3) leaf by simp_all
  moreover from this(2) fr have "pt_mem s3 = pt_mem ?s" "max_level s3 = 3" using vmm_more_eq(1,2) [of s2 s3] vmm_more_eq(1,2) [of ?s s2] by simp_all
  moreover have "T2 2 0 = Some 0x1000" using T2(1) by simp
  ultimately show ?thesis by (intro exI [of _ s3] exI [of _ T2]) auto
qed

section \<open>Properties\<close>

text \<open>
  Property C25. Mapping \<open>n\<close> pages of a page map whose tables form a tree, with as many free frames as
  the tables it may need, returns true and releases the lock; afterwards the memory management unit
  translates every address of the \<open>k\<close>-th page to the \<open>k\<close>-th frame with the given permissions, at every
  depth of the tables, and translates every other address exactly as before. A huge page in the way
  is excluded, because the code would take it for a table.
\<close>

theorem vmm_map_translates:
  assumes "pt_tree lim (unat (max_level s)) T s" and "2 \<le> unat (max_level s)" and "unat (max_level s) \<le> 5"
    and "pt_mem s pt = Some t" and "lock (pt_lk t) = 0" and "T (unat (max_level s) - 1) 0 = Some (pt_entries t)"
    and "unat n \<le> 2 ^ (9 * unat (max_level s))" and "spare s (unat n * (unat (max_level s) - 1))"
    and "\<forall>k<unat n. \<forall>l x. mmu_translate (unat (max_level s)) s (pt_entries t) (va + of_nat k * 0x1000) = Some (l, x) \<longrightarrow> l = 0"
    and "aligned pa" and "permissions AND (VMM_READ OR VMM_WRITE OR VMM_EXECUTE) \<noteq> 0"
  shows "\<exists>s' T' t'. vmm_map pt va pa n permissions s = Inr (True, s') \<and> pt_tree lim (unat (max_level s)) T' s'
    \<and> pt_mem s' = (pt_mem s)(pt \<mapsto> t') \<and> pt_entries t' = pt_entries t \<and> lock (pt_lk t') = 0
    \<and> T' (unat (max_level s) - 1) 0 = Some (pt_entries t) \<and> max_level s' = max_level s
    \<and> (\<forall>k<unat n. \<forall>va'. vpage (unat (max_level s)) va' = vpage (unat (max_level s)) (va + of_nat k * 0x1000) \<longrightarrow>
        mmu_translate (unat (max_level s)) s' (pt_entries t) va'
        = Some (0, pa + of_nat k * 0x1000, permissions AND VMM_FLAG_MASK OR VMM_PRESENT))
    \<and> (\<forall>va'. (\<forall>k<unat n. vpage (unat (max_level s)) va' \<noteq> vpage (unat (max_level s)) (va + of_nat k * 0x1000)) \<longrightarrow>
        mmu_translate (unat (max_level s)) s' (pt_entries t) va' = mmu_translate (unat (max_level s)) s (pt_entries t) va')"
  using assms by (rule vmm_map_ok)

theorem vmm_map_translates_witness:
  "\<exists>s'. vmm_map 0xFFFF80000000F000 0x400000 0x5000 1 VMM_READ demo_vmm = Inr (True, s')
     \<and> mmu_translate 4 s' 0x1000 0x400123 = Some (0, 0x5000, VMM_READ OR VMM_PRESENT) \<and> mmu_translate 4 s' 0x1000 0x401000 = None"
proof -
  from vmm_map_translates [of 16 demo_vmm demo_tables "0xFFFF80000000F000" _ 1 "0x400000" "0x5000" VMM_READ] demo_pt_tree demo_spare demo_aligned
  obtain s' where s': "vmm_map 0xFFFF80000000F000 0x400000 0x5000 1 VMM_READ demo_vmm = Inr (True, s')"
    "\<forall>va'. vpage 4 va' = vpage 4 0x400000 \<longrightarrow> mmu_translate 4 s' 0x1000 va' = Some (0, 0x5000, VMM_READ AND VMM_FLAG_MASK OR VMM_PRESENT)"
    "\<forall>va'. vpage 4 va' \<noteq> vpage 4 0x400000 \<longrightarrow> mmu_translate 4 s' 0x1000 va' = mmu_translate 4 demo_vmm 0x1000 va'"
    by (auto simp: demo_untranslated demo_tables_def INIT_SPINLOCK_def vmm_flags)
  then have "mmu_translate 4 s' 0x1000 0x400123 = Some (0, 0x5000, VMM_READ OR VMM_PRESENT)" "mmu_translate 4 s' 0x1000 0x401000 = None"
    by (simp_all add: vpage_def demo_untranslated vmm_flags)
  then show ?thesis using s'(1) by blast
qed

lemma vmm_unmap_ok:
  assumes "pt_tree lim (unat (max_level s)) T s" and "2 \<le> unat (max_level s)" and "unat (max_level s) \<le> 5"
    and "pt_mem s pt = Some t" and "lock (pt_lk t) = 0" and "T (unat (max_level s) - 1) 0 = Some (pt_entries t)"
    and "unat n \<le> 2 ^ (9 * unat (max_level s))"
    and "\<forall>k<unat n. \<exists>x. mmu_translate (unat (max_level s)) s (pt_entries t) (va + of_nat k * 0x1000) = Some (0, x)"
  shows "\<exists>s' t'. vmm_unmap pt va n s = Inr (True, s') \<and> pt_tree lim (unat (max_level s)) T s'
    \<and> pt_mem s' = (pt_mem s)(pt \<mapsto> t') \<and> pt_entries t' = pt_entries t \<and> lock (pt_lk t') = 0 \<and> max_level s' = max_level s
    \<and> (\<forall>k<unat n. \<forall>va'. vpage (unat (max_level s)) va' = vpage (unat (max_level s)) (va + of_nat k * 0x1000) \<longrightarrow>
        mmu_translate (unat (max_level s)) s' (pt_entries t) va' = None)
    \<and> (\<forall>va'. (\<forall>k<unat n. vpage (unat (max_level s)) va' \<noteq> vpage (unat (max_level s)) (va + of_nat k * 0x1000)) \<longrightarrow>
        mmu_translate (unat (max_level s)) s' (pt_entries t) va' = mmu_translate (unat (max_level s)) s (pt_entries t) va')"
proof -
  let ?L = "unat (max_level s)" and ?s0 = "pt_taken ''vmm_unmap'' 143 pt t s"
  let ?t0 = "t\<lparr>pt_lk := (pt_lk t)\<lparr>lock := 1, last_acquirer := acquirer_of (''vmm.c'', ''vmm_unmap'', 143) s\<rparr>\<rparr>"
  have te: "pt_entries ?t0 = pt_entries t" by simp
  have a: "pt_tree lim ?L T ?s0" "?L = unat (max_level ?s0)" "pt_mem ?s0 pt = Some ?t0" "T (?L - 1) 0 = Some (pt_entries ?t0)"
    using assms(1,6) by simp_all
  have low: "\<forall>k<unat n. \<exists>x. mmu_translate ?L ?s0 (pt_entries ?t0) (va + of_nat k * 0x1000) = Some (0, x)"
    unfolding te pt_taken_keeps by (rule assms(8))
  have nn: "of_nat (unat n) = n" by simp
  have n64: "unat n < 2 ^ 64" using unsigned_less [of n] by simp
  obtain s1 where s1: "unmap_loop pt va n ?s0 = Some (Inr (True, s1))" "pt_tree lim ?L T s1" "pmm_frame ?s0 s1"
    and new: "\<forall>k<unat n. \<forall>va'. vpage ?L va' = vpage ?L (va + of_nat k * 0x1000) \<longrightarrow> mmu_translate ?L s1 (pt_entries t) va' = None"
    and old: "\<forall>va'. (\<forall>k<unat n. vpage ?L va' \<noteq> vpage ?L (va + of_nat k * 0x1000)) \<longrightarrow>
        mmu_translate ?L s1 (pt_entries t) va' = mmu_translate ?L s (pt_entries t) va'"
    using unmap_loop_ok [OF a(1,2) assms(2,3) a(3,4) assms(7) n64 low, unfolded te pt_taken_keeps(2) nn] by blast
  let ?s' = "(arch_cpu_decrement_preempt_counter s1)\<lparr>pt_mem := (pt_mem s1)(pt \<mapsto> ?t0\<lparr>pt_lk := (pt_lk ?t0)\<lparr>lock := 0\<rparr>\<rparr>)\<rparr>"
  have mem: "pt_mem s1 = (pt_mem s)(pt \<mapsto> ?t0)" and ml: "max_level s1 = max_level s"
    using vmm_more_eq [OF s1(3)] by (simp_all add: pt_taken_def)
  have "vmm_unmap pt va n s = Inr (True, ?s')"
    using s1(1) pt_unlock_eq [of s1 pt ?t0] mem assms(4,5) by (simp add: vmm_unmap_def pt_lock_eq loop_res_def)
  moreover have same: "pt_tree lim ?L T ?s' = pt_tree lim ?L T s1" "mmu_translate ?L ?s' r a = mmu_translate ?L s1 r a" for r a
    by (rule pt_tree_cong; simp)+
  ultimately show ?thesis using s1(2) new old mem ml
    by (intro exI [of _ ?s'] exI [of _ "?t0\<lparr>pt_lk := (pt_lk ?t0)\<lparr>lock := 0\<rparr>\<rparr>"]) (simp add: same)
qed

text \<open>
  Property C26. Removing \<open>n\<close> pages that are mapped one by one ends, returns true and releases the lock;
  afterwards none of the pages is translated and every other address is translated as before.
\<close>

theorem vmm_unmap_clears:
  assumes "pt_tree lim (unat (max_level s)) T s" and "2 \<le> unat (max_level s)" and "unat (max_level s) \<le> 5"
    and "pt_mem s pt = Some t" and "lock (pt_lk t) = 0" and "T (unat (max_level s) - 1) 0 = Some (pt_entries t)"
    and "unat n \<le> 2 ^ (9 * unat (max_level s))"
    and "\<forall>k<unat n. \<exists>x. mmu_translate (unat (max_level s)) s (pt_entries t) (va + of_nat k * 0x1000) = Some (0, x)"
  shows "\<exists>s' t'. vmm_unmap pt va n s = Inr (True, s') \<and> pt_tree lim (unat (max_level s)) T s'
    \<and> pt_mem s' = (pt_mem s)(pt \<mapsto> t') \<and> pt_entries t' = pt_entries t \<and> lock (pt_lk t') = 0 \<and> max_level s' = max_level s
    \<and> (\<forall>k<unat n. \<forall>va'. vpage (unat (max_level s)) va' = vpage (unat (max_level s)) (va + of_nat k * 0x1000) \<longrightarrow>
        mmu_translate (unat (max_level s)) s' (pt_entries t) va' = None)
    \<and> (\<forall>va'. (\<forall>k<unat n. vpage (unat (max_level s)) va' \<noteq> vpage (unat (max_level s)) (va + of_nat k * 0x1000)) \<longrightarrow>
        mmu_translate (unat (max_level s)) s' (pt_entries t) va' = mmu_translate (unat (max_level s)) s (pt_entries t) va')"
  using assms by (rule vmm_unmap_ok)

theorem vmm_unmap_clears_witness:
  "\<exists>s s'. vmm_map 0xFFFF80000000F000 0x400000 0x5000 1 VMM_READ demo_vmm = Inr (True, s)
     \<and> vmm_unmap 0xFFFF80000000F000 0x400000 1 s = Inr (True, s') \<and> mmu_translate 4 s 0x1000 0x400000 \<noteq> None
     \<and> (\<forall>va. mmu_translate 4 s' 0x1000 va = mmu_translate 4 demo_vmm 0x1000 va)"
proof -
  from vmm_map_ok [of 16 demo_vmm demo_tables "0xFFFF80000000F000" _ 1 "0x400000" "0x5000" VMM_READ] demo_pt_tree demo_spare demo_aligned
  obtain s T t where s: "vmm_map 0xFFFF80000000F000 0x400000 0x5000 1 VMM_READ demo_vmm = Inr (True, s)" "pt_tree 16 4 T s"
    "pt_mem s 0xFFFF80000000F000 = Some t" "pt_entries t = 0x1000" "lock (pt_lk t) = 0" "T 3 0 = Some 0x1000" "max_level s = 4"
    "\<forall>va'. vpage 4 va' = vpage 4 0x400000 \<longrightarrow> mmu_translate 4 s 0x1000 va' = Some (0, 0x5000, VMM_READ AND VMM_FLAG_MASK OR VMM_PRESENT)"
    "\<forall>va'. vpage 4 va' \<noteq> vpage 4 0x400000 \<longrightarrow> mmu_translate 4 s 0x1000 va' = mmu_translate 4 demo_vmm 0x1000 va'"
    by (auto simp: demo_untranslated demo_tables_def INIT_SPINLOCK_def vmm_flags)
  from vmm_unmap_clears [of 16 s T "0xFFFF80000000F000" t 1 "0x400000"] s
  obtain s' where s': "vmm_unmap 0xFFFF80000000F000 0x400000 1 s = Inr (True, s')"
    "\<forall>va'. vpage 4 va' = vpage 4 0x400000 \<longrightarrow> mmu_translate 4 s' 0x1000 va' = None"
    "\<forall>va'. vpage 4 va' \<noteq> vpage 4 0x400000 \<longrightarrow> mmu_translate 4 s' 0x1000 va' = mmu_translate 4 s 0x1000 va'"
    by auto
  have "mmu_translate 4 s' 0x1000 va = mmu_translate 4 demo_vmm 0x1000 va" for va
    using s'(2,3) s(9) by (cases "vpage 4 va = vpage 4 0x400000") (simp_all add: demo_untranslated)
  then show ?thesis using s(1,8) s'(1) by auto
qed

text \<open>
  Mapping pages that were not translated and unmapping them again restores the translation of every
  address; both calls return true and release the lock.
\<close>

theorem vmm_map_unmap_restores:
  assumes "pt_tree lim (unat (max_level s)) T s" and "2 \<le> unat (max_level s)" and "unat (max_level s) \<le> 5"
    and "pt_mem s pt = Some t" and "lock (pt_lk t) = 0" and "T (unat (max_level s) - 1) 0 = Some (pt_entries t)"
    and "unat n \<le> 2 ^ (9 * unat (max_level s))" and "spare s (unat n * (unat (max_level s) - 1))"
    and none: "\<forall>k<unat n. \<forall>va'. vpage (unat (max_level s)) va' = vpage (unat (max_level s)) (va + of_nat k * 0x1000) \<longrightarrow>
      mmu_translate (unat (max_level s)) s (pt_entries t) va' = None"
    and "aligned pa" and "permissions AND (VMM_READ OR VMM_WRITE OR VMM_EXECUTE) \<noteq> 0"
  shows "\<exists>s1 s2 t'. vmm_map pt va pa n permissions s = Inr (True, s1) \<and> vmm_unmap pt va n s1 = Inr (True, s2)
    \<and> (\<forall>va'. mmu_translate (unat (max_level s)) s2 (pt_entries t) va' = mmu_translate (unat (max_level s)) s (pt_entries t) va')
    \<and> pt_mem s2 = (pt_mem s)(pt \<mapsto> t') \<and> pt_entries t' = pt_entries t \<and> lock (pt_lk t') = 0"
proof -
  let ?L = "unat (max_level s)" and ?r = "pt_entries t"
  have low: "\<forall>k<unat n. \<forall>l x. mmu_translate ?L s ?r (va + of_nat k * 0x1000) = Some (l, x) \<longrightarrow> l = 0" using none by simp
  obtain s1 T1 t1 where m: "vmm_map pt va pa n permissions s = Inr (True, s1)" "pt_tree lim ?L T1 s1" "pt_mem s1 = (pt_mem s)(pt \<mapsto> t1)"
    "pt_entries t1 = ?r" "lock (pt_lk t1) = 0" "T1 (?L - 1) 0 = Some ?r" "max_level s1 = max_level s"
    and new: "\<forall>k<unat n. \<forall>va'. vpage ?L va' = vpage ?L (va + of_nat k * 0x1000) \<longrightarrow>
      mmu_translate ?L s1 ?r va' = Some (0, pa + of_nat k * 0x1000, permissions AND VMM_FLAG_MASK OR VMM_PRESENT)"
    and old: "\<forall>va'. (\<forall>k<unat n. vpage ?L va' \<noteq> vpage ?L (va + of_nat k * 0x1000)) \<longrightarrow> mmu_translate ?L s1 ?r va' = mmu_translate ?L s ?r va'"
    using vmm_map_ok [OF assms(1-8) low assms(10,11)] by auto
  have low1: "\<forall>k<unat n. \<exists>x. mmu_translate ?L s1 ?r (va + of_nat k * 0x1000) = Some (0, x)" using new by blast
  have a1: "pt_mem s1 pt = Some t1" using m(3) by simp
  obtain s2 t2 where u: "vmm_unmap pt va n s1 = Inr (True, s2)" "pt_mem s2 = (pt_mem s1)(pt \<mapsto> t2)" "pt_entries t2 = ?r" "lock (pt_lk t2) = 0"
    and new2: "\<forall>k<unat n. \<forall>va'. vpage ?L va' = vpage ?L (va + of_nat k * 0x1000) \<longrightarrow> mmu_translate ?L s2 ?r va' = None"
    and old2: "\<forall>va'. (\<forall>k<unat n. vpage ?L va' \<noteq> vpage ?L (va + of_nat k * 0x1000)) \<longrightarrow> mmu_translate ?L s2 ?r va' = mmu_translate ?L s1 ?r va'"
    using vmm_unmap_ok [of lim s1 T1 pt t1 n va, unfolded m(4,7), OF m(2) assms(2,3) a1 m(5,6) assms(7) low1] by blast
  have "mmu_translate ?L s2 ?r va' = mmu_translate ?L s ?r va'" for va'
    using new2 old2 old none by (cases "\<exists>k<unat n. vpage ?L va' = vpage ?L (va + of_nat k * 0x1000)") (metis, metis)
  moreover have "pt_mem s2 = (pt_mem s)(pt \<mapsto> t2)" using u(2) m(3) by simp
  ultimately show ?thesis using m(1) u(1,3,4) by blast
qed

text \<open>
  For a huge page, of 512 pages, the count of the loop is off by one: a count below 512 is
  refused and changes nothing, 513 removes exactly the huge page and returns true, but with 512, the
  count a caller means, the page is removed and the loop goes on behind it for \<open>2 ^ 64 - 1\<close> pages.
\<close>

theorem vmm_unmap_huge_underflow:
  assumes "pt_tree lim L T s" and "L = unat (max_level s)" and "2 \<le> L" and "L \<le> 5" and "pt_mem s pt = Some t"
    and "T (L - 1) 0 = Some (pt_entries t)" and "mmu_translate L s (pt_entries t) va = Some (1, x)"
  shows "\<exists>s'. pt_tree lim L T s' \<and> pmm_frame s s'
    \<and> (\<forall>va'. mmu_translate L s' (pt_entries t) va' = (if vkey L 0 va' = vkey L 0 va then None else mmu_translate L s (pt_entries t) va'))
    \<and> (\<forall>n. n \<noteq> 0 \<and> n < 0x200 \<longrightarrow> unmap_loop pt va n s = Some (Inr (False, s)))
    \<and> unmap_loop pt va 0x201 s = Some (Inr (True, s'))
    \<and> unmap_loop pt va 0x200 s = unmap_loop pt (va + 0x200000) (- 1) s'"
proof -
  from unmap_huge_page [OF assms] obtain s' where
    s': "\<And>sz. unmap_page pt va sz s = (if sz < 0x1FF then Inr (None, s) else Inr (Some (va + 0x200000, sz - 0x200), s'))"
    "pt_tree lim L T s'" "pmm_frame s s'"
    "\<forall>va'. mmu_translate L s' (pt_entries t) va' = (if vkey L 0 va' = vkey L 0 va then None else mmu_translate L s (pt_entries t) va')"
    by blast
  have "unmap_loop pt va n s = Some (Inr (False, s))" if "n \<noteq> 0" "n < 0x200" for n
  proof -
    have "unat n \<noteq> 0" "unat n < 0x200" using that by (simp_all add: word_less_nat_alt unat_eq_0)
    then have "n - 1 < 0x1FF" by (simp add: word_less_nat_alt unat_diff_u64 word_le_nat_alt)
    then show ?thesis using that by (subst unmap_loop.simps) (simp add: s'(1))
  qed
  moreover have "unmap_loop pt va 0x201 s = Some (Inr (True, s'))"
    by (subst unmap_loop.simps) (simp add: s'(1) unmap_loop.simps [of _ _ 0])
  moreover have "unmap_loop pt va 0x200 s = unmap_loop pt (va + 0x200000) (- 1) s'"
    by (subst unmap_loop.simps) (simp add: s'(1))
  ultimately show ?thesis using s'(2-4) by blast
qed

theorem vmm_unmap_huge_underflow_witness:
  "\<exists>(s :: kvmm) s'. mmu_translate 3 s 0x1000 0 \<noteq> None \<and> mmu_translate 3 s' 0x1000 0 = None
     \<and> unmap_loop 0xFFFF80000000F000 0 0x200 s = unmap_loop 0xFFFF80000000F000 0x200000 (- 1) s'"
proof -
  obtain s :: kvmm and T x where s: "pt_tree 16 3 T s" "max_level s = 3"
    "pt_mem s 0xFFFF80000000F000 = Some \<lparr>pt_entries = 0x1000, pt_lk = INIT_SPINLOCK\<rparr>"
    "T 2 0 = Some 0x1000" "mmu_translate 3 s 0x1000 0 = Some (1, x)"
    using demo_huge by blast
  have a: "3 = unat (max_level s)" "T (3 - 1) 0 = Some (pt_entries \<lparr>pt_entries = 0x1000, pt_lk = INIT_SPINLOCK\<rparr>)"
    "mmu_translate 3 s (pt_entries \<lparr>pt_entries = 0x1000, pt_lk = INIT_SPINLOCK\<rparr>) 0 = Some (1, x)" using s by simp_all
  obtain s' where s': "\<forall>va'. mmu_translate 3 s' (pt_entries \<lparr>pt_entries = 0x1000, pt_lk = INIT_SPINLOCK\<rparr>) va'
      = (if vkey 3 0 va' = vkey 3 0 0 then None else mmu_translate 3 s (pt_entries \<lparr>pt_entries = 0x1000, pt_lk = INIT_SPINLOCK\<rparr>) va')"
    "unmap_loop 0xFFFF80000000F000 0 0x200 s = unmap_loop 0xFFFF80000000F000 (0 + 0x200000) (- 1) s'"
    using vmm_unmap_huge_underflow [OF s(1) a(1) _ _ s(3) a(2,3)] by auto
  then have "mmu_translate 3 s' 0x1000 0 = None" by simp
  then show ?thesis using s(5) s'(2) by (intro exI [of _ s] exI [of _ s']) simp
qed

end
