(* ===== verification/Fpu.thy ===== *)
theory Fpu
  imports Vmm
begin

text \<open>
  The registers of the floating-point unit: the assembly routines of \<open>kernel/arch/riscv64/fpu_state.S\<close>,
  which save them to memory and load them again, and their callers in \<open>kernel/arch/riscv64/cpu.c\<close>. The
  routines are two macros, each expanded for double and for single precision; the width of a register
  in bytes is an argument here. They set bit 13 of \<open>sstatus\<close> first, which switches the unit on.
\<close>

section \<open>Registers\<close>

record kfpu = kvmm +
  fregs :: "nat \<Rightarrow> u64"
  fcsr :: u32

definition RISCV_FEATURE_DOUBLE_FP :: u32 where
  "RISCV_FEATURE_DOUBLE_FP = push_bit 3 1"

definition RISCV_FEATURE_SINGLE_FP :: u32 where
  "RISCV_FEATURE_SINGLE_FP = push_bit 5 1"

definition fpu_on :: "'a kfpu_scheme \<Rightarrow> 'a kfpu_scheme" where
  "fpu_on s = s\<lparr>sstatus := sstatus s OR push_bit 13 1\<rparr>"

section \<open>Saving\<close>

text \<open>\<open>fsd\<close> and \<open>fsw\<close> of the registers in a list, to consecutive places from \<open>a\<close> on, and then \<open>sw\<close> of the control register.\<close>

fun save_regs :: "nat \<Rightarrow> addr \<Rightarrow> (nat \<Rightarrow> u64) \<Rightarrow> nat list \<Rightarrow> mem \<Rightarrow> mem res" where
  "save_regs w a f [] m = Inr m"
| "save_regs w a f (i # is) m = bnd (st_bytes m (a + of_nat (i * w)) (to_bytes w (f i))) (save_regs w a f is)"

definition save_fpu :: "nat \<Rightarrow> addr \<Rightarrow> 'a kfpu_scheme \<Rightarrow> 'a kfpu_scheme res" where
  "save_fpu w a s =
     (let s = fpu_on s in
      bnd (save_regs w a (fregs s) [0..<32] (bytes s)) (\<lambda>m.
      bnd (st_bytes m (a + of_nat (32 * w)) (to_bytes 4 (ucast (fcsr s)))) (\<lambda>m.
      Inr (s\<lparr>bytes := m\<rparr>))))"

definition riscv_save_fpu_double :: "addr \<Rightarrow> 'a kfpu_scheme \<Rightarrow> 'a kfpu_scheme res" where
  "riscv_save_fpu_double = save_fpu 8"

definition riscv_save_fpu_single :: "addr \<Rightarrow> 'a kfpu_scheme \<Rightarrow> 'a kfpu_scheme res" where
  "riscv_save_fpu_single = save_fpu 4"

section \<open>Loading\<close>

text \<open>
  \<open>fld\<close> fills a register, \<open>flw\<close> its lower half and sets the upper one. The control register is loaded
  with \<open>ld\<close>, eight bytes although four were saved; it keeps the lowest eight bits of them.
\<close>

definition boxed :: "nat \<Rightarrow> u64 \<Rightarrow> u64" where
  "boxed w v = (if w = 4 then v OR push_bit 32 (mask 32) else v)"

fun load_regs :: "nat \<Rightarrow> addr \<Rightarrow> mem \<Rightarrow> nat list \<Rightarrow> (nat \<Rightarrow> u64) \<Rightarrow> (nat \<Rightarrow> u64) res" where
  "load_regs w a m [] f = Inr f"
| "load_regs w a m (i # is) f =
     bnd (ld_bytes m (a + of_nat (i * w)) w) (\<lambda>bs. load_regs w a m is (f(i := boxed w (of_bytes bs))))"

definition restore_fpu :: "nat \<Rightarrow> addr \<Rightarrow> 'a kfpu_scheme \<Rightarrow> 'a kfpu_scheme res" where
  "restore_fpu w a s =
     (let s = fpu_on s in
      bnd (load_regs w a (bytes s) [0..<32] (fregs s)) (\<lambda>f.
      bnd (ld64 (bytes s) (a + of_nat (32 * w))) (\<lambda>c.
      Inr (s\<lparr>fregs := f, fcsr := ucast c AND 0xFF\<rparr>))))"

definition riscv_restore_fpu_double :: "addr \<Rightarrow> 'a kfpu_scheme \<Rightarrow> 'a kfpu_scheme res" where
  "riscv_restore_fpu_double = restore_fpu 8"

definition riscv_restore_fpu_single :: "addr \<Rightarrow> 'a kfpu_scheme \<Rightarrow> 'a kfpu_scheme res" where
  "riscv_restore_fpu_single = restore_fpu 4"

section \<open>The callers\<close>

definition arch_cpu_save_fpu_state :: "addr \<Rightarrow> 'a kfpu_scheme \<Rightarrow> 'a kfpu_scheme res" where
  "arch_cpu_save_fpu_state st s =
     (if isaFeatures (get_cpu_struct s) AND RISCV_FEATURE_DOUBLE_FP \<noteq> 0 then riscv_save_fpu_double st s
      else if isaFeatures (get_cpu_struct s) AND RISCV_FEATURE_SINGLE_FP \<noteq> 0 then riscv_save_fpu_single st s
      else Inr s)"

definition arch_cpu_restore_fpu_state :: "addr \<Rightarrow> 'a kfpu_scheme \<Rightarrow> 'a kfpu_scheme res" where
  "arch_cpu_restore_fpu_state st s =
     (if isaFeatures (get_cpu_struct s) AND RISCV_FEATURE_DOUBLE_FP \<noteq> 0 then riscv_restore_fpu_double st s
      else if isaFeatures (get_cpu_struct s) AND RISCV_FEATURE_SINGLE_FP \<noteq> 0 then riscv_restore_fpu_single st s
      else Inr s)"

definition arch_cpu_set_fpu_default_state :: "addr \<Rightarrow> 'a kfpu_scheme \<Rightarrow> 'a kfpu_scheme" where
  "arch_cpu_set_fpu_default_state st s = s"

section \<open>Lemmas\<close>

text \<open>The memory after a run of bytes was stored.\<close>

definition patched :: "mem \<Rightarrow> addr \<Rightarrow> u8 list \<Rightarrow> mem" where
  "patched m a bs = (\<lambda>x. if in_span a (length bs) x then Some (bs ! unat (x - a)) else m x)"

lemma st_patched: "mapped m a (length bs) \<Longrightarrow> length bs < 2 ^ 64 \<Longrightarrow> st_bytes m a bs = Inr (patched m a bs)"
  using st_bytes_eq [of bs m a] by (simp add: patched_def)

lemma patched_mapped: "mapped m p n \<Longrightarrow> mapped (patched m a bs) p n"
  by (simp add: mapped_def patched_def)

lemma patched_at: "length bs < 2 ^ 64 \<Longrightarrow> bytes_at (patched m a bs) a bs"
  by (simp add: bytes_at_nth patched_def in_span_def unat_of_nat_u64)

lemma st_bytes_append: "st_bytes m a (xs @ ys) = bnd (st_bytes m a xs) (\<lambda>m. st_bytes m (a + of_nat (length xs)) ys)"
proof (induction xs arbitrary: m a)
  case (Cons x xs)
  then show ?case by (cases "st8 m a x") (simp_all add: algebra_simps)
qed simp

lemma ld_bytes_mapped: "mapped m a n \<Longrightarrow> \<exists>bs. ld_bytes m a n = Inr bs \<and> length bs = n \<and> bytes_at m a bs"
proof (induction n arbitrary: a)
  case (Suc n)
  obtain b where b: "m a = Some b" and mp: "mapped m (a + 1) n" using Suc.prems by (auto simp: mapped_Suc)
  obtain bs where "ld_bytes m (a + 1) n = Inr bs" "length bs = n" "bytes_at m (a + 1) bs" using Suc.IH [OF mp] by blast
  then show ?case by (intro exI [of _ "b # bs"]) (simp add: b ld8_def)
qed simp

text \<open>The registers as the bytes of an area: first the registers, then the control register.\<close>

definition regs_image :: "nat \<Rightarrow> (nat \<Rightarrow> u64) \<Rightarrow> nat list \<Rightarrow> u8 list" where
  "regs_image w f is = concat (map (\<lambda>i. to_bytes w (f i)) is)"

definition fpu_image :: "nat \<Rightarrow> (nat \<Rightarrow> u64) \<Rightarrow> u32 \<Rightarrow> u8 list" where
  "fpu_image w f c = regs_image w f [0..<32] @ to_bytes 4 (ucast c)"

lemma length_regs_image [simp]: "length (regs_image w f is) = w * length is"
  by (induction "is") (simp_all add: regs_image_def algebra_simps)

lemma length_fpu_image [simp]: "length (fpu_image w f c) = 32 * w + 4"
  by (simp add: fpu_image_def)

lemma save_regs_eq: "save_regs w a f [i..<i + k] m = st_bytes m (a + of_nat (i * w)) (regs_image w f [i..<i + k])"
proof (induction k arbitrary: i m)
  case (Suc k)
  have "[i..<i + Suc k] = i # [Suc i..<Suc i + k]" by (simp add: upt_conv_Cons)
  then show ?case using Suc.IH [of "Suc i"]
    by (cases "st_bytes m (a + of_nat (i * w)) (to_bytes w (f i))") (simp_all add: regs_image_def st_bytes_append algebra_simps)
qed (simp add: regs_image_def)

lemma save_fpu_eq:
  assumes "mapped (bytes s) a (32 * w + 4)" and "w \<le> 8"
  shows "save_fpu w a s = Inr ((fpu_on s)\<lparr>bytes := patched (bytes s) a (fpu_image w (fregs s) (fcsr s))\<rparr>)"
proof -
  have "st_bytes (bytes s) a (fpu_image w (fregs s) (fcsr s)) = Inr (patched (bytes s) a (fpu_image w (fregs s) (fcsr s)))"
    using assms by (intro st_patched) simp_all
  then show ?thesis using save_regs_eq [of w a "fregs s" 0 32 "bytes s"]
    by (cases "st_bytes (bytes s) a (regs_image w (fregs s) [0..<32])")
      (simp_all add: save_fpu_def fpu_on_def fpu_image_def st_bytes_append Let_def mult.commute)
qed

lemma load_regs_ok:
  assumes "w = 4 \<or> w = 8" and "mapped m (a + of_nat (i * w)) (k * w)"
  shows "\<exists>f'. load_regs w a m [i..<i + k] f = Inr f' \<and> (w = 8 \<longrightarrow> bytes_at m (a + of_nat (i * w)) (regs_image w f' [i..<i + k]))
    \<and> (\<forall>j. j \<notin> {i..<i + k} \<longrightarrow> f' j = f j)"
  using assms(2)
proof (induction k arbitrary: i f)
  case (Suc k)
  have up: "[i..<i + Suc k] = i # [Suc i..<Suc i + k]" by (simp add: upt_conv_Cons)
  have "mapped m (a + of_nat (i * w)) w" using mapped_sub [OF Suc.prems, of 0 w] by simp
  then obtain bs where bs: "ld_bytes m (a + of_nat (i * w)) w = Inr bs" "length bs = w" "bytes_at m (a + of_nat (i * w)) bs"
    using ld_bytes_mapped by blast
  have "mapped m (a + of_nat (i * w) + of_nat w) (k * w)" by (rule mapped_sub [OF Suc.prems]) simp
  then have "mapped m (a + of_nat (Suc i * w)) (k * w)" by (simp add: algebra_simps)
  from Suc.IH [OF this, of "f(i := boxed w (of_bytes bs))"] obtain f'
    where f': "load_regs w a m [Suc i..<Suc i + k] (f(i := boxed w (of_bytes bs))) = Inr f'"
      "w = 8 \<longrightarrow> bytes_at m (a + of_nat (Suc i * w)) (regs_image w f' [Suc i..<Suc i + k])"
      "\<forall>j. j \<notin> {Suc i..<Suc i + k} \<longrightarrow> f' j = (f(i := boxed w (of_bytes bs))) j" by blast
  have "w = 8 \<Longrightarrow> to_bytes w (f' i) = bs" using f'(3) bs(2) to_bytes_of_bytes [of bs] by (simp add: boxed_def)
  then have "w = 8 \<longrightarrow> bytes_at m (a + of_nat (i * w)) (regs_image w f' [i..<i + Suc k])"
    using f'(2) bs(2,3) unfolding up by (auto simp: regs_image_def bytes_at_append algebra_simps simp del: to_bytes.simps)
  then show ?case using f'(1,3) bs(1) unfolding up by (intro exI [of _ f']) auto
qed (simp add: regs_image_def)

lemma restore_fpu_ok:
  assumes "mapped (bytes s) a (32 * w + 8)" and "w = 4 \<or> w = 8"
  shows "\<exists>f v. restore_fpu w a s = Inr ((fpu_on s)\<lparr>fregs := f, fcsr := ucast v AND 0xFF\<rparr>)
    \<and> ld64 (bytes s) (a + of_nat (32 * w)) = Inr v \<and> (w = 8 \<longrightarrow> bytes_at (bytes s) a (regs_image w f [0..<32]))"
proof -
  have "mapped (bytes s) (a + of_nat (0 * w)) (32 * w)" using mapped_sub [OF assms(1), of 0 "32 * w"] by simp
  from load_regs_ok [OF assms(2) this, of "fregs s"] obtain f
    where f: "load_regs w a (bytes s) [0..<32] (fregs s) = Inr f" "w = 8 \<longrightarrow> bytes_at (bytes s) a (regs_image w f [0..<32])" by auto
  have "mapped (bytes s) (a + of_nat (32 * w)) 8" by (rule mapped_sub [OF assms(1)]) simp
  then obtain bs where "ld_bytes (bytes s) (a + of_nat (32 * w)) 8 = Inr bs" using ld_bytes_mapped by blast
  then have "ld64 (bytes s) (a + of_nat (32 * w)) = Inr (of_bytes bs)" by (simp add: ld64_def)
  then show ?thesis using f by (intro exI [of _ f] exI [of _ "of_bytes bs"]) (simp add: restore_fpu_def fpu_on_def Let_def)
qed

text \<open>
  What the callers do on a hart: the width of its registers, 0 without a unit, the status register
  and the memory after saving. The area has 264 bytes, as the load of the control register needs.
\<close>

definition fpu_width :: "cpu_t \<Rightarrow> nat" where
  "fpu_width c = (if isaFeatures c AND RISCV_FEATURE_DOUBLE_FP \<noteq> 0 then 8
     else if isaFeatures c AND RISCV_FEATURE_SINGLE_FP \<noteq> 0 then 4 else 0)"

definition fpu_status :: "'a hart_scheme \<Rightarrow> u64" where
  "fpu_status s = (if fpu_width (cpu_struct s) = 0 then sstatus s else sstatus s OR push_bit 13 1)"

definition saved_bytes :: "addr \<Rightarrow> 'a kfpu_scheme \<Rightarrow> mem" where
  "saved_bytes a s = (if fpu_width (cpu_struct s) = 0 then bytes s
     else patched (bytes s) a (fpu_image (fpu_width (cpu_struct s)) (fregs s) (fcsr s)))"

lemma saved_mapped: "mapped (bytes s) p n \<Longrightarrow> mapped (saved_bytes a s) p n"
  by (simp add: saved_bytes_def patched_mapped)

lemma save_state_eq:
  assumes "mapped (bytes s) a 264"
  shows "arch_cpu_save_fpu_state a s = Inr (s\<lparr>sstatus := fpu_status s, bytes := saved_bytes a s\<rparr>)"
proof -
  have "mapped (bytes s) a (32 * 4 + 4)" "mapped (bytes s) a (32 * 8 + 4)"
    using mapped_sub [OF assms, of 0 "32 * 4 + 4"] mapped_sub [OF assms, of 0 "32 * 8 + 4"] by simp_all
  then show ?thesis
    by (auto simp: arch_cpu_save_fpu_state_def get_cpu_struct_def fpu_status_def saved_bytes_def fpu_width_def
        riscv_save_fpu_double_def riscv_save_fpu_single_def save_fpu_eq fpu_on_def)
qed

lemma restore_state_ok:
  assumes "mapped (bytes s) a 264"
  shows "\<exists>f c. arch_cpu_restore_fpu_state a s = Inr (s\<lparr>sstatus := fpu_status s, fregs := f, fcsr := c\<rparr>)
    \<and> (fpu_width (cpu_struct s) = 8 \<longrightarrow> bytes_at (bytes s) a (regs_image 8 f [0..<32]))"
proof -
  have m: "mapped (bytes s) a (32 * 4 + 8)" "mapped (bytes s) a (32 * 8 + 8)"
    using mapped_sub [OF assms, of 0 "32 * 4 + 8"] assms by simp_all
  obtain f and v :: u64 where f: "restore_fpu 8 a s = Inr ((fpu_on s)\<lparr>fregs := f, fcsr := ucast v AND 0xFF\<rparr>)" "bytes_at (bytes s) a (regs_image 8 f [0..<32])"
    using restore_fpu_ok [OF m(2), simplified] by blast
  obtain g and u :: u64 where g: "restore_fpu 4 a s = Inr ((fpu_on s)\<lparr>fregs := g, fcsr := ucast u AND 0xFF\<rparr>)"
    using restore_fpu_ok [OF m(1), simplified] by blast
  consider (d) "fpu_width (cpu_struct s) = 8" | (f) "fpu_width (cpu_struct s) = 4" | (n) "fpu_width (cpu_struct s) = 0"
    unfolding fpu_width_def by metis
  then show ?thesis
  proof cases
    case d
    then show ?thesis using f by (intro exI [of _ f] exI [of _ "ucast v AND 0xFF"])
      (auto simp: arch_cpu_restore_fpu_state_def get_cpu_struct_def fpu_status_def fpu_width_def riscv_restore_fpu_double_def fpu_on_def split: if_splits)
  next
    case f
    then show ?thesis using g by (intro exI [of _ g] exI [of _ "ucast u AND 0xFF"])
      (auto simp: arch_cpu_restore_fpu_state_def get_cpu_struct_def fpu_status_def fpu_width_def riscv_restore_fpu_single_def fpu_on_def split: if_splits)
  next
    case n
    then show ?thesis by (intro exI [of _ "fregs s"] exI [of _ "fcsr s"])
      (auto simp: arch_cpu_restore_fpu_state_def get_cpu_struct_def fpu_status_def fpu_width_def split: if_splits)
  qed
qed

lemma regs_image_inj:
  assumes "regs_image 8 f [i..<i + k] = regs_image 8 g [i..<i + k]"
  shows "\<forall>j\<in>{i..<i + k}. f j = g j"
  using assms
proof (induction k arbitrary: i)
  case (Suc k)
  have up: "[i..<i + Suc k] = i # [Suc i..<Suc i + k]" by (simp add: upt_conv_Cons)
  have "to_bytes 8 (f i) @ regs_image 8 f [Suc i..<Suc i + k] = to_bytes 8 (g i) @ regs_image 8 g [Suc i..<Suc i + k]"
    using Suc.prems unfolding up regs_image_def by (simp only: list.map concat.simps)
  then have eq: "to_bytes 8 (f i) = to_bytes 8 (g i)" "regs_image 8 f [Suc i..<Suc i + k] = regs_image 8 g [Suc i..<Suc i + k]"
    by (metis append_eq_append_conv length_to_bytes)+
  have "f i = g i" using eq(1) of_bytes_to_bytes by metis
  moreover have "\<forall>j\<in>{Suc i..<Suc i + k}. f j = g j" using eq(2) by (rule Suc.IH)
  moreover have "{i..<i + Suc k} = insert i {Suc i..<Suc i + k}" by auto
  ultimately show ?case by simp
qed simp

lemma bytes_at_unique: "bytes_at m a xs \<Longrightarrow> bytes_at m a ys \<Longrightarrow> length xs = length ys \<Longrightarrow> xs = ys"
  by (rule nth_equalityI) (auto simp: bytes_at_nth)

text \<open>
  Saving the registers of a double-precision unit and loading them from the same area gives them
  back, whatever was in the registers in between, as long as nothing wrote to the area: all 32
  registers, and the rounding mode and flags of the control register.
\<close>

theorem fpu_state_roundtrip:
  assumes "mapped (bytes s) a 264" and "riscv_save_fpu_double a s = Inr s1"
    and "\<forall>x. in_span a 264 x \<longrightarrow> bytes s2 x = bytes s1 x"
  shows "\<exists>s3. riscv_restore_fpu_double a s2 = Inr s3 \<and> (\<forall>j<32. fregs s3 j = fregs s j) \<and> fcsr s3 = fcsr s AND 0xFF \<and> bytes s3 = bytes s2"
proof -
  let ?im = "fpu_image 8 (fregs s) (fcsr s)"
  have m: "mapped (bytes s) a (32 * 8 + 4)" using mapped_sub [OF assms(1), of 0 "32 * 8 + 4"] by simp
  have s1: "bytes s1 = patched (bytes s) a ?im" using assms(2) save_fpu_eq [OF m] by (auto simp: riscv_save_fpu_double_def)
  have same: "bytes s2 (a + of_nat i) = bytes s1 (a + of_nat i)" if "i < 264" for i
    using assms(3) that in_span_offset [of i 264 a] by simp
  have "mapped (bytes s1) a 264" using assms(1) s1 patched_mapped by metis
  then have m2: "mapped (bytes s2) a (32 * 8 + 8)" using same by (simp add: mapped_def)
  have im: "bytes_at (bytes s2) a ?im" using patched_at [of ?im "bytes s" a] same s1 by (simp add: bytes_at_nth)
  obtain f v where f: "restore_fpu 8 a s2 = Inr ((fpu_on s2)\<lparr>fregs := f, fcsr := ucast v AND 0xFF\<rparr>)"
    "ld64 (bytes s2) (a + of_nat (32 * 8)) = Inr v" "bytes_at (bytes s2) a (regs_image 8 f [0..<32])"
    using restore_fpu_ok [OF m2] by (metis (no_types, lifting))
  have parts: "bytes_at (bytes s2) a (regs_image 8 (fregs s) [0..<32])" "bytes_at (bytes s2) (a + of_nat (32 * 8)) (to_bytes 4 (ucast (fcsr s)))"
    using im unfolding fpu_image_def by (simp_all add: bytes_at_append del: to_bytes.simps)
  have "regs_image 8 f [0..<32] = regs_image 8 (fregs s) [0..<32]" using f(3) parts(1) by (rule bytes_at_unique) simp
  then have regs: "\<forall>j<32. f j = fregs s j" using regs_image_inj [of f 0 32 "fregs s"] by simp
  have "mapped (bytes s2) (a + of_nat (32 * 8)) 8" by (rule mapped_sub [OF m2]) simp
  then obtain bs where bs: "ld_bytes (bytes s2) (a + of_nat (32 * 8)) 8 = Inr bs" "length bs = 8" "bytes_at (bytes s2) (a + of_nat (32 * 8)) bs"
    using ld_bytes_mapped by blast
  have "take 4 bs = to_bytes 4 (ucast (fcsr s))"
    using bs(2,3) parts(2) append_take_drop_id [of 4 bs] bytes_at_append [of "bytes s2" _ "take 4 bs" "drop 4 bs"]
    by (intro bytes_at_unique [of "bytes s2" "a + of_nat (32 * 8)"]) (simp_all del: to_bytes.simps)
  then have "bs ! 0 = to_bytes 4 (ucast (fcsr s)) ! 0" by (metis nth_take zero_less_numeral)
  then have b0: "bs ! 0 = ucast (ucast (fcsr s) :: u64)" by (simp add: numeral_eq_Suc)
  have v: "v = of_bytes bs" using f(2) bs(1) by (simp add: ld64_def)
  have "(ucast v :: u32) AND 0xFF = fcsr s AND 0xFF"
  proof (rule bit_word_eqI)
    fix n assume "n < LENGTH(32)"
    have mask: "(0xFF :: u32) = mask 8" by (simp add: mask_eq_exp_minus_1)
    show "bit ((ucast v :: u32) AND 0xFF) n = bit (fcsr s AND 0xFF) n"
      using bs(2) b0 unfolding mask v by (cases "n < 8") (auto simp: bit_of_bytes bit_simps)
  qed
  then show ?thesis using f(1) regs by (simp add: riscv_restore_fpu_double_def fpu_on_def)
qed

end
