(* ===== verification/Sched.thy ===== *)
theory Sched
  imports Fpu
begin

text \<open>
  Processes, threads and the scheduler: \<open>kernel/tasking/process.c\<close>, \<open>kernel/tasking/thread.c\<close>,
  \<open>kernel/tasking/scheduler.c\<close> and the riscv64 parts in \<open>kernel/arch/riscv64/scheduler.c\<close> and
  \<open>kernel/arch/riscv64/thread.c\<close>. Processes, threads and the thread array of a process are objects of
  a typed heap over the kernel heap; the two tables of the source are functions on their indices.
\<close>

section \<open>Data\<close>

datatype reg = RA | SP | GP | TP | T0 | T1 | T2 | FP | S1 | A0 | A1 | A2 | A3 | A4 | A5 | A6 | A7
  | S2 | S3 | S4 | S5 | S6 | S7 | S8 | S9 | S10 | S11 | T3 | T4 | T5 | T6 | EPC | CAUSE | TVAL | STATUS

type_synonym irq_regs_t = "reg \<Rightarrow> u64"

record thread_t =
  saved_regs :: irq_regs_t
  guardValue :: u32
  tid :: u64
  pid :: u64
  taskID :: u64
  kstack_address :: addr
  ustack_address :: addr
  cpu_number :: u64
  thread_lk :: spinlock_t
  fpu_state :: addr

record process_t =
  proc_pid :: u64
  page_table :: addr
  threads :: addr
  proc_lk :: spinlock_t
  current_alloc_address :: u64
  alloc_lk :: spinlock_t
  parent_pid :: u64

definition sizeof_thread_t :: size_t where
  "sizeof_thread_t = 380"

definition sizeof_process_t :: size_t where
  "sizeof_process_t = 120"

definition MAX_PROCESSES :: u64 where
  "MAX_PROCESSES = 256"

definition MAX_THREADS :: u64 where
  "MAX_THREADS = 256"

definition BASE_ALLOC_ADDRESS :: u64 where
  "BASE_ALLOC_ADDRESS = 0x0000780000000000"

text \<open>
  The state: the heap of processes, threads and thread arrays, the tables with their locks, and two
  values of the machine, the address of the per-CPU structure and the size of the FPU state.
\<close>

record ksched = kfpu +
  proc_mem :: "addr \<rightharpoonup> process_t"
  thread_mem :: "addr \<rightharpoonup> thread_t"
  tarr_mem :: "addr \<rightharpoonup> (nat \<Rightarrow> addr)"
  ProcessTable :: "nat \<Rightarrow> addr"
  process_lock :: spinlock_t
  ActiveTasks :: "nat \<Rightarrow> addr"
  TotalActiveTasks :: size_t
  SchedulerRunning :: bool
  EntrySchedulerLock :: spinlock_t
  SchedulerLock :: spinlock_t
  cpu_address :: addr
  save_size :: size_t

section \<open>Access to the objects\<close>

definition ld_proc :: "'a ksched_scheme \<Rightarrow> addr \<Rightarrow> process_t res" where
  "ld_proc s p = need (proc_mem s p)"

definition up_proc :: "addr \<Rightarrow> (process_t \<Rightarrow> process_t) \<Rightarrow> 'a ksched_scheme \<Rightarrow> 'a ksched_scheme res" where
  "up_proc p f s = bnd (ld_proc s p) (\<lambda>x. Inr (s\<lparr>proc_mem := (proc_mem s)(p \<mapsto> f x)\<rparr>))"

definition ld_thread :: "'a ksched_scheme \<Rightarrow> addr \<Rightarrow> thread_t res" where
  "ld_thread s p = need (thread_mem s p)"

definition up_thread :: "addr \<Rightarrow> (thread_t \<Rightarrow> thread_t) \<Rightarrow> 'a ksched_scheme \<Rightarrow> 'a ksched_scheme res" where
  "up_thread p f s = bnd (ld_thread s p) (\<lambda>x. Inr (s\<lparr>thread_mem := (thread_mem s)(p \<mapsto> f x)\<rparr>))"

text \<open>
  The elements of a thread array, and of the two tables; an index out of range is a fault. The array
  is allocated with the size of as many threads, so more pointers fit than are ever searched.
\<close>

definition THREAD_ARRAY_LENGTH :: u64 where
  "THREAD_ARRAY_LENGTH = sizeof_thread_t * MAX_THREADS div 8"

definition ld_tarr :: "'a ksched_scheme \<Rightarrow> addr \<Rightarrow> u64 \<Rightarrow> addr res" where
  "ld_tarr s p i = bnd (need (tarr_mem s p)) (\<lambda>f. if i < THREAD_ARRAY_LENGTH then Inr (f (unat i)) else Inl Fault)"

definition st_tarr :: "addr \<Rightarrow> u64 \<Rightarrow> addr \<Rightarrow> 'a ksched_scheme \<Rightarrow> 'a ksched_scheme res" where
  "st_tarr p i x s = bnd (need (tarr_mem s p)) (\<lambda>f.
     if i < THREAD_ARRAY_LENGTH then Inr (s\<lparr>tarr_mem := (tarr_mem s)(p \<mapsto> f(unat i := x))\<rparr>) else Inl Fault)"

definition ld_active :: "'a ksched_scheme \<Rightarrow> u64 \<Rightarrow> addr res" where
  "ld_active s i = (if i < MAX_THREADS * 2 then Inr (ActiveTasks s (unat i)) else Inl Fault)"

definition process_table_lock :: "string \<Rightarrow> int \<Rightarrow> 'a ksched_scheme \<Rightarrow> 'a ksched_scheme res" where
  "process_table_lock fn ln s =
     bnd (spinlock_lock (''process.c'', fn, ln) (process_lock s) s) (\<lambda>(lk, s). Inr (s\<lparr>process_lock := lk\<rparr>))"

definition process_table_unlock :: "'a ksched_scheme \<Rightarrow> 'a ksched_scheme" where
  "process_table_unlock s = (case spinlock_unlock (process_lock s) s of (lk, s) \<Rightarrow> s\<lparr>process_lock := lk\<rparr>)"

definition proc_lock :: "addr \<Rightarrow> 'a ksched_scheme \<Rightarrow> 'a ksched_scheme res" where
  "proc_lock p s =
     bnd (ld_proc s p) (\<lambda>x.
     bnd (spinlock_lock (''process.c'', ''process_get_process'', 59) (proc_lk x) s) (\<lambda>(lk, s).
     Inr (s\<lparr>proc_mem := (proc_mem s)(p \<mapsto> x\<lparr>proc_lk := lk\<rparr>)\<rparr>)))"

definition proc_unlock :: "addr \<Rightarrow> 'a ksched_scheme \<Rightarrow> 'a ksched_scheme res" where
  "proc_unlock p s =
     bnd (ld_proc s p) (\<lambda>x.
     case spinlock_unlock (proc_lk x) s of (lk, s) \<Rightarrow>
     Inr (s\<lparr>proc_mem := (proc_mem s)(p \<mapsto> x\<lparr>proc_lk := lk\<rparr>)\<rparr>))"

section \<open>Processes\<close>

definition process_init_process_table :: "'a ksched_scheme \<Rightarrow> 'a ksched_scheme res" where
  "process_init_process_table s =
     bnd (process_table_lock ''process_init_process_table'' 11 s) (\<lambda>s.
     let s = s\<lparr>ProcessTable := (\<lambda>i. if i < unat MAX_PROCESSES then NULL else ProcessTable s i)\<rparr>
     in Inr (process_table_unlock s))"

text \<open>The first free entry of the process table.\<close>

function find_process_slot :: "u64 \<Rightarrow> 'a ksched_scheme \<Rightarrow> u64 option" where
  "find_process_slot p s =
     (if p < MAX_PROCESSES then if ProcessTable s (unat p) = NULL then Some p else find_process_slot (p + 1) s else None)"
  by pat_completeness auto
termination
  by (relation "measure (\<lambda>(p, s). 256 - unat p)") (auto simp: MAX_PROCESSES_def word_less_nat_alt unat_add_u64)

declare find_process_slot.simps [simp del]

definition new_process :: "'a ksched_scheme \<Rightarrow> (addr \<times> 'a ksched_scheme) res" where
  "new_process s = bnd (kmalloc sizeof_process_t s) (\<lambda>(p, s).
     Inr (p, if p = NULL then s
             else s\<lparr>proc_mem := (proc_mem s)(p \<mapsto> \<lparr>proc_pid = 0, page_table = NULL, threads = NULL, proc_lk = zero_lock,
               current_alloc_address = 0, alloc_lk = zero_lock, parent_pid = 0\<rparr>)\<rparr>))"

definition new_thread_array :: "'a ksched_scheme \<Rightarrow> (addr \<times> 'a ksched_scheme) res" where
  "new_thread_array s = bnd (kcalloc sizeof_thread_t MAX_THREADS s) (\<lambda>(p, s).
     Inr (p, if p = NULL then s else s\<lparr>tarr_mem := (tarr_mem s)(p \<mapsto> (\<lambda>_. NULL))\<rparr>))"

fun clear_threads :: "nat \<Rightarrow> addr \<Rightarrow> 'a ksched_scheme \<Rightarrow> 'a ksched_scheme res" where
  "clear_threads 0 arr s = Inr s"
| "clear_threads (Suc n) arr s = bnd (clear_threads n arr s) (st_tarr arr (of_nat n) NULL)"

definition process_create :: "addr \<Rightarrow> 'a ksched_scheme \<Rightarrow> (u64 \<times> 'a ksched_scheme) res" where
  "process_create ptab s =
     bnd (process_table_lock ''process_create'' 19 s) (\<lambda>s.
     case find_process_slot 0 s of
       None \<Rightarrow> Inr (- 1, process_table_unlock s)
     | Some slot \<Rightarrow>
         bnd (new_process s) (\<lambda>(newProcess, s).
         bnd (new_thread_array s) (\<lambda>(arr, s).
         bnd (up_proc newProcess (\<lambda>x. x\<lparr>threads := arr, page_table := ptab, proc_pid := slot\<rparr>) s) (\<lambda>s.
         bnd (clear_threads 256 arr s) (\<lambda>s.
         bnd (up_proc newProcess (\<lambda>x. x\<lparr>current_alloc_address := BASE_ALLOC_ADDRESS, alloc_lk := INIT_SPINLOCK, proc_lk := INIT_SPINLOCK\<rparr>) s) (\<lambda>s.
         let s = s\<lparr>ProcessTable := (ProcessTable s)(unat slot := newProcess)\<rparr>
         in Inr (slot, process_table_unlock s)))))))"

definition process_get_process :: "u64 \<Rightarrow> 'a ksched_scheme \<Rightarrow> (addr \<times> 'a ksched_scheme) res" where
  "process_get_process p s =
     (if p \<ge> MAX_PROCESSES then Inr (NULL, s)
      else bnd (process_table_lock ''process_get_process'' 56 s) (\<lambda>s.
           let process = ProcessTable s (unat p) in
           bnd (proc_lock process s) (\<lambda>s.
           Inr (process, process_table_unlock s))))"

definition process_get_process_no_lock :: "u64 \<Rightarrow> 'a ksched_scheme \<Rightarrow> (addr \<times> 'a ksched_scheme) res" where
  "process_get_process_no_lock p s =
     (if p \<ge> MAX_PROCESSES then Inr (NULL, s)
      else bnd (process_table_lock ''process_get_process_no_lock'' 69 s) (\<lambda>s.
           Inr (ProcessTable s (unat p), process_table_unlock s)))"

section \<open>Threads\<close>

definition STACK_LOCATION_TOP :: u64 where
  "STACK_LOCATION_TOP = 0x0000800000000000"

definition STACK_SIZE :: u64 where
  "STACK_SIZE = 4 * PAGE_SIZE"

definition STACK_GUARD_SIZE :: u64 where
  "STACK_GUARD_SIZE = PAGE_SIZE"

definition KSTACK_SIZE :: u64 where
  "KSTACK_SIZE = 8 * PAGE_SIZE"

definition VMM_USER :: u64 where
  "VMM_USER = 16"

text \<open>
  The entry and its argument, the only kind of thread parameter; the global pointer comes from
  assembly and is an argument \<open>gp\<close> here.
\<close>

record thread_parameter_entry_data_t =
  td_entry :: addr
  td_arg :: u64

definition arch_thread_init_regs :: "u64 \<Rightarrow> thread_parameter_entry_data_t \<Rightarrow> thread_t \<Rightarrow> thread_t" where
  "arch_thread_init_regs gp data t =
     t\<lparr>saved_regs := (saved_regs t)(GP := gp, STATUS := saved_regs t STATUS OR (push_bit 8 1 OR push_bit 5 1),
        EPC := td_entry data, A0 := td_arg data)\<rparr>"

definition arch_thread_set_stack :: "addr \<Rightarrow> thread_t \<Rightarrow> thread_t" where
  "arch_thread_set_stack stack t = t\<lparr>saved_regs := (saved_regs t)(SP := stack)\<rparr>"

function find_thread_slot :: "addr \<Rightarrow> u64 \<Rightarrow> 'a ksched_scheme \<Rightarrow> u64 option res" where
  "find_thread_slot arr i s =
     (if i < MAX_THREADS
      then bnd (ld_tarr s arr i) (\<lambda>x. if x = NULL \<or> x = - 1 then Inr (Some i) else find_thread_slot arr (i + 1) s)
      else Inr None)"
  by pat_completeness auto
termination
  by (relation "measure (\<lambda>(arr, i, s). 256 - unat i)") (auto simp: MAX_THREADS_def word_less_nat_alt unat_add_u64)

declare find_thread_slot.simps [simp del]

definition zero_thread :: thread_t where
  "zero_thread = \<lparr>saved_regs = (\<lambda>_. 0), guardValue = 0, tid = 0, pid = 0, taskID = 0, kstack_address = NULL,
     ustack_address = NULL, cpu_number = 0, thread_lk = zero_lock, fpu_state = NULL\<rparr>"

definition new_thread :: "'a ksched_scheme \<Rightarrow> (addr \<times> 'a ksched_scheme) res" where
  "new_thread s = bnd (kmalloc sizeof_thread_t s) (\<lambda>(p, s).
     Inr (p, if p = NULL then s else s\<lparr>thread_mem := (thread_mem s)(p \<mapsto> zero_thread)\<rparr>))"

text \<open>The stack of a user thread: its FPU state, its frames and their mapping above a guard page.\<close>

definition user_stack :: "addr \<Rightarrow> u64 \<Rightarrow> addr \<Rightarrow> 'a ksched_scheme \<Rightarrow> (addr \<times> 'a ksched_scheme) res" where
  "user_stack newThread i ptab s =
     bnd (kmalloc (save_size s) s) (\<lambda>(fpu, s).
     bnd (up_thread newThread (\<lambda>t. t\<lparr>fpu_state := fpu\<rparr>) s) (\<lambda>s.
     bnd (memset (bytes s) fpu 0 (save_size s)) (\<lambda>(_, m).
     let s = s\<lparr>bytes := m\<rparr>;
         stackGuardPage = STACK_LOCATION_TOP - (STACK_SIZE + STACK_GUARD_SIZE) * (i + 1);
         stackBottom = stackGuardPage + STACK_GUARD_SIZE
     in bnd (pmm_alloc (STACK_SIZE div PAGE_SIZE) s) (\<lambda>(memoryStack, s).
        bnd (vmm_map ptab stackBottom memoryStack (STACK_SIZE div PAGE_SIZE)
               (VMM_EXECUTE OR VMM_READ OR VMM_WRITE OR VMM_USER) s) (\<lambda>(_, s).
        bnd (vmm_unmap ptab stackGuardPage (STACK_GUARD_SIZE div PAGE_SIZE) s) (\<lambda>(_, s).
        Inr (stackBottom + STACK_SIZE, s)))))))"

definition thread_create :: "u64 \<Rightarrow> u64 \<Rightarrow> thread_parameter_entry_data_t \<Rightarrow> 'a ksched_scheme \<Rightarrow> (u64 \<times> 'a ksched_scheme) res" where
  "thread_create gp p data s =
     bnd (process_get_process p s) (\<lambda>(process, s).
     if process = NULL then Inr (- 1, s)
     else bnd (ld_proc s process) (\<lambda>x.
          bnd (find_thread_slot (threads x) 0 s) (\<lambda>slot.
          case slot of
            None \<Rightarrow> bnd (proc_unlock process s) (\<lambda>s. Inr (- 1, s))
          | Some i \<Rightarrow>
              bnd (new_thread s) (\<lambda>(newThread, s).
              bnd (up_thread newThread (\<lambda>t. arch_thread_init_regs gp data
                     (t\<lparr>thread_lk := INIT_SPINLOCK, pid := p, tid := i, taskID := - 1\<rparr>)) s) (\<lambda>s.
              bnd (kmalloc KSTACK_SIZE s) (\<lambda>(k, s).
              let kstack = k + KSTACK_SIZE in
              bnd (up_thread newThread (\<lambda>t. t\<lparr>kstack_address := kstack\<rparr>) s) (\<lambda>s.
              bnd (st64 (bytes s) (kstack - 8) 0) (\<lambda>m.
              let s = s\<lparr>bytes := m\<rparr> in
              bnd (if p = 0 then Inr (kstack, s) else user_stack newThread i (page_table x) s) (\<lambda>(stack, s).
              bnd (up_thread newThread (arch_thread_set_stack stack) s) (\<lambda>s.
              bnd (st_tarr (threads x) i newThread s) (\<lambda>s.
              bnd (proc_unlock process s) (\<lambda>s.
              Inr (i, s)))))))))))))"

section \<open>The scheduler\<close>

definition entry_lock :: "'a ksched_scheme \<Rightarrow> 'a ksched_scheme res" where
  "entry_lock s = bnd (spinlock_lock (''scheduler.c'', ''scheduler_add_task'', 39) (EntrySchedulerLock s) s) (\<lambda>(lk, s).
     Inr (s\<lparr>EntrySchedulerLock := lk\<rparr>))"

definition entry_unlock :: "'a ksched_scheme \<Rightarrow> 'a ksched_scheme" where
  "entry_unlock s = (case spinlock_unlock (EntrySchedulerLock s) s of (lk, s) \<Rightarrow> s\<lparr>EntrySchedulerLock := lk\<rparr>)"

function find_task_slot :: "u64 \<Rightarrow> 'a ksched_scheme \<Rightarrow> u64 option" where
  "find_task_slot i s =
     (if i < MAX_THREADS * 2
      then if ActiveTasks s (unat i) = NULL \<or> ActiveTasks s (unat i) = - 1 then Some i else find_task_slot (i + 1) s
      else None)"
  by pat_completeness auto
termination
  by (relation "measure (\<lambda>(i, s). 512 - unat i)") (auto simp: MAX_THREADS_def word_less_nat_alt unat_add_u64)

declare find_task_slot.simps [simp del]

definition scheduler_add_task :: "u64 \<Rightarrow> u64 \<Rightarrow> 'a ksched_scheme \<Rightarrow> (u64 \<times> 'a ksched_scheme) res" where
  "scheduler_add_task p i s =
     bnd (process_get_process p s) (\<lambda>(process, s).
     if process = NULL then Inr (- 1, s)
     else bnd (ld_proc s process) (\<lambda>x.
          bnd (ld_tarr s (threads x) i) (\<lambda>thread.
          bnd (if thread = NULL then Inr True else bnd (ld_thread s thread) (\<lambda>t. Inr (taskID t \<noteq> - 1))) (\<lambda>refused.
          if refused then bnd (proc_unlock process s) (\<lambda>s. Inr (- 1, s))
          else bnd (entry_lock s) (\<lambda>s.
               case find_task_slot 0 s of
                 Some task \<Rightarrow>
                   bnd (up_thread thread (\<lambda>t. t\<lparr>taskID := task\<rparr>) s) (\<lambda>s.
                   let s = s\<lparr>ActiveTasks := (ActiveTasks s)(unat task := thread), TotalActiveTasks := TotalActiveTasks s + 1\<rparr>;
                       s = entry_unlock s
                   in bnd (proc_unlock process s) (\<lambda>s. Inr (task, s)))
               | None \<Rightarrow> bnd (proc_unlock process (entry_unlock s)) (\<lambda>s. Inr (- 1, s)))))))"

text \<open>The attempt to take the lock of a thread, without effect on the preemption counter.\<close>

definition thread_try_lock :: "addr \<Rightarrow> 'a ksched_scheme \<Rightarrow> (u32 \<times> 'a ksched_scheme) res" where
  "thread_try_lock p s =
     bnd (ld_thread s p) (\<lambda>t.
     case spinlock_try_lock_skippreempt (''scheduler.c'', ''scheduler_get_next_task'', 70) (thread_lk t) s of (ret, lk, s) \<Rightarrow>
     Inr (ret, s\<lparr>thread_mem := (thread_mem s)(p \<mapsto> t\<lparr>thread_lk := lk\<rparr>)\<rparr>))"

text \<open>
  The search for a task. Entries of -1 do not count as a turn of the loop, so it need not end; the
  index is wrapped only at the end of a turn, so the first access can be out of range.
\<close>

partial_function (option) next_task_loop :: "size_t \<Rightarrow> u64 \<Rightarrow> 'a ksched_scheme \<Rightarrow> (addr \<times> 'a ksched_scheme) res option" where
  "next_task_loop i currentTask s =
     (if i < TotalActiveTasks s
      then case bnd (ld_active s currentTask) (\<lambda>thread. if thread = NULL then bnd (ld_active s 0) (\<lambda>thread. Inr (0, thread)) else Inr (currentTask, thread)) of
          Inl e \<Rightarrow> Some (Inl e)
        | Inr (currentTask, thread) \<Rightarrow>
            if thread = NULL then Some (Inr (NULL, s))
            else if thread = - 1 then next_task_loop i (if currentTask + 1 = MAX_THREADS * 2 then 0 else currentTask + 1) s
            else case thread_try_lock thread s of
                Inl e \<Rightarrow> Some (Inl e)
              | Inr (ret, s) \<Rightarrow>
                  if ret \<noteq> 0 then next_task_loop (i + 1) (if currentTask + 1 = MAX_THREADS * 2 then 0 else currentTask + 1) s
                  else Some (Inr (thread, s))
      else Some (Inr (NULL, s)))"

definition scheduler_get_next_task :: "u64 \<Rightarrow> 'a ksched_scheme \<Rightarrow> (addr \<times> 'a ksched_scheme) res" where
  "scheduler_get_next_task currentTask s = loop_res (next_task_loop 0 (currentTask + 1) s)"

section \<open>Switching tasks\<close>

definition arch_scheduler_unlock_locks :: "'a ksched_scheme \<Rightarrow> 'a ksched_scheme" where
  "arch_scheduler_unlock_locks s =
     (case spinlock_unlock_skippreempt (SchedulerLock s) s of (lk, s) \<Rightarrow>
      let s = s\<lparr>SchedulerLock := lk\<rparr> in
      case spinlock_unlock_skippreempt (EntrySchedulerLock s) s of (lk, s) \<Rightarrow>
      s\<lparr>EntrySchedulerLock := lk\<rparr>)"

text \<open>
  How an invocation of the scheduler ends: it returns to the interrupted code, the hart waits for
  interrupts forever, or it continues with the registers of a thread.
\<close>

datatype sched_end = Returned | Idled | Switched addr

definition arch_scheduler_idle :: "'a ksched_scheme \<Rightarrow> (sched_end \<times> 'a ksched_scheme) res" where
  "arch_scheduler_idle s =
     bnd (vmm_set_pt (KernelPageMap s) s) (\<lambda>s.
     let s = arch_cpu_set_current_taskid (- 1) s;
         s = arch_cpu_set_current_pid (- 1) s;
         s = arch_cpu_set_current_tid (- 1) s;
         s = arch_scheduler_unlock_locks s
     in Inr (Idled, arch_enable_interrupts s))"

text \<open>The context switch of \<open>isr.S\<close>: a page table that is not null is installed and the locks are released.\<close>

definition arch_scheduler_context_switch :: "addr \<Rightarrow> u64 \<Rightarrow> 'a ksched_scheme \<Rightarrow> sched_end \<times> 'a ksched_scheme" where
  "arch_scheduler_context_switch thread entries s =
     (let s = (if entries \<noteq> 0 then s\<lparr>satp := entries\<rparr> else s)
      in (Switched thread, arch_scheduler_unlock_locks s))"

definition arch_scheduler_switch_task :: "addr \<Rightarrow> addr \<Rightarrow> 'a ksched_scheme \<Rightarrow> (sched_end \<times> 'a ksched_scheme) res" where
  "arch_scheduler_switch_task thread ptab s =
     bnd (up_thread thread (\<lambda>t. t\<lparr>saved_regs := (saved_regs t)(TP := cpu_address s)\<rparr>) s) (\<lambda>s.
     Inr (arch_scheduler_context_switch thread (if ptab \<noteq> NULL then riscv_vmm_create_satp s ptab else 0) s))"

text \<open>The steps of \<open>scheduler_schedule\<close>: leaving the current task, and entering the next one.\<close>

definition leave_task :: "irq_regs_t \<Rightarrow> 'a ksched_scheme \<Rightarrow> 'a ksched_scheme res" where
  "leave_task regs s =
     (let curPid = arch_cpu_get_current_pid s; curTask = arch_cpu_get_current_taskid s
      in if curTask = - 1 then Inr s
         else bnd (ld_active s curTask) (\<lambda>thread.
              if thread = NULL \<or> thread = - 1 then Inr s
              else bnd (up_thread thread (\<lambda>t. t\<lparr>saved_regs := regs, cpu_number := - 1\<rparr>) s) (\<lambda>s.
                   bnd (if curPid \<noteq> 0
                        then bnd (ld_thread s thread) (\<lambda>t.
                             bnd (arch_cpu_save_fpu_state (fpu_state t) s) (\<lambda>s.
                             up_thread thread (\<lambda>t. t\<lparr>ustack_address := arch_cpu_get_thread_user_stack s\<rparr>) s))
                        else Inr s) (\<lambda>s.
                   bnd (ld_thread s thread) (\<lambda>t.
                   case spinlock_unlock_skippreempt (thread_lk t) s of (lk, s) \<Rightarrow>
                   Inr (s\<lparr>thread_mem := (thread_mem s)(thread \<mapsto> t\<lparr>thread_lk := lk\<rparr>)\<rparr>))))))"

definition enter_task :: "u64 \<Rightarrow> addr \<Rightarrow> 'a ksched_scheme \<Rightarrow> (sched_end \<times> 'a ksched_scheme) res" where
  "enter_task curPid nextTask s =
     bnd (ld_thread s nextTask) (\<lambda>t.
     let s = arch_cpu_set_current_pid (pid t) s;
         s = arch_cpu_set_current_tid (tid t) s;
         s = arch_cpu_set_current_taskid (taskID t) s
     in bnd (if pid t \<noteq> 0
             then bnd (arch_cpu_restore_fpu_state (fpu_state t) s) (\<lambda>s.
                  Inr (arch_cpu_set_thread_user_stack (ustack_address t) (arch_cpu_set_thread_kernel_stack (kstack_address t) s)))
             else Inr s) (\<lambda>s.
        bnd (up_thread nextTask (\<lambda>t. t\<lparr>cpu_number := arch_cpu_get_index s\<rparr>) s) (\<lambda>s.
        bnd (process_get_process_no_lock (pid t) s) (\<lambda>(process, s).
        bnd (if pid t = curPid then Inr (process, s)
             else if curPid \<noteq> - 1 then process_get_process_no_lock curPid s
             else Inr (NULL, s)) (\<lambda>(currentProcess, s).
        bnd (if curPid = - 1 then Inr True
             else bnd (ld_proc s process) (\<lambda>x. bnd (ld_proc s currentProcess) (\<lambda>y. Inr (page_table x \<noteq> page_table y)))) (\<lambda>differ.
        if differ
        then bnd (ld_proc s process) (\<lambda>x.
             bnd (ld_pt s (page_table x)) (\<lambda>pt.
             arch_scheduler_switch_task nextTask (pt_entries pt) s))
        else arch_scheduler_switch_task nextTask NULL s))))))"

definition scheduler_schedule :: "irq_regs_t \<Rightarrow> 'a ksched_scheme \<Rightarrow> (sched_end \<times> 'a ksched_scheme) res" where
  "scheduler_schedule regs s =
     (case arch_disable_interrupts s of (irq_status, s) \<Rightarrow>
      if \<not> SchedulerRunning s \<or> arch_cpu_get_preempt_counter s > 0
      then Inr (Returned, if irq_status then arch_enable_interrupts s else s)
      else bnd (spinlock_lock_skippreempt (''scheduler.c'', ''scheduler_schedule'', 91) (EntrySchedulerLock s) s) (\<lambda>(lk, s).
           let s = s\<lparr>EntrySchedulerLock := lk\<rparr> in
           case spinlock_try_lock_skippreempt (''scheduler.c'', ''scheduler_schedule'', 93) (SchedulerLock s) s of (ret, lk, s) \<Rightarrow>
           let s = s\<lparr>SchedulerLock := lk\<rparr> in
           if ret \<noteq> 0
           then case spinlock_unlock_skippreempt (EntrySchedulerLock s) s of (lk, s) \<Rightarrow>
                let s = s\<lparr>EntrySchedulerLock := lk\<rparr>
                in Inr (Returned, if irq_status then arch_enable_interrupts s else s)
           else let curPid = arch_cpu_get_current_pid s; curTask = arch_cpu_get_current_taskid s
                in bnd (leave_task regs s) (\<lambda>s.
                   bnd (scheduler_get_next_task curTask s) (\<lambda>(nextTask, s).
                   if nextTask = NULL then arch_scheduler_idle s
                   else enter_task curPid nextTask s))))"

definition scheduler_init :: "u64 \<Rightarrow> addr \<Rightarrow> 'a ksched_scheme \<Rightarrow> 'a ksched_scheme res" where
  "scheduler_init gp first_task s =
     bnd (process_init_process_table s) (\<lambda>s.
     let s = s\<lparr>ActiveTasks := (\<lambda>i. if i < unat (MAX_THREADS * 2) then NULL else ActiveTasks s i)\<rparr> in
     bnd (process_create (KernelPageMap s) s) (\<lambda>(_, s).
     bnd (thread_create gp 0 \<lparr>td_entry = first_task, td_arg = 0\<rparr> s) (\<lambda>(i, s).
     bnd (scheduler_add_task 0 i s) (\<lambda>(_, s).
     Inr (s\<lparr>SchedulerRunning := True\<rparr>)))))"

section \<open>The run queue\<close>

text \<open>
  What the table of active tasks stands for: the list of the threads that were added, in the order of
  their task numbers. Every thread in it is a thread of the heap that carries its own index, so no
  thread is in it twice.
\<close>

definition run_queue :: "'a ksched_scheme \<Rightarrow> addr list \<Rightarrow> bool" where
  "run_queue s xs \<longleftrightarrow> length xs \<le> 512 \<and> TotalActiveTasks s = of_nat (length xs) \<and>
     (\<forall>i<512. ActiveTasks s i = (if i < length xs then xs ! i else NULL)) \<and>
     (\<forall>i<length xs. xs ! i \<noteq> NULL \<and> xs ! i \<noteq> - 1 \<and> (\<exists>t. thread_mem s (xs ! i) = Some t \<and> taskID t = of_nat i))"

lemma run_queue_thread:
  assumes "run_queue s xs" and "i < length xs"
  obtains t where "thread_mem s (xs ! i) = Some t" and "taskID t = of_nat i" and "xs ! i \<noteq> NULL" and "xs ! i \<noteq> - 1"
  using assms unfolding run_queue_def by blast

lemma run_queue_distinct:
  assumes "run_queue s xs" and "i < length xs" and "j < length xs" and "xs ! i = xs ! j"
  shows "i = j"
proof -
  obtain t where "thread_mem s (xs ! i) = Some t" "taskID t = of_nat i" using run_queue_thread [OF assms(1,2)] by metis
  moreover obtain u where "thread_mem s (xs ! j) = Some u" "taskID u = of_nat j" using run_queue_thread [OF assms(1,3)] by metis
  ultimately have "(of_nat i :: u64) = of_nat j" using assms(4) by simp
  moreover have "i < 2 ^ 64" "j < 2 ^ 64" using assms(1-3) by (auto simp: run_queue_def)
  ultimately show ?thesis by (simp add: of_nat_u64_eq_iff)
qed

lemma run_queue_cong:
  assumes "run_queue s xs" and "TotalActiveTasks s' = TotalActiveTasks s" and "ActiveTasks s' = ActiveTasks s"
    and "\<forall>a t. thread_mem s a = Some t \<longrightarrow> (\<exists>t'. thread_mem s' a = Some t' \<and> taskID t' = taskID t)"
  shows "run_queue s' xs"
  using assms unfolding run_queue_def by metis

lemma run_queue_same:
  assumes "run_queue s xs" and "TotalActiveTasks s' = TotalActiveTasks s" and "ActiveTasks s' = ActiveTasks s" and "thread_mem s' = thread_mem s"
  shows "run_queue s' xs"
  using assms by (auto intro: run_queue_cong)

text \<open>Lock operations without effect on the preemption counter leave the hart as it was.\<close>

lemma try_skip_free: "lock lk = 0 \<Longrightarrow> spinlock_try_lock_skippreempt pl lk h = (0, lk\<lparr>lock := 1, last_acquirer := acquirer_of pl h\<rparr>, h)"
  by (simp add: spinlock_try_lock_skippreempt_def try_lock_free)

lemma try_skip_held: "lock lk = 1 \<Longrightarrow> spinlock_try_lock_skippreempt pl lk h = (1, lk, h)"
  by (simp add: spinlock_try_lock_skippreempt_def try_lock_held)

lemma lock_skip_free: "lock lk = 0 \<Longrightarrow> spinlock_lock_skippreempt pl lk h = Inr (lk\<lparr>lock := 1, last_acquirer := acquirer_of pl h\<rparr>, h)"
  by (simp add: spinlock_lock_skippreempt_def)

lemma unlock_skip: "spinlock_unlock_skippreempt lk h = (lk\<lparr>lock := 0\<rparr>, h)"
  by (simp add: spinlock_unlock_skippreempt_def)

lemmas skip_simps = try_skip_free try_skip_held lock_skip_free unlock_skip

lemma preempt_sched [simp]:
  "proc_mem (arch_cpu_increment_preempt_counter s) = proc_mem s" "thread_mem (arch_cpu_increment_preempt_counter s) = thread_mem s"
  "tarr_mem (arch_cpu_increment_preempt_counter s) = tarr_mem s" "ProcessTable (arch_cpu_increment_preempt_counter s) = ProcessTable s"
  "process_lock (arch_cpu_increment_preempt_counter s) = process_lock s" "ActiveTasks (arch_cpu_increment_preempt_counter s) = ActiveTasks s"
  "TotalActiveTasks (arch_cpu_increment_preempt_counter s) = TotalActiveTasks s"
  "EntrySchedulerLock (arch_cpu_increment_preempt_counter s) = EntrySchedulerLock s"
  "proc_mem (arch_cpu_decrement_preempt_counter s) = proc_mem s" "thread_mem (arch_cpu_decrement_preempt_counter s) = thread_mem s"
  "tarr_mem (arch_cpu_decrement_preempt_counter s) = tarr_mem s" "ProcessTable (arch_cpu_decrement_preempt_counter s) = ProcessTable s"
  "process_lock (arch_cpu_decrement_preempt_counter s) = process_lock s" "ActiveTasks (arch_cpu_decrement_preempt_counter s) = ActiveTasks s"
  "TotalActiveTasks (arch_cpu_decrement_preempt_counter s) = TotalActiveTasks s"
  "EntrySchedulerLock (arch_cpu_decrement_preempt_counter s) = EntrySchedulerLock s"
  by (simp_all add: arch_cpu_increment_preempt_counter_def arch_cpu_decrement_preempt_counter_def)

text \<open>The state of the scheduler that a lock and an unlock leave alone.\<close>

definition tasks_same :: "'a ksched_scheme \<Rightarrow> 'a ksched_scheme \<Rightarrow> bool" where
  "tasks_same s s' \<longleftrightarrow> thread_mem s' = thread_mem s \<and> tarr_mem s' = tarr_mem s \<and> ProcessTable s' = ProcessTable s \<and>
     ActiveTasks s' = ActiveTasks s \<and> TotalActiveTasks s' = TotalActiveTasks s"

lemma find_task_slot_eq:
  assumes "run_queue s xs"
  shows "i \<le> length xs \<Longrightarrow> find_task_slot (of_nat i) s = (if length xs < 512 then Some (of_nat (length xs)) else None)"
proof (induction "length xs - i" arbitrary: i)
  case 0
  then have "i = length xs" by simp
  moreover have "unat (of_nat (length xs) :: u64) = length xs" using assms by (intro unat_of_nat_u64) (simp add: run_queue_def)
  ultimately show ?case using assms
    by (subst find_task_slot.simps) (auto simp: MAX_THREADS_def word_less_nat_alt run_queue_def)
next
  case (Suc d)
  then have i: "i < length xs" by simp
  then have u: "unat (of_nat i :: u64) = i" and "i < 512" using assms by (auto intro!: unat_of_nat_u64 simp: run_queue_def)
  moreover have "xs ! i \<noteq> NULL" "xs ! i \<noteq> - 1" "ActiveTasks s i = xs ! i" using assms i \<open>i < 512\<close> by (auto simp: run_queue_def)
  moreover have "find_task_slot (of_nat i + 1) s = (if length xs < 512 then Some (of_nat (length xs)) else None)"
  proof -
    have "find_task_slot (of_nat (Suc i)) s = (if length xs < 512 then Some (of_nat (length xs)) else None)"
      using Suc i by (intro Suc.hyps(1)) simp_all
    then show ?thesis by (simp only: of_nat_Suc add.commute)
  qed
  ultimately show ?case by (subst find_task_slot.simps) (simp add: MAX_THREADS_def word_less_nat_alt)
qed

lemma run_queue_append:
  assumes q: "run_queue s xs" and len: "length xs < 512" and a: "thread_mem s a = Some t" "a \<noteq> NULL" "a \<noteq> - 1" "taskID t = - 1"
    and s': "ActiveTasks s' = (ActiveTasks s)(length xs := a)" "TotalActiveTasks s' = TotalActiveTasks s + 1"
      "thread_mem s' = (thread_mem s)(a \<mapsto> t\<lparr>taskID := of_nat (length xs)\<rparr>)"
  shows "run_queue s' (xs @ [a])"
proof -
  have ne: "xs ! i \<noteq> a" if i: "i < length xs" for i
  proof
    assume "xs ! i = a"
    then have "(of_nat i :: u64) = - 1" using run_queue_thread [OF q i] a(1,4) by (metis option.inject)
    then have "unat (of_nat i :: u64) = 2 ^ 64 - 1" by (simp add: unat_MINUS_ONE)
    then show False using i len unat_of_nat_u64 [of i] by simp
  qed
  show ?thesis using q len a(1-3) ne unfolding run_queue_def s' by (auto simp: nth_append less_Suc_eq)
qed

lemma process_get_process_ok:
  assumes "p < MAX_PROCESSES" and "lock (process_lock s) = 0" and "proc_mem s (ProcessTable s (unat p)) = Some x" and "lock (proc_lk x) = 0"
  obtains s1 lk where "process_get_process p s = Inr (ProcessTable s (unat p), s1)" and "tasks_same s s1"
    and "proc_mem s1 = (proc_mem s)(ProcessTable s (unat p) \<mapsto> x\<lparr>proc_lk := lk\<rparr>)" and "lock (process_lock s1) = 0"
    and "EntrySchedulerLock s1 = EntrySchedulerLock s" and "cpu_is_inited s1 = cpu_is_inited s"
    and "cpu_struct s1 = cpu_struct (arch_cpu_increment_preempt_counter s)"
proof -
  let ?q = "ProcessTable s (unat p)"
  let ?s0 = "(arch_cpu_increment_preempt_counter s)\<lparr>process_lock := (process_lock s)\<lparr>lock := 1,
    last_acquirer := acquirer_of (''process.c'', ''process_get_process'', 56) s\<rparr>\<rparr>"
  let ?lk = "(proc_lk x)\<lparr>lock := 1, last_acquirer := acquirer_of (''process.c'', ''process_get_process'', 59) ?s0\<rparr>"
  let ?s1 = "process_table_unlock ((arch_cpu_increment_preempt_counter ?s0)\<lparr>proc_mem := (proc_mem s)(?q \<mapsto> x\<lparr>proc_lk := ?lk\<rparr>)\<rparr>)"
  have "process_get_process p s = Inr (?q, ?s1)"
    using assms by (simp add: process_get_process_def process_table_lock_def proc_lock_def ld_proc_def not_le [symmetric] Let_def)
  moreover have "tasks_same s ?s1" "proc_mem ?s1 = (proc_mem s)(?q \<mapsto> x\<lparr>proc_lk := ?lk\<rparr>)" "lock (process_lock ?s1) = 0"
    "EntrySchedulerLock ?s1 = EntrySchedulerLock s"
    by (simp_all add: process_table_unlock_def tasks_same_def)
  moreover have "cpu_is_inited ?s1 = cpu_is_inited s" "cpu_struct ?s1 = cpu_struct (arch_cpu_increment_preempt_counter s)"
    by (simp_all add: process_table_unlock_def arch_cpu_increment_preempt_counter_def arch_cpu_decrement_preempt_counter_def riscv_cpu_inited_def)
  ultimately show ?thesis by (rule that)
qed

lemma proc_unlock_ok:
  assumes "proc_mem s q = Some x"
  obtains s1 where "proc_unlock q s = Inr s1" and "tasks_same s s1" and "proc_mem s1 = (proc_mem s)(q \<mapsto> x\<lparr>proc_lk := (proc_lk x)\<lparr>lock := 0\<rparr>\<rparr>)"
    and "process_lock s1 = process_lock s" and "EntrySchedulerLock s1 = EntrySchedulerLock s"
    and "cpu_is_inited s1 = cpu_is_inited s" and "cpu_struct s1 = cpu_struct (arch_cpu_decrement_preempt_counter s)"
proof -
  let ?s1 = "(arch_cpu_decrement_preempt_counter s)\<lparr>proc_mem := (proc_mem s)(q \<mapsto> x\<lparr>proc_lk := (proc_lk x)\<lparr>lock := 0\<rparr>\<rparr>)\<rparr>"
  have "proc_unlock q s = Inr ?s1" using assms by (simp add: proc_unlock_def ld_proc_def)
  moreover have "cpu_is_inited ?s1 = cpu_is_inited s" "cpu_struct ?s1 = cpu_struct (arch_cpu_decrement_preempt_counter s)"
    by (simp_all add: arch_cpu_decrement_preempt_counter_def)
  ultimately show ?thesis by (intro that [of ?s1]) (simp_all add: tasks_same_def)
qed

lemma counter_back:
  assumes "cpu_struct s1 = cpu_struct (arch_cpu_increment_preempt_counter s)" and "cpu_is_inited s1 = cpu_is_inited s"
  shows "cpu_struct (arch_cpu_decrement_preempt_counter s1) = cpu_struct s"
  using assms by (simp add: arch_cpu_decrement_preempt_counter_def arch_cpu_increment_preempt_counter_def riscv_cpu_inited_def)

section \<open>The next task\<close>

text \<open>The first index that is free, going round from \<open>k\<close> for \<open>d\<close> turns.\<close>

fun pick :: "nat \<Rightarrow> nat \<Rightarrow> nat \<Rightarrow> (nat \<Rightarrow> bool) \<Rightarrow> nat option" where
  "pick N 0 k free = None"
| "pick N (Suc d) k free = (if free (k mod N) then Some (k mod N) else pick N d (k mod N + 1) free)"

lemma pick_mod: "pick N d (k mod N) free = pick N d k free"
  by (cases d) simp_all

lemma pick_Suc_mod: "pick N d (k mod N + 1) free = pick N d (k + 1) free"
  using pick_mod [of N d "k mod N + 1" free] pick_mod [of N d "k + 1" free] by (simp add: mod_simps)

lemma pick_Some:
  "pick N d k free = Some j \<longleftrightarrow> (\<exists>n<d. j = (k + n) mod N \<and> free j \<and> (\<forall>m<n. \<not> free ((k + m) mod N)))"
proof (induction d arbitrary: k)
  case (Suc d)
  show ?case
  proof (cases "free (k mod N)")
    case True
    then show ?thesis by (auto simp: less_Suc_eq_0_disj)
  next
    case False
    then have "pick N (Suc d) k free = Some j \<longleftrightarrow> (\<exists>n<d. j = (k + 1 + n) mod N \<and> free j \<and> (\<forall>m<n. \<not> free ((k + 1 + m) mod N)))"
      using Suc.IH [of "k + 1"] pick_Suc_mod [of N d k free] by simp
    then show ?thesis using False by (auto simp: Ex_less_Suc2 All_less_Suc2)
  qed
qed simp

lemma pick_None: "pick N d k free = None \<longleftrightarrow> (\<forall>n<d. \<not> free ((k + n) mod N))"
proof (induction d arbitrary: k)
  case (Suc d)
  then show ?case using pick_Suc_mod [of N d k free] by (simp add: All_less_Suc2)
qed simp

text \<open>The lock of a task, and the state in which it is taken.\<close>

definition task_free :: "'a ksched_scheme \<Rightarrow> addr list \<Rightarrow> nat \<Rightarrow> bool" where
  "task_free s xs i \<longleftrightarrow> lock (thread_lk (the (thread_mem s (xs ! i)))) = 0"

definition locks_binary :: "'a ksched_scheme \<Rightarrow> addr list \<Rightarrow> bool" where
  "locks_binary s xs \<longleftrightarrow> (\<forall>i<length xs. lock (thread_lk (the (thread_mem s (xs ! i)))) = 0 \<or> lock (thread_lk (the (thread_mem s (xs ! i)))) = 1)"

definition task_taken :: "addr \<Rightarrow> 'a ksched_scheme \<Rightarrow> 'a ksched_scheme" where
  "task_taken a s = s\<lparr>thread_mem := (thread_mem s)(a \<mapsto> (the (thread_mem s a))\<lparr>thread_lk := (thread_lk (the (thread_mem s a)))
     \<lparr>lock := 1, last_acquirer := acquirer_of (''scheduler.c'', ''scheduler_get_next_task'', 70) s\<rparr>\<rparr>)\<rparr>"

lemma thread_try_lock_eq:
  assumes "run_queue s xs" and "locks_binary s xs" and "k < length xs"
  shows "thread_try_lock (xs ! k) s = (if task_free s xs k then Inr (0, task_taken (xs ! k) s) else Inr (1, s))"
proof -
  obtain t where t: "thread_mem s (xs ! k) = Some t" using run_queue_thread [OF assms(1,3)] .
  then have "lock (thread_lk t) = 0 \<or> lock (thread_lk t) = 1" using assms(2,3) by (auto simp: locks_binary_def)
  then show ?thesis
  proof
    assume "lock (thread_lk t) = 0"
    then show ?thesis using t by (simp add: thread_try_lock_def ld_thread_def try_skip_free task_free_def task_taken_def)
  next
    assume "lock (thread_lk t) = 1"
    moreover have "(thread_mem s)(xs ! k \<mapsto> t\<lparr>thread_lk := thread_lk t\<rparr>) = thread_mem s" using t by auto
    ultimately show ?thesis using t by (simp add: thread_try_lock_def ld_thread_def try_skip_held task_free_def)
  qed
qed

lemma next_task_loop_eq:
  assumes q: "run_queue s xs" and N: "0 < length xs" "length xs < 512" and lb: "locks_binary s xs"
  shows "i + d = length xs \<Longrightarrow> unat c \<le> length xs \<Longrightarrow> next_task_loop (of_nat i) c s = Some (Inr
    (case pick (length xs) d (unat c) (task_free s xs) of None \<Rightarrow> (NULL, s) | Some k \<Rightarrow> (xs ! k, task_taken (xs ! k) s)))"
proof (induction d arbitrary: i c)
  case 0
  then have "i = length xs" by simp
  then show ?case using q by (subst next_task_loop.simps) (simp add: run_queue_def)
next
  case (Suc d)
  define k where "k = unat c mod length xs"
  have kN: "k < length xs" using N(1) by (simp add: k_def)
  have lt: "(of_nat i :: u64) < TotalActiveTasks s"
    using Suc.prems(1) q N by (simp add: run_queue_def word_less_nat_alt unat_of_nat_u64)
  have kc: "k = (if unat c = length xs then 0 else unat c)" using Suc.prems(2) by (simp add: k_def)
  have act: "ActiveTasks s j = (if j < length xs then xs ! j else NULL)" if "j < 512" for j using q that by (simp add: run_queue_def)
  have nn: "xs ! k \<noteq> NULL" "xs ! k \<noteq> - 1" "xs ! 0 \<noteq> NULL" using q kN N(1) by (auto simp: run_queue_def)
  have sel: "bnd (ld_active s c) (\<lambda>thread. if thread = NULL then bnd (ld_active s 0) (\<lambda>thread. Inr (0, thread)) else Inr (c, thread))
      = Inr (of_nat k, xs ! k)"
  proof (cases "unat c = length xs")
    case True
    then show ?thesis using N act nn kc by (simp add: ld_active_def MAX_THREADS_def word_less_nat_alt)
  next
    case False
    then show ?thesis using N act nn kc Suc.prems(2) by (simp add: ld_active_def MAX_THREADS_def word_less_nat_alt)
  qed
  have k1: "unat (of_nat k + 1 :: u64) = k + 1" using kN N(2) by (simp add: unat_add_u64 unat_of_nat_u64)
  have nw: "of_nat k + 1 \<noteq> MAX_THREADS * 2"
  proof
    assume "of_nat k + 1 = MAX_THREADS * 2"
    then have "unat (of_nat k + 1 :: u64) = 512" by (simp add: MAX_THREADS_def)
    then show False using k1 kN N(2) by simp
  qed
  have IH: "next_task_loop (of_nat i + 1) (of_nat k + 1) s = Some (Inr
      (case pick (length xs) d (k + 1) (task_free s xs) of None \<Rightarrow> (NULL, s) | Some k \<Rightarrow> (xs ! k, task_taken (xs ! k) s)))"
    using Suc.IH [of "Suc i" "of_nat k + 1"] Suc.prems(1) k1 kN by (simp add: add.commute)
  show ?case using lt sel nn(1,2) nw IH thread_try_lock_eq [OF q lb kN]
    by (subst next_task_loop.simps) (simp add: k_def [symmetric])
qed

lemma get_next_task_eq:
  assumes "run_queue s xs" and "0 < length xs" and "length xs < 512" and "locks_binary s xs" and "unat (cur + 1) \<le> length xs"
  shows "scheduler_get_next_task cur s = Inr
    (case pick (length xs) (length xs) (unat (cur + 1)) (task_free s xs) of None \<Rightarrow> (NULL, s) | Some k \<Rightarrow> (xs ! k, task_taken (xs ! k) s))"
  using next_task_loop_eq [OF assms(1-4), of 0 "length xs" "cur + 1"] assms(5) by (simp add: scheduler_get_next_task_def)

section \<open>Leaving and entering a task\<close>

text \<open>The state of a thread that was left, as far as the scheduler determines it.\<close>

definition left_thread :: "irq_regs_t \<Rightarrow> cpu_t \<Rightarrow> thread_t \<Rightarrow> thread_t" where
  "left_thread regs cs t = t\<lparr>saved_regs := regs, cpu_number := - 1,
     ustack_address := (if currentPid cs \<noteq> 0 then threadUserStack cs else ustack_address t), thread_lk := (thread_lk t)\<lparr>lock := 0\<rparr>\<rparr>"

lemma leave_task_ok:
  assumes "cpu_is_inited s" and "currentTaskID (cpu_struct s) = of_nat c" and "c < 512" and "ActiveTasks s c = a" and "a \<noteq> NULL" and "a \<noteq> - 1"
    and "thread_mem s a = Some t" and "currentPid (cpu_struct s) \<noteq> 0 \<longrightarrow> mapped (bytes s) (fpu_state t) 264"
  shows "\<exists>st. leave_task regs s = Inr (s\<lparr>sstatus := st, bytes := (if currentPid (cpu_struct s) \<noteq> 0 then saved_bytes (fpu_state t) s else bytes s),
    thread_mem := (thread_mem s)(a \<mapsto> left_thread regs (cpu_struct s) t)\<rparr>)"
proof -
  have c: "(of_nat c :: u64) \<noteq> - 1" "unat (of_nat c :: u64) = c"
    using assms(3) unat_MINUS_ONE by (auto simp: unat_of_nat_u64 dest: arg_cong [of _ _ unat])
  have ld: "ld_active s (of_nat c) = Inr a" using assms(3,4) c(2) by (simp add: ld_active_def MAX_THREADS_def word_less_nat_alt)
  have get: "arch_cpu_get_current_taskid s = of_nat c" "arch_cpu_get_current_pid s = currentPid (cpu_struct s)"
    using assms(1,2) by (simp_all add: arch_cpu_get_current_taskid_def arch_cpu_get_current_pid_def riscv_cpu_inited_def get_cpu_struct_def)
  show ?thesis
  proof (cases "currentPid (cpu_struct s) = 0")
    case True
    have "leave_task regs s = Inr (s\<lparr>sstatus := sstatus s, bytes := bytes s, thread_mem := (thread_mem s)(a \<mapsto> left_thread regs (cpu_struct s) t)\<rparr>)"
      using True get assms(5-7) c ld by (simp add: leave_task_def up_thread_def ld_thread_def unlock_skip left_thread_def Let_def)
    then show ?thesis using True by (intro exI [of _ "sstatus s"]) simp
  next
    case False
    let ?s1 = "s\<lparr>thread_mem := (thread_mem s)(a \<mapsto> t\<lparr>saved_regs := regs, cpu_number := - 1\<rparr>)\<rparr>"
    have "arch_cpu_save_fpu_state (fpu_state t) ?s1 = Inr (?s1\<lparr>sstatus := fpu_status s, bytes := saved_bytes (fpu_state t) s\<rparr>)"
      using save_state_eq [of ?s1 "fpu_state t"] assms(8) False by (simp add: saved_bytes_def fpu_status_def)
    moreover have "arch_cpu_get_thread_user_stack (?s1\<lparr>sstatus := st, bytes := m\<rparr>) = threadUserStack (cpu_struct s)" for st m
      using assms(1) by (simp add: arch_cpu_get_thread_user_stack_def riscv_cpu_inited_def get_cpu_struct_def)
    ultimately have "leave_task regs s = Inr (s\<lparr>sstatus := fpu_status s, bytes := saved_bytes (fpu_state t) s,
        thread_mem := (thread_mem s)(a \<mapsto> left_thread regs (cpu_struct s) t)\<rparr>)"
      using False get assms(5-7) c ld by (simp add: leave_task_def up_thread_def ld_thread_def unlock_skip left_thread_def Let_def)
    then show ?thesis using False by (intro exI [of _ "fpu_status s"]) simp
  qed
qed

lemma get_process_no_lock_ok:
  assumes "p < MAX_PROCESSES" and "lock (process_lock s) = 0"
  shows "\<exists>lk. lock lk = 0 \<and> process_get_process_no_lock p s = Inr (ProcessTable s (unat p), s\<lparr>process_lock := lk\<rparr>)"
proof -
  have cback: "arch_cpu_decrement_preempt_counter ((arch_cpu_increment_preempt_counter s)\<lparr>process_lock := l\<rparr>) = s\<lparr>process_lock := l\<rparr>" for l
    by (simp add: arch_cpu_decrement_preempt_counter_def arch_cpu_increment_preempt_counter_def riscv_cpu_inited_def)
  show ?thesis using assms
    by (intro exI [of _ "(process_lock s)\<lparr>last_acquirer := acquirer_of (''process.c'', ''process_get_process_no_lock'', 69) s, lock := 0\<rparr>"])
      (simp add: process_get_process_no_lock_def process_table_lock_def process_table_unlock_def not_le [symmetric] cback)
qed

text \<open>The per-CPU structure once a task is entered.\<close>

definition runs_thread :: "thread_t \<Rightarrow> cpu_t \<Rightarrow> cpu_t \<Rightarrow> bool" where
  "runs_thread t cs cs' \<longleftrightarrow> currentPid cs' = pid t \<and> currentTid cs' = tid t \<and> currentTaskID cs' = taskID t \<and>
     currentCpu cs' = currentCpu cs \<and> preemptCounter cs' = preemptCounter cs \<and> ipiType cs' = ipiType cs \<and>
     (pid t \<noteq> 0 \<longrightarrow> threadUserStack cs' = ustack_address t \<and> threadKernelStack cs' = kstack_address t)"

text \<open>On a hart with a double-precision unit the registers of a user task are those its area holds.\<close>

definition fpu_loaded :: "thread_t \<Rightarrow> cpu_t \<Rightarrow> mem \<Rightarrow> (nat \<Rightarrow> u64) \<Rightarrow> bool" where
  "fpu_loaded t cs m f \<longleftrightarrow> (pid t \<noteq> 0 \<and> fpu_width cs = 8 \<longrightarrow> bytes_at m (fpu_state t) (regs_image 8 f [0..<32]))"

lemma set_current_ok:
  fixes t :: thread_t
  assumes "cpu_is_inited s" and "pid t \<noteq> 0 \<longrightarrow> mapped (bytes s) (fpu_state t) 264"
  defines "s1 \<equiv> arch_cpu_set_current_taskid (taskID t) (arch_cpu_set_current_tid (tid t) (arch_cpu_set_current_pid (pid t) s))"
  shows "\<exists>cs st f c. runs_thread t (cpu_struct s) cs \<and> fpu_loaded t (cpu_struct s) (bytes s) f \<and>
    (if pid t \<noteq> 0 then bnd (arch_cpu_restore_fpu_state (fpu_state t) s1) (\<lambda>s.
        Inr (arch_cpu_set_thread_user_stack (ustack_address t) (arch_cpu_set_thread_kernel_stack (kstack_address t) s)))
     else Inr s1) = Inr (s\<lparr>cpu_struct := cs, sstatus := st, fregs := f, fcsr := c\<rparr>)"
proof -
  let ?c1 = "(cpu_struct s)\<lparr>currentPid := pid t, currentTid := tid t, currentTaskID := taskID t\<rparr>"
  let ?c2 = "?c1\<lparr>threadKernelStack := kstack_address t, threadUserStack := ustack_address t\<rparr>"
  have s1: "s1 = s\<lparr>cpu_struct := ?c1\<rparr>"
    using assms(1) by (simp add: s1_def arch_cpu_set_current_taskid_def arch_cpu_set_current_tid_def arch_cpu_set_current_pid_def riscv_cpu_inited_def)
  show ?thesis
  proof (cases "pid t = 0")
    case True
    then show ?thesis using s1
      by (intro exI [of _ ?c1] exI [of _ "sstatus s"] exI [of _ "fregs s"] exI [of _ "fcsr s"]) (simp add: runs_thread_def fpu_loaded_def)
  next
    case False
    have w: "fpu_width (cpu_struct s1) = fpu_width (cpu_struct s)" by (simp add: s1 fpu_width_def)
    obtain f c where fc: "arch_cpu_restore_fpu_state (fpu_state t) s1 = Inr (s1\<lparr>sstatus := fpu_status s1, fregs := f, fcsr := c\<rparr>)"
      "fpu_width (cpu_struct s) = 8 \<longrightarrow> bytes_at (bytes s) (fpu_state t) (regs_image 8 f [0..<32])"
      using restore_state_ok [of s1 "fpu_state t"] assms(2) False unfolding w by (auto simp: s1)
    have "arch_cpu_set_thread_user_stack (ustack_address t) (arch_cpu_set_thread_kernel_stack (kstack_address t)
        (s1\<lparr>sstatus := fpu_status s1, fregs := f, fcsr := c\<rparr>)) = s\<lparr>cpu_struct := ?c2, sstatus := fpu_status s1, fregs := f, fcsr := c\<rparr>"
      using assms(1) by (simp add: s1 arch_cpu_set_thread_user_stack_def arch_cpu_set_thread_kernel_stack_def riscv_cpu_inited_def)
    then show ?thesis using False fc
      by (intro exI [of _ ?c2] exI [of _ "fpu_status s1"] exI [of _ f] exI [of _ c]) (simp add: runs_thread_def fpu_loaded_def)
  qed
qed

lemma unlock_locks_eq:
  "arch_scheduler_unlock_locks s = s\<lparr>SchedulerLock := (SchedulerLock s)\<lparr>lock := 0\<rparr>, EntrySchedulerLock := (EntrySchedulerLock s)\<lparr>lock := 0\<rparr>\<rparr>"
  by (simp add: arch_scheduler_unlock_locks_def unlock_skip Let_def)

text \<open>The page table a task switch installs: that of the next process if it differs, else none.\<close>

definition switch_satp :: "'a ksched_scheme \<Rightarrow> u64 \<Rightarrow> u64 \<Rightarrow> u64 \<Rightarrow> bool" where
  "switch_satp s curPid nextPid v \<longleftrightarrow>
     (\<exists>x pt. proc_mem s (ProcessTable s (unat nextPid)) = Some x \<and> pt_mem s (page_table x) = Some pt \<and>
       v = (if (curPid = - 1 \<or> (\<forall>y. proc_mem s (ProcessTable s (unat curPid)) = Some y \<longrightarrow> page_table x \<noteq> page_table y)) \<and>
               pt_entries pt \<noteq> NULL \<and> riscv_vmm_create_satp s (pt_entries pt) \<noteq> 0
            then riscv_vmm_create_satp s (pt_entries pt) else satp s))"

definition proc_ready :: "'a ksched_scheme \<Rightarrow> u64 \<Rightarrow> bool" where
  "proc_ready s p \<longleftrightarrow> p < MAX_PROCESSES \<and> (\<exists>x pt. proc_mem s (ProcessTable s (unat p)) = Some x \<and> pt_mem s (page_table x) = Some pt)"

lemma enter_task_ok:
  assumes fpu: "pid t \<noteq> 0 \<longrightarrow> mapped (bytes s) (fpu_state t) 264" and ini: "cpu_is_inited s" and a: "thread_mem s a = Some t" and pr: "proc_ready s (pid t)"
    and cur: "curPid = - 1 \<or> proc_ready s curPid" and lk: "lock (process_lock s) = 0"
  shows "\<exists>s'. enter_task curPid a s = Inr (Switched a, s') \<and> runs_thread t (cpu_struct s) (cpu_struct s')
    \<and> thread_mem s' = (thread_mem s)(a \<mapsto> t\<lparr>cpu_number := currentCpu (cpu_struct s), saved_regs := (saved_regs t)(TP := cpu_address s)\<rparr>)
    \<and> ActiveTasks s' = ActiveTasks s \<and> TotalActiveTasks s' = TotalActiveTasks s \<and> switch_satp s curPid (pid t) (satp s')
    \<and> lock (SchedulerLock s') = 0 \<and> lock (EntrySchedulerLock s') = 0 \<and> lock (process_lock s') = 0
    \<and> bytes s' = bytes s \<and> fpu_loaded t (cpu_struct s) (bytes s) (fregs s') \<and> ksched.more s' = ksched.more s"
proof -
  obtain x pt where x: "pid t < MAX_PROCESSES" "proc_mem s (ProcessTable s (unat (pid t))) = Some x" "pt_mem s (page_table x) = Some pt"
    using pr by (auto simp: proc_ready_def)
  obtain cs st f c where cs: "runs_thread t (cpu_struct s) cs"
    "(let s1 = arch_cpu_set_current_taskid (taskID t) (arch_cpu_set_current_tid (tid t) (arch_cpu_set_current_pid (pid t) s))
      in if pid t \<noteq> 0 then bnd (arch_cpu_restore_fpu_state (fpu_state t) s1) (\<lambda>s.
          Inr (arch_cpu_set_thread_user_stack (ustack_address t) (arch_cpu_set_thread_kernel_stack (kstack_address t) s)))
         else Inr s1) = Inr (s\<lparr>cpu_struct := cs, sstatus := st, fregs := f, fcsr := c\<rparr>)" "fpu_loaded t (cpu_struct s) (bytes s) f"
    using set_current_ok [OF ini fpu] unfolding Let_def by blast
  let ?s2 = "s\<lparr>cpu_struct := cs, sstatus := st, fregs := f, fcsr := c\<rparr>"
  let ?t1 = "t\<lparr>cpu_number := currentCpu (cpu_struct s)\<rparr>"
  define s3 where "s3 = ?s2\<lparr>thread_mem := (thread_mem s)(a \<mapsto> ?t1)\<rparr>"
  have idx: "arch_cpu_get_index ?s2 = currentCpu (cpu_struct s)"
    using ini cs(1) by (simp add: arch_cpu_get_index_def riscv_cpu_inited_def get_cpu_struct_def runs_thread_def)
  obtain lk1 where lk1: "lock lk1 = 0" "process_get_process_no_lock (pid t) s3 = Inr (ProcessTable s (unat (pid t)), s3\<lparr>process_lock := lk1\<rparr>)"
    using get_process_no_lock_ok [OF x(1), of s3] lk by (auto simp: s3_def)
  define differ where "differ \<longleftrightarrow> curPid = - 1 \<or> (\<forall>y. proc_mem s (ProcessTable s (unat curPid)) = Some y \<longrightarrow> page_table x \<noteq> page_table y)"
  have "\<exists>lk cp. lock lk = 0 \<and> (if pid t = curPid then Inr (ProcessTable s (unat (pid t)), s3\<lparr>process_lock := lk1\<rparr>)
      else if curPid \<noteq> - 1 then process_get_process_no_lock curPid (s3\<lparr>process_lock := lk1\<rparr>)
      else Inr (NULL, s3\<lparr>process_lock := lk1\<rparr>)) = Inr (cp, s3\<lparr>process_lock := lk\<rparr>) \<and> (curPid \<noteq> - 1 \<longrightarrow> cp = ProcessTable s (unat curPid))"
  proof (cases "pid t = curPid \<or> curPid = - 1")
    case True
    then show ?thesis using lk1(1) x(1) by (auto simp: MAX_PROCESSES_def)
  next
    case False
    then have "curPid < MAX_PROCESSES" using cur by (auto simp: proc_ready_def)
    from get_process_no_lock_ok [OF this, of "s3\<lparr>process_lock := lk1\<rparr>"] lk1(1) False show ?thesis by (auto simp: s3_def)
  qed
  then obtain lk2 cp where lk2: "lock lk2 = 0" "(if pid t = curPid then Inr (ProcessTable s (unat (pid t)), s3\<lparr>process_lock := lk1\<rparr>)
      else if curPid \<noteq> - 1 then process_get_process_no_lock curPid (s3\<lparr>process_lock := lk1\<rparr>)
      else Inr (NULL, s3\<lparr>process_lock := lk1\<rparr>)) = Inr (cp, s3\<lparr>process_lock := lk2\<rparr>)" "curPid \<noteq> - 1 \<longrightarrow> cp = ProcessTable s (unat curPid)" by blast
  let ?s4 = "s3\<lparr>process_lock := lk2\<rparr>"
  have f4: "proc_mem ?s4 = proc_mem s" "pt_mem ?s4 = pt_mem s" "cpu_address ?s4 = cpu_address s" "thread_mem ?s4 = (thread_mem s)(a \<mapsto> ?t1)"
    "max_level ?s4 = max_level s" "satp ?s4 = satp s" by (simp_all add: s3_def)
  have diff: "(if curPid = - 1 then Inr True else bnd (ld_proc ?s4 (ProcessTable s (unat (pid t)))) (\<lambda>x. bnd (ld_proc ?s4 cp) (\<lambda>y. Inr (page_table x \<noteq> page_table y))))
      = Inr differ"
  proof (cases "curPid = - 1")
    case False
    then obtain y where "proc_mem s (ProcessTable s (unat curPid)) = Some y" using cur by (auto simp: proc_ready_def)
    then show ?thesis using False lk2(3) x(2) f4(1) by (simp add: ld_proc_def differ_def)
  qed (simp add: differ_def)
  define v where "v = (if differ \<and> pt_entries pt \<noteq> NULL then riscv_vmm_create_satp s (pt_entries pt) else 0)"
  let ?s5 = "?s4\<lparr>thread_mem := (thread_mem s)(a \<mapsto> ?t1\<lparr>saved_regs := (saved_regs t)(TP := cpu_address s)\<rparr>)\<rparr>"
  define s' where "s' = arch_scheduler_unlock_locks (if v \<noteq> 0 then ?s5\<lparr>satp := v\<rparr> else ?s5)"
  have sw: "arch_scheduler_switch_task a (if differ then pt_entries pt else NULL) ?s4 = Inr (Switched a, s')"
    using f4 by (simp add: arch_scheduler_switch_task_def up_thread_def ld_thread_def arch_scheduler_context_switch_def s'_def v_def
        riscv_vmm_create_satp_def Let_def)
  have up: "up_thread a (\<lambda>t. t\<lparr>cpu_number := arch_cpu_get_index ?s2\<rparr>) ?s2 = Inr s3"
    unfolding idx using a by (simp add: up_thread_def ld_thread_def s3_def)
  have lds: "ld_thread s a = Inr t" "ld_proc ?s4 (ProcessTable s (unat (pid t))) = Inr x" "ld_pt ?s4 (page_table x) = Inr pt"
    using a x(2,3) f4(1,2) by (simp_all add: ld_thread_def ld_proc_def ld_pt_def)
  have "enter_task curPid a s = Inr (Switched a, s')"
    unfolding enter_task_def lds(1) bnd_Inr Let_def cs(2) [unfolded Let_def] up lk1(2) prod.case
    unfolding lk2(2) bnd_Inr prod.case diff using sw lds(2,3) by (cases differ) simp_all
  moreover have "runs_thread t (cpu_struct s) (cpu_struct s')" "ActiveTasks s' = ActiveTasks s" "TotalActiveTasks s' = TotalActiveTasks s"
    "thread_mem s' = (thread_mem s)(a \<mapsto> t\<lparr>cpu_number := currentCpu (cpu_struct s), saved_regs := (saved_regs t)(TP := cpu_address s)\<rparr>)"
    "lock (SchedulerLock s') = 0" "lock (EntrySchedulerLock s') = 0" "lock (process_lock s') = 0"
    "bytes s' = bytes s" "fpu_loaded t (cpu_struct s) (bytes s) (fregs s')" "ksched.more s' = ksched.more s"
    using cs(1,3) lk2(1) by (simp_all add: s'_def unlock_locks_eq s3_def)
  moreover have "switch_satp s curPid (pid t) (satp s')"
  proof -
    have "satp s' = (if differ \<and> pt_entries pt \<noteq> NULL \<and> riscv_vmm_create_satp s (pt_entries pt) \<noteq> 0
        then riscv_vmm_create_satp s (pt_entries pt) else satp s)"
      by (simp add: s'_def unlock_locks_eq v_def s3_def)
    then show ?thesis using x(2,3) unfolding switch_satp_def differ_def by (intro exI [of _ x] exI [of _ pt]) (intro conjI)
  qed
  ultimately show ?thesis by blast
qed

section \<open>A whole turn of the scheduler\<close>

text \<open>
  The threads once the current task, if any, was left: an index of the run queue or none, as the
  task number of the CPU has it.
\<close>

definition left_mem :: "irq_regs_t \<Rightarrow> cpu_t \<Rightarrow> addr list \<Rightarrow> nat option \<Rightarrow> (addr \<rightharpoonup> thread_t) \<Rightarrow> addr \<rightharpoonup> thread_t" where
  "left_mem regs cs xs cur m = (case cur of None \<Rightarrow> m | Some c \<Rightarrow> m(xs ! c \<mapsto> left_thread regs cs (the (m (xs ! c)))))"

text \<open>
  Memory once the current task was left: the area of a user task holds the registers of the FPU. The
  areas of user tasks have 264 bytes of memory.
\<close>

definition left_bytes :: "'a ksched_scheme \<Rightarrow> addr list \<Rightarrow> nat option \<Rightarrow> mem" where
  "left_bytes s xs cur = (case cur of None \<Rightarrow> bytes s
     | Some c \<Rightarrow> if currentPid (cpu_struct s) \<noteq> 0 then saved_bytes (fpu_state (the (thread_mem s (xs ! c)))) s else bytes s)"

definition fpu_areas :: "'a ksched_scheme \<Rightarrow> addr list \<Rightarrow> nat option \<Rightarrow> bool" where
  "fpu_areas s xs cur \<longleftrightarrow>
     (\<forall>c. cur = Some c \<and> currentPid (cpu_struct s) \<noteq> 0 \<longrightarrow> mapped (bytes s) (fpu_state (the (thread_mem s (xs ! c)))) 264) \<and>
     (\<forall>i<length xs. pid (the (thread_mem s (xs ! i))) \<noteq> 0 \<longrightarrow> mapped (bytes s) (fpu_state (the (thread_mem s (xs ! i)))) 264)"

definition task_number :: "nat option \<Rightarrow> u64" where
  "task_number cur = (case cur of None \<Rightarrow> - 1 | Some c \<Rightarrow> of_nat c)"

definition turn_start :: "nat option \<Rightarrow> nat" where
  "turn_start cur = (case cur of None \<Rightarrow> 0 | Some c \<Rightarrow> c + 1)"

lemma turn_start_eq: "set_option cur \<subseteq> {..<n} \<Longrightarrow> n < 512 \<Longrightarrow> unat (task_number cur + 1) = turn_start cur \<and> turn_start cur \<le> n"
  by (cases cur) (auto simp: task_number_def turn_start_def unat_add_u64 unat_of_nat_u64)

lemma leave_task_cur:
  assumes "fpu_areas s xs cur" and "run_queue s xs" and "set_option cur \<subseteq> {..<length xs}" and "cpu_is_inited s" and "currentTaskID (cpu_struct s) = task_number cur"
  shows "\<exists>st. leave_task regs s = Inr (s\<lparr>sstatus := st, bytes := left_bytes s xs cur, thread_mem := left_mem regs (cpu_struct s) xs cur (thread_mem s)\<rparr>)"
proof (cases cur)
  case None
  then have "leave_task regs s = Inr s"
    using assms(4,5) by (simp add: leave_task_def arch_cpu_get_current_taskid_def riscv_cpu_inited_def get_cpu_struct_def task_number_def Let_def)
  then show ?thesis using None by (intro exI [of _ "sstatus s"]) (simp add: left_mem_def left_bytes_def)
next
  case (Some c)
  then have c: "c < length xs" "c < 512" using assms(2,3) by (auto simp: run_queue_def)
  obtain t where t: "thread_mem s (xs ! c) = Some t" "xs ! c \<noteq> NULL" "xs ! c \<noteq> - 1" using run_queue_thread [OF assms(2) c(1)] .
  have "ActiveTasks s c = xs ! c" using assms(2) c by (simp add: run_queue_def)
  moreover have "currentTaskID (cpu_struct s) = of_nat c" using assms(5) Some by (simp add: task_number_def)
  moreover have "currentPid (cpu_struct s) \<noteq> 0 \<longrightarrow> mapped (bytes s) (fpu_state t) 264" using assms(1) Some t(1) by (simp add: fpu_areas_def)
  ultimately show ?thesis using leave_task_ok [OF assms(4) _ c(2) _ t(2,3,1), of regs] t(1) Some
    by (cases "currentPid (cpu_struct s) = 0") (simp_all add: left_mem_def left_bytes_def)
qed

lemma left_mem_at:
  assumes "run_queue s xs" and "set_option cur \<subseteq> {..<length xs}" and "i < length xs"
  shows "left_mem regs cs xs cur (thread_mem s) (xs ! i) = (if cur = Some i then Some (left_thread regs cs (the (thread_mem s (xs ! i))))
      else thread_mem s (xs ! i))"
  using run_queue_distinct [OF assms(1,3)] assms(2) by (cases cur) (auto simp: left_mem_def)

lemma left_mem_queue:
  assumes q: "run_queue s xs" and cur: "set_option cur \<subseteq> {..<length xs}"
  shows "run_queue (s\<lparr>sstatus := st, bytes := m, thread_mem := left_mem regs cs xs cur (thread_mem s)\<rparr>) xs"
    and "locks_binary s xs \<Longrightarrow> locks_binary (s\<lparr>sstatus := st, bytes := m, thread_mem := left_mem regs cs xs cur (thread_mem s)\<rparr>) xs"
    and "i < length xs \<Longrightarrow> task_free (s\<lparr>sstatus := st, bytes := m, thread_mem := left_mem regs cs xs cur (thread_mem s)\<rparr>) xs i \<longleftrightarrow> cur = Some i \<or> task_free s xs i"
    and "pid (the (left_mem regs cs xs cur (thread_mem s) a)) = pid (the (thread_mem s a))"
    and "fpu_state (the (left_mem regs cs xs cur (thread_mem s) a)) = fpu_state (the (thread_mem s a))"
proof -
  let ?s = "s\<lparr>sstatus := st, bytes := m, thread_mem := left_mem regs cs xs cur (thread_mem s)\<rparr>"
  note same = left_mem_at [OF assms, of _ regs cs]
  show "run_queue ?s xs"
    using cur run_queue_thread [OF q] by (intro run_queue_cong [OF q]) (auto simp: left_mem_def left_thread_def split: option.splits)
  show "locks_binary s xs \<Longrightarrow> locks_binary ?s xs" using same by (simp add: locks_binary_def left_thread_def)
  show "i < length xs \<Longrightarrow> task_free ?s xs i \<longleftrightarrow> cur = Some i \<or> task_free s xs i" using same by (simp add: task_free_def left_thread_def)
  show "pid (the (left_mem regs cs xs cur (thread_mem s) a)) = pid (the (thread_mem s a))"
    "fpu_state (the (left_mem regs cs xs cur (thread_mem s) a)) = fpu_state (the (thread_mem s a))"
    by (simp_all add: left_mem_def left_thread_def split: option.split)
qed

lemma left_bytes_mapped: "mapped (bytes s) p n \<Longrightarrow> mapped (left_bytes s xs cur) p n"
  by (simp add: left_bytes_def saved_mapped split: option.split)

lemma idle_ok:
  assumes "cpu_is_inited s" and "pt_mem s (KernelPageMap s) = Some pt"
  shows "\<exists>s'. arch_scheduler_idle s = Inr (Idled, s') \<and> thread_mem s' = thread_mem s \<and> ActiveTasks s' = ActiveTasks s
    \<and> TotalActiveTasks s' = TotalActiveTasks s \<and> satp s' = riscv_vmm_create_satp s (pt_entries pt) \<and> arch_interrupts_enabled s'
    \<and> cpu_struct s' = (cpu_struct s)\<lparr>currentPid := - 1, currentTid := - 1, currentTaskID := - 1\<rparr>
    \<and> lock (SchedulerLock s') = 0 \<and> lock (EntrySchedulerLock s') = 0 \<and> process_lock s' = process_lock s
    \<and> bytes s' = bytes s \<and> ksched.more s' = ksched.more s"
  using assms by (simp add: arch_scheduler_idle_def vmm_set_pt_def ld_pt_def unlock_locks_eq arch_cpu_set_current_taskid_def
      arch_cpu_set_current_pid_def arch_cpu_set_current_tid_def riscv_cpu_inited_def arch_enable_interrupts_def arch_interrupts_enabled_def
      sie_set_bit [unfolded One_nat_def] SSATUS_SIE_def bit_simps Let_def)

lemma pick_cong: "0 < N \<Longrightarrow> (\<And>i. i < N \<Longrightarrow> f i = g i) \<Longrightarrow> pick N d k f = pick N d k g"
  by (induction d arbitrary: k) simp_all

text \<open>The guards and locks in front of a turn.\<close>

definition sched_entered :: "'a ksched_scheme \<Rightarrow> 'a ksched_scheme" where
  "sched_entered s = (let s = s\<lparr>sstatus := sstatus s AND NOT SSATUS_SIE\<rparr>;
     s = s\<lparr>EntrySchedulerLock := (EntrySchedulerLock s)\<lparr>lock := 1, last_acquirer := acquirer_of (''scheduler.c'', ''scheduler_schedule'', 91) s\<rparr>\<rparr>
     in s\<lparr>SchedulerLock := (SchedulerLock s)\<lparr>lock := 1, last_acquirer := acquirer_of (''scheduler.c'', ''scheduler_schedule'', 93) s\<rparr>\<rparr>)"

lemma sched_entered_fields [simp]:
  "thread_mem (sched_entered s) = thread_mem s" "proc_mem (sched_entered s) = proc_mem s" "pt_mem (sched_entered s) = pt_mem s"
  "ActiveTasks (sched_entered s) = ActiveTasks s" "TotalActiveTasks (sched_entered s) = TotalActiveTasks s"
  "ProcessTable (sched_entered s) = ProcessTable s" "process_lock (sched_entered s) = process_lock s" "cpu_struct (sched_entered s) = cpu_struct s"
  "cpu_is_inited (sched_entered s) = cpu_is_inited s" "KernelPageMap (sched_entered s) = KernelPageMap s" "cpu_address (sched_entered s) = cpu_address s"
  "bytes (sched_entered s) = bytes s" "fregs (sched_entered s) = fregs s" "fcsr (sched_entered s) = fcsr s" "ksched.more (sched_entered s) = ksched.more s"
  "satp (sched_entered s) = satp s" "max_level (sched_entered s) = max_level s" "riscv_vmm_create_satp (sched_entered s) = riscv_vmm_create_satp s"
  by (simp_all add: sched_entered_def Let_def riscv_vmm_create_satp_def fun_eq_iff)

lemma sched_entered_areas [simp]:
  "left_bytes (sched_entered s) xs cur = left_bytes s xs cur" "fpu_areas (sched_entered s) xs cur = fpu_areas s xs cur"
  by (simp_all add: left_bytes_def fpu_areas_def saved_bytes_def split: option.split)

lemma schedule_entered:
  assumes "SchedulerRunning s" and "cpu_is_inited s" and "preemptCounter (cpu_struct s) = 0" and "lock (EntrySchedulerLock s) = 0" and "lock (SchedulerLock s) = 0"
  shows "scheduler_schedule regs s = bnd (leave_task regs (sched_entered s)) (\<lambda>s1.
     bnd (scheduler_get_next_task (currentTaskID (cpu_struct s)) s1) (\<lambda>(nextTask, s2).
     if nextTask = NULL then arch_scheduler_idle s2 else enter_task (currentPid (cpu_struct s)) nextTask s2))"
proof -
  have "arch_cpu_get_current_pid (sched_entered s) = currentPid (cpu_struct s)"
    "arch_cpu_get_current_taskid (sched_entered s) = currentTaskID (cpu_struct s)"
    using assms(2) by (simp_all add: arch_cpu_get_current_pid_def arch_cpu_get_current_taskid_def riscv_cpu_inited_def get_cpu_struct_def)
  moreover have "scheduler_schedule regs s = bnd (leave_task regs (sched_entered s)) (\<lambda>s1.
     bnd (scheduler_get_next_task (arch_cpu_get_current_taskid (sched_entered s)) s1) (\<lambda>(nextTask, s2).
     if nextTask = NULL then arch_scheduler_idle s2 else enter_task (arch_cpu_get_current_pid (sched_entered s)) nextTask s2))"
  proof -
    define s1 where "s1 = s\<lparr>sstatus := sstatus s AND NOT SSATUS_SIE\<rparr>"
    define l1 where "l1 = (EntrySchedulerLock s1)\<lparr>lock := 1, last_acquirer := acquirer_of (''scheduler.c'', ''scheduler_schedule'', 91) s1\<rparr>"
    define s2 where "s2 = s1\<lparr>EntrySchedulerLock := l1\<rparr>"
    define l2 where "l2 = (SchedulerLock s2)\<lparr>lock := 1, last_acquirer := acquirer_of (''scheduler.c'', ''scheduler_schedule'', 93) s2\<rparr>"
    have s3: "s2\<lparr>SchedulerLock := l2\<rparr> = sched_entered s" by (simp add: sched_entered_def s2_def l1_def l2_def s1_def Let_def)
    have "arch_disable_interrupts s = (sstatus s AND SSATUS_SIE \<noteq> 0, s1)" by (simp add: arch_disable_interrupts_def s1_def Let_def)
    moreover have "(\<not> SchedulerRunning s1 \<or> arch_cpu_get_preempt_counter s1 > 0) = False"
      using assms(1-3) by (simp add: s1_def arch_cpu_get_preempt_counter_def riscv_cpu_inited_def get_cpu_struct_def)
    moreover have "spinlock_lock_skippreempt (''scheduler.c'', ''scheduler_schedule'', 91) (EntrySchedulerLock s1) s1 = Inr (l1, s1)"
      using assms(4) by (simp add: s1_def l1_def lock_skip_free)
    moreover have "spinlock_try_lock_skippreempt (''scheduler.c'', ''scheduler_schedule'', 93) (SchedulerLock s2) s2 = (0, l2, s2)"
      using assms(5) by (simp add: s2_def l2_def s1_def try_skip_free)
    ultimately show ?thesis
      unfolding scheduler_schedule_def Let_def by (simp only: prod.case if_False bnd_Inr s2_def [symmetric] s3 simp_thms)
  qed
  ultimately show ?thesis by (simp only:)
qed

text \<open>What \<open>scheduler_add_task\<close> does under the entry lock.\<close>

lemma entry_section:
  assumes q: "run_queue s xs" and free: "lock (EntrySchedulerLock s) = 0" and a: "thread_mem s a = Some t" "a \<noteq> NULL" "a \<noteq> - 1" "taskID t = - 1"
  obtains s2 s3 where "entry_lock s = Inr s2" and "find_task_slot 0 s2 = (if length xs < 512 then Some (of_nat (length xs)) else None)"
    and "thread_mem s2 a = Some t"
    and "s3 = (if length xs < 512 then s2\<lparr>thread_mem := (thread_mem s2)(a \<mapsto> t\<lparr>taskID := of_nat (length xs)\<rparr>),
      ActiveTasks := (ActiveTasks s2)(length xs := a), TotalActiveTasks := TotalActiveTasks s2 + 1\<rparr> else s2)"
    and "if length xs < 512 then run_queue (entry_unlock s3) (xs @ [a]) else run_queue (entry_unlock s3) xs"
    and "thread_mem (entry_unlock s3) = (if length xs < 512 then (thread_mem s)(a \<mapsto> t\<lparr>taskID := of_nat (length xs)\<rparr>) else thread_mem s)"
    and "proc_mem (entry_unlock s3) = proc_mem s" and "process_lock (entry_unlock s3) = process_lock s"
    and "lock (EntrySchedulerLock (entry_unlock s3)) = 0" and "cpu_struct (entry_unlock s3) = cpu_struct s"
    and "cpu_is_inited (entry_unlock s3) = cpu_is_inited s"
proof -
  define s2 where "s2 = (arch_cpu_increment_preempt_counter s)\<lparr>EntrySchedulerLock := (EntrySchedulerLock s)\<lparr>lock := 1,
    last_acquirer := acquirer_of (''scheduler.c'', ''scheduler_add_task'', 39) s\<rparr>\<rparr>"
  define s3 where "s3 = (if length xs < 512 then s2\<lparr>thread_mem := (thread_mem s2)(a \<mapsto> t\<lparr>taskID := of_nat (length xs)\<rparr>),
    ActiveTasks := (ActiveTasks s2)(length xs := a), TotalActiveTasks := TotalActiveTasks s2 + 1\<rparr> else s2)"
  have same: "thread_mem s2 = thread_mem s" "proc_mem s2 = proc_mem s" "process_lock s2 = process_lock s" by (simp_all add: s2_def)
  have q2: "run_queue s2 xs" by (rule run_queue_same [OF q]) (simp_all add: s2_def)
  have un: "thread_mem (entry_unlock s3) = thread_mem s3" "ActiveTasks (entry_unlock s3) = ActiveTasks s3"
    "TotalActiveTasks (entry_unlock s3) = TotalActiveTasks s3" by (simp_all add: entry_unlock_def)
  have q3: "if length xs < 512 then run_queue s3 (xs @ [a]) else run_queue s3 xs"
    using q2 run_queue_append [OF q2 _ _ a(2-4), of s3] a(1) same(1) by (simp add: s3_def)
  show ?thesis
  proof (rule that [OF _ _ _ s3_def])
    show "entry_lock s = Inr s2" using free by (simp add: entry_lock_def s2_def)
    show "find_task_slot 0 s2 = (if length xs < 512 then Some (of_nat (length xs)) else None)" using find_task_slot_eq [OF q2, of 0] by simp
    show "thread_mem s2 a = Some t" using a(1) same(1) by simp
    show "if length xs < 512 then run_queue (entry_unlock s3) (xs @ [a]) else run_queue (entry_unlock s3) xs"
      using q3 un run_queue_same [of s3 _ "entry_unlock s3"] by (simp split: if_splits)
    show "cpu_struct (entry_unlock s3) = cpu_struct s" "cpu_is_inited (entry_unlock s3) = cpu_is_inited s"
      by (simp_all add: s3_def s2_def entry_unlock_def arch_cpu_increment_preempt_counter_def arch_cpu_decrement_preempt_counter_def riscv_cpu_inited_def)
  qed (simp_all add: same s3_def entry_unlock_def)
qed

section \<open>Properties\<close>

text \<open>
  A machine with one process of three threads: task 0 runs on the CPU, task 1 waits for its turn, and
  the third thread was not added yet. The process is the kernel, so no FPU state is saved.
\<close>

definition demo_thread :: "u64 \<Rightarrow> u64 \<Rightarrow> u32 \<Rightarrow> thread_t" where
  "demo_thread i task l = zero_thread\<lparr>tid := i, taskID := task, thread_lk := INIT_SPINLOCK\<lparr>lock := l\<rparr>\<rparr>"

definition demo_process :: process_t where
  "demo_process = \<lparr>proc_pid = 0, page_table = 0xFFFF80000000F000, threads = 0x500, proc_lk = INIT_SPINLOCK,
     current_alloc_address = BASE_ALLOC_ADDRESS, alloc_lk = INIT_SPINLOCK, parent_pid = 0\<rparr>"

definition demo_fpu :: kfpu where
  "demo_fpu = kvmm.extend (demo_vmm\<lparr>KernelPageMap := 0xFFFF80000000F000, cpu_struct := demo_cpu\<lparr>preemptCounter := 0, currentPid := 0, currentTid := 0, currentTaskID := 0\<rparr>\<rparr>)
     \<lparr>fregs = (\<lambda>_. 0), fcsr = 0\<rparr>"

definition demo_sched :: ksched where
  "demo_sched = kfpu.extend demo_fpu
     \<lparr>proc_mem = [0x100 \<mapsto> demo_process], thread_mem = [0x200 \<mapsto> demo_thread 0 0 1, 0x300 \<mapsto> demo_thread 1 1 0, 0x400 \<mapsto> demo_thread 2 (- 1) 0],
      tarr_mem = [0x500 \<mapsto> ((\<lambda>_. NULL)(0 := 0x200, 1 := 0x300, 2 := 0x400))], ProcessTable = (\<lambda>_. NULL)(0 := 0x100), process_lock = INIT_SPINLOCK,
      ActiveTasks = (\<lambda>_. NULL)(0 := 0x200, 1 := 0x300), TotalActiveTasks = 2, SchedulerRunning = True, EntrySchedulerLock = INIT_SPINLOCK,
      SchedulerLock = INIT_SPINLOCK, cpu_address = 0x1000, save_size = 0\<rparr>"

lemma demo_sched_fields [simp]:
  "proc_mem demo_sched = [0x100 \<mapsto> demo_process]"
  "thread_mem demo_sched = [0x200 \<mapsto> demo_thread 0 0 1, 0x300 \<mapsto> demo_thread 1 1 0, 0x400 \<mapsto> demo_thread 2 (- 1) 0]"
  "tarr_mem demo_sched = [0x500 \<mapsto> ((\<lambda>_. NULL)(0 := 0x200, 1 := 0x300, 2 := 0x400))]" "ProcessTable demo_sched = (\<lambda>_. NULL)(0 := 0x100)"
  "process_lock demo_sched = INIT_SPINLOCK" "EntrySchedulerLock demo_sched = INIT_SPINLOCK" "SchedulerLock demo_sched = INIT_SPINLOCK"
  "ActiveTasks demo_sched = (\<lambda>_. NULL)(0 := 0x200, 1 := 0x300)" "TotalActiveTasks demo_sched = 2" "SchedulerRunning demo_sched"
  "cpu_is_inited demo_sched" "cpu_struct demo_sched = demo_cpu\<lparr>preemptCounter := 0, currentPid := 0, currentTid := 0, currentTaskID := 0\<rparr>"
  "KernelPageMap demo_sched = 0xFFFF80000000F000" "pt_mem demo_sched = [0xFFFF80000000F000 \<mapsto> \<lparr>pt_entries = 0x1000, pt_lk = INIT_SPINLOCK\<rparr>]"
  "cpu_address demo_sched = 0x1000"
  by (simp_all add: demo_sched_def kfpu.defs demo_fpu_def kvmm.defs demo_vmm_def demo_lists_def klists.defs)

lemma demo_run_queue: "run_queue demo_sched [0x200, 0x300]"
  by (auto simp: run_queue_def demo_thread_def zero_thread_def less_Suc_eq nth_Cons')

lemma demo_fpu_areas: "fpu_areas demo_sched [0x200, 0x300] (Some 0)"
  by (auto simp: fpu_areas_def demo_thread_def zero_thread_def less_Suc_eq)

text \<open>Adding a task of a process that is there, under its lock.\<close>

lemma add_task_present:
  assumes "run_queue s xs" and "p < MAX_PROCESSES" and "i < MAX_THREADS" and "lock (process_lock s) = 0" and "lock (EntrySchedulerLock s) = 0"
    and "proc_mem s (ProcessTable s (unat p)) = Some x" and "lock (proc_lk x) = 0" and "ProcessTable s (unat p) \<noteq> NULL"
    and "tarr_mem s (threads x) = Some f" and "f (unat i) \<noteq> NULL \<longrightarrow> thread_mem s (f (unat i)) = Some t" and "f (unat i) \<noteq> - 1"
  shows "\<exists>r s' x'. scheduler_add_task p i s = Inr (r, s')
    \<and> (if f (unat i) \<noteq> NULL \<and> taskID t = - 1 \<and> length xs < 512
       then r = of_nat (length xs) \<and> run_queue s' (xs @ [f (unat i)])
         \<and> thread_mem s' = (thread_mem s)(f (unat i) \<mapsto> t\<lparr>taskID := of_nat (length xs)\<rparr>)
       else r = - 1 \<and> run_queue s' xs \<and> thread_mem s' = thread_mem s)
    \<and> proc_mem s' = (proc_mem s)(ProcessTable s (unat p) \<mapsto> x') \<and> threads x' = threads x \<and> lock (proc_lk x') = 0
    \<and> lock (process_lock s') = 0 \<and> lock (EntrySchedulerLock s') = 0 \<and> cpu_struct s' = cpu_struct s"
proof -
  let ?q = "ProcessTable s (unat p)" and ?a = "f (unat i)"
  obtain s1 lk where s1: "process_get_process p s = Inr (?q, s1)" "tasks_same s s1" "proc_mem s1 = (proc_mem s)(?q \<mapsto> x\<lparr>proc_lk := lk\<rparr>)"
    "lock (process_lock s1) = 0" "EntrySchedulerLock s1 = EntrySchedulerLock s" "cpu_is_inited s1 = cpu_is_inited s"
    "cpu_struct s1 = cpu_struct (arch_cpu_increment_preempt_counter s)"
    using process_get_process_ok [OF assms(2,4,6,7)] .
  have ld: "ld_proc s1 ?q = Inr (x\<lparr>proc_lk := lk\<rparr>)" "ld_tarr s1 (threads x) i = Inr ?a" "?a \<noteq> NULL \<longrightarrow> ld_thread s1 ?a = Inr t"
    using s1(2,3) assms(3,9,10)
    by (simp_all add: ld_proc_def ld_tarr_def ld_thread_def tasks_same_def THREAD_ARRAY_LENGTH_def sizeof_thread_t_def MAX_THREADS_def word_less_nat_alt)
  have q1: "run_queue s1 xs" using s1(2) by (intro run_queue_cong [OF assms(1)]) (simp_all add: tasks_same_def)
  have px: "proc_mem s1 ?q = Some (x\<lparr>proc_lk := lk\<rparr>)" using s1(3) by simp
  show ?thesis
  proof (cases "?a \<noteq> NULL \<and> taskID t = - 1")
    case False
    obtain s2 where s2: "proc_unlock ?q s1 = Inr s2" "tasks_same s1 s2" "proc_mem s2 = (proc_mem s1)(?q \<mapsto> x\<lparr>proc_lk := lk\<lparr>lock := 0\<rparr>\<rparr>)"
      "process_lock s2 = process_lock s1" "EntrySchedulerLock s2 = EntrySchedulerLock s1" "cpu_struct s2 = cpu_struct (arch_cpu_decrement_preempt_counter s1)"
      using proc_unlock_ok [OF px] by auto
    have "scheduler_add_task p i s = Inr (- 1, s2)" using s1(1) ld s2(1) False assms(8) by (cases "?a = NULL") (simp_all add: scheduler_add_task_def)
    moreover have "run_queue s2 xs" using s2(2) by (intro run_queue_cong [OF q1]) (simp_all add: tasks_same_def)
    moreover have "\<not> (?a \<noteq> NULL \<and> taskID t = - 1 \<and> length xs < 512)" using False by blast
    ultimately show ?thesis using s1 s2 assms(5) counter_back [OF s1(7,6)]
      by (intro exI [of _ "- 1"] exI [of _ s2] exI [of _ "x\<lparr>proc_lk := lk\<lparr>lock := 0\<rparr>\<rparr>"]) (simp only: if_False, simp add: tasks_same_def)
  next
    case True
    have a1: "lock (EntrySchedulerLock s1) = 0" "thread_mem s1 ?a = Some t" using True s1(2,5) assms(5,10) by (simp_all add: tasks_same_def)
    let ?m = "if length xs < 512 then (thread_mem s1)(?a \<mapsto> t\<lparr>taskID := of_nat (length xs)\<rparr>) else thread_mem s1"
    from entry_section [OF q1 a1 conjunct1 [OF True] assms(11) conjunct2 [OF True]] obtain s2 s3
      where s2: "entry_lock s1 = Inr s2" "find_task_slot 0 s2 = (if length xs < 512 then Some (of_nat (length xs)) else None)" "thread_mem s2 ?a = Some t"
      and s3: "s3 = (if length xs < 512 then s2\<lparr>thread_mem := (thread_mem s2)(?a \<mapsto> t\<lparr>taskID := of_nat (length xs)\<rparr>),
        ActiveTasks := (ActiveTasks s2)(length xs := ?a), TotalActiveTasks := TotalActiveTasks s2 + 1\<rparr> else s2)"
      and s4: "if length xs < 512 then run_queue (entry_unlock s3) (xs @ [?a]) else run_queue (entry_unlock s3) xs" "thread_mem (entry_unlock s3) = ?m"
        "proc_mem (entry_unlock s3) = proc_mem s1" "process_lock (entry_unlock s3) = process_lock s1" "lock (EntrySchedulerLock (entry_unlock s3)) = 0"
        "cpu_struct (entry_unlock s3) = cpu_struct s1" "cpu_is_inited (entry_unlock s3) = cpu_is_inited s1" .
    obtain s5 where s5: "proc_unlock ?q (entry_unlock s3) = Inr s5" "tasks_same (entry_unlock s3) s5"
      "proc_mem s5 = (proc_mem s1)(?q \<mapsto> x\<lparr>proc_lk := lk\<lparr>lock := 0\<rparr>\<rparr>)" "process_lock s5 = process_lock s1"
      "EntrySchedulerLock s5 = EntrySchedulerLock (entry_unlock s3)" "cpu_struct s5 = cpu_struct (arch_cpu_decrement_preempt_counter (entry_unlock s3))"
      using proc_unlock_ok [of "entry_unlock s3" ?q "x\<lparr>proc_lk := lk\<rparr>"] px s4(3,4) by auto
    have q5: "if length xs < 512 then run_queue s5 (xs @ [?a]) else run_queue s5 xs"
      using s4(1) s5(2) run_queue_same [of "entry_unlock s3" _ s5] by (simp add: tasks_same_def split: if_splits)
    have cpu: "cpu_struct s5 = cpu_struct s" using s5(6) counter_back [of "entry_unlock s3" s] s4(6,7) s1(6,7) by simp
    have u: "unat (of_nat (length xs) :: u64) = length xs" using assms(1) by (intro unat_of_nat_u64) (simp add: run_queue_def)
    have "scheduler_add_task p i s = Inr (if length xs < 512 then of_nat (length xs) else - 1, s5)"
      using s1(1) ld True assms(8) s2 s3 s5(1) u by (auto simp: scheduler_add_task_def up_thread_def ld_thread_def Let_def)
    then show ?thesis using True q5 s5 s4 s1(2-4) cpu
      by (intro exI [of _ "if length xs < 512 then of_nat (length xs) else - 1"] exI [of _ s5] exI [of _ "x\<lparr>proc_lk := lk\<lparr>lock := 0\<rparr>\<rparr>"])
        (simp add: tasks_same_def)
  qed
qed

text \<open>What a process must be like for a task of it to be added: its lock free, and a thread in the slot or none.\<close>

definition task_slot :: "'a ksched_scheme \<Rightarrow> process_t \<Rightarrow> u64 \<Rightarrow> addr" where
  "task_slot s x i = the (tarr_mem s (threads x)) (unat i)"

definition proc_usable :: "'a ksched_scheme \<Rightarrow> process_t \<Rightarrow> u64 \<Rightarrow> bool" where
  "proc_usable s x i \<longleftrightarrow> lock (proc_lk x) = 0 \<and> tarr_mem s (threads x) \<noteq> None \<and> task_slot s x i \<noteq> - 1 \<and>
     (task_slot s x i \<noteq> NULL \<longrightarrow> thread_mem s (task_slot s x i) \<noteq> None)"

text \<open>
  Property C33. Adding a task, on every path. A process number out of range gives -1 and changes
  nothing; a number in range without a process is a fault, since the code takes the lock of the
  process before it tests the pointer. For a process that is there, a thread that has no task number
  yet gets the next one and goes to the end of the run queue, which stays well formed; an empty slot,
  a thread that has a task number, and a queue of 512 tasks give -1 and leave the queue and the
  threads alone. When the call returns the locks are released and the preemption counter is as before.
\<close>

theorem scheduler_add_task_appends:
  assumes "run_queue s xs" and "i < MAX_THREADS" and "lock (process_lock s) = 0" and "lock (EntrySchedulerLock s) = 0"
    and "proc_mem s NULL = None" and "\<forall>x. proc_mem s (ProcessTable s (unat p)) = Some x \<longrightarrow> proc_usable s x i"
  shows "if MAX_PROCESSES \<le> p then scheduler_add_task p i s = Inr (- 1, s)
    else case proc_mem s (ProcessTable s (unat p)) of
      None \<Rightarrow> scheduler_add_task p i s = Inl Fault
    | Some x \<Rightarrow> (let a = task_slot s x i; t = the (thread_mem s a) in
        \<exists>r s' x'. scheduler_add_task p i s = Inr (r, s')
        \<and> (if a \<noteq> NULL \<and> taskID t = - 1 \<and> length xs < 512
           then r = of_nat (length xs) \<and> run_queue s' (xs @ [a]) \<and> thread_mem s' = (thread_mem s)(a \<mapsto> t\<lparr>taskID := of_nat (length xs)\<rparr>)
           else r = - 1 \<and> run_queue s' xs \<and> thread_mem s' = thread_mem s)
        \<and> proc_mem s' = (proc_mem s)(ProcessTable s (unat p) \<mapsto> x') \<and> threads x' = threads x \<and> lock (proc_lk x') = 0
        \<and> lock (process_lock s') = 0 \<and> lock (EntrySchedulerLock s') = 0 \<and> cpu_struct s' = cpu_struct s)"
proof (cases "MAX_PROCESSES \<le> p")
  case True
  then show ?thesis by (simp add: scheduler_add_task_def process_get_process_def)
next
  case False
  then have p: "p < MAX_PROCESSES" by simp
  show ?thesis
  proof (cases "proc_mem s (ProcessTable s (unat p))")
    case None
    then have "scheduler_add_task p i s = Inl Fault"
      using False assms(3) by (simp add: scheduler_add_task_def process_get_process_def process_table_lock_def proc_lock_def ld_proc_def)
    then show ?thesis using False None by simp
  next
    case (Some x)
    then obtain f where u: "lock (proc_lk x) = 0" "tarr_mem s (threads x) = Some f" "f (unat i) \<noteq> - 1"
      "f (unat i) \<noteq> NULL \<longrightarrow> thread_mem s (f (unat i)) = Some (the (thread_mem s (f (unat i))))"
      using assms(6) by (auto simp: proc_usable_def task_slot_def)
    have "ProcessTable s (unat p) \<noteq> NULL" using Some assms(5) by (metis option.distinct(1))
    from add_task_present [OF assms(1) p assms(2-4) Some u(1) this u(2,4,3)] show ?thesis
      using False Some u(2) by (simp add: task_slot_def Let_def)
  qed
qed

text \<open>Going round the whole queue always comes back to the current task.\<close>

lemma pick_current:
  assumes "c < N" and "free c"
  shows "pick N N (c + 1) free \<noteq> None"
proof
  assume "pick N N (c + 1) free = None"
  then have "\<not> free ((c + 1 + (N - 1)) mod N)" using assms(1) unfolding pick_None by (meson diff_less less_le_trans zero_less_one le0 not_less not_gr0)
  then show False using assms by simp
qed

lemma taken_fields [simp]:
  "proc_mem (task_taken a s) = proc_mem s" "pt_mem (task_taken a s) = pt_mem s" "ProcessTable (task_taken a s) = ProcessTable s"
  "process_lock (task_taken a s) = process_lock s" "cpu_struct (task_taken a s) = cpu_struct s" "cpu_is_inited (task_taken a s) = cpu_is_inited s"
  "cpu_address (task_taken a s) = cpu_address s" "satp (task_taken a s) = satp s" "riscv_vmm_create_satp (task_taken a s) = riscv_vmm_create_satp s"
  "ActiveTasks (task_taken a s) = ActiveTasks s" "TotalActiveTasks (task_taken a s) = TotalActiveTasks s"
  "bytes (task_taken a s) = bytes s" "ksched.more (task_taken a s) = ksched.more s"
  by (simp_all add: task_taken_def riscv_vmm_create_satp_def fun_eq_iff)

text \<open>Entering the task that the search took.\<close>

lemma enter_taken:
  assumes q: "run_queue s xs" and k: "k < length xs" and "cpu_is_inited s" and "lock (process_lock s) = 0"
    and fpu: "pid (the (thread_mem s (xs ! k))) \<noteq> 0 \<longrightarrow> mapped (bytes s) (fpu_state (the (thread_mem s (xs ! k)))) 264"
    and "proc_ready s (pid (the (thread_mem s (xs ! k))))" and "curPid = - 1 \<or> proc_ready s curPid"
  shows "\<exists>s'. enter_task curPid (xs ! k) (task_taken (xs ! k) s) = Inr (Switched (xs ! k), s') \<and> run_queue s' xs
    \<and> lock (EntrySchedulerLock s') = 0 \<and> lock (SchedulerLock s') = 0 \<and> lock (process_lock s') = 0
    \<and> bytes s' = bytes s \<and> ksched.more s' = ksched.more s
    \<and> (let t = the (thread_mem s (xs ! k)) in runs_thread t (cpu_struct s) (cpu_struct s') \<and> currentTaskID (cpu_struct s') = of_nat k \<and>
       switch_satp s curPid (pid t) (satp s') \<and> fpu_loaded t (cpu_struct s) (bytes s) (fregs s') \<and>
       (\<exists>lk. lock lk = 1 \<and> thread_mem s' = (thread_mem s)(xs ! k \<mapsto>
         t\<lparr>thread_lk := lk, cpu_number := currentCpu (cpu_struct s), saved_regs := (saved_regs t)(TP := cpu_address s)\<rparr>)))"
proof -
  obtain t where t: "thread_mem s (xs ! k) = Some t" "taskID t = of_nat k" using run_queue_thread [OF q k] .
  define lk where "lk = (thread_lk t)\<lparr>lock := 1, last_acquirer := acquirer_of (''scheduler.c'', ''scheduler_get_next_task'', 70) s\<rparr>"
  define u where "u = t\<lparr>thread_lk := lk\<rparr>"
  have mem: "thread_mem (task_taken (xs ! k) s) = (thread_mem s)(xs ! k \<mapsto> u)" using t(1) by (simp add: task_taken_def u_def lk_def)
  have u: "pid u = pid t" "tid u = tid t" "taskID u = of_nat k" "saved_regs u = saved_regs t" "ustack_address u = ustack_address t"
    "kstack_address u = kstack_address t" "fpu_state u = fpu_state t" using t(2) by (simp_all add: u_def)
  have rd: "proc_ready (task_taken (xs ! k) s) = proc_ready s" by (simp add: proc_ready_def fun_eq_iff)
  have area: "pid u \<noteq> 0 \<longrightarrow> mapped (bytes (task_taken (xs ! k) s)) (fpu_state u) 264" using fpu t(1) u(1,7) by simp
  obtain s' where s': "enter_task curPid (xs ! k) (task_taken (xs ! k) s) = Inr (Switched (xs ! k), s')" "runs_thread u (cpu_struct s) (cpu_struct s')"
    "thread_mem s' = (thread_mem s)(xs ! k \<mapsto> u\<lparr>cpu_number := currentCpu (cpu_struct s), saved_regs := (saved_regs u)(TP := cpu_address s)\<rparr>)"
    "ActiveTasks s' = ActiveTasks s" "TotalActiveTasks s' = TotalActiveTasks s" "switch_satp (task_taken (xs ! k) s) curPid (pid u) (satp s')"
    "lock (SchedulerLock s') = 0" "lock (EntrySchedulerLock s') = 0" "lock (process_lock s') = 0" "bytes s' = bytes s" "ksched.more s' = ksched.more s"
    "fpu_loaded u (cpu_struct s) (bytes s) (fregs s')"
    using enter_task_ok [OF area, of "xs ! k" curPid] assms(3,4,6,7) mem t(1) u(1) unfolding rd by auto
  have "run_queue s' xs" using s'(3-5) t u(3) by (intro run_queue_cong [OF q]) auto
  moreover have "switch_satp s curPid (pid t) (satp s')" using s'(6) unfolding switch_satp_def taken_fields u(1) .
  moreover have "runs_thread t (cpu_struct s) (cpu_struct s')" "currentTaskID (cpu_struct s') = of_nat k" "fpu_loaded t (cpu_struct s) (bytes s) (fregs s')"
    using s'(2,12) u t(2) by (simp_all add: runs_thread_def fpu_loaded_def)
  moreover have "lock lk = 1" "u\<lparr>cpu_number := n, saved_regs := r\<rparr> = t\<lparr>thread_lk := lk, cpu_number := n, saved_regs := r\<rparr>" for n r
    by (simp_all add: lk_def u_def)
  ultimately show ?thesis using s'(1,3,7-11) t(1) u(4) by (intro exI [of _ s']) (auto simp: Let_def)
qed

theorem scheduler_add_task_appends_witness:
  "(\<exists>s'. scheduler_add_task 0 2 demo_sched = Inr (2, s') \<and> run_queue s' [0x200, 0x300, 0x400])
   \<and> (\<exists>s'. scheduler_add_task 0 7 demo_sched = Inr (- 1, s') \<and> run_queue s' [0x200, 0x300])
   \<and> scheduler_add_task 256 0 demo_sched = Inr (- 1, demo_sched) \<and> scheduler_add_task 5 0 demo_sched = Inl Fault"
proof -
  have use: "proc_usable demo_sched demo_process i" if "i = 2 \<or> i = 7 \<or> i = 0" for i
    using that by (auto simp: proc_usable_def task_slot_def demo_process_def INIT_SPINLOCK_def)
  note add = scheduler_add_task_appends [OF demo_run_queue]
  show ?thesis
    using add [of 2 0] add [of 7 0] add [of 0 256] add [of 0 5] use
    by (auto simp: MAX_PROCESSES_def MAX_THREADS_def task_slot_def demo_process_def INIT_SPINLOCK_def demo_thread_def zero_thread_def Let_def)
qed

text \<open>One turn of the scheduler, as the property below and the interrupt handlers use it.\<close>

lemma schedule_turn:
  assumes "fpu_areas s xs cur" and "run_queue s xs" and "0 < length xs" and "length xs < 512" and "locks_binary s xs" and "set_option cur \<subseteq> {..<length xs}"
    and "currentTaskID (cpu_struct s) = task_number cur" and "SchedulerRunning s" and "cpu_is_inited s" and "preemptCounter (cpu_struct s) = 0"
    and "lock (EntrySchedulerLock s) = 0" and "lock (SchedulerLock s) = 0" and "lock (process_lock s) = 0"
    and "\<forall>i<length xs. proc_ready s (pid (the (thread_mem s (xs ! i))))"
    and "currentPid (cpu_struct s) = - 1 \<or> proc_ready s (currentPid (cpu_struct s))" and "pt_mem s (KernelPageMap s) = Some pt"
  shows "\<exists>e s'. scheduler_schedule regs s = Inr (e, s') \<and> run_queue s' xs
    \<and> lock (EntrySchedulerLock s') = 0 \<and> lock (SchedulerLock s') = 0 \<and> lock (process_lock s') = 0
    \<and> bytes s' = left_bytes s xs cur \<and> ipiType (cpu_struct s') = ipiType (cpu_struct s) \<and> ksched.more s' = ksched.more s
    \<and> (case pick (length xs) (length xs) (turn_start cur) (\<lambda>i. cur = Some i \<or> task_free s xs i) of
         None \<Rightarrow> e = Idled \<and> thread_mem s' = thread_mem s \<and> currentTaskID (cpu_struct s') = - 1 \<and> arch_interrupts_enabled s'
       | Some k \<Rightarrow> e = Switched (xs ! k) \<and> (let t = the (left_mem regs (cpu_struct s) xs cur (thread_mem s) (xs ! k)) in
           runs_thread t (cpu_struct s) (cpu_struct s') \<and> currentTaskID (cpu_struct s') = of_nat k \<and>
           switch_satp s (currentPid (cpu_struct s)) (pid t) (satp s') \<and> fpu_loaded t (cpu_struct s) (bytes s') (fregs s') \<and>
           (\<exists>lk. lock lk = 1 \<and> thread_mem s' = (left_mem regs (cpu_struct s) xs cur (thread_mem s))(xs ! k \<mapsto>
             t\<lparr>thread_lk := lk, cpu_number := currentCpu (cpu_struct s), saved_regs := (saved_regs t)(TP := cpu_address s)\<rparr>))))"
proof -
  let ?N = "length xs" and ?lm = "left_mem regs (cpu_struct s) xs cur (thread_mem s)"
  have q0: "run_queue (sched_entered s) xs" by (rule run_queue_cong [OF assms(2)]) auto
  obtain st where lv: "leave_task regs (sched_entered s) = Inr ((sched_entered s)\<lparr>sstatus := st, bytes := left_bytes s xs cur, thread_mem := ?lm\<rparr>)"
    (is "_ = Inr ?s1") using leave_task_cur [of "sched_entered s", OF _ q0 assms(6), of regs] assms(1,7,9) by auto
  note s1 = left_mem_queue(1-3) [OF q0 assms(6), where st = st and m = "left_bytes s xs cur" and regs = regs and cs = "cpu_struct s", simplified]
  have lb1: "locks_binary ?s1 xs" using s1(2) assms(5) by (simp add: locks_binary_def)
  have ts: "unat (currentTaskID (cpu_struct s) + 1) = turn_start cur" "turn_start cur \<le> ?N"
    using turn_start_eq [OF assms(6,4)] assms(7) by simp_all
  have free: "pick ?N ?N (turn_start cur) (task_free ?s1 xs) = pick ?N ?N (turn_start cur) (\<lambda>i. cur = Some i \<or> task_free s xs i)"
    using s1(3) assms(3) by (intro pick_cong) (simp_all add: task_free_def)
  note eq = schedule_entered [OF assms(8-12), of regs]
  note nt = get_next_task_eq [OF s1(1) assms(3,4) lb1, of "currentTaskID (cpu_struct s)", unfolded ts, OF ts(2)]
  show ?thesis
  proof (cases "pick ?N ?N (turn_start cur) (task_free ?s1 xs)")
    case None
    then have "cur = None"
      using pick_current [of "the cur" ?N "\<lambda>i. cur = Some i \<or> task_free s xs i"] assms(6) unfolding free by (cases cur) (simp_all add: turn_start_def)
    then show ?thesis using None eq nt lv idle_ok [of ?s1 pt] assms(9,13,16) run_queue_same [OF assms(2)] unfolding free
      by (auto simp: left_mem_def left_bytes_def)
  next
    case (Some k)
    then have k: "k < ?N" using assms(3) by (auto simp: pick_Some)
    then have "xs ! k \<noteq> NULL" using assms(2) by (auto simp: run_queue_def)
    then have sch: "scheduler_schedule regs s = enter_task (currentPid (cpu_struct s)) (xs ! k) (task_taken (xs ! k) ?s1)"
      using eq nt lv Some by simp
    have pd: "pid (the (?lm (xs ! k))) = pid (the (thread_mem s (xs ! k)))" "fpu_state (the (?lm (xs ! k))) = fpu_state (the (thread_mem s (xs ! k)))"
      using left_mem_queue(4,5) [OF q0 assms(6)] by simp_all
    have area: "pid (the (thread_mem ?s1 (xs ! k))) \<noteq> 0 \<longrightarrow> mapped (bytes ?s1) (fpu_state (the (thread_mem ?s1 (xs ! k)))) 264"
      using assms(1) k pd by (auto simp: fpu_areas_def intro!: left_bytes_mapped)
    have same: "proc_ready ?s1 = proc_ready s" "\<And>p q v. switch_satp ?s1 p q v = switch_satp s p q v"
      by (simp_all add: proc_ready_def switch_satp_def riscv_vmm_create_satp_def fun_eq_iff)
    have rd: "cpu_is_inited ?s1" "lock (process_lock ?s1) = 0" "proc_ready ?s1 (pid (the (thread_mem ?s1 (xs ! k))))"
      "currentPid (cpu_struct s) = - 1 \<or> proc_ready ?s1 (currentPid (cpu_struct s))"
      using assms(9,13-15) k pd(1) unfolding same by simp_all
    from enter_taken [OF s1(1) k rd(1,2) area rd(3,4), unfolded same(2)] obtain s'
      where s': "enter_task (currentPid (cpu_struct s)) (xs ! k) (task_taken (xs ! k) ?s1) = Inr (Switched (xs ! k), s')" "run_queue s' xs"
      "lock (EntrySchedulerLock s') = 0" "lock (SchedulerLock s') = 0" "lock (process_lock s') = 0" "bytes s' = left_bytes s xs cur" "ksched.more s' = ksched.more s"
      and t: "let t = the (?lm (xs ! k)) in runs_thread t (cpu_struct s) (cpu_struct s') \<and> currentTaskID (cpu_struct s') = of_nat k \<and>
         switch_satp s (currentPid (cpu_struct s)) (pid t) (satp s') \<and> fpu_loaded t (cpu_struct s) (left_bytes s xs cur) (fregs s') \<and>
         (\<exists>lk. lock lk = 1 \<and> thread_mem s' = ?lm(xs ! k \<mapsto>
           t\<lparr>thread_lk := lk, cpu_number := currentCpu (cpu_struct s), saved_regs := (saved_regs t)(TP := cpu_address s)\<rparr>))"
      by auto
    have "ipiType (cpu_struct s') = ipiType (cpu_struct s)" using t by (simp add: runs_thread_def Let_def)
    then show ?thesis using sch Some s' t unfolding free by (intro exI [of _ "Switched (xs ! k)"] exI [of _ s']) simp
  qed
qed



end
