(* ===== verification/Trap.thy ===== *)
theory Trap
  imports Sched
begin

text \<open>
  Traps and interrupts between harts: \<open>kernel/arch/riscv64/int.c\<close> from \<open>arch_interrupt_init\<close> on, with
  the timer and the software interrupt of \<open>kernel/arch/riscv64/sbi.h\<close>. Calls of the firmware are
  recorded in the order the code makes them; nothing in the kernel reads their results. Messages on
  the console change nothing the kernel reads. The state is that of the hart that takes the trap,
  with the structures \<open>CPULocals\<close> of all harts.
\<close>

section \<open>State\<close>

datatype sbi_call = Set_timer u64 | Send_ipi u64 u64

text \<open>
  The control registers the code writes, its two counters, the firmware calls so far and the table
  of per-CPU structures. The entry \<open>this_cpu\<close> of the table is the structure of the running hart,
  which the hart itself holds.
\<close>

record ktrap = ksched +
  sscratch :: u64
  stvec :: u64
  sie :: u64
  sip :: u64
  last_timer_event :: u64
  tick_count :: u64
  sbi_calls :: "sbi_call list"
  CPULocals :: "nat \<Rightarrow> cpu_t"
  this_cpu :: nat
  cpu_count :: u32
  cpu_max_hart_id :: u64

definition MAX_CPUS :: nat where
  "MAX_CPUS = 256"

definition ld_cpu :: "'a ktrap_scheme \<Rightarrow> nat \<Rightarrow> cpu_t res" where
  "ld_cpu s i = (if i < MAX_CPUS then Inr (if i = this_cpu s then cpu_struct s else CPULocals s i) else Inl Fault)"

definition up_cpu :: "nat \<Rightarrow> (cpu_t \<Rightarrow> cpu_t) \<Rightarrow> 'a ktrap_scheme \<Rightarrow> 'a ktrap_scheme res" where
  "up_cpu i f s =
     (if i < MAX_CPUS
      then Inr (if i = this_cpu s then s\<lparr>cpu_struct := f (cpu_struct s)\<rparr>
                else s\<lparr>CPULocals := (CPULocals s)(i := f (CPULocals s i))\<rparr>)
      else Inl Fault)"

definition arch_cpu_get_count :: "'a ktrap_scheme \<Rightarrow> size_t" where
  "arch_cpu_get_count s = ucast (cpu_count s)"

definition arch_cpu_get_maxhartid :: "'a ktrap_scheme \<Rightarrow> u64" where
  "arch_cpu_get_maxhartid s = cpu_max_hart_id s"

definition riscv_sbi_set_timer :: "u64 \<Rightarrow> 'a ktrap_scheme \<Rightarrow> 'a ktrap_scheme" where
  "riscv_sbi_set_timer stime_value s = s\<lparr>sbi_calls := sbi_calls s @ [Set_timer stime_value]\<rparr>"

definition riscv_sbi_send_ipi :: "u64 \<Rightarrow> u64 \<Rightarrow> 'a ktrap_scheme \<Rightarrow> 'a ktrap_scheme" where
  "riscv_sbi_send_ipi hart_mask hart_mask_base s = s\<lparr>sbi_calls := sbi_calls s @ [Send_ipi hart_mask hart_mask_base]\<rparr>"

section \<open>Constants\<close>

definition INSTRUCTION_ACCESS_FAULT :: u64 where "INSTRUCTION_ACCESS_FAULT = 1"

definition ILLEGAL_INSTRUCTION :: u64 where "ILLEGAL_INSTRUCTION = 2"

definition LOAD_ACCESS_FAULT :: u64 where "LOAD_ACCESS_FAULT = 5"

definition STORE_AMO_ACCESS_FAULT :: u64 where "STORE_AMO_ACCESS_FAULT = 7"

definition ENV_CALL_FROM_U_MODE :: u64 where "ENV_CALL_FROM_U_MODE = 8"

definition INSTRUCTION_PAGE_FAULT :: u64 where "INSTRUCTION_PAGE_FAULT = 12"

definition LOAD_PAGE_FAULT :: u64 where "LOAD_PAGE_FAULT = 13"

definition STORE_AMO_PAGE_FAULT :: u64 where "STORE_AMO_PAGE_FAULT = 15"

definition SOFTWARE_INTERRUPT :: u64 where "SOFTWARE_INTERRUPT = 1"

definition TIMER_INTERRUPT :: u64 where "TIMER_INTERRUPT = 5"

definition EXTERNAL_INTERRUPT :: u64 where "EXTERNAL_INTERRUPT = 9"

definition SIE_STIE :: u64 where "SIE_STIE = push_bit 5 1"

definition SIE_SSIE :: u64 where "SIE_SSIE = push_bit 1 1"

definition IPI_RESCHEDULE :: u32 where "IPI_RESCHEDULE = 1"

section \<open>Initialisation\<close>

text \<open>The address of \<open>riscv_isr\<close>, the assembly entry, is an argument.\<close>

definition arch_interrupt_init :: "addr \<Rightarrow> 'a ktrap_scheme \<Rightarrow> 'a ktrap_scheme" where
  "arch_interrupt_init riscv_isr s =
     (case arch_disable_interrupts s of (_, s) \<Rightarrow>
      let s = s\<lparr>sscratch := 0\<rparr>;
          s = s\<lparr>stvec := riscv_isr\<rparr>;
          s = arch_enable_interrupts s;
          s = riscv_sbi_set_timer (- 1) s;
          s = s\<lparr>sie := sie s OR SIE_STIE OR SIE_SSIE\<rparr>;
          s = s\<lparr>last_timer_event := 10000\<rparr>
      in riscv_sbi_set_timer (last_timer_event s) s)"

definition arch_interrupt_init_smp :: "addr \<Rightarrow> 'a ktrap_scheme \<Rightarrow> 'a ktrap_scheme" where
  "arch_interrupt_init_smp riscv_isr s =
     (case arch_disable_interrupts s of (_, s) \<Rightarrow>
      let s = s\<lparr>sscratch := 0\<rparr>;
          s = s\<lparr>stvec := riscv_isr\<rparr>;
          s = s\<lparr>sie := sie s OR SIE_SSIE\<rparr>
      in arch_enable_interrupts s)"

section \<open>Interrupts between harts\<close>

text \<open>
  \<open>1 << n\<close> is a shift of an \<open>int\<close>: the value has 32 bits and its sign is extended when it is combined
  with the 64-bit mask; a shift by 32 or more has no meaning in C.
\<close>

definition int_bit :: "u64 \<Rightarrow> u64 res" where
  "int_bit n = (if n < 32 then Inr (scast (push_bit (unat n) 1 :: u32)) else Inl Fault)"

text \<open>The inner loop, with \<open>n\<close> structures still to look at from index \<open>i\<close> on.\<close>

fun ipi_mask_loop :: "u32 \<Rightarrow> u64 \<Rightarrow> nat \<Rightarrow> nat \<Rightarrow> u64 \<Rightarrow> 'a ktrap_scheme \<Rightarrow> (u64 \<times> 'a ktrap_scheme) res" where
  "ipi_mask_loop type base i 0 hmask s = Inr (hmask, s)"
| "ipi_mask_loop type base i (Suc n) hmask s =
     bnd (ld_cpu s i) (\<lambda>c.
     let cpu = currentCpu c in
     if cpu \<ge> base \<and> (cpu - base) <s 64
     then bnd (up_cpu i (\<lambda>c. c\<lparr>ipiType := ucast type\<rparr>) s) (\<lambda>s.
          bnd (int_bit (cpu - base)) (\<lambda>b.
          ipi_mask_loop type base (Suc i) n (hmask OR b) s))
     else ipi_mask_loop type base (Suc i) n hmask s)"

text \<open>The outer loop: its index wraps around, so with hart numbers near \<open>2 ^ 64\<close> it does not end.\<close>

partial_function (option) ipi_base_loop :: "u32 \<Rightarrow> u64 \<Rightarrow> u64 \<Rightarrow> size_t \<Rightarrow> 'a ktrap_scheme \<Rightarrow> 'a ktrap_scheme res option" where
  "ipi_base_loop type base maxCpu cpuCount s =
     (if base \<le> maxCpu
      then case ipi_mask_loop type base 0 (unat cpuCount) 0 s of
          Inl e \<Rightarrow> Some (Inl e)
        | Inr (hmask, s) \<Rightarrow> ipi_base_loop type (base + 64) maxCpu cpuCount (riscv_sbi_send_ipi hmask base s)
      else Some (Inr s))"

definition riscv_send_ipi_to_all_harts :: "u32 \<Rightarrow> 'a ktrap_scheme \<Rightarrow> 'a ktrap_scheme res" where
  "riscv_send_ipi_to_all_harts type s =
     loop_res (ipi_base_loop type 0 (arch_cpu_get_maxhartid s) (arch_cpu_get_count s) s)"

section \<open>Handlers\<close>

text \<open>
  A handler returns the registers it was given, or the scheduler has moved the hart to another thread
  or to the idle loop. \<open>while(1);\<close> is \<open>Hang\<close>.
\<close>

definition riscv_clear_soft_interrupt :: "'a ktrap_scheme \<Rightarrow> 'a ktrap_scheme" where
  "riscv_clear_soft_interrupt s = s\<lparr>sip := sip s AND NOT 2\<rparr>"

definition riscv_handle_software_int :: "irq_regs_t \<Rightarrow> 'a ktrap_scheme \<Rightarrow> (sched_end \<times> 'a ktrap_scheme) res" where
  "riscv_handle_software_int regs s =
     (let s = riscv_clear_soft_interrupt s;
          m = (ucast (ipiType (get_cpu_struct s)) :: u32);
          s = s\<lparr>cpu_struct := (cpu_struct s)\<lparr>ipiType := ipiType (cpu_struct s) AND ucast (NOT IPI_RESCHEDULE)\<rparr>\<rparr>
      in if m AND IPI_RESCHEDULE \<noteq> 0 then scheduler_schedule regs s else Inr (Returned, s))"

definition riscv_handle_timer_int :: "'a ktrap_scheme \<Rightarrow> (sched_end \<times> 'a ktrap_scheme) res" where
  "riscv_handle_timer_int s =
     (let s = s\<lparr>tick_count := tick_count s + 1\<rparr>;
          s = s\<lparr>last_timer_event := last_timer_event s + 10000\<rparr>;
          s = riscv_sbi_set_timer (last_timer_event s) s
      in bnd (riscv_send_ipi_to_all_harts IPI_RESCHEDULE s) (\<lambda>s. Inr (Returned, s)))"

definition riscv_handle_external_int :: "'a ktrap_scheme \<Rightarrow> (sched_end \<times> 'a ktrap_scheme) res" where
  "riscv_handle_external_int s = Inr (Returned, s)"

definition riscv_handle_illegal_instruction :: "'a ktrap_scheme \<Rightarrow> (sched_end \<times> 'a ktrap_scheme) res" where
  "riscv_handle_illegal_instruction s = Inl Hang"

definition riscv_handle_page_fault :: "'a ktrap_scheme \<Rightarrow> (sched_end \<times> 'a ktrap_scheme) res" where
  "riscv_handle_page_fault s = Inr (Returned, s)"

definition riscv_handle_trap :: "irq_regs_t \<Rightarrow> 'a ktrap_scheme \<Rightarrow> (sched_end \<times> 'a ktrap_scheme) res" where
  "riscv_handle_trap regs s =
     (if regs CAUSE <s 0
      then let int_no = regs CAUSE AND NOT (push_bit 63 1)
           in if int_no = SOFTWARE_INTERRUPT then riscv_handle_software_int regs s
              else if int_no = TIMER_INTERRUPT then riscv_handle_timer_int s
              else if int_no = EXTERNAL_INTERRUPT then riscv_handle_external_int s
              else Inl Hang
      else if regs CAUSE = ILLEGAL_INSTRUCTION then riscv_handle_illegal_instruction s
      else if regs CAUSE \<in> {INSTRUCTION_PAGE_FAULT, LOAD_PAGE_FAULT, STORE_AMO_PAGE_FAULT} then riscv_handle_page_fault s
      else if regs CAUSE = ENV_CALL_FROM_U_MODE then Inr (Returned, s)
      else if regs CAUSE \<in> {STORE_AMO_ACCESS_FAULT, LOAD_ACCESS_FAULT, INSTRUCTION_ACCESS_FAULT} then riscv_handle_page_fault s
      else Inl Hang)"


section \<open>Lemmas\<close>

text \<open>The structure of a CPU, wherever it is held, and states that differ in these structures only.\<close>

definition cpu_at :: "'a ktrap_scheme \<Rightarrow> nat \<Rightarrow> cpu_t" where
  "cpu_at s i = (if i = this_cpu s then cpu_struct s else CPULocals s i)"

definition cpus_differ :: "'a ktrap_scheme \<Rightarrow> 'a ktrap_scheme \<Rightarrow> bool" where
  "cpus_differ s s' \<longleftrightarrow> (\<exists>c l. s' = s\<lparr>cpu_struct := c, CPULocals := l\<rparr>)"

lemma ld_cpu_eq: "i < MAX_CPUS \<Longrightarrow> ld_cpu s i = Inr (cpu_at s i)"
  by (simp add: ld_cpu_def cpu_at_def)

lemma up_cpu_eq:
  assumes "i < MAX_CPUS"
  shows "\<exists>s'. up_cpu i f s = Inr s' \<and> cpus_differ s s' \<and> cpu_at s' = (cpu_at s)(i := f (cpu_at s i))"
proof (cases "i = this_cpu s")
  case True
  have "cpus_differ s (s\<lparr>cpu_struct := f (cpu_struct s)\<rparr>)"
    unfolding cpus_differ_def by (intro exI [of _ "f (cpu_struct s)"] exI [of _ "CPULocals s"]) simp
  with True assms show ?thesis by (simp add: up_cpu_def cpu_at_def fun_eq_iff)
next
  case False
  have "cpus_differ s (s\<lparr>CPULocals := (CPULocals s)(i := f (CPULocals s i))\<rparr>)"
    unfolding cpus_differ_def by (intro exI [of _ "cpu_struct s"] exI [of _ "(CPULocals s)(i := f (CPULocals s i))"]) simp
  with False assms show ?thesis by (simp add: up_cpu_def cpu_at_def fun_eq_iff)
qed

lemma cpus_differ_trans: "cpus_differ s s' \<Longrightarrow> cpus_differ s' s'' \<Longrightarrow> cpus_differ s s''"
proof -
  assume "cpus_differ s s'" and "cpus_differ s' s''"
  then obtain c l d k where "s' = s\<lparr>cpu_struct := c, CPULocals := l\<rparr>" and "s'' = s'\<lparr>cpu_struct := d, CPULocals := k\<rparr>"
    unfolding cpus_differ_def by blast
  then have "s'' = s\<lparr>cpu_struct := d, CPULocals := k\<rparr>" by simp
  then show "cpus_differ s s''" unfolding cpus_differ_def by blast
qed

lemma cpus_differ_refl: "cpus_differ s s"
  unfolding cpus_differ_def by (intro exI [of _ "cpu_struct s"] exI [of _ "CPULocals s"]) simp

lemma int_bit_low:
  assumes "n < 31" shows "int_bit n = Inr (push_bit (unat n) 1)"
proof -
  have n: "unat n < 31" using assms by (simp add: word_less_nat_alt)
  have "(scast (push_bit (unat n) 1 :: u32) :: u64) = push_bit (unat n) 1"
  proof (rule bit_word_eqI)
    fix k assume "k < LENGTH(64)"
    then show "bit (scast (push_bit (unat n) 1 :: u32) :: u64) k = bit (push_bit (unat n) 1 :: u64) k"
      using n by (auto simp: bit_signed_iff bit_simps min_def)
  qed
  moreover have "n < 32" using n by (simp add: word_less_nat_alt)
  ultimately show ?thesis by (simp only: int_bit_def if_True)
qed

lemma int_bit_31: "int_bit 31 = Inr 0xFFFFFFFF80000000"
  by (simp add: int_bit_def)

lemma small_hart:
  assumes "c < (31 :: u64)" shows "c <s 64"
proof -
  have "uint c < 31" using assms by (simp add: word_less_def)
  then have "signed_take_bit 63 (uint c) = uint c"
    by (intro signed_take_bit_int_eq_self order_trans [OF _ uint_ge_0]) simp_all
  then have "sint c = uint c" by (simp add: sint_uint)
  then show ?thesis using \<open>uint c < 31\<close> by (simp add: word_sless_alt)
qed

text \<open>The inner loop marks every hart of the table and collects their bits.\<close>

lemma ipi_mask_loop_eq:
  assumes "\<forall>j. i \<le> j \<and> j < i + n \<longrightarrow> currentCpu (cpu_at s j) < 31" and "i + n \<le> MAX_CPUS"
  shows "\<exists>hm s'. ipi_mask_loop type 0 i n m s = Inr (hm, s') \<and> cpus_differ s s'
    \<and> (\<forall>j. cpu_at s' j = (if i \<le> j \<and> j < i + n then (cpu_at s j)\<lparr>ipiType := ucast type\<rparr> else cpu_at s j))
    \<and> (\<forall>c. bit hm c \<longleftrightarrow> bit m c \<or> (\<exists>j. i \<le> j \<and> j < i + n \<and> unat (currentCpu (cpu_at s j)) = c))"
  using assms
proof (induction n arbitrary: i m s)
  case 0
  then show ?case by (auto simp: cpus_differ_refl)
next
  case (Suc n)
  have i: "i < MAX_CPUS" and id: "currentCpu (cpu_at s i) < 31" using Suc.prems by auto
  obtain s1 where s1: "up_cpu i (\<lambda>c. c\<lparr>ipiType := ucast type\<rparr>) s = Inr s1" "cpus_differ s s1"
    "cpu_at s1 = (cpu_at s)(i := (cpu_at s i)\<lparr>ipiType := ucast type\<rparr>)"
    using up_cpu_eq [OF i, of "\<lambda>c. c\<lparr>ipiType := ucast type\<rparr>" s] by blast
  let ?m = "m OR push_bit (unat (currentCpu (cpu_at s i))) 1"
  obtain hm s' where s': "ipi_mask_loop type 0 (Suc i) n ?m s1 = Inr (hm, s')" "cpus_differ s1 s'"
    "\<forall>j. cpu_at s' j = (if Suc i \<le> j \<and> j < Suc i + n then (cpu_at s1 j)\<lparr>ipiType := ucast type\<rparr> else cpu_at s1 j)"
    "\<forall>c. bit hm c \<longleftrightarrow> bit ?m c \<or> (\<exists>j. Suc i \<le> j \<and> j < Suc i + n \<and> unat (currentCpu (cpu_at s1 j)) = c)"
    using Suc.IH [of "Suc i" s1 ?m] Suc.prems s1(3) by auto
  have run: "ipi_mask_loop type 0 i (Suc n) m s = Inr (hm, s')"
    using s'(1) s1(1) id by (simp add: ld_cpu_eq [OF i] Let_def small_hart int_bit_low)
  have u: "unat (currentCpu (cpu_at s i)) < 64" using id by (simp add: word_less_nat_alt)
  have bm: "bit ?m c \<longleftrightarrow> bit m c \<or> unat (currentCpu (cpu_at s i)) = c" for c
    using u by (auto simp: bit_or_iff push_bit_of_1 bit_exp_iff)
  have "bit hm c \<longleftrightarrow> bit m c \<or> (\<exists>j. i \<le> j \<and> j < i + Suc n \<and> unat (currentCpu (cpu_at s j)) = c)" for c
  proof -
    have "currentCpu (cpu_at s1 j) = currentCpu (cpu_at s j)" for j using s1(3) by simp
    moreover have "(\<exists>j. i \<le> j \<and> j < i + Suc n \<and> P j) \<longleftrightarrow> P i \<or> (\<exists>j. Suc i \<le> j \<and> j < Suc i + n \<and> P j)" for P
      by (auto simp: Suc_le_eq) (metis le_neq_implies_less, metis less_imp_le)
    ultimately show ?thesis using s'(4) bm by simp
  qed
  moreover have "cpu_at s' j = (if i \<le> j \<and> j < i + Suc n then (cpu_at s j)\<lparr>ipiType := ucast type\<rparr> else cpu_at s j)" for j
    using s'(3) s1(3) by auto
  ultimately show ?case using run cpus_differ_trans [OF s1(2) s'(2)] by blast
qed

lemma send_ipi_eq:
  assumes "\<forall>i<unat (cpu_count s). currentCpu (cpu_at s i) \<le> cpu_max_hart_id s" and "cpu_max_hart_id s < 31"
    and "unat (cpu_count s) \<le> MAX_CPUS"
  shows "\<exists>hm s'. riscv_send_ipi_to_all_harts type s = Inr (riscv_sbi_send_ipi hm 0 s') \<and> cpus_differ s s'
    \<and> (\<forall>i. cpu_at s' i = (if i < unat (cpu_count s) then (cpu_at s i)\<lparr>ipiType := ucast type\<rparr> else cpu_at s i))
    \<and> (\<forall>c. bit hm c \<longleftrightarrow> (\<exists>i<unat (cpu_count s). unat (currentCpu (cpu_at s i)) = c))"
proof -
  let ?n = "unat (cpu_count s)"
  have "\<forall>j. 0 \<le> j \<and> j < 0 + ?n \<longrightarrow> currentCpu (cpu_at s j) < 31" using assms(1,2) by auto
  from ipi_mask_loop_eq [OF this, of type 0] assms(3)
  obtain hm s' where run: "ipi_mask_loop type 0 0 ?n 0 s = Inr (hm, s')" and d: "cpus_differ s s'"
    and cpus: "\<forall>j. cpu_at s' j = (if j < ?n then (cpu_at s j)\<lparr>ipiType := ucast type\<rparr> else cpu_at s j)"
    and bits: "\<forall>c. bit hm c \<longleftrightarrow> (\<exists>j<?n. unat (currentCpu (cpu_at s j)) = c)"
    by auto
  have n: "unat (arch_cpu_get_count s) = ?n"
    using unsigned_less [of "cpu_count s", where ?'a = nat]
    by (simp add: arch_cpu_get_count_def unsigned_ucast_eq take_bit_nat_eq_self)
  have "\<not> 64 \<le> cpu_max_hart_id s" using assms(2) by (simp add: not_le word_less_nat_alt)
  then have stop: "ipi_base_loop type 64 (cpu_max_hart_id s) (arch_cpu_get_count s) t = Some (Inr t)" for t
    by (subst ipi_base_loop.simps) simp
  have "riscv_send_ipi_to_all_harts type s = Inr (riscv_sbi_send_ipi hm 0 s')"
    unfolding riscv_send_ipi_to_all_harts_def arch_cpu_get_maxhartid_def
    by (subst ipi_base_loop.simps) (simp add: n run stop)
  then show ?thesis using d cpus bits by blast
qed

lemma interrupt_cause:
  "(0x8000000000000001 :: u64) <s 0" "(0x8000000000000005 :: u64) <s 0"
  "(0x8000000000000001 :: u64) AND NOT (push_bit 63 1) = SOFTWARE_INTERRUPT"
  "(0x8000000000000005 :: u64) AND NOT (push_bit 63 1) = TIMER_INTERRUPT"
  by (simp_all add: word_sless_alt SOFTWARE_INTERRUPT_def TIMER_INTERRUPT_def)

section \<open>Properties\<close>

text \<open>
  Property C35. A timer interrupt signals every hart. With hart numbers up to 30 the handler counts the
  tick, asks the firmware for the next event 10000 ticks after the last one, marks the structure of
  every hart of the table with a request to reschedule and asks the firmware to interrupt exactly
  the harts of the table; it returns to the interrupted code and changes nothing else.
\<close>

theorem timer_int_signals_harts:
  assumes "regs CAUSE = 0x8000000000000005" and "cpu_max_hart_id s < 31" and "unat (cpu_count s) \<le> MAX_CPUS"
    and "\<forall>i<unat (cpu_count s). currentCpu (cpu_at s i) \<le> cpu_max_hart_id s"
  shows "\<exists>hm s' c l. riscv_handle_trap regs s = Inr (Returned, s')
    \<and> s' = s\<lparr>tick_count := tick_count s + 1, last_timer_event := last_timer_event s + 10000,
        sbi_calls := sbi_calls s @ [Set_timer (last_timer_event s + 10000), Send_ipi hm 0],
        cpu_struct := c, CPULocals := l\<rparr>
    \<and> (\<forall>i. cpu_at s' i = (if i < unat (cpu_count s) then (cpu_at s i)\<lparr>ipiType := 1\<rparr> else cpu_at s i))
    \<and> (\<forall>n. bit hm n \<longleftrightarrow> (\<exists>i<unat (cpu_count s). unat (currentCpu (cpu_at s i)) = n))"
proof -
  define s0 where "s0 = s\<lparr>tick_count := tick_count s + 1, last_timer_event := last_timer_event s + 10000,
    sbi_calls := sbi_calls s @ [Set_timer (last_timer_event s + 10000)]\<rparr>"
  have s0: "cpu_at s0 = cpu_at s" "cpu_count s0 = cpu_count s" "cpu_max_hart_id s0 = cpu_max_hart_id s"
    by (simp_all add: s0_def cpu_at_def fun_eq_iff)
  obtain hm s1 where run: "riscv_send_ipi_to_all_harts IPI_RESCHEDULE s0 = Inr (riscv_sbi_send_ipi hm 0 s1)"
    and d: "cpus_differ s0 s1"
    and cpus: "\<forall>i. cpu_at s1 i = (if i < unat (cpu_count s) then (cpu_at s i)\<lparr>ipiType := ucast IPI_RESCHEDULE\<rparr> else cpu_at s i)"
    and bits: "\<forall>n. bit hm n \<longleftrightarrow> (\<exists>i<unat (cpu_count s). unat (currentCpu (cpu_at s i)) = n)"
    using send_ipi_eq [of s0 IPI_RESCHEDULE] assms(2-4) unfolding s0 by blast
  obtain c l where s1: "s1 = s0\<lparr>cpu_struct := c, CPULocals := l\<rparr>" using d unfolding cpus_differ_def by blast
  have "riscv_handle_trap regs s = riscv_handle_timer_int s"
    using assms(1) interrupt_cause by (simp add: riscv_handle_trap_def SOFTWARE_INTERRUPT_def TIMER_INTERRUPT_def)
  also have "\<dots> = Inr (Returned, riscv_sbi_send_ipi hm 0 s1)"
    using run by (simp add: riscv_handle_timer_int_def riscv_sbi_set_timer_def s0_def)
  finally have trap: "riscv_handle_trap regs s = Inr (Returned, riscv_sbi_send_ipi hm 0 s1)" .
  have "cpu_at (riscv_sbi_send_ipi hm 0 s1) = cpu_at s1"
    by (simp add: riscv_sbi_send_ipi_def cpu_at_def fun_eq_iff)
  moreover have "riscv_sbi_send_ipi hm 0 s1 = s\<lparr>tick_count := tick_count s + 1, last_timer_event := last_timer_event s + 10000,
        sbi_calls := sbi_calls s @ [Set_timer (last_timer_event s + 10000), Send_ipi hm 0],
        cpu_struct := c, CPULocals := l\<rparr>"
    by (simp add: s1 s0_def riscv_sbi_send_ipi_def)
  ultimately show ?thesis using trap cpus bits by (fastforce simp: IPI_RESCHEDULE_def)
qed

definition demo_trap :: ktrap where
  "demo_trap = ksched.extend demo_sched
     \<lparr>sscratch = 0, stvec = 0x80, sie = 0x22, sip = 2, last_timer_event = 20000, tick_count = 1, sbi_calls = [],
      CPULocals = (\<lambda>_. demo_cpu\<lparr>currentCpu := 3\<rparr>), this_cpu = 0, cpu_count = 2, cpu_max_hart_id = 3\<rparr>"

lemma demo_trap_fields [simp]:
  "cpu_struct demo_trap = cpu_struct demo_sched" "CPULocals demo_trap = (\<lambda>_. demo_cpu\<lparr>currentCpu := 3\<rparr>)"
  "this_cpu demo_trap = 0" "cpu_count demo_trap = 2" "cpu_max_hart_id demo_trap = 3" "sbi_calls demo_trap = []"
  "last_timer_event demo_trap = 20000" "sip demo_trap = 2"
  "thread_mem demo_trap = thread_mem demo_sched" "ActiveTasks demo_trap = ActiveTasks demo_sched"
  "TotalActiveTasks demo_trap = TotalActiveTasks demo_sched" "ProcessTable demo_trap = ProcessTable demo_sched"
  "proc_mem demo_trap = proc_mem demo_sched" "pt_mem demo_trap = pt_mem demo_sched"
  "KernelPageMap demo_trap = KernelPageMap demo_sched" "SchedulerRunning demo_trap" "cpu_is_inited demo_trap"
  "EntrySchedulerLock demo_trap = INIT_SPINLOCK" "SchedulerLock demo_trap = INIT_SPINLOCK" "process_lock demo_trap = INIT_SPINLOCK"
  by (simp_all add: demo_trap_def ksched.defs demo_sched_def kfpu.defs demo_fpu_def kvmm.defs demo_vmm_def demo_lists_def klists.defs)

theorem timer_int_signals_harts_witness:
  "\<exists>hm s'. riscv_handle_trap (\<lambda>_. 0x8000000000000005) demo_trap = Inr (Returned, s')
    \<and> sbi_calls s' = [Set_timer 30000, Send_ipi hm 0] \<and> (\<forall>n. bit hm n \<longleftrightarrow> n = 0 \<or> n = 3)
    \<and> ipiType (cpu_at s' 0) = 1 \<and> ipiType (cpu_at s' 1) = 1"
proof -
  have at: "cpu_at demo_trap 0 = demo_cpu\<lparr>preemptCounter := 0, currentPid := 0, currentTid := 0, currentTaskID := 0\<rparr>"
    "cpu_at demo_trap (Suc 0) = demo_cpu\<lparr>currentCpu := 3\<rparr>"
    by (simp_all add: cpu_at_def)
  have "\<forall>i<unat (cpu_count demo_trap). currentCpu (cpu_at demo_trap i) \<le> cpu_max_hart_id demo_trap"
    by (auto simp: less_2_cases_iff at demo_cpu_def)
  from timer_int_signals_harts [of "\<lambda>_. 0x8000000000000005" demo_trap, OF refl _ _ this]
  obtain hm s' c l where s': "riscv_handle_trap (\<lambda>_. 0x8000000000000005) demo_trap = Inr (Returned, s')"
    "sbi_calls s' = [Set_timer 30000, Send_ipi hm 0]"
    "\<forall>i. cpu_at s' i = (if i < 2 then (cpu_at demo_trap i)\<lparr>ipiType := 1\<rparr> else cpu_at demo_trap i)"
    "\<forall>n. bit hm n \<longleftrightarrow> (\<exists>i<2. unat (currentCpu (cpu_at demo_trap i)) = n)"
    by (auto simp: MAX_CPUS_def)
  have "(\<exists>i<2. unat (currentCpu (cpu_at demo_trap i)) = n) \<longleftrightarrow> n = 0 \<or> n = 3" for n
    by (auto simp: less_2_cases_iff at demo_cpu_def)
  then show ?thesis using s' by (intro exI [of _ hm] exI [of _ s']) simp
qed

text \<open>The state in which a turn of the scheduler starts, as an invariant of a running system.\<close>

definition can_schedule :: "addr list \<Rightarrow> nat option \<Rightarrow> 'a ksched_scheme \<Rightarrow> bool" where
  "can_schedule xs cur s \<longleftrightarrow> fpu_areas s xs cur \<and> run_queue s xs \<and> 0 < length xs \<and> length xs < 512 \<and> locks_binary s xs
     \<and> set_option cur \<subseteq> {..<length xs} \<and> currentTaskID (cpu_struct s) = task_number cur \<and> SchedulerRunning s
     \<and> cpu_is_inited s \<and> preemptCounter (cpu_struct s) = 0 \<and> lock (EntrySchedulerLock s) = 0
     \<and> lock (SchedulerLock s) = 0 \<and> lock (process_lock s) = 0
     \<and> (\<forall>i<length xs. proc_ready s (pid (the (thread_mem s (xs ! i)))))
     \<and> (currentPid (cpu_struct s) = - 1 \<or> proc_ready s (currentPid (cpu_struct s)))
     \<and> (\<exists>pt. pt_mem s (KernelPageMap s) = Some pt)"

text \<open>What the handler does before it looks at the request.\<close>

definition soft_cleared :: "'a ktrap_scheme \<Rightarrow> 'a ktrap_scheme" where
  "soft_cleared s = s\<lparr>sip := sip s AND NOT 2, cpu_struct := (cpu_struct s)\<lparr>ipiType := ipiType (cpu_struct s) AND NOT 1\<rparr>\<rparr>"

lemma byte_bit_0: "(ucast (b :: u8) :: u32) AND IPI_RESCHEDULE \<noteq> 0 \<longleftrightarrow> bit b 0"
proof -
  have "(ucast b :: u32) AND 1 \<noteq> 0 \<longleftrightarrow> bit (ucast b :: u32) 0"
    using bit_iff_and_push_bit_not_eq_0 [of "ucast b :: u32" 0] by simp
  then show ?thesis by (simp add: bit_ucast_iff IPI_RESCHEDULE_def)
qed

lemma software_trap:
  assumes "regs CAUSE = 0x8000000000000001"
  shows "riscv_handle_trap regs s =
    (if bit (ipiType (cpu_struct s)) 0 then scheduler_schedule regs (soft_cleared s) else Inr (Returned, soft_cleared s))"
proof -
  have "(ucast (NOT IPI_RESCHEDULE) :: u8) = NOT 1" by (simp add: IPI_RESCHEDULE_def)
  then show ?thesis
    using assms interrupt_cause byte_bit_0 [of "ipiType (cpu_struct s)"]
    by (simp add: riscv_handle_trap_def riscv_handle_software_int_def riscv_clear_soft_interrupt_def Let_def
        get_cpu_struct_def soft_cleared_def SOFTWARE_INTERRUPT_def)
qed

lemma can_schedule_cleared: "can_schedule xs cur s \<Longrightarrow> can_schedule xs cur (soft_cleared s)"
  unfolding can_schedule_def
  by (auto simp: soft_cleared_def locks_binary_def proc_ready_def run_queue_def fpu_areas_def)

lemma cleared_same:
  "task_free (soft_cleared s) xs = task_free s xs" "thread_mem (soft_cleared s) = thread_mem s"
  by (simp_all add: soft_cleared_def task_free_def fun_eq_iff)

text \<open>What the handler needs of a turn of the scheduler.\<close>

lemma can_schedule_turn:
  assumes "can_schedule xs cur s"
  shows "\<exists>e s'. scheduler_schedule regs s = Inr (e, s') \<and> run_queue s' xs
    \<and> lock (EntrySchedulerLock s') = 0 \<and> lock (SchedulerLock s') = 0 \<and> lock (process_lock s') = 0
    \<and> ipiType (cpu_struct s') = ipiType (cpu_struct s) \<and> ksched.more s' = ksched.more s
    \<and> (case pick (length xs) (length xs) (turn_start cur) (\<lambda>i. cur = Some i \<or> task_free s xs i) of
         None \<Rightarrow> e = Idled \<and> thread_mem s' = thread_mem s
       | Some k \<Rightarrow> e = Switched (xs ! k) \<and> currentTaskID (cpu_struct s') = of_nat k \<and>
           (\<exists>lk t n r. lock lk = 1 \<and> thread_mem s' = (left_mem regs (cpu_struct s) xs cur (thread_mem s))
             (xs ! k \<mapsto> t\<lparr>thread_lk := lk, cpu_number := n, saved_regs := r\<rparr>)))"
proof -
  note sc = assms [unfolded can_schedule_def]
  obtain pt where pt: "pt_mem s (KernelPageMap s) = Some pt" using sc by blast
  have "fpu_areas s xs cur" "run_queue s xs" "0 < length xs" "length xs < 512" "locks_binary s xs" "set_option cur \<subseteq> {..<length xs}"
    "currentTaskID (cpu_struct s) = task_number cur" "SchedulerRunning s" "cpu_is_inited s"
    "preemptCounter (cpu_struct s) = 0" "lock (EntrySchedulerLock s) = 0" "lock (SchedulerLock s) = 0"
    "lock (process_lock s) = 0" "\<forall>i<length xs. proc_ready s (pid (the (thread_mem s (xs ! i))))"
    "currentPid (cpu_struct s) = - 1 \<or> proc_ready s (currentPid (cpu_struct s))"
    using sc by blast+
  note turn = schedule_turn [OF this pt, of regs, unfolded Let_def]
  show ?thesis
  proof (cases "pick (length xs) (length xs) (turn_start cur) (\<lambda>i. cur = Some i \<or> task_free s xs i)")
    case None
    then show ?thesis using turn by (simp only: option.case) blast
  next
    case (Some k)
    then show ?thesis using turn by (simp only: option.case) blast
  qed
qed

text \<open>What belongs to traps is not touched by the scheduler.\<close>

lemma sip_more: "ksched.more s' = ksched.more s \<Longrightarrow> sip s' = sip s"
  by (cases s, cases s') simp

text \<open>
  Property C36. The software interrupt behind a request to reschedule. On a hart whose structure carries
  the request, the handler runs one turn of the scheduler: the interrupted thread is left with the
  registers of the trap and a free lock, the first task after it whose lock is free is entered with
  its lock held, and the hart idles only when the lock of every task is held. Without a request the
  handler returns to the interrupted code. In both cases, when the handler is done the request and
  the pending bit are taken back, and the other bits of the two words are as they were.
\<close>

theorem software_int_reschedules:
  assumes "regs CAUSE = 0x8000000000000001" and "can_schedule xs cur s"
  shows "\<exists>e s'. riscv_handle_trap regs s = Inr (e, s')
    \<and> sip s' = sip s AND NOT 2 \<and> ipiType (cpu_struct s') = ipiType (cpu_struct s) AND NOT 1
    \<and> (if bit (ipiType (cpu_struct s)) 0
       then run_queue s' xs \<and> lock (EntrySchedulerLock s') = 0 \<and> lock (SchedulerLock s') = 0 \<and> lock (process_lock s') = 0
         \<and> (case pick (length xs) (length xs) (turn_start cur) (\<lambda>i. cur = Some i \<or> task_free s xs i) of
              None \<Rightarrow> e = Idled \<and> thread_mem s' = thread_mem s
            | Some k \<Rightarrow> e = Switched (xs ! k) \<and> currentTaskID (cpu_struct s') = of_nat k
                \<and> lock (thread_lk (the (thread_mem s' (xs ! k)))) = 1
                \<and> (\<forall>c. cur = Some c \<and> c \<noteq> k \<longrightarrow> saved_regs (the (thread_mem s' (xs ! c))) = regs
                     \<and> lock (thread_lk (the (thread_mem s' (xs ! c)))) = 0))
       else e = Returned \<and> s' = soft_cleared s)"
proof (cases "bit (ipiType (cpu_struct s)) 0")
  case True
  let ?s = "soft_cleared s" and ?p = "pick (length xs) (length xs) (turn_start cur) (\<lambda>i. cur = Some i \<or> task_free s xs i)"
  have ne: "xs ! c \<noteq> xs ! k" if "cur = Some c" "c \<noteq> k" "?p = Some k" for c k
  proof -
    have "k < length xs" and "c < length xs" using that assms(2) by (auto simp: can_schedule_def pick_Some)
    then show ?thesis using that run_queue_distinct [of s xs c k] assms(2) by (auto simp: can_schedule_def)
  qed
  from can_schedule_turn [OF can_schedule_cleared [OF assms(2)], of regs, unfolded cleared_same] obtain e s'
    where run: "scheduler_schedule regs ?s = Inr (e, s')" and q: "run_queue s' xs"
    and lk: "lock (EntrySchedulerLock s') = 0" "lock (SchedulerLock s') = 0" "lock (process_lock s') = 0"
    and ipi: "ipiType (cpu_struct s') = ipiType (cpu_struct ?s)" and more: "ksched.more s' = ksched.more ?s"
    and turn: "case ?p of None \<Rightarrow> e = Idled \<and> thread_mem s' = thread_mem s
       | Some k \<Rightarrow> e = Switched (xs ! k) \<and> currentTaskID (cpu_struct s') = of_nat k \<and>
           (\<exists>lk t n r. lock lk = 1 \<and> thread_mem s' = (left_mem regs (cpu_struct ?s) xs cur (thread_mem s))
             (xs ! k \<mapsto> t\<lparr>thread_lk := lk, cpu_number := n, saved_regs := r\<rparr>))"
    by blast
  have "sip s' = sip s AND NOT 2" "ipiType (cpu_struct s') = ipiType (cpu_struct s) AND NOT 1"
    using sip_more [OF more] ipi by (simp_all add: soft_cleared_def)
  then show ?thesis
    using True run q lk turn ne software_trap [of regs, OF assms(1), of s]
    by (intro exI [of _ e] exI [of _ s']) (auto simp: left_mem_def left_thread_def split: option.splits)
next
  case False
  then show ?thesis using software_trap [of regs, OF assms(1), of s]
    by (intro exI [of _ Returned] exI [of _ "soft_cleared s"]) (simp add: soft_cleared_def)
qed

theorem software_int_reschedules_witness:
  "\<exists>s'. riscv_handle_trap (\<lambda>_. 0x8000000000000001)
      (demo_trap\<lparr>cpu_struct := (cpu_struct demo_trap)\<lparr>ipiType := 1\<rparr>\<rparr>) = Inr (Switched 0x300, s')
    \<and> currentTaskID (cpu_struct s') = 1 \<and> ipiType (cpu_struct s') = 0 \<and> sip s' = 0 \<and> saved_regs (the (thread_mem s' 0x200)) = (\<lambda>_. 0x8000000000000001)"
proof -
  let ?s = "demo_trap\<lparr>cpu_struct := (cpu_struct demo_trap)\<lparr>ipiType := 1\<rparr>\<rparr>" and ?xs = "[0x200, 0x300] :: addr list"
  have "fpu_areas ?s ?xs (Some 0)" by (auto simp: fpu_areas_def demo_thread_def zero_thread_def less_Suc_eq)
  moreover have "run_queue ?s ?xs" by (rule run_queue_same [OF demo_run_queue]) simp_all
  moreover have "locks_binary ?s ?xs" by (simp add: locks_binary_def less_Suc_eq demo_thread_def)
  moreover have rd: "proc_ready ?s 0" by (simp add: proc_ready_def MAX_PROCESSES_def demo_process_def)
  moreover have "\<forall>i<length ?xs. proc_ready ?s (pid (the (thread_mem ?s (?xs ! i))))"
    using rd by (simp add: less_Suc_eq demo_thread_def zero_thread_def)
  ultimately have cs: "can_schedule ?xs (Some 0) ?s"
    unfolding can_schedule_def by (simp add: task_number_def INIT_SPINLOCK_def)
  have "task_free ?s ?xs (Suc 0)" by (simp add: task_free_def demo_thread_def)
  then show ?thesis
    using software_int_reschedules [of "\<lambda>_. 0x8000000000000001", OF refl cs]
    by (auto simp: turn_start_def numeral_2_eq_2)
qed

text \<open>
  Hart numbers of 31 and more. The shift \<open>1 << (cpu - base)\<close> is one of an \<open>int\<close>: for hart 31 its sign
  is extended, so the mask also names the harts 32 to 63, and for a hart from 32 on the shift has no
  meaning in C.
\<close>

theorem ipi_mask_int_shift:
  "int_bit 31 = Inr 0xFFFFFFFF80000000 \<and> (32 \<le> n \<longrightarrow> int_bit n = Inl Fault)"
  by (simp add: int_bit_31) (simp add: int_bit_def not_less [symmetric])

end
