(* ===== verification/Gentree.thy ===== *)
theory Gentree
  imports Klist
begin

text \<open>
  The generic trees of \<open>kernel/utils/lists.c\<close> (lines 256 to 324): every node has a value and a list of
  children, whose values are the child nodes. The search for a parent walks the tree, taking and
  releasing the lock of each list of children on the way.
\<close>

section \<open>Data\<close>

record gentree_node_t =
  tnode_value :: addr
  tnode_children :: addr

record gentree_t =
  tree_root :: addr
  tree_lk :: spinlock_t

record ktrees = klists +
  tree_mem :: "addr \<rightharpoonup> gentree_t"
  tnode_mem :: "addr \<rightharpoonup> gentree_node_t"

definition sizeof_gentree_t :: size_t where
  "sizeof_gentree_t = 48"

definition sizeof_gentree_node_t :: size_t where
  "sizeof_gentree_node_t = 16"

section \<open>Operations\<close>

definition ld_tree :: "'a ktrees_scheme \<Rightarrow> addr \<Rightarrow> gentree_t res" where
  "ld_tree s p = need (tree_mem s p)"

definition ld_tnode :: "'a ktrees_scheme \<Rightarrow> addr \<Rightarrow> gentree_node_t res" where
  "ld_tnode s p = need (tnode_mem s p)"

definition up_tree :: "addr \<Rightarrow> (gentree_t \<Rightarrow> gentree_t) \<Rightarrow> 'a ktrees_scheme \<Rightarrow> 'a ktrees_scheme res" where
  "up_tree p f s = bnd (ld_tree s p) (\<lambda>t. Inr (s\<lparr>tree_mem := (tree_mem s)(p \<mapsto> f t)\<rparr>))"

definition up_tnode :: "addr \<Rightarrow> (gentree_node_t \<Rightarrow> gentree_node_t) \<Rightarrow> 'a ktrees_scheme \<Rightarrow> 'a ktrees_scheme res" where
  "up_tnode p f s = bnd (ld_tnode s p) (\<lambda>n. Inr (s\<lparr>tnode_mem := (tnode_mem s)(p \<mapsto> f n)\<rparr>))"

definition new_tree :: "'a ktrees_scheme \<Rightarrow> (addr \<times> 'a ktrees_scheme) res" where
  "new_tree s = bnd (kmalloc sizeof_gentree_t s) (\<lambda>(p, s).
     Inr (p, if p = NULL then s else s\<lparr>tree_mem := (tree_mem s)(p \<mapsto> \<lparr>tree_root = NULL, tree_lk = zero_lock\<rparr>)\<rparr>))"

definition new_tnode :: "'a ktrees_scheme \<Rightarrow> (addr \<times> 'a ktrees_scheme) res" where
  "new_tnode s = bnd (kmalloc sizeof_gentree_node_t s) (\<lambda>(p, s).
     Inr (p, if p = NULL then s else s\<lparr>tnode_mem := (tnode_mem s)(p \<mapsto> \<lparr>tnode_value = 0, tnode_children = NULL\<rparr>)\<rparr>))"

definition free_tnode :: "addr \<Rightarrow> 'a ktrees_scheme \<Rightarrow> 'a ktrees_scheme res" where
  "free_tnode p s = bnd (kfree p s) (\<lambda>s. Inr (s\<lparr>tnode_mem := (tnode_mem s)(p := None)\<rparr>))"

definition tree_lock :: "string \<Rightarrow> int \<Rightarrow> addr \<Rightarrow> 'a ktrees_scheme \<Rightarrow> 'a ktrees_scheme res" where
  "tree_lock fn ln p s =
     bnd (ld_tree s p) (\<lambda>t.
     bnd (spinlock_lock (''lists.c'', fn, ln) (tree_lk t) s) (\<lambda>(lk, s).
     Inr (s\<lparr>tree_mem := (tree_mem s)(p \<mapsto> t\<lparr>tree_lk := lk\<rparr>)\<rparr>)))"

definition tree_unlock :: "addr \<Rightarrow> 'a ktrees_scheme \<Rightarrow> 'a ktrees_scheme res" where
  "tree_unlock p s =
     bnd (ld_tree s p) (\<lambda>t.
     case spinlock_unlock (tree_lk t) s of (lk, s) \<Rightarrow>
     Inr (s\<lparr>tree_mem := (tree_mem s)(p \<mapsto> t\<lparr>tree_lk := lk\<rparr>)\<rparr>))"

definition gentree_create :: "'a ktrees_scheme \<Rightarrow> (addr \<times> 'a ktrees_scheme) res" where
  "gentree_create s =
     bnd (new_tree s) (\<lambda>(tree, s).
     bnd (up_tree tree (\<lambda>t. t\<lparr>tree_root := NULL\<rparr>) s) (\<lambda>s.
     bnd (up_tree tree (\<lambda>t. t\<lparr>tree_lk := INIT_SPINLOCK\<rparr>) s) (\<lambda>s.
     Inr (tree, s))))"

definition gentree_node_create :: "addr \<Rightarrow> 'a ktrees_scheme \<Rightarrow> (addr \<times> 'a ktrees_scheme) res" where
  "gentree_node_create val s =
     bnd (new_tnode s) (\<lambda>(node, s).
     bnd (up_tnode node (\<lambda>n. n\<lparr>tnode_value := val\<rparr>) s) (\<lambda>s.
     bnd (list_create s) (\<lambda>(children, s).
     bnd (up_tnode node (\<lambda>n. n\<lparr>tnode_children := children\<rparr>) s) (\<lambda>s.
     Inr (node, s)))))"

definition gentree_insert :: "addr \<Rightarrow> addr \<Rightarrow> addr \<Rightarrow> 'a ktrees_scheme \<Rightarrow> (addr \<times> 'a ktrees_scheme) res" where
  "gentree_insert tree subroot val s =
     bnd (tree_lock ''gentree_insert'' 271 tree s) (\<lambda>s.
     bnd (gentree_node_create val s) (\<lambda>(node, s).
     bnd (ld_tree s tree) (\<lambda>t.
     bnd (if tree_root t = NULL then up_tree tree (\<lambda>t. t\<lparr>tree_root := node\<rparr>) s
          else bnd (ld_tnode s subroot) (\<lambda>n.
               bnd (list_push_front (tnode_children n) node s) (\<lambda>(_, s). Inr s))) (\<lambda>s.
     bnd (tree_unlock tree s) (\<lambda>s.
     Inr (node, s))))))"

text \<open>
  \<open>gentree_get_parent_recursive\<close> and the loop in it, as one function: with \<open>at\<close> absent it is the entry
  of the function, with \<open>at\<close> the address of a list node it is the head of the loop at this child, where
  the lock of the list of children is held. The result is the parent, or null, with the index stored
  through the pointer argument.
\<close>

partial_function (option) gentree_get_parent_recursive ::
  "addr \<Rightarrow> addr \<Rightarrow> addr option \<Rightarrow> 'a ktrees_scheme \<Rightarrow> (addr \<times> size_t option \<times> 'a ktrees_scheme) res option" where
  "gentree_get_parent_recursive node subroot at s =
     (case tnode_mem s subroot of
        None \<Rightarrow> Some (Inl Fault)
      | Some sub \<Rightarrow>
        (case at of
           None \<Rightarrow>
             (case list_contains (tnode_children sub) node s of
                Inl e \<Rightarrow> Some (Inl e)
              | Inr (currentIndex, s) \<Rightarrow>
                  (if currentIndex \<noteq> MINUS_ONE then Some (Inr (subroot, Some currentIndex, s))
                   else case bnd (list_lock ''gentree_get_parent_recursive'' 290 (tnode_children sub) s)
                                 (\<lambda>s. bnd (ld_list s (tnode_children sub)) (\<lambda>l. Inr (list_root l, s))) of
                       Inl e \<Rightarrow> Some (Inl e)
                     | Inr (child, s) \<Rightarrow> gentree_get_parent_recursive node subroot (Some child) s))
         | Some child \<Rightarrow>
             (if child = NULL
              then Some (bnd (list_unlock (tnode_children sub) s) (\<lambda>s. Inr (NULL, None, s)))
              else case bnd (list_unlock (tnode_children sub) s)
                            (\<lambda>s. bnd (ld_node s child) (\<lambda>c. Inr (node_value c, s))) of
                  Inl e \<Rightarrow> Some (Inl e)
                | Inr (sub', s) \<Rightarrow>
                    Option.bind (gentree_get_parent_recursive node sub' None s) (\<lambda>r.
                    case bnd r (\<lambda>(returnNode, index, s).
                         bnd (list_lock ''gentree_get_parent_recursive'' 294 (tnode_children sub) s) (\<lambda>s.
                         if returnNode \<noteq> NULL
                         then bnd (list_unlock (tnode_children sub) s) (\<lambda>s. Inr (returnNode, index, NULL, s))
                         else bnd (ld_node s child) (\<lambda>c. Inr (NULL, index, node_next c, s)))) of
                      Inl e \<Rightarrow> Some (Inl e)
                    | Inr (returnNode, index, nxt, s) \<Rightarrow>
                        (if returnNode \<noteq> NULL then Some (Inr (returnNode, index, s))
                         else gentree_get_parent_recursive node subroot (Some nxt) s)))))"

definition gentree_get_parent :: "addr \<Rightarrow> addr \<Rightarrow> 'a ktrees_scheme \<Rightarrow> (addr \<times> size_t option \<times> 'a ktrees_scheme) res" where
  "gentree_get_parent tree node s =
     bnd (tree_lock ''gentree_get_parent'' 306 tree s) (\<lambda>s.
     bnd (ld_tree s tree) (\<lambda>t.
     if node = tree_root t then bnd (tree_unlock tree s) (\<lambda>s. Inr (NULL, None, s))
     else bnd (tree_unlock tree s) (\<lambda>s.
          bnd (ld_tree s tree) (\<lambda>t.
          loop_res (gentree_get_parent_recursive node (tree_root t) None s)))))"

text \<open>
  \<open>gentree_remove\<close>: the index starts as -1 and is overwritten when a parent is found. Only the node
  itself is released; its list of children is not.
\<close>

definition gentree_remove :: "addr \<Rightarrow> addr \<Rightarrow> 'a ktrees_scheme \<Rightarrow> 'a ktrees_scheme res" where
  "gentree_remove tree node s =
     bnd (gentree_get_parent tree node s) (\<lambda>(parent, found, s).
     let index = (case found of Some i \<Rightarrow> i | None \<Rightarrow> MINUS_ONE) in
     if parent \<noteq> NULL
     then bnd (ld_tnode s parent) (\<lambda>p.
          bnd (list_remove_indexed (tnode_children p) index s) (\<lambda>(nodeToFree, s).
          free_tnode nodeToFree s))
     else Inr s)"

section \<open>Locks on the way\<close>

text \<open>A step that only takes and releases locks leaves every list, every node and the hart as they were.\<close>

definition locks_same :: "'a klists_scheme \<Rightarrow> 'a klists_scheme \<Rightarrow> bool" where
  "locks_same s s' \<longleftrightarrow> node_mem s' = node_mem s \<and> (\<forall>L xs. is_list s L xs \<longrightarrow> is_list s' L xs) \<and>
     (\<forall>lim B. lists_ok lim B s \<longrightarrow> lists_ok lim B s') \<and> klist_frame s s'"

lemma locks_same_refl [simp]: "locks_same s s"
  by (simp add: locks_same_def)

lemma locks_same_trans: "locks_same s s' \<Longrightarrow> locks_same s' s'' \<Longrightarrow> locks_same s s''"
  by (auto simp: locks_same_def dest: klist_frame_trans)

lemma lock_only_same: "lock_only lst s s' \<Longrightarrow> locks_same s s'"
  using lock_only_keeps [of lst s s'] by (auto simp: locks_same_def) (simp add: lock_only_def)

lemma tmore_eq:
  assumes "klists.more s' = klists.more (s :: 'a ktrees_scheme)"
  shows "tree_mem s' = tree_mem s" and "tnode_mem s' = tnode_mem s" and "ktrees.more s' = ktrees.more s"
  using assms by (cases s; cases s'; simp)+

lemma locks_same_tnode: "locks_same s s' \<Longrightarrow> tnode_mem s' = tnode_mem (s :: 'a ktrees_scheme)"
  using tmore_eq [of s' s] by (simp add: locks_same_def klist_frame_def)

lemma tnode_taken [simp]: "tnode_mem (list_taken fn ln p l s) = tnode_mem s"
  by (simp add: list_taken_def arch_cpu_increment_preempt_counter_def)

section \<open>Trees in a state\<close>

text \<open>
  The shape of a tree: a node with its address, its value and the address of its list of children;
  a child is a subtree together with the address of the list node that refers to it.
\<close>

datatype gt = GT addr addr addr kids
  and kids = KNil | KCons addr gt kids

primrec root_of :: "gt \<Rightarrow> addr" where
  "root_of (GT a v L ks) = a"

primrec knodes :: "kids \<Rightarrow> nodes" where
  "knodes KNil = []"
| "knodes (KCons n t ks) = (n, root_of t) # knodes ks"

primrec gt_rep :: "'a ktrees_scheme \<Rightarrow> gt \<Rightarrow> bool" and kids_rep :: "'a ktrees_scheme \<Rightarrow> kids \<Rightarrow> bool" where
  "gt_rep s (GT a v L ks) \<longleftrightarrow> a \<noteq> NULL \<and> tnode_mem s a = Some \<lparr>tnode_value = v, tnode_children = L\<rparr> \<and>
     is_list s L (knodes ks) \<and> length (knodes ks) < 2 ^ 64 - 1 \<and> kids_rep s ks"
| "kids_rep s KNil \<longleftrightarrow> True"
| "kids_rep s (KCons n t ks) \<longleftrightarrow> gt_rep s t \<and> kids_rep s ks"

text \<open>The parent of the node at \<open>x\<close>, with its place among the children, in depth-first order.\<close>

primrec pfind :: "addr \<Rightarrow> gt \<Rightarrow> (addr \<times> nat) option" and pfinds :: "addr \<Rightarrow> kids \<Rightarrow> (addr \<times> nat) option" where
  "pfind x (GT a v L ks) = (case index_of x (knodes ks) of Some i \<Rightarrow> Some (a, i) | None \<Rightarrow> pfinds x ks)"
| "pfinds x KNil = None"
| "pfinds x (KCons n t ks) = (case pfind x t of Some r \<Rightarrow> Some r | None \<Rightarrow> pfinds x ks)"

lemma rep_locks_same:
  "gt_rep s t \<Longrightarrow> locks_same s s' \<Longrightarrow> gt_rep s' t"
  "kids_rep s ks \<Longrightarrow> locks_same s s' \<Longrightarrow> kids_rep s' ks"
  by (induction t and ks) (auto simp: locks_same_tnode locks_same_def)

lemma pfind_nonnull:
  "gt_rep s t \<Longrightarrow> pfind x t = Some (a, i) \<Longrightarrow> a \<noteq> NULL"
  "kids_rep s ks \<Longrightarrow> pfinds x ks = Some (a, i) \<Longrightarrow> a \<noteq> NULL"
  by (induction t and ks) (auto split: option.splits)

section \<open>The search for a parent\<close>

definition found_parent :: "(addr \<times> nat) option \<Rightarrow> addr \<times> size_t option" where
  "found_parent r = (case r of Some (a, i) \<Rightarrow> (a, Some (of_nat i)) | None \<Rightarrow> (NULL, None))"

lemma found_parent_simps [simp]: "found_parent None = (NULL, None)" "found_parent (Some (a, i)) = (a, Some (of_nat i))"
  by (simp_all add: found_parent_def)

lemma unlock_taken:
  assumes "list_mem s L = Some l"
  obtains s' where "list_unlock L (list_taken fn ln L l s) = Inr s'" and "lock_only L s s'"
  using lock_onlyI [OF assms] assms by (auto simp: list_unlock_eq intro!: that)

lemma lock_again:
  assumes "is_list s L xs"
  obtains l where "list_mem s L = Some l" and "list_lock fn ln L s = Inr (list_taken fn ln L l s)"
  using assms by (auto simp: is_list_def list_lock_eq intro!: that)

lemma get_parent_rec_ok:
  "gt_rep s t \<Longrightarrow> \<exists>a i s'. gentree_get_parent_recursive x (root_of t) None s = Some (Inr (a, i, s'))
     \<and> (a, i) = found_parent (pfind x t) \<and> locks_same s s'"
  "kids_rep s ks \<Longrightarrow> tnode_mem s b = Some \<lparr>tnode_value = v, tnode_children = L\<rparr> \<Longrightarrow> is_list s L (pre @ knodes ks) \<Longrightarrow>
     list_mem s L = Some l \<Longrightarrow>
     \<exists>a i s'. gentree_get_parent_recursive x b (Some (first_of (knodes ks) NULL)) (list_taken fn ln L l s) = Some (Inr (a, i, s'))
     \<and> (a, i) = found_parent (pfinds x ks) \<and> locks_same s s'"
proof (induction t and ks arbitrary: s and b v L s pre l fn ln)
  case (GT b v L ks)
  then have b: "tnode_mem s b = Some \<lparr>tnode_value = v, tnode_children = L\<rparr>" and lst: "is_list s L (knodes ks)"
    and len: "length (knodes ks) < 2 ^ 64 - 1" and kids: "kids_rep s ks"
    by auto
  obtain s1 where s1: "list_contains L x s = Inr (case index_of x (knodes ks) of Some i \<Rightarrow> of_nat i | None \<Rightarrow> MINUS_ONE, s1)"
    "lock_only L s s1"
    using list_contains_ok [OF lst] by blast
  have same1: "locks_same s s1" using s1(2) by (rule lock_only_same)
  show ?case
  proof (cases "index_of x (knodes ks)")
    case (Some i)
    then have "(of_nat i :: u64) \<noteq> MINUS_ONE"
      using index_of_Some [OF Some] len unat_MINUS_ONE unat_of_nat_u64 [of i] by auto
    then show ?thesis
      using b s1(1) Some same1 by (subst gentree_get_parent_recursive.simps) simp
  next
    case None
    have lst1: "is_list s1 L ([] @ knodes ks)" and kids1: "kids_rep s1 ks"
      and b1: "tnode_mem s1 b = Some \<lparr>tnode_value = v, tnode_children = L\<rparr>"
      using lst kids b same1 rep_locks_same(2) by (auto simp: locks_same_def locks_same_tnode [OF same1])
    obtain l where l: "list_mem s1 L = Some l" "list_lock ''gentree_get_parent_recursive'' 290 L s1 =
        Inr (list_taken ''gentree_get_parent_recursive'' 290 L l s1)"
      using lst1 by (rule lock_again)
    have "list_root l = first_of (knodes ks) NULL" using lst1 l(1) by (auto simp: is_list_def list_rep_def)
    moreover obtain a i s' where "gentree_get_parent_recursive x b (Some (first_of (knodes ks) NULL))
        (list_taken ''gentree_get_parent_recursive'' 290 L l s1) = Some (Inr (a, i, s'))"
      "(a, i) = found_parent (pfinds x ks)" "locks_same s1 s'"
      using GT.IH [OF kids1 b1 lst1 l(1)] by blast
    ultimately show ?thesis
      using b s1(1) None l locks_same_trans [OF same1]
      by (subst gentree_get_parent_recursive.simps) (auto simp: ld_list_def)
  qed
next
  case KNil
  from KNil.prems(4) obtain s' where "list_unlock L (list_taken fn ln L l s) = Inr s'" "lock_only L s s'"
    by (rule unlock_taken)
  then show ?case
    using KNil.prems(2) lock_only_same by (subst gentree_get_parent_recursive.simps) auto
next
  case (KCons n t ks)
  from KCons.prems(4) obtain s1 where s1: "list_unlock L (list_taken fn ln L l s) = Inr s1" "lock_only L s s1"
    by (rule unlock_taken)
  have same1: "locks_same s s1" using s1(2) by (rule lock_only_same)
  have reps: "gt_rep s1 t" "kids_rep s1 ks"
    using KCons.prems(1) same1 by (auto intro: rep_locks_same)
  have lst1: "is_list s1 L (pre @ knodes (KCons n t ks))"
    using KCons.prems(3) same1 by (simp add: locks_same_def)
  have n: "n \<noteq> NULL" "node_mem s1 n = Some \<lparr>node_value = root_of t, node_previous = last_of NULL pre, node_next = first_of (knodes ks) NULL\<rparr>"
    using lst1 by (auto simp: is_list_def list_rep_def dseg_append)
  obtain a i s2 where s2: "gentree_get_parent_recursive x (root_of t) None s1 = Some (Inr (a, i, s2))"
    "(a, i) = found_parent (pfind x t)" "locks_same s1 s2"
    using KCons.IH(1) [OF reps(1)] by blast
  have same2: "locks_same s s2" using same1 s2(3) by (rule locks_same_trans)
  have lst2: "is_list s2 L ((pre @ [(n, root_of t)]) @ knodes ks)" and kids2: "kids_rep s2 ks"
    and b2: "tnode_mem s2 b = Some \<lparr>tnode_value = v, tnode_children = L\<rparr>"
    using KCons.prems same2 rep_locks_same(2) by (auto simp: locks_same_def locks_same_tnode [OF same2])
  obtain l2 where l2: "list_mem s2 L = Some l2" "list_lock ''gentree_get_parent_recursive'' 294 L s2 =
      Inr (list_taken ''gentree_get_parent_recursive'' 294 L l2 s2)"
    using lst2 by (rule lock_again)
  note unfold = gentree_get_parent_recursive.simps [of x b "Some n" "list_taken fn ln L l s"]
  show ?case
  proof (cases "pfind x t")
    case (Some r)
    obtain c j where r: "r = (c, j)" by (cases r)
    have "c \<noteq> NULL" using pfind_nonnull(1) [OF reps(1)] Some r by blast
    moreover from l2(1) obtain s3 where s3: "list_unlock L (list_taken ''gentree_get_parent_recursive'' 294 L l2 s2) = Inr s3"
      "lock_only L s2 s3"
      by (rule unlock_taken)
    ultimately show ?thesis
      using KCons.prems(2) n s1(1) s2(1,2) l2 Some r locks_same_trans [OF same2 lock_only_same [OF s3(2)]]
      by (simp add: unfold ld_node_def)
  next
    case None
    have "node_mem s2 n = node_mem s1 n" using s2(3) by (simp add: locks_same_def)
    moreover obtain a' i' s' where "gentree_get_parent_recursive x b (Some (first_of (knodes ks) NULL))
        (list_taken ''gentree_get_parent_recursive'' 294 L l2 s2) = Some (Inr (a', i', s'))"
      "(a', i') = found_parent (pfinds x ks)" "locks_same s2 s'"
      using KCons.IH(2) [OF kids2 b2 lst2 l2(1)] by blast
    ultimately show ?thesis
      using KCons.prems(2) n s1(1) s2(1,2) l2 None locks_same_trans [OF same2]
      by (auto simp: unfold ld_node_def)
  qed
qed

section \<open>The tree's own lock\<close>

definition tree_taken :: "string \<Rightarrow> int \<Rightarrow> addr \<Rightarrow> gentree_t \<Rightarrow> 'a ktrees_scheme \<Rightarrow> 'a ktrees_scheme" where
  "tree_taken fn ln p t s = (arch_cpu_increment_preempt_counter s)\<lparr>tree_mem := (tree_mem s)(p \<mapsto>
     t\<lparr>tree_lk := (tree_lk t)\<lparr>lock := 1, last_acquirer := acquirer_of (''lists.c'', fn, ln) s\<rparr>\<rparr>)\<rparr>"

lemma preempt_tree_fields [simp]:
  "tree_mem (arch_cpu_increment_preempt_counter s) = tree_mem s"
  "tnode_mem (arch_cpu_increment_preempt_counter s) = tnode_mem s"
  "tree_mem (arch_cpu_decrement_preempt_counter s) = tree_mem s"
  "tnode_mem (arch_cpu_decrement_preempt_counter s) = tnode_mem s"
  by (simp_all add: arch_cpu_increment_preempt_counter_def arch_cpu_decrement_preempt_counter_def)

lemma heap_ok_tree_upd [simp]:
  "heap_ok lim B (s\<lparr>tree_mem := x\<rparr>) = heap_ok lim B s"
  "heap_ok lim B (s\<lparr>tnode_mem := y\<rparr>) = heap_ok lim B s"
  by (rule heap_ok_cong; simp)+

lemma lists_ok_tree_upd [simp]:
  "lists_ok lim B (s\<lparr>tree_mem := x\<rparr>) = lists_ok lim B s"
  "lists_ok lim B (s\<lparr>tnode_mem := y\<rparr>) = lists_ok lim B s"
  "lists_ok lim B (arch_cpu_increment_preempt_counter s) = lists_ok lim B s"
  "lists_ok lim B (arch_cpu_decrement_preempt_counter s) = lists_ok lim B s"
  by (simp_all add: lists_ok_def)

lemma is_list_tree_upd [simp]:
  "is_list (s\<lparr>tree_mem := x\<rparr>) L xs = is_list s L xs"
  "is_list (s\<lparr>tnode_mem := y\<rparr>) L xs = is_list s L xs"
  "is_list (arch_cpu_increment_preempt_counter s) L xs = is_list s L xs"
  "is_list (arch_cpu_decrement_preempt_counter s) L xs = is_list s L xs"
  by (simp_all add: is_list_def)

lemma tree_lock_eq:
  "tree_mem s p = Some t \<Longrightarrow> lock (tree_lk t) = 0 \<Longrightarrow> tree_lock fn ln p s = Inr (tree_taken fn ln p t s)"
  by (simp add: tree_lock_def ld_tree_def tree_taken_def)

lemma tree_unlock_eq:
  "tree_mem s p = Some t \<Longrightarrow> tree_unlock p s =
    Inr ((arch_cpu_decrement_preempt_counter s)\<lparr>tree_mem := (tree_mem s)(p \<mapsto> t\<lparr>tree_lk := (tree_lk t)\<lparr>lock := 0\<rparr>\<rparr>)\<rparr>)"
  by (simp add: tree_unlock_def ld_tree_def)

lemma tree_taken_fields [simp]:
  "node_mem (tree_taken fn ln p t s) = node_mem s" "list_mem (tree_taken fn ln p t s) = list_mem s"
  "tnode_mem (tree_taken fn ln p t s) = tnode_mem s"
  "tree_mem (tree_taken fn ln p t s) = (tree_mem s)(p \<mapsto>
     t\<lparr>tree_lk := (tree_lk t)\<lparr>lock := 1, last_acquirer := acquirer_of (''lists.c'', fn, ln) s\<rparr>\<rparr>)"
  "lists_ok lim B (tree_taken fn ln p t s) = lists_ok lim B s"
  "is_list (tree_taken fn ln p t s) L xs = is_list s L xs"
  by (simp_all add: tree_taken_def)

lemma rep_cong:
  assumes "tnode_mem s' = tnode_mem s" and "list_mem s' = list_mem s" and "node_mem s' = node_mem s"
  shows "gt_rep s' t = gt_rep s t" and "kids_rep s' ks = kids_rep s ks"
  using assms by (induction t and ks) (simp_all add: is_list_def)

section \<open>Parents\<close>

text \<open>The edges of a tree: the parent, the place among its children, the child.\<close>

primrec gt_edges :: "gt \<Rightarrow> (addr \<times> nat \<times> addr) set" and kids_edges :: "kids \<Rightarrow> (addr \<times> nat \<times> addr) set" where
  "gt_edges (GT a v L ks) = {(a, i, snd (knodes ks ! i)) | i. i < length (knodes ks)} \<union> kids_edges ks"
| "kids_edges KNil = {}"
| "kids_edges (KCons n t ks) = gt_edges t \<union> kids_edges ks"

lemma pfind_edge:
  "pfind x t = Some (a, i) \<Longrightarrow> (a, i, x) \<in> gt_edges t"
  "pfinds x ks = Some (a, i) \<Longrightarrow> (a, i, x) \<in> kids_edges ks"
proof (induction t and ks)
  case (GT b v L ks)
  then show ?case by (auto split: option.splits dest: index_of_Some)
qed (auto split: option.splits)

lemma pfind_none:
  "pfind x t = None \<Longrightarrow> (a, i, x) \<notin> gt_edges t"
  "pfinds x ks = None \<Longrightarrow> (a, i, x) \<notin> kids_edges ks"
proof (induction t and ks)
  case (GT b v L ks)
  then have "index_of x (knodes ks) = None" by (auto split: option.splits)
  then have "x \<notin> snd ` set (knodes ks)" by (simp add: index_of_None)
  then have "\<forall>j < length (knodes ks). snd (knodes ks ! j) \<noteq> x" by force
  with GT \<open>index_of x (knodes ks) = None\<close> show ?case by auto
qed (auto split: option.splits)

lemma gentree_get_parent_ok:
  assumes tree: "tree_mem s T = Some tr" "lock (tree_lk tr) = 0" "tree_root tr = root_of t" and rep: "gt_rep s t"
  obtains a i s' tr' where "gentree_get_parent T x s = Inr (a, i, s')"
    and "(a, i) = (if x = root_of t then (NULL, None) else found_parent (pfind x t))"
    and "node_mem s' = node_mem s" and "tnode_mem s' = tnode_mem s" and "\<forall>L xs. is_list s L xs \<longrightarrow> is_list s' L xs"
    and "\<forall>lim B. lists_ok lim B s \<longrightarrow> lists_ok lim B s'"
    and "tree_mem s' = (tree_mem s)(T \<mapsto> tr')" and "tree_root tr' = tree_root tr" and "lock (tree_lk tr') = 0"
proof -
  let ?tr = "tr\<lparr>tree_lk := (tree_lk tr)\<lparr>last_acquirer := acquirer_of (''lists.c'', ''gentree_get_parent'', 306) s, lock := 0\<rparr>\<rparr>"
  define s1 where "s1 = (arch_cpu_decrement_preempt_counter (tree_taken ''gentree_get_parent'' 306 T tr s))\<lparr>tree_mem := (tree_mem s)(T \<mapsto> ?tr)\<rparr>"
  have s1: "node_mem s1 = node_mem s" "tnode_mem s1 = tnode_mem s" "\<And>L xs. is_list s1 L xs = is_list s L xs"
    "\<And>lim B. lists_ok lim B s1 = lists_ok lim B s" "list_mem s1 = list_mem s" "tree_mem s1 = (tree_mem s)(T \<mapsto> ?tr)"
    by (simp_all add: s1_def)
  have rep1: "gt_rep s1 t" using rep s1 by (simp add: rep_cong(1) [of s1 s])
  show ?thesis
  proof (cases "x = root_of t")
    case True
    show ?thesis
    proof (rule that [where tr' = ?tr])
      show "gentree_get_parent T x s = Inr (NULL, None, s1)"
        using tree True by (simp add: gentree_get_parent_def tree_lock_eq tree_unlock_eq ld_tree_def s1_def)
    qed (use True s1 in auto)
  next
    case False
    obtain a i s' where s': "gentree_get_parent_recursive x (root_of t) None s1 = Some (Inr (a, i, s'))"
      "(a, i) = found_parent (pfind x t)" "locks_same s1 s'"
      using get_parent_rec_ok(1) [OF rep1] by blast
    have more: "klists.more s' = klists.more s1" using s'(3) by (simp add: locks_same_def klist_frame_def)
    show ?thesis
    proof (rule that [where tr' = ?tr])
      show "gentree_get_parent T x s = Inr (a, i, s')"
        using tree False s'(1) by (simp add: gentree_get_parent_def tree_lock_eq tree_unlock_eq ld_tree_def s1_def [symmetric] s1(6))
    qed (use False s'(2,3) s1 tmore_eq [OF more] in \<open>auto simp: locks_same_def\<close>)
  qed
qed

section \<open>The nodes in the heap\<close>

text \<open>Trees and their nodes sit in blocks of their sizes, which are not those of lists and list nodes.\<close>

definition trees_ok :: "u64 \<Rightarrow> (addr \<rightharpoonup> size_t) \<Rightarrow> 'a ktrees_scheme \<Rightarrow> bool" where
  "trees_ok lim B s \<longleftrightarrow> lists_ok lim B s \<and> (\<forall>p \<in> dom (tree_mem s). B p = Some sizeof_gentree_t) \<and>
     (\<forall>p \<in> dom (tnode_mem s). B p = Some sizeof_gentree_node_t)"

lemma typed_fresh:
  "\<forall>p \<in> dom m. B p = Some k \<Longrightarrow> B x = None \<Longrightarrow> \<forall>p \<in> dom m. (B(x \<mapsto> j)) p = Some k"
  by (metis domIff fun_upd_other option.distinct(1))

lemma lists_ok_fresh:
  assumes "lists_ok lim B s" and "B p = None" and "heap_ok lim (B(p \<mapsto> k)) s'" and "list_mem s' = list_mem s" and "node_mem s' = node_mem s"
  shows "lists_ok lim (B(p \<mapsto> k)) s'"
proof -
  have a: "\<forall>q \<in> dom (list_mem s). B q = Some sizeof_list_t" and b: "\<forall>q \<in> dom (node_mem s). B q = Some sizeof_list_node_t"
    and c: "dom (list_mem s) \<inter> dom (node_mem s) = {}"
    using assms(1) by (simp_all add: lists_ok_def)
  show ?thesis
    unfolding lists_ok_def assms(4,5) using assms(3) c typed_fresh [OF a assms(2)] typed_fresh [OF b assms(2)] by blast
qed

lemma typed_blocks:
  assumes "trees_ok lim B s"
  shows "is_list s L xs \<Longrightarrow> B L = Some sizeof_list_t" and "tnode_mem s a = Some n \<Longrightarrow> B a = Some sizeof_gentree_node_t"
    and "is_list s L xs \<Longrightarrow> a' \<in> addrs xs \<Longrightarrow> B a' = Some sizeof_list_node_t"
proof -
  show "is_list s L xs \<Longrightarrow> B L = Some sizeof_list_t" and "tnode_mem s a = Some n \<Longrightarrow> B a = Some sizeof_gentree_node_t"
    using assms by (auto simp: trees_ok_def lists_ok_def is_list_def)
  assume "is_list s L xs" and a': "a' \<in> addrs xs"
  then have "dseg (node_mem s) NULL xs NULL" by (auto simp: is_list_def list_rep_def)
  then have "a' \<in> dom (node_mem s)" using dseg_dom a' by blast
  then show "B a' = Some sizeof_list_node_t" using assms by (auto simp: trees_ok_def lists_ok_def)
qed

lemma tnode_pages: "pages_of sizeof_gentree_node_t + 1 = 2"
  by (simp add: pages_of_def sizeof_gentree_node_t_def PAGE_SIZE_def)

lemma klist_frame_trees:
  assumes "klist_frame s (s' :: 'a ktrees_scheme)"
  shows "tree_mem s' = tree_mem s" and "tnode_mem s' = tnode_mem s"
  using assms tmore_eq [of s' s] by (simp_all add: klist_frame_def)

lemma spacious_tree_upd [simp]:
  "spacious (s\<lparr>tree_mem := x\<rparr>) n = spacious s n" "spacious (s\<lparr>tnode_mem := y\<rparr>) n = spacious s n"
  "spacious (arch_cpu_increment_preempt_counter s) n = spacious s n"
  by (simp_all add: spacious_def arch_cpu_increment_preempt_counter_def)

lemma took_tree_upd [simp]:
  "took s (s'\<lparr>tnode_mem := y\<rparr>) n = took s s' n" "took (s\<lparr>tnode_mem := y\<rparr>) s' n = took s s' n"
  by (simp_all add: took_def)

lemma others_same_tree_upd [simp]:
  "others_same L A s (s'\<lparr>tnode_mem := y\<rparr>) = others_same L A s s'"
  "others_same L A (s\<lparr>tnode_mem := y\<rparr>) s' = others_same L A s s'"
  by (simp_all add: others_same_def)

lemma gentree_node_create_ok:
  assumes ok: "trees_ok lim B s" and room: "spacious s (2 + (2 + k))" and k: "k \<noteq> 0" "unat k < 2 ^ 62"
  obtains node L s' where "gentree_node_create v s = Inr (node, s')" and "node \<noteq> NULL" and "B node = None" and "B L = None"
    and "L \<noteq> node" and "trees_ok lim (B(node \<mapsto> sizeof_gentree_node_t, L \<mapsto> sizeof_list_t)) s'"
    and "tnode_mem s' = (tnode_mem s)(node \<mapsto> \<lparr>tnode_value = v, tnode_children = L\<rparr>)" and "tree_mem s' = tree_mem s"
    and "is_list s' L []" and "others_same L {} s s'" and "spacious s' k"
proof -
  have k2: "unat (2 + k) = 2 + unat k" using k(2) by (subst unat_add_u64) simp_all
  then have nz: "2 + k \<noteq> 0" by auto
  have heap: "heap_ok lim B s" and lists: "lists_ok lim B s" using ok lists_okD by (auto simp: trees_ok_def)
  have "room s (pages_of sizeof_gentree_node_t + 1)"
    unfolding tnode_pages using k2 k(2) by (intro spacious_room spacious_sub [OF room]) simp_all
  with heap obtain node s1 where s1: "kmalloc sizeof_gentree_node_t s = Inr (node, s1)" "node \<noteq> NULL" "B node = None"
    "heap_ok lim (B(node \<mapsto> sizeof_gentree_node_t)) s1" "pmm_frame s s1" "took s s1 (pages_of sizeof_gentree_node_t + 1)"
    by (rule kmalloc_room)
  note fr1 = frame_of_pmm [OF s1(5)]
  define s2 where "s2 = s1\<lparr>tnode_mem := (tnode_mem s1)(node \<mapsto> \<lparr>tnode_value = v, tnode_children = NULL\<rparr>)\<rparr>"
  have ok2: "lists_ok lim (B(node \<mapsto> sizeof_gentree_node_t)) s2"
    using lists_ok_fresh [OF lists s1(3,4) fr1(2,3)] by (simp add: s2_def)
  have sp1: "spacious s1 (2 + k)"
    using room s1(6) k2 k nz unfolding tnode_pages by (intro spacious_took [of s 2 "2 + k"]) simp_all
  then have sp2: "spacious s2 (2 + k)" by (simp add: s2_def)
  then have "room s2 2" using k(2) by (intro spacious_room spacious_sub [of s2 2 k]) simp_all
  with ok2 obtain L s3 where s3: "list_create s2 = Inr (L, s3)" "L \<noteq> NULL" "(B(node \<mapsto> sizeof_gentree_node_t)) L = None"
    "lists_ok lim (B(node \<mapsto> sizeof_gentree_node_t, L \<mapsto> sizeof_list_t)) s3" "is_list s3 L []" "others_same L {} s2 s3"
    "klist_frame s2 s3" "took s2 s3 2"
    by (rule list_create_ok)
  note fr3 = klist_frame_trees [OF s3(7)] and fr1' = klist_frame_trees [OF fr1(1)]
  let ?s' = "s3\<lparr>tnode_mem := (tnode_mem s)(node \<mapsto> \<lparr>tnode_value = v, tnode_children = L\<rparr>)\<rparr>"
  have Ln: "L \<noteq> node" "B L = None" using s3(3) by (auto split: if_splits)
  have create: "gentree_node_create v s = Inr (node, ?s')"
    using s1(1,2) s3(1) fr3 fr1'(2)
    by (simp add: gentree_node_create_def new_tnode_def up_tnode_def ld_tnode_def s2_def)
  show ?thesis
  proof (rule that [OF create s1(2,3) Ln(2,1)])
    show "trees_ok lim (B(node \<mapsto> sizeof_gentree_node_t, L \<mapsto> sizeof_list_t)) ?s'"
      unfolding trees_ok_def
    proof (intro conjI)
      have "\<forall>p \<in> dom (tree_mem s). (B(node \<mapsto> sizeof_gentree_node_t, L \<mapsto> sizeof_list_t)) p = Some sizeof_gentree_t"
        using ok s1(3) s3(3) by (intro typed_fresh) (simp_all add: trees_ok_def)
      then show "\<forall>p \<in> dom (tree_mem ?s'). (B(node \<mapsto> sizeof_gentree_node_t, L \<mapsto> sizeof_list_t)) p = Some sizeof_gentree_t"
        using fr3 fr1'(1) by (simp add: s2_def)
      have "\<forall>p \<in> dom (tnode_mem s). (B(node \<mapsto> sizeof_gentree_node_t, L \<mapsto> sizeof_list_t)) p = Some sizeof_gentree_node_t"
        using ok s1(3) s3(3) by (intro typed_fresh) (simp_all add: trees_ok_def)
      then show "\<forall>p \<in> dom (tnode_mem ?s'). (B(node \<mapsto> sizeof_gentree_node_t, L \<mapsto> sizeof_list_t)) p = Some sizeof_gentree_node_t"
        using Ln by auto
    qed (use s3(4) in simp)
    show "others_same L {} s ?s'" using s3(6) fr1(2,3) by (simp add: others_same_def s2_def)
    show "spacious ?s' k" using spacious_took [OF sp2 _ k(1) s3(8)] k(2) by simp
    show "tree_mem ?s' = tree_mem s" using fr3 fr1'(1) by (simp add: s2_def)
  qed (use s3(5) in simp_all)
qed

lemma gentree_create_ok:
  assumes ok: "trees_ok lim B s" and room: "spacious s (2 + k)" and k: "k \<noteq> 0" "unat k < 2 ^ 62"
  obtains T s' where "gentree_create s = Inr (T, s')" and "trees_ok lim (B(T \<mapsto> sizeof_gentree_t)) s'"
    and "tree_mem s' = (tree_mem s)(T \<mapsto> \<lparr>tree_root = NULL, tree_lk = INIT_SPINLOCK\<rparr>)" and "tnode_mem s' = tnode_mem s"
    and "spacious s' k"
proof -
  have heap: "heap_ok lim B s" and lists: "lists_ok lim B s" using ok lists_okD by (auto simp: trees_ok_def)
  have two: "pages_of sizeof_gentree_t + 1 = 2" by (simp add: pages_of_def sizeof_gentree_t_def PAGE_SIZE_def)
  have "room s (pages_of sizeof_gentree_t + 1)"
    unfolding two using k(2) by (intro spacious_room spacious_sub [OF room]) simp_all
  with heap obtain T s1 where s1: "kmalloc sizeof_gentree_t s = Inr (T, s1)" "T \<noteq> NULL" "B T = None"
    "heap_ok lim (B(T \<mapsto> sizeof_gentree_t)) s1" "pmm_frame s s1" "took s s1 (pages_of sizeof_gentree_t + 1)"
    by (rule kmalloc_room)
  note fr1 = frame_of_pmm [OF s1(5)] and fr2 = klist_frame_trees [OF frame_of_pmm(1) [OF s1(5)]]
  let ?s' = "s1\<lparr>tree_mem := (tree_mem s1)(T \<mapsto> \<lparr>tree_root = NULL, tree_lk = INIT_SPINLOCK\<rparr>)\<rparr>"
  have run: "gentree_create s = Inr (T, ?s')"
    using s1(1,2) by (simp add: gentree_create_def new_tree_def up_tree_def ld_tree_def)
  have "\<forall>p \<in> dom (tree_mem s). (B(T \<mapsto> sizeof_gentree_t)) p = Some sizeof_gentree_t"
    and "\<forall>p \<in> dom (tnode_mem s). (B(T \<mapsto> sizeof_gentree_t)) p = Some sizeof_gentree_node_t"
    using ok s1(3) by (intro typed_fresh; simp add: trees_ok_def)+
  then have "trees_ok lim (B(T \<mapsto> sizeof_gentree_t)) ?s'"
    using lists_ok_fresh [OF lists s1(3,4) fr1(2,3)] fr2 by (simp add: trees_ok_def)
  moreover have "spacious ?s' k"
    using spacious_took [OF room _ k(1) s1(6) [unfolded two]] k(2) by simp
  ultimately show ?thesis using fr2 by (intro that [OF run]) simp_all
qed

lemma gentree_insert_child:
  assumes ok: "trees_ok lim B s" and room: "spacious s 6" and tree: "tree_mem s T = Some tr" "lock (tree_lk tr) = 0" "tree_root tr \<noteq> NULL"
    and sub: "tnode_mem s b = Some \<lparr>tnode_value = w, tnode_children = L\<rparr>" "is_list s L xs"
  obtains node K n s' tr' where "gentree_insert T b v s = Inr (node, s')" and "node \<noteq> NULL" and "B node = None"
    and "trees_ok lim (B(node \<mapsto> sizeof_gentree_node_t, K \<mapsto> sizeof_list_t, n \<mapsto> sizeof_list_node_t)) s'"
    and "tnode_mem s' = (tnode_mem s)(node \<mapsto> \<lparr>tnode_value = v, tnode_children = K\<rparr>)" and "is_list s' K []"
    and "is_list s' L ((n, node) # xs)"
    and "\<forall>M ys. is_list s M ys \<and> M \<noteq> L \<and> addrs ys \<inter> addrs xs = {} \<longrightarrow> is_list s' M ys"
    and "tree_mem s' = (tree_mem s)(T \<mapsto> tr')" and "tree_root tr' = tree_root tr" and "lock (tree_lk tr') = 0"
proof -
  let ?s1 = "tree_taken ''gentree_insert'' 271 T tr s"
  have ok1: "trees_ok lim B ?s1" using ok tree(1) by (auto simp: trees_ok_def)
  have "spacious ?s1 (2 + (2 + 2))" using room by (simp add: tree_taken_def)
  from ok1 this obtain node K s2 where s2: "gentree_node_create v ?s1 = Inr (node, s2)" "node \<noteq> NULL" "B node = None" "B K = None"
    "K \<noteq> node" "trees_ok lim (B(node \<mapsto> sizeof_gentree_node_t, K \<mapsto> sizeof_list_t)) s2"
    "tnode_mem s2 = (tnode_mem ?s1)(node \<mapsto> \<lparr>tnode_value = v, tnode_children = K\<rparr>)" "tree_mem s2 = tree_mem ?s1"
    "is_list s2 K []" "others_same K {} ?s1 s2" "spacious s2 2"
    by (rule gentree_node_create_ok) simp_all
  have KL: "K \<noteq> L" using typed_blocks(1) [OF ok sub(2)] s2(4) by auto
  have other2: "is_list s2 M ys" if "is_list s M ys" for M ys
  proof -
    have "M \<noteq> K" using typed_blocks(1) [OF ok that] s2(4) by auto
    with that show ?thesis using others_is_list [OF s2(10), of M ys] by simp
  qed
  have lists2: "lists_ok lim (B(node \<mapsto> sizeof_gentree_node_t, K \<mapsto> sizeof_list_t)) s2" using s2(6) by (simp add: trees_ok_def)
  from lists2 spacious_room [OF s2(11)] other2 [OF sub(2)] obtain n s3 where s3: "list_push_front L node s2 = Inr (n, s3)" "n \<noteq> NULL"
    "(B(node \<mapsto> sizeof_gentree_node_t, K \<mapsto> sizeof_list_t)) n = None"
    "lists_ok lim (B(node \<mapsto> sizeof_gentree_node_t, K \<mapsto> sizeof_list_t, n \<mapsto> sizeof_list_node_t)) s3"
    "is_list s3 L ((n, node) # xs)" "others_same L (insert n (addrs xs)) s2 s3" "klist_frame s2 s3" "took s2 s3 2"
    by (rule list_push_front_ok)
  note fr = klist_frame_trees [OF s3(7)]
  have bn: "b \<noteq> node" using typed_blocks(2) [OF ok sub(1)] s2(3) by auto
  let ?tr = "tr\<lparr>tree_lk := (tree_lk tr)\<lparr>last_acquirer := acquirer_of (''lists.c'', ''gentree_insert'', 271) s, lock := 0\<rparr>\<rparr>"
  let ?s' = "(arch_cpu_decrement_preempt_counter s3)\<lparr>tree_mem := (tree_mem s)(T \<mapsto> ?tr)\<rparr>"
  have ins: "gentree_insert T b v s = Inr (node, ?s')"
    using tree sub bn s2(1,7,8) s3(1) fr
    by (simp add: gentree_insert_def tree_lock_eq tree_unlock_eq ld_tree_def ld_tnode_def)
  have other: "is_list s3 M ys" if that: "is_list s M ys" "M \<noteq> L" "addrs ys \<inter> addrs xs = {}" for M ys
  proof -
    have "n \<notin> addrs ys" using typed_blocks(3) [OF s2(6) other2 [OF that(1)], of n] s3(3) by auto
    then show ?thesis using others_is_list [OF s3(6) other2 [OF that(1)]] that by simp
  qed
  show ?thesis
  proof (rule that [OF ins s2(2,3)])
    show "trees_ok lim (B(node \<mapsto> sizeof_gentree_node_t, K \<mapsto> sizeof_list_t, n \<mapsto> sizeof_list_node_t)) ?s'"
      unfolding trees_ok_def
    proof (intro conjI)
      have "\<forall>p \<in> dom (tree_mem s2). (B(node \<mapsto> sizeof_gentree_node_t, K \<mapsto> sizeof_list_t, n \<mapsto> sizeof_list_node_t)) p = Some sizeof_gentree_t"
        using s2(6) s3(3)
        by (intro typed_fresh [where x = n and B = "B(node \<mapsto> sizeof_gentree_node_t, K \<mapsto> sizeof_list_t)"]) (simp_all add: trees_ok_def)
      then show "\<forall>p \<in> dom (tree_mem ?s'). (B(node \<mapsto> sizeof_gentree_node_t, K \<mapsto> sizeof_list_t, n \<mapsto> sizeof_list_node_t)) p = Some sizeof_gentree_t"
        using s2(8) tree(1) by simp
      have "\<forall>p \<in> dom (tnode_mem s2). (B(node \<mapsto> sizeof_gentree_node_t, K \<mapsto> sizeof_list_t, n \<mapsto> sizeof_list_node_t)) p = Some sizeof_gentree_node_t"
        using s2(6) s3(3)
        by (intro typed_fresh [where x = n and B = "B(node \<mapsto> sizeof_gentree_node_t, K \<mapsto> sizeof_list_t)"]) (simp_all add: trees_ok_def)
      then show "\<forall>p \<in> dom (tnode_mem ?s'). (B(node \<mapsto> sizeof_gentree_node_t, K \<mapsto> sizeof_list_t, n \<mapsto> sizeof_list_node_t)) p = Some sizeof_gentree_node_t"
        using fr by simp
    qed (use s3(4) in simp)
    show "\<forall>M ys. is_list s M ys \<and> M \<noteq> L \<and> addrs ys \<inter> addrs xs = {} \<longrightarrow> is_list ?s' M ys" using other by simp
    have "is_list s3 K []"
      using others_is_list [OF s3(6) s2(9) KL] by simp
    then show "is_list ?s' K []" by simp
    show "tree_mem ?s' = (tree_mem s)(T \<mapsto> ?tr)" by simp
  qed (use s3(5) fr s2(7) in simp_all)
qed

lemma gentree_insert_root:
  assumes ok: "trees_ok lim B s" and room: "spacious s (2 + (2 + k))" and k: "k \<noteq> 0" "unat k < 2 ^ 62" and tree: "tree_mem s T = Some tr" "lock (tree_lk tr) = 0" "tree_root tr = NULL"
  obtains node K s' tr' where "gentree_insert T b v s = Inr (node, s')" and "node \<noteq> NULL"
    and "trees_ok lim (B(node \<mapsto> sizeof_gentree_node_t, K \<mapsto> sizeof_list_t)) s'"
    and "tnode_mem s' = (tnode_mem s)(node \<mapsto> \<lparr>tnode_value = v, tnode_children = K\<rparr>)" and "is_list s' K []"
    and "tree_mem s' = (tree_mem s)(T \<mapsto> tr')" and "tree_root tr' = node" and "lock (tree_lk tr') = 0"
    and "spacious s' k"
proof -
  let ?s1 = "tree_taken ''gentree_insert'' 271 T tr s"
  have ok1: "trees_ok lim B ?s1" using ok tree(1) by (auto simp: trees_ok_def)
  have "spacious ?s1 (2 + (2 + k))" using room by (simp add: tree_taken_def)
  from ok1 this k obtain node K s2 where s2: "gentree_node_create v ?s1 = Inr (node, s2)" "node \<noteq> NULL" "B node = None" "B K = None"
    "K \<noteq> node" "trees_ok lim (B(node \<mapsto> sizeof_gentree_node_t, K \<mapsto> sizeof_list_t)) s2"
    "tnode_mem s2 = (tnode_mem ?s1)(node \<mapsto> \<lparr>tnode_value = v, tnode_children = K\<rparr>)" "tree_mem s2 = tree_mem ?s1"
    "is_list s2 K []" "others_same K {} ?s1 s2" "spacious s2 k"
    by (rule gentree_node_create_ok)
  let ?tr = "tr\<lparr>tree_root := node, tree_lk := (tree_lk tr)\<lparr>last_acquirer := acquirer_of (''lists.c'', ''gentree_insert'', 271) s, lock := 0\<rparr>\<rparr>"
  let ?s' = "(arch_cpu_decrement_preempt_counter s2)\<lparr>tree_mem := (tree_mem s)(T \<mapsto> ?tr)\<rparr>"
  have upd: "arch_cpu_decrement_preempt_counter (s\<lparr>tree_mem := x\<rparr>) = (arch_cpu_decrement_preempt_counter s)\<lparr>tree_mem := x\<rparr>" for s :: "'a ktrees_scheme" and x
    by (simp add: arch_cpu_decrement_preempt_counter_def riscv_cpu_inited_def)
  have ins: "gentree_insert T b v s = Inr (node, ?s')"
    using tree s2(1,7,8)
    by (simp add: gentree_insert_def tree_lock_eq tree_unlock_eq ld_tree_def ld_tnode_def up_tree_def upd)
  show ?thesis
  proof (rule that [OF ins s2(2)])
    show "trees_ok lim (B(node \<mapsto> sizeof_gentree_node_t, K \<mapsto> sizeof_list_t)) ?s'"
      using s2(6,8) tree(1) by (auto simp: trees_ok_def)
    show "tree_mem ?s' = (tree_mem s)(T \<mapsto> ?tr)" by simp
    show "spacious ?s' k" using s2(11) by (simp add: spacious_def arch_cpu_decrement_preempt_counter_def)
  qed (use s2(7,9) in simp_all)
qed

section \<open>Removal\<close>

text \<open>The subtree at a parent, as the list of its children.\<close>

lemma gt_edge_list:
  "gt_rep s t \<Longrightarrow> (a, i, x) \<in> gt_edges t \<Longrightarrow> \<exists>v L xs. tnode_mem s a = Some \<lparr>tnode_value = v, tnode_children = L\<rparr>
     \<and> is_list s L xs \<and> i < length xs \<and> snd (xs ! i) = x \<and> length xs < 2 ^ 64 - 1 \<and> a \<noteq> NULL"
  "kids_rep s ks \<Longrightarrow> (a, i, x) \<in> kids_edges ks \<Longrightarrow> \<exists>v L xs. tnode_mem s a = Some \<lparr>tnode_value = v, tnode_children = L\<rparr>
     \<and> is_list s L xs \<and> i < length xs \<and> snd (xs ! i) = x \<and> length xs < 2 ^ 64 - 1 \<and> a \<noteq> NULL"
  by (induction t and ks) fastforce+

lemma gt_nodes_dom:
  "gt_rep s t \<Longrightarrow> root_of t \<in> dom (tnode_mem s)"
  "kids_rep s ks \<Longrightarrow> snd ` set (knodes ks) \<subseteq> dom (tnode_mem s)"
  by (induction t and ks) auto

lemma gt_edge_child:
  "gt_rep s t \<Longrightarrow> (a, i, x) \<in> gt_edges t \<Longrightarrow> x \<in> dom (tnode_mem s)"
  "kids_rep s ks \<Longrightarrow> (a, i, x) \<in> kids_edges ks \<Longrightarrow> x \<in> dom (tnode_mem s)"
proof (induction t and ks)
  case (GT b v L ks)
  then show ?case using gt_nodes_dom(2) [of s ks] nth_mem by fastforce
qed auto

lemma gentree_remove_ok:
  assumes ok: "trees_ok lim B s" and tree: "tree_mem s T = Some tr" "lock (tree_lk tr) = 0" "tree_root tr = root_of t"
    and rep: "gt_rep s t" and x: "x \<noteq> root_of t" and p: "pfind x t = Some (a, i)"
  obtains v L xs s' where "tnode_mem s a = Some \<lparr>tnode_value = v, tnode_children = L\<rparr>" and "is_list s L xs"
    and "i < length xs" and "snd (xs ! i) = x" and "gentree_remove T x s = Inr s'"
    and "is_list s' L (take i xs @ drop (Suc i) xs)" and "tnode_mem s' = (tnode_mem s)(x := None)"
    and "lists_ok lim (B(fst (xs ! i) := None, x := None)) s'"
    and "\<forall>M ys. is_list s M ys \<and> M \<noteq> L \<and> addrs ys \<inter> addrs xs = {} \<longrightarrow> is_list s' M ys"
proof -
  have "(a, i, x) \<in> gt_edges t" using p by (rule pfind_edge)
  then obtain v L xs where sub: "tnode_mem s a = Some \<lparr>tnode_value = v, tnode_children = L\<rparr>" "is_list s L xs"
    "i < length xs" "snd (xs ! i) = x" "length xs < 2 ^ 64 - 1" "a \<noteq> NULL" and dx: "x \<in> dom (tnode_mem s)"
    using gt_edge_list(1) [OF rep] gt_edge_child(1) [OF rep] by blast
  from tree rep obtain b k s1 tr' where s1: "gentree_get_parent T x s = Inr (b, k, s1)"
    "(b, k) = (if x = root_of t then (NULL, None) else found_parent (pfind x t))"
    "node_mem s1 = node_mem s" "tnode_mem s1 = tnode_mem s" "\<forall>L xs. is_list s L xs \<longrightarrow> is_list s1 L xs"
    "\<forall>lim B. lists_ok lim B s \<longrightarrow> lists_ok lim B s1"
    "tree_mem s1 = (tree_mem s)(T \<mapsto> tr')" "tree_root tr' = tree_root tr" "lock (tree_lk tr') = 0"
    by (rule gentree_get_parent_ok [where x = x])
  have bk: "b = a" "k = Some (of_nat i)" using s1(2) x p by simp_all
  have i64: "unat (of_nat i :: u64) = i" using sub(3,5) by (intro unat_of_nat_u64) simp
  have ok1: "lists_ok lim B s1" using ok s1(6) by (simp add: trees_ok_def)
  have "length xs < 2 ^ 64" and "unat (of_nat i :: u64) < length xs" using sub(3,5) i64 by simp_all
  with ok1 s1(5) [rule_format, OF sub(2)] obtain s2 where s2: "list_remove_indexed L (of_nat i) s1 = Inr (snd (xs ! unat (of_nat i :: u64)), s2)"
    "removed lim B L (fst (xs ! unat (of_nat i :: u64))) (addrs xs) (take (unat (of_nat i :: u64)) xs @ drop (Suc (unat (of_nat i :: u64))) xs) s1 s2"
    by (rule list_remove_indexed_ok)
  have rem: "removed lim B L (fst (xs ! i)) (addrs xs) (take i xs @ drop (Suc i) xs) s1 s2" using s2(2) i64 by simp
  have Bx: "B x = Some sizeof_gentree_node_t" using dx ok by (auto simp: trees_ok_def)
  have "fst (xs ! i) \<in> addrs xs" using sub(3) by simp
  then have "B (fst (xs ! i)) = Some sizeof_list_node_t" using typed_blocks(3) [OF ok sub(2)] by blast
  then have "(B(fst (xs ! i) := None)) x = Some sizeof_gentree_node_t"
    using Bx by (auto simp: sizeof_list_node_t_def sizeof_gentree_node_t_def)
  moreover have lists2: "lists_ok lim (B(fst (xs ! i) := None)) s2" using rem by (simp add: removed_def)
  ultimately obtain s3 where s3: "kfree x s2 = Inr s3" "heap_ok lim (B(fst (xs ! i) := None, x := None)) s3" "pmm_frame s2 s3"
    using kfree_ok [OF lists_okD] by metis
  note fr3 = frame_of_pmm [OF s3(3)]
  have fr: "tnode_mem s2 = tnode_mem s1" "tnode_mem s3 = tnode_mem s2"
    using klist_frame_trees(2) [of s1 s2] klist_frame_trees(2) [OF fr3(1)] rem by (simp_all add: removed_def)
  let ?s' = "s3\<lparr>tnode_mem := (tnode_mem s3)(x := None)\<rparr>"
  have same: "is_list s3 M ys = is_list s2 M ys" for M ys using fr3(2,3) by (simp add: is_list_def)
  have run: "gentree_remove T x s = Inr ?s'"
    using s1(1) bk sub(1,4,6) s1(4) s2(1) s3(1) i64 by (simp add: gentree_remove_def ld_tnode_def free_tnode_def)
  have notin: "x \<notin> dom (list_mem s2)" "x \<notin> dom (node_mem s2)"
    using lists2 Bx by (auto simp: lists_ok_def sizeof_list_node_t_def sizeof_gentree_node_t_def sizeof_list_t_def
        split: if_splits dest: bspec [where x = x])
  show ?thesis
  proof (rule that [OF sub(1-4) run])
    show "is_list ?s' L (take i xs @ drop (Suc i) xs)" using rem same by (simp add: removed_def)
    show "lists_ok lim (B(fst (xs ! i) := None, x := None)) ?s'"
      using lists2 s3(2) fr3(2,3) notin by (auto simp: lists_ok_def)
    show "\<forall>M ys. is_list s M ys \<and> M \<noteq> L \<and> addrs ys \<inter> addrs xs = {} \<longrightarrow> is_list ?s' M ys"
      using rem same s1(5) others_is_list [of L "addrs xs" s1 s2] by (auto simp: removed_def)
  qed (use fr s1(4) in simp)
qed

section \<open>Properties\<close>

text \<open>The machine of the list instances, with no tree yet.\<close>

definition demo_trees :: ktrees where
  "demo_trees = klists.extend demo_lists \<lparr>tree_mem = Map.empty, tnode_mem = Map.empty\<rparr>"

lemma demo_trees_ok: "trees_ok 16 Map.empty demo_trees"
  by (simp add: trees_ok_def lists_ok_def heap_ok_def pmm_ok_def demo_trees_def demo_lists_def demo_bits INIT_SPINLOCK_def
      mapped_def klists.defs)

lemma demo_trees_space: "spacious demo_trees (2 + (2 + (2 + 6)))"
  unfolding spacious_def
proof (intro conjI exI)
  show "is_bitmap_page_free (bitmap demo_trees) 2 (2 + (2 + (2 + 6)))"
    by (simp add: is_bitmap_page_free_def demo_trees_def demo_lists_def klists.defs demo_bitmap_def test_bit_def)
qed (simp_all add: demo_trees_def demo_lists_def klists.defs)

lemma demo_root:
  "\<exists>T s1 r (s :: ktrees) B tr K. gentree_create demo_trees = Inr (T, s1) \<and> gentree_insert T NULL 7 s1 = Inr (r, s) \<and>
     trees_ok 16 B s \<and> spacious s 6 \<and> tree_mem s T = Some tr \<and> lock (tree_lk tr) = 0 \<and> tree_root tr = r \<and> r \<noteq> NULL \<and>
     tnode_mem s r = Some \<lparr>tnode_value = 7, tnode_children = K\<rparr> \<and> is_list s K []"
proof -
  have k: "(2 + (2 + 6) :: u64) \<noteq> 0" "unat (2 + (2 + 6) :: u64) < 2 ^ 62" by simp_all
  from demo_trees_ok demo_trees_space k obtain T s1 where s1: "gentree_create demo_trees = Inr (T, s1)"
    "trees_ok 16 (Map.empty(T \<mapsto> sizeof_gentree_t)) s1" "tree_mem s1 = (tree_mem demo_trees)(T \<mapsto> \<lparr>tree_root = NULL, tree_lk = INIT_SPINLOCK\<rparr>)"
    "tnode_mem s1 = tnode_mem demo_trees" "spacious s1 (2 + (2 + 6))"
    by (rule gentree_create_ok)
  have tree: "tree_mem s1 T = Some \<lparr>tree_root = NULL, tree_lk = INIT_SPINLOCK\<rparr>" "lock (tree_lk \<lparr>tree_root = NULL, tree_lk = INIT_SPINLOCK\<rparr>) = 0"
    "tree_root \<lparr>tree_root = NULL, tree_lk = INIT_SPINLOCK\<rparr> = NULL"
    using s1(3) by (simp_all add: INIT_SPINLOCK_def)
  have six: "(6 :: u64) \<noteq> 0" "unat (6 :: u64) < 2 ^ 62" by simp_all
  from s1(2,5) six tree obtain r K s tr where "gentree_insert T NULL 7 s1 = Inr (r, s)" "r \<noteq> NULL"
    "trees_ok 16 (Map.empty(T \<mapsto> sizeof_gentree_t, r \<mapsto> sizeof_gentree_node_t, K \<mapsto> sizeof_list_t)) s"
    "tnode_mem s = (tnode_mem s1)(r \<mapsto> \<lparr>tnode_value = 7, tnode_children = K\<rparr>)" "is_list s K []"
    "tree_mem s = (tree_mem s1)(T \<mapsto> tr)" "tree_root tr = r" "lock (tree_lk tr) = 0" "spacious s 6"
    by (rule gentree_insert_root)
  with s1(1) show ?thesis by auto
qed

text \<open>
  Property C22. \<open>gentree_insert\<close> under a node of a tree that has a root makes a new node with the value
  and an empty list of children, and links it as the first child of the given node; every other
  tree node, and every list that shares no node with that list of children, is as before, and the
  tree is unlocked. There is room for three blocks.
\<close>

theorem gentree_insert_first_child:
  assumes "trees_ok lim B s" and "spacious s 6" and "tree_mem s T = Some tr" and "lock (tree_lk tr) = 0" and "tree_root tr \<noteq> NULL"
    and "tnode_mem s b = Some \<lparr>tnode_value = w, tnode_children = L\<rparr>" and "is_list s L xs"
  shows "\<exists>node K n s' tr'. gentree_insert T b v s = Inr (node, s') \<and> node \<noteq> NULL \<and> B node = None
    \<and> trees_ok lim (B(node \<mapsto> sizeof_gentree_node_t, K \<mapsto> sizeof_list_t, n \<mapsto> sizeof_list_node_t)) s'
    \<and> tnode_mem s' = (tnode_mem s)(node \<mapsto> \<lparr>tnode_value = v, tnode_children = K\<rparr>) \<and> is_list s' K []
    \<and> is_list s' L ((n, node) # xs)
    \<and> (\<forall>M ys. is_list s M ys \<and> M \<noteq> L \<and> addrs ys \<inter> addrs xs = {} \<longrightarrow> is_list s' M ys)
    \<and> tree_mem s' = (tree_mem s)(T \<mapsto> tr') \<and> tree_root tr' = tree_root tr \<and> lock (tree_lk tr') = 0"
  by (rule gentree_insert_child [OF assms]) blast

theorem gentree_insert_first_child_witness:
  "\<exists>(s :: ktrees) T r K n node s'. tnode_mem s r = Some \<lparr>tnode_value = 7, tnode_children = K\<rparr> \<and> is_list s K []
     \<and> gentree_insert T r 8 s = Inr (node, s') \<and> is_list s' K [(n, node)]"
proof -
  obtain T r B tr K and s :: ktrees where s: "trees_ok 16 B s" "spacious s 6" "tree_mem s T = Some tr" "lock (tree_lk tr) = 0"
    "tree_root tr = r" "r \<noteq> NULL" "tnode_mem s r = Some \<lparr>tnode_value = 7, tnode_children = K\<rparr>" "is_list s K []"
    using demo_root by blast
  then have "tree_root tr \<noteq> NULL" by simp
  from gentree_insert_first_child [OF s(1-4) this s(7,8), of 8] s(7,8) show ?thesis by blast
qed

text \<open>
  Property C23. The search for a parent ends on every tree of the heap, however deep: for the root it
  returns null, for every other address a node of the tree together with the index at which the
  address is its child, or null when no node has it as a child. The tree is as before, with all its
  locks free.
\<close>

theorem gentree_get_parent_finds:
  assumes "tree_mem s T = Some tr" and "lock (tree_lk tr) = 0" and "tree_root tr = root_of t" and "gt_rep s t"
  shows "\<exists>a i s'. gentree_get_parent T x s = Inr (a, i, s') \<and> gt_rep s' t \<and>
    (if x = root_of t then a = NULL \<and> i = None
     else a = NULL \<and> i = None \<and> (\<forall>b k. (b, k, x) \<notin> gt_edges t) \<or> a \<noteq> NULL \<and> (\<exists>k. i = Some (of_nat k) \<and> (a, k, x) \<in> gt_edges t))"
proof -
  from assms obtain a i s' tr' where s': "gentree_get_parent T x s = Inr (a, i, s')"
    "(a, i) = (if x = root_of t then (NULL, None) else found_parent (pfind x t))"
    "node_mem s' = node_mem s" "tnode_mem s' = tnode_mem s" "\<forall>L xs. is_list s L xs \<longrightarrow> is_list s' L xs"
    "\<forall>lim B. lists_ok lim B s \<longrightarrow> lists_ok lim B s'"
    "tree_mem s' = (tree_mem s)(T \<mapsto> tr')" "tree_root tr' = tree_root tr" "lock (tree_lk tr') = 0"
    by (rule gentree_get_parent_ok [where x = x])
  have mono: "gt_rep s u \<Longrightarrow> gt_rep s' u" "kids_rep s us \<Longrightarrow> kids_rep s' us" for u us
    using s'(4,5) by (induction u and us) auto
  show ?thesis
  proof (cases "x = root_of t")
    case True
    then show ?thesis using s'(1,2) mono(1) [OF assms(4)] by auto
  next
    case False
    show ?thesis
    proof (cases "pfind x t")
      case None
      then show ?thesis using s'(1,2) mono(1) [OF assms(4)] False pfind_none(1) [OF None] by auto
    next
      case (Some r)
      obtain c k where "r = (c, k)" by (cases r)
      then show ?thesis
        using s'(1,2) mono(1) [OF assms(4)] False Some pfind_edge(1) [of x t c k] pfind_nonnull(1) [OF assms(4), of x c k] by auto
    qed
  qed
qed

lemma demo_tree:
  "\<exists>T (s :: ktrees) tr r K n c M B. tree_mem s T = Some tr \<and> lock (tree_lk tr) = 0 \<and> tree_root tr = r \<and> c \<noteq> r \<and> M \<noteq> K \<and>
     gt_rep s (GT r 7 K (KCons n (GT c 8 M KNil) KNil)) \<and> trees_ok 16 B s"
proof -
  obtain T r B tr K and s :: ktrees where s: "trees_ok 16 B s" "spacious s 6" "tree_mem s T = Some tr" "lock (tree_lk tr) = 0"
    "tree_root tr = r" "r \<noteq> NULL" "tnode_mem s r = Some \<lparr>tnode_value = 7, tnode_children = K\<rparr>" "is_list s K []"
    using demo_root by blast
  then have "tree_root tr \<noteq> NULL" by simp
  from s(1-4) this s(7,8) obtain c M n s' tr' where s': "gentree_insert T r 8 s = Inr (c, s')" "c \<noteq> NULL" "B c = None"
    "trees_ok 16 (B(c \<mapsto> sizeof_gentree_node_t, M \<mapsto> sizeof_list_t, n \<mapsto> sizeof_list_node_t)) s'"
    "tnode_mem s' = (tnode_mem s)(c \<mapsto> \<lparr>tnode_value = 8, tnode_children = M\<rparr>)" "is_list s' M []" "is_list s' K [(n, c)]"
    "\<forall>M ys. is_list s M ys \<and> M \<noteq> K \<and> addrs ys \<inter> addrs [] = {} \<longrightarrow> is_list s' M ys"
    "tree_mem s' = (tree_mem s)(T \<mapsto> tr')" "tree_root tr' = tree_root tr" "lock (tree_lk tr') = 0"
    by (rule gentree_insert_child [where v = 8])
  have "c \<noteq> r" using typed_blocks(2) [OF s(1,7)] s'(3) by auto
  moreover have "M \<noteq> K"
  proof
    assume "M = K"
    with s'(6,7) show False by (auto simp: is_list_def list_rep_def)
  qed
  moreover have "gt_rep s' (GT r 7 K (KCons n (GT c 8 M KNil) KNil))" using s(6,7) s'(2,5-7) \<open>c \<noteq> r\<close> by simp
  moreover have "tree_mem s' T = Some tr'" "tree_root tr' = r" using s'(9,10) s(5) by simp_all
  ultimately show ?thesis using s'(4,11) by blast
qed

theorem gentree_get_parent_finds_witness:
  "\<exists>T (s :: ktrees) r c s'. gentree_get_parent T c s = Inr (r, Some 0, s') \<and> r \<noteq> NULL"
proof -
  obtain T tr r K n c M and s :: ktrees where s: "tree_mem s T = Some tr" "lock (tree_lk tr) = 0" "tree_root tr = r" "c \<noteq> r"
    "gt_rep s (GT r 7 K (KCons n (GT c 8 M KNil) KNil))"
    using demo_tree by blast
  have root: "tree_root tr = root_of (GT r 7 K (KCons n (GT c 8 M KNil) KNil))" using s(3) by simp
  from gentree_get_parent_finds [OF s(1,2) root s(5), of c] s(4) obtain s' where "gentree_get_parent T c s = Inr (r, Some 0, s')" "r \<noteq> NULL"
    by auto
  then show ?thesis by blast
qed

text \<open>
  \<open>gentree_remove\<close> of a node below the root takes it out of its parent's list and
  releases the node and the list node that referred to it, but not the node's own list of children:
  that list is still allocated and as before, and nothing refers to it any more.
\<close>

theorem gentree_remove_leaks_children:
  assumes "trees_ok lim B s" and "tree_mem s T = Some tr" and "lock (tree_lk tr) = 0" and "tree_root tr = root_of t"
    and "gt_rep s t" and "x \<noteq> root_of t" and "(b, k, x) \<in> gt_edges t"
    and "tnode_mem s x = Some \<lparr>tnode_value = w, tnode_children = K\<rparr>" and "is_list s K ys"
    and "\<forall>a i v L xs. (a, i, x) \<in> gt_edges t \<and> tnode_mem s a = Some \<lparr>tnode_value = v, tnode_children = L\<rparr> \<and> is_list s L xs
      \<longrightarrow> L \<noteq> K \<and> addrs ys \<inter> addrs xs = {}"
  shows "\<exists>a i v L xs s'. (a, i, x) \<in> gt_edges t \<and> tnode_mem s a = Some \<lparr>tnode_value = v, tnode_children = L\<rparr> \<and> is_list s L xs
    \<and> gentree_remove T x s = Inr s' \<and> is_list s' L (take i xs @ drop (Suc i) xs) \<and> tnode_mem s' = (tnode_mem s)(x := None)
    \<and> lists_ok lim (B(fst (xs ! i) := None, x := None)) s'
    \<and> (B(fst (xs ! i) := None, x := None)) K = Some sizeof_list_t \<and> is_list s' K ys"
proof -
  obtain a i where p: "pfind x t = Some (a, i)"
    using pfind_none(1) [of x t b k] assms(7) by (cases "pfind x t") auto
  from assms(1-6) p obtain v L xs s' where s': "tnode_mem s a = Some \<lparr>tnode_value = v, tnode_children = L\<rparr>" "is_list s L xs"
    "i < length xs" "snd (xs ! i) = x" "gentree_remove T x s = Inr s'" "is_list s' L (take i xs @ drop (Suc i) xs)"
    "tnode_mem s' = (tnode_mem s)(x := None)" "lists_ok lim (B(fst (xs ! i) := None, x := None)) s'"
    "\<forall>M ys. is_list s M ys \<and> M \<noteq> L \<and> addrs ys \<inter> addrs xs = {} \<longrightarrow> is_list s' M ys"
    by (rule gentree_remove_ok)
  have edge: "(a, i, x) \<in> gt_edges t" using p by (rule pfind_edge)
  then have "L \<noteq> K \<and> addrs ys \<inter> addrs xs = {}" using assms(10) s'(1,2) by blast
  then have "is_list s' K ys" using s'(9) assms(9) by blast
  moreover have "B K = Some sizeof_list_t" "B x = Some sizeof_gentree_node_t" "B (fst (xs ! i)) = Some sizeof_list_node_t"
    using typed_blocks(1) [OF assms(1,9)] typed_blocks(2) [OF assms(1,8)] typed_blocks(3) [OF assms(1) s'(2), of "fst (xs ! i)"] s'(3) by auto
  then have "(B(fst (xs ! i) := None, x := None)) K = Some sizeof_list_t"
    by (auto simp: sizeof_list_t_def sizeof_gentree_node_t_def sizeof_list_node_t_def)
  ultimately show ?thesis using edge s' by blast
qed

theorem gentree_remove_leaks_children_witness:
  "\<exists>T (s :: ktrees) c M B n s'. is_list s M [] \<and> gentree_remove T c s = Inr s' \<and> tnode_mem s' c = None
     \<and> lists_ok 16 (B(n := None, c := None)) s' \<and> (B(n := None, c := None)) M = Some sizeof_list_t \<and> is_list s' M []"
proof -
  obtain T tr r K n c M B and s :: ktrees where s: "tree_mem s T = Some tr" "lock (tree_lk tr) = 0" "tree_root tr = r" "c \<noteq> r" "M \<noteq> K"
    "gt_rep s (GT r 7 K (KCons n (GT c 8 M KNil) KNil))" "trees_ok 16 B s"
    using demo_tree by blast
  let ?t = "GT r 7 K (KCons n (GT c 8 M KNil) KNil)"
  have root: "tree_root tr = root_of ?t" and c: "c \<noteq> root_of ?t" and e: "(r, 0, c) \<in> gt_edges ?t" using s(3,4) by auto
  have node: "tnode_mem s c = Some \<lparr>tnode_value = 8, tnode_children = M\<rparr>" and lst: "is_list s M []" using s(6) by simp_all
  have par: "\<forall>a i v L xs. (a, i, c) \<in> gt_edges ?t \<and> tnode_mem s a = Some \<lparr>tnode_value = v, tnode_children = L\<rparr> \<and> is_list s L xs
      \<longrightarrow> L \<noteq> M \<and> addrs [] \<inter> addrs xs = {}"
    using s(5,6) by auto
  from gentree_remove_leaks_children [OF s(7,1,2) root s(6) c e node lst par] obtain i and xs :: nodes and s' where
    "gentree_remove T c s = Inr s'" "tnode_mem s' = (tnode_mem s)(c := None)" "lists_ok 16 (B(fst (xs ! i) := None, c := None)) s'"
    "(B(fst (xs ! i) := None, c := None)) M = Some sizeof_list_t" "is_list s' M []"
    by blast
  with lst show ?thesis by (intro exI [of _ T] exI [of _ s] exI [of _ c] exI [of _ M] exI [of _ B] exI [of _ "fst (xs ! i)"] exI [of _ s']) simp
qed

end
