(* ===== verification/Dtb.thy ===== *)
theory Dtb
  imports Gentree
begin

text \<open>
  The device tree: the byte swaps of \<open>kernel/utils/utils.c\<close> and all of \<open>kernel/utils/dtb.c\<close>, which
  turns a flattened device tree in memory into a generic tree of nodes, each with a list of
  properties, and answers questions about it. Nodes and properties are objects of a typed heap over
  the kernel heap; names and data lie in byte memory. String literals of the source are arguments
  that stand for their addresses, and a result that the code stores through a pointer is an option,
  present when the code stores it.
\<close>

section \<open>Byte order\<close>

definition be32 :: "u32 \<Rightarrow> u32" where
  "be32 input =
     (let temp = 0;
          temp = temp OR push_bit 24 (input AND 0xFF);
          temp = temp OR push_bit 8 (input AND 0xFF00);
          temp = temp OR drop_bit 8 (input AND 0xFF0000);
          temp = temp OR drop_bit 24 (input AND 0xFF000000)
      in temp)"

definition be64 :: "u64 \<Rightarrow> u64" where
  "be64 input =
     (let temp = 0;
          temp = temp OR push_bit 56 (input AND 0xFF);
          temp = temp OR push_bit 48 (drop_bit 8 input AND 0xFF);
          temp = temp OR push_bit 40 (drop_bit 16 input AND 0xFF);
          temp = temp OR push_bit 32 (drop_bit 24 input AND 0xFF);
          temp = temp OR push_bit 24 (drop_bit 32 input AND 0xFF);
          temp = temp OR push_bit 16 (drop_bit 40 input AND 0xFF);
          temp = temp OR push_bit 8 (drop_bit 48 input AND 0xFF);
          temp = temp OR (drop_bit 56 input AND 0xFF)
      in temp)"

definition ld32 :: "mem \<Rightarrow> addr \<Rightarrow> u32 res" where
  "ld32 m a = bnd (ld_bytes m a 4) (\<lambda>bs. Inr (ucast (of_bytes bs)))"

section \<open>Data\<close>

record dtb_node_t =
  dnode_name :: addr
  dnode_props :: addr
  dnode_tree_node :: addr
  dnode_rootNode :: int

record dtb_prop_t =
  dprop_name :: addr
  dprop_data :: addr
  dprop_data_len :: size_t

definition sizeof_dtb_node_t :: size_t where
  "sizeof_dtb_node_t = 32"

definition sizeof_dtb_prop_t :: size_t where
  "sizeof_dtb_prop_t = 24"

record kdtb = ktrees +
  dnode_mem :: "addr \<rightharpoonup> dtb_node_t"
  dprop_mem :: "addr \<rightharpoonup> dtb_prop_t"
  DTBNodes :: addr

text \<open>The fields of the header of a flattened tree, and the tokens of its structure block.\<close>

definition fdt_magic :: "mem \<Rightarrow> addr \<Rightarrow> u32 res" where
  "fdt_magic m header = ld32 m header"

definition fdt_off_dt_struct :: "mem \<Rightarrow> addr \<Rightarrow> u32 res" where
  "fdt_off_dt_struct m header = ld32 m (header + 8)"

definition fdt_off_dt_strings :: "mem \<Rightarrow> addr \<Rightarrow> u32 res" where
  "fdt_off_dt_strings m header = ld32 m (header + 12)"

definition fdt_last_comp_version :: "mem \<Rightarrow> addr \<Rightarrow> u32 res" where
  "fdt_last_comp_version m header = ld32 m (header + 24)"

definition fdt_size_dt_struct :: "mem \<Rightarrow> addr \<Rightarrow> u32 res" where
  "fdt_size_dt_struct m header = ld32 m (header + 36)"

definition FDT_BEGIN_NODE :: u32 where
  "FDT_BEGIN_NODE = 1"

definition FDT_END_NODE :: u32 where
  "FDT_END_NODE = 2"

definition FDT_PROP :: u32 where
  "FDT_PROP = 3"

definition FDT_END :: u32 where
  "FDT_END = 9"

section \<open>Access\<close>

definition ld_dnode :: "'a kdtb_scheme \<Rightarrow> addr \<Rightarrow> dtb_node_t res" where
  "ld_dnode s p = need (dnode_mem s p)"

definition ld_dprop :: "'a kdtb_scheme \<Rightarrow> addr \<Rightarrow> dtb_prop_t res" where
  "ld_dprop s p = need (dprop_mem s p)"

definition up_dnode :: "addr \<Rightarrow> (dtb_node_t \<Rightarrow> dtb_node_t) \<Rightarrow> 'a kdtb_scheme \<Rightarrow> 'a kdtb_scheme res" where
  "up_dnode p f s = bnd (ld_dnode s p) (\<lambda>n. Inr (s\<lparr>dnode_mem := (dnode_mem s)(p \<mapsto> f n)\<rparr>))"

definition up_dprop :: "addr \<Rightarrow> (dtb_prop_t \<Rightarrow> dtb_prop_t) \<Rightarrow> 'a kdtb_scheme \<Rightarrow> 'a kdtb_scheme res" where
  "up_dprop p f s = bnd (ld_dprop s p) (\<lambda>n. Inr (s\<lparr>dprop_mem := (dprop_mem s)(p \<mapsto> f n)\<rparr>))"

definition new_dnode :: "'a kdtb_scheme \<Rightarrow> (addr \<times> 'a kdtb_scheme) res" where
  "new_dnode s = bnd (kmalloc sizeof_dtb_node_t s) (\<lambda>(p, s).
     Inr (p, if p = NULL then s
             else s\<lparr>dnode_mem := (dnode_mem s)(p \<mapsto> \<lparr>dnode_name = NULL, dnode_props = NULL, dnode_tree_node = NULL, dnode_rootNode = 0\<rparr>)\<rparr>))"

definition new_dprop :: "'a kdtb_scheme \<Rightarrow> (addr \<times> 'a kdtb_scheme) res" where
  "new_dprop s = bnd (kmalloc sizeof_dtb_prop_t s) (\<lambda>(p, s).
     Inr (p, if p = NULL then s
             else s\<lparr>dprop_mem := (dprop_mem s)(p \<mapsto> \<lparr>dprop_name = NULL, dprop_data = NULL, dprop_data_len = 0\<rparr>)\<rparr>))"

definition dtb_tree_lock :: "'a kdtb_scheme \<Rightarrow> 'a kdtb_scheme res" where
  "dtb_tree_lock s =
     bnd (ld_tree s (DTBNodes s)) (\<lambda>t.
     bnd (spinlock_lock (''dtb.c'', ''dtb_find_node'', 21) (tree_lk t) s) (\<lambda>(lk, s).
     Inr (s\<lparr>tree_mem := (tree_mem s)(DTBNodes s \<mapsto> t\<lparr>tree_lk := lk\<rparr>)\<rparr>)))"

definition props_lock :: "string \<Rightarrow> int \<Rightarrow> addr \<Rightarrow> 'a kdtb_scheme \<Rightarrow> 'a kdtb_scheme res" where
  "props_lock fn ln p s =
     bnd (ld_list s p) (\<lambda>l.
     bnd (spinlock_lock (''dtb.c'', fn, ln) (list_lk l) s) (\<lambda>(lk, s).
     Inr (s\<lparr>list_mem := (list_mem s)(p \<mapsto> l\<lparr>list_lk := lk\<rparr>)\<rparr>)))"

section \<open>Finding a node\<close>

definition get_string_from_dtb :: "mem \<Rightarrow> addr \<Rightarrow> u32 \<Rightarrow> addr res" where
  "get_string_from_dtb m header nameoff =
     bnd (fdt_off_dt_strings m header) (\<lambda>off. Inr (header + ucast (be32 off) + ucast nameoff))"

text \<open>The test of a name that need not be exact: equal up to a unit address.\<close>

definition name_matches :: "mem \<Rightarrow> addr \<Rightarrow> addr \<Rightarrow> bool res" where
  "name_matches m name tok =
     bnd (strlen m name) (\<lambda>n.
     bnd (strlen m tok) (\<lambda>k.
     bnd (if n > k then bnd (ld8 m (name + k)) (\<lambda>c. Inr (c = 64)) else Inr False) (\<lambda>unit.
     if unit \<or> n \<le> k then bnd (strncmp m name tok k) (\<lambda>r. Inr (r = 0)) else Inr False)))"

partial_function (option) child_loop ::
  "addr \<Rightarrow> int \<Rightarrow> bool \<Rightarrow> addr \<Rightarrow> int \<Rightarrow> 'a kdtb_scheme \<Rightarrow> (addr option \<times> int) res option" where
  "child_loop tok index exact list_value currentIndex s =
     (if list_value = NULL then Some (Inr (None, currentIndex))
      else case bnd (ld_node s list_value) (\<lambda>ln. bnd (ld_tnode s (node_value ln)) (\<lambda>g. bnd (ld_dnode s (tnode_value g)) (\<lambda>node.
             bnd (if \<not> exact then name_matches (bytes s) (dnode_name node) tok else Inr False) (\<lambda>near.
             bnd (if exact then bnd (strcmp (bytes s) (dnode_name node) tok) (\<lambda>r. Inr (r \<noteq> 0)) else Inr False) (\<lambda>taken.
             Inr (ln, near, taken)))))) of
          Inl e \<Rightarrow> Some (Inl e)
        | Inr (ln, near, taken) \<Rightarrow>
            if near
            then if index = currentIndex then Some (Inr (Some (node_value ln), currentIndex))
                 else child_loop tok index exact (node_next ln) (currentIndex + 1) s
            else if taken then Some (Inr (Some (node_value ln), currentIndex))
            else child_loop tok index exact (node_next ln) currentIndex s)"

partial_function (option) find_loop ::
  "addr \<Rightarrow> addr \<Rightarrow> int \<Rightarrow> bool \<Rightarrow> addr \<Rightarrow> addr \<Rightarrow> int \<Rightarrow> 'a kdtb_scheme \<Rightarrow> (addr option \<times> 'a kdtb_scheme) res option" where
  "find_loop slash none index exact temp_name currentNode currentIndex s =
     (case bnd (strsep (bytes s) temp_name slash) (\<lambda>(tok, temp_name, m).
             bnd (if tok = NULL then Inr True else bnd (strcmp m tok none) (\<lambda>r. Inr (r = 0))) (\<lambda>stop.
             Inr (tok, temp_name, s\<lparr>bytes := m\<rparr>, stop))) of
        Inl e \<Rightarrow> Some (Inl e)
      | Inr (tok, temp_name, s, stop) \<Rightarrow>
          if stop then Some (Inr (Some currentNode, s))
          else case bnd (ld_tnode s currentNode) (\<lambda>n. bnd (ld_list s (tnode_children n)) (\<lambda>l.
                 loop_res (child_loop tok index exact (list_root l) currentIndex s))) of
              Inl e \<Rightarrow> Some (Inl e)
            | Inr (None, currentIndex) \<Rightarrow> Some (Inr (None, s))
            | Inr (Some node, currentIndex) \<Rightarrow> find_loop slash none index exact temp_name node currentIndex s)"

definition dtb_find_node :: "addr \<Rightarrow> addr \<Rightarrow> addr \<Rightarrow> int \<Rightarrow> bool \<Rightarrow> 'a kdtb_scheme \<Rightarrow> (addr \<times> 'a kdtb_scheme) res" where
  "dtb_find_node slash none name index exact s =
     (if DTBNodes s = NULL then Inr (NULL, s)
      else bnd (strdup name s) (\<lambda>(freeFilename, s).
           bnd (ld8 (bytes s) freeFilename) (\<lambda>c.
           let temp_name = (if c = 47 then freeFilename + 1 else freeFilename) in
           bnd (dtb_tree_lock s) (\<lambda>s.
           bnd (ld_tree s (DTBNodes s)) (\<lambda>t.
           bnd (loop_res (find_loop slash none index exact temp_name (tree_root t) 0 s)) (\<lambda>(found, s).
           case found of
             None \<Rightarrow>
               bnd (kfree freeFilename s) (\<lambda>s.
               bnd (tree_unlock (DTBNodes s) s) (\<lambda>s.
               Inr (NULL, s)))
           | Some currentNode \<Rightarrow>
               bnd (ld_tnode s currentNode) (\<lambda>n.
               bnd (tree_unlock (DTBNodes s) s) (\<lambda>s.
               bnd (kfree freeFilename s) (\<lambda>s.
               Inr (tnode_value n, s))))))))))"

section \<open>Reading a property\<close>

text \<open>The search that every reader starts with, under the lock of the list of properties.\<close>

partial_function (option) prop_loop :: "addr \<Rightarrow> addr \<Rightarrow> 'a kdtb_scheme \<Rightarrow> dtb_prop_t option res option" where
  "prop_loop name list_value s =
     (if list_value = NULL then Some (Inr None)
      else case bnd (ld_node s list_value) (\<lambda>ln. bnd (ld_dprop s (node_value ln)) (\<lambda>prop.
             bnd (strcmp (bytes s) name (dprop_name prop)) (\<lambda>r. Inr (ln, prop, r)))) of
          Inl e \<Rightarrow> Some (Inl e)
        | Inr (ln, prop, r) \<Rightarrow> if r = 0 then Some (Inr (Some prop)) else prop_loop name (node_next ln) s)"

definition find_prop :: "string \<Rightarrow> int \<Rightarrow> addr \<Rightarrow> addr \<Rightarrow> 'a kdtb_scheme \<Rightarrow> (dtb_prop_t option \<times> 'a kdtb_scheme) res" where
  "find_prop fn ln node name s =
     bnd (ld_dnode s node) (\<lambda>n.
     bnd (props_lock fn ln (dnode_props n) s) (\<lambda>s.
     bnd (ld_list s (dnode_props n)) (\<lambda>l.
     bnd (loop_res (prop_loop name (list_root l) s)) (\<lambda>prop.
     bnd (list_unlock (dnode_props n) s) (\<lambda>s.
     Inr (prop, s))))))"

text \<open>The offset counts cells of four bytes; \<open>want\<close> says that the caller passed a place for the value.\<close>

definition dtb_prop_read_u32 :: "addr \<Rightarrow> addr \<Rightarrow> bool \<Rightarrow> int \<Rightarrow> 'a kdtb_scheme \<Rightarrow> (int \<times> u32 option \<times> 'a kdtb_scheme) res" where
  "dtb_prop_read_u32 node name want offset s =
     (if DTBNodes s = NULL then Inr (- 1, None, s)
      else bnd (find_prop ''dtb_prop_read_u32'' 77 node name s) (\<lambda>(found, s).
           case found of
             None \<Rightarrow> Inr (- 1, None, s)
           | Some prop \<Rightarrow>
               if of_int offset + 4 > dprop_data_len prop then Inr (- 1, None, s)
               else if want then bnd (ld32 (bytes s) (dprop_data prop + of_int offset * 4)) (\<lambda>w. Inr (0, Some (be32 w), s))
               else Inr (0, None, s)))"

definition dtb_prop_read_u64 :: "addr \<Rightarrow> addr \<Rightarrow> bool \<Rightarrow> int \<Rightarrow> 'a kdtb_scheme \<Rightarrow> (int \<times> u64 option \<times> 'a kdtb_scheme) res" where
  "dtb_prop_read_u64 node name want offset s =
     (if DTBNodes s = NULL then Inr (- 1, None, s)
      else bnd (find_prop ''dtb_prop_read_u64'' 99 node name s) (\<lambda>(found, s).
           case found of
             None \<Rightarrow> Inr (- 1, None, s)
           | Some prop \<Rightarrow>
               if of_int offset + 4 > dprop_data_len prop then Inr (- 1, None, s)
               else if want then bnd (ld64 (bytes s) (dprop_data prop + of_int offset * 4)) (\<lambda>w. Inr (0, Some (be64 w), s))
               else Inr (0, None, s)))"

text \<open>One of the two values of an address range: a switch over its number of cells.\<close>

definition read_cells :: "addr \<Rightarrow> addr \<Rightarrow> bool \<Rightarrow> u32 \<Rightarrow> int \<Rightarrow> 'a kdtb_scheme \<Rightarrow> (bool \<times> u64 option \<times> 'a kdtb_scheme) res" where
  "read_cells node name want cells offset s =
     (if \<not> want then Inr (True, None, s)
      else if cells = 0 then Inr (True, Some 0, s)
      else if cells = 1
      then bnd (dtb_prop_read_u32 node name True offset s) (\<lambda>(r, v, s).
           if r < 0 then Inr (False, None, s) else Inr (True, Some (case v of Some w \<Rightarrow> ucast w | None \<Rightarrow> 0), s))
      else if cells = 2
      then bnd (dtb_prop_read_u64 node name True offset s) (\<lambda>(r, v, s). if r < 0 then Inr (False, None, s) else Inr (True, v, s))
      else Inr (True, None, s))"

definition dtb_prop_read_address_range ::
  "addr \<Rightarrow> addr \<Rightarrow> u32 \<Rightarrow> u32 \<Rightarrow> bool \<Rightarrow> bool \<Rightarrow> 'a kdtb_scheme \<Rightarrow> (int \<times> u64 option \<times> u64 option \<times> 'a kdtb_scheme) res" where
  "dtb_prop_read_address_range node name address_cells size_cells wantAddress wantSize s =
     bnd (read_cells node name wantAddress address_cells 0 s) (\<lambda>(ok, address, s).
     if \<not> ok then Inr (- 1, address, None, s)
     else bnd (read_cells node name wantSize size_cells (sint address_cells) s) (\<lambda>(ok, range, s).
          Inr (if ok then 0 else - 1, address, range, s)))"

definition dtb_prop_read_string :: "addr \<Rightarrow> addr \<Rightarrow> 'a kdtb_scheme \<Rightarrow> (addr \<times> 'a kdtb_scheme) res" where
  "dtb_prop_read_string node name s =
     (if DTBNodes s = NULL then Inr (NULL, s)
      else bnd (find_prop ''dtb_prop_read_string'' 155 node name s) (\<lambda>(found, s).
           case found of None \<Rightarrow> Inr (NULL, s) | Some prop \<Rightarrow> Inr (dprop_data prop, s)))"

partial_function (option) stringlist_loop :: "mem \<Rightarrow> addr \<Rightarrow> size_t \<Rightarrow> int \<Rightarrow> addr \<Rightarrow> int \<Rightarrow> addr res option" where
  "stringlist_loop m data data_len index current_str current_index =
     (if current_str - data < data_len
      then if current_index = index then Some (Inr current_str)
           else case strlen m current_str of
               Inl e \<Rightarrow> Some (Inl e)
             | Inr n \<Rightarrow> stringlist_loop m data data_len index (current_str + (n + 1)) (current_index + 1)
      else Some (Inr NULL))"

definition dtb_prop_read_stringlist :: "addr \<Rightarrow> addr \<Rightarrow> int \<Rightarrow> 'a kdtb_scheme \<Rightarrow> (addr \<times> 'a kdtb_scheme) res" where
  "dtb_prop_read_stringlist node name index s =
     (if DTBNodes s = NULL then Inr (NULL, s)
      else bnd (find_prop ''dtb_prop_read_stringlist'' 175 node name s) (\<lambda>(found, s).
           case found of
             None \<Rightarrow> Inr (NULL, s)
           | Some prop \<Rightarrow>
               bnd (loop_res (stringlist_loop (bytes s) (dprop_data prop) (dprop_data_len prop) index (dprop_data prop) 0)) (\<lambda>a.
               Inr (a, s))))"

section \<open>Parsing\<close>

text \<open>The three kinds of blocks that do something. The state of the loop is the current node.\<close>

definition begin_node :: "addr \<Rightarrow> bool \<Rightarrow> addr \<Rightarrow> 'a kdtb_scheme \<Rightarrow> (size_t \<times> addr \<times> 'a kdtb_scheme) res" where
  "begin_node data first_node_found currentNode s =
     bnd (strlen (bytes s) data) (\<lambda>n.
     bnd (new_dnode s) (\<lambda>(node, s).
     bnd (list_create s) (\<lambda>(props, s).
     bnd (up_dnode node (\<lambda>d. d\<lparr>dnode_props := props\<rparr>) s) (\<lambda>s.
     bnd (strdup data s) (\<lambda>(name, s).
     bnd (up_dnode node (\<lambda>d. d\<lparr>dnode_name := name, dnode_rootNode := (if first_node_found then 0 else 1)\<rparr>) s) (\<lambda>s.
     bnd (if currentNode \<noteq> NULL then bnd (ld_dnode s currentNode) (\<lambda>d. Inr (dnode_tree_node d)) else Inr NULL) (\<lambda>parent.
     bnd (gentree_insert (DTBNodes s) parent node s) (\<lambda>(tnode, s).
     bnd (up_dnode node (\<lambda>d. d\<lparr>dnode_tree_node := tnode\<rparr>) s) (\<lambda>s.
     Inr (4 + (n + 1), node, s))))))))))"

definition prop_block :: "addr \<Rightarrow> addr \<Rightarrow> addr \<Rightarrow> 'a kdtb_scheme \<Rightarrow> (size_t \<times> 'a kdtb_scheme) res" where
  "prop_block header data currentNode s =
     bnd (ld32 (bytes s) data) (\<lambda>len.
     bnd (new_dprop s) (\<lambda>(prop, s).
     bnd (ld32 (bytes s) (data + 4)) (\<lambda>nameoff.
     bnd (get_string_from_dtb (bytes s) header (be32 nameoff)) (\<lambda>str.
     bnd (strdup str s) (\<lambda>(name, s).
     bnd (ld32 (bytes s) data) (\<lambda>len'.
     bnd (up_dprop prop (\<lambda>p. p\<lparr>dprop_name := name, dprop_data_len := ucast (be32 len')\<rparr>) s) (\<lambda>s.
     bnd (kmalloc (ucast (be32 len')) s) (\<lambda>(copy, s).
     bnd (up_dprop prop (\<lambda>p. p\<lparr>dprop_data := copy\<rparr>) s) (\<lambda>s.
     bnd (memcpy (bytes s) copy (data + 8) (ucast (be32 len'))) (\<lambda>(_, m).
     let s = s\<lparr>bytes := m\<rparr> in
     bnd (ld_dnode s currentNode) (\<lambda>d.
     bnd (list_push_back (dnode_props d) prop s) (\<lambda>(_, s).
     Inr (4 + 8 + ucast (be32 len), s)))))))))))))"

definition end_node :: "addr \<Rightarrow> 'a kdtb_scheme \<Rightarrow> (addr \<times> 'a kdtb_scheme) res" where
  "end_node currentNode s =
     bnd (ld_dnode s currentNode) (\<lambda>d.
     if dnode_rootNode d = 0
     then bnd (gentree_get_parent (DTBNodes s) (dnode_tree_node d) s) (\<lambda>(parent, _, s).
          bnd (ld_tnode s parent) (\<lambda>p. Inr (tnode_value p, s)))
     else Inr (currentNode, s))"

definition dtb_block :: "addr \<Rightarrow> bool \<Rightarrow> addr \<Rightarrow> addr \<Rightarrow> 'a kdtb_scheme \<Rightarrow> (u32 \<times> size_t \<times> bool \<times> addr \<times> 'a kdtb_scheme) res" where
  "dtb_block header first_node_found currentNode current_block s =
     bnd (ld32 (bytes s) current_block) (\<lambda>w.
     let token = be32 w; data = current_block + 4 in
     if token = FDT_BEGIN_NODE
     then bnd (begin_node data first_node_found currentNode s) (\<lambda>(blockSize, node, s). Inr (token, blockSize, True, node, s))
     else if token = FDT_PROP
     then bnd (prop_block header data currentNode s) (\<lambda>(blockSize, s). Inr (token, blockSize, first_node_found, currentNode, s))
     else if token = FDT_END_NODE
     then bnd (end_node currentNode s) (\<lambda>(node, s). Inr (token, 4, first_node_found, node, s))
     else Inr (token, 4, first_node_found, currentNode, s))"

partial_function (option) dtb_loop :: "addr \<Rightarrow> size_t \<Rightarrow> bool \<Rightarrow> addr \<Rightarrow> addr \<Rightarrow> 'a kdtb_scheme \<Rightarrow> 'a kdtb_scheme res option" where
  "dtb_loop header parsedSize first_node_found currentNode current_block s =
     (case fdt_size_dt_struct (bytes s) header of
        Inl e \<Rightarrow> Some (Inl e)
      | Inr sz \<Rightarrow>
          if parsedSize < ucast sz
          then case dtb_block header first_node_found currentNode current_block s of
              Inl e \<Rightarrow> Some (Inl e)
            | Inr (token, blockSize, first_node_found, currentNode, s) \<Rightarrow>
                if token = FDT_END then Some (Inr s)
                else let parsedSize = parsedSize + ROUND_UP blockSize 4
                     in case fdt_off_dt_struct (bytes s) header of
                         Inl e \<Rightarrow> Some (Inl e)
                       | Inr off \<Rightarrow> dtb_loop header parsedSize first_node_found currentNode (header + ucast (be32 off) + parsedSize) s
          else Some (Inr s))"

definition dtb_init :: "addr \<Rightarrow> 'a kdtb_scheme \<Rightarrow> (int \<times> 'a kdtb_scheme) res" where
  "dtb_init header s =
     bnd (fdt_magic (bytes s) header) (\<lambda>magic.
     if be32 magic \<noteq> 0xD00DFEED then Inr (- 1, s)
     else bnd (fdt_last_comp_version (bytes s) header) (\<lambda>version.
          if be32 version > 17 then Inr (- 1, s)
          else bnd (gentree_create s) (\<lambda>(tree, s).
               let s = s\<lparr>DTBNodes := tree\<rparr> in
               bnd (fdt_off_dt_struct (bytes s) header) (\<lambda>off.
               bnd (loop_res (dtb_loop header 0 False NULL (header + ucast (be32 off)) s)) (\<lambda>s.
               Inr (0, s))))))"

section \<open>Big-endian values\<close>

text \<open>The number that a run of bytes stands for, the first byte first.\<close>

fun be_value :: "u8 list \<Rightarrow> nat" where
  "be_value [] = 0"
| "be_value (b # bs) = unat b * 256 ^ length bs + be_value bs"

lemma byte_masks:
  "(0xFF :: 'a::len word) = mask 8" "(0xFF00 :: 'a word) = push_bit 8 (mask 8)" "(0xFF0000 :: 'a word) = push_bit 16 (mask 8)"
  "(0xFF000000 :: 'a word) = push_bit 24 (mask 8)"
  by (simp_all add: mask_eq_exp_minus_1 push_bit_eq_mult)

lemma byte_at:
  assumes "length bs \<le> 8" and "i < length bs"
  shows "drop_bit (8 * i) (of_bytes bs) AND mask 8 = ucast (bs ! i)"
proof (rule bit_word_eqI)
  fix n assume "n < LENGTH(64)"
  then show "bit (drop_bit (8 * i) (of_bytes bs) AND mask 8) n = bit (ucast (bs ! i) :: u64) n"
    using assms by (cases "n < 8") (auto simp: bit_of_bytes bit_simps div_add1_eq dest: bit_imp_le_length)
qed

lemma byte_at32:
  assumes "length bs = 4" and "i < 4"
  shows "drop_bit (8 * i) (ucast (of_bytes bs) :: u32) AND mask 8 = ucast (bs ! i)"
proof (rule bit_word_eqI)
  fix n assume "n < LENGTH(32)"
  then show "bit (drop_bit (8 * i) (ucast (of_bytes bs) :: u32) AND mask 8) n = bit (ucast (bs ! i) :: u32) n"
    using assms by (cases "n < 8") (auto simp: bit_of_bytes bit_simps div_add1_eq dest: bit_imp_le_length)
qed

lemma be32_shifts:
  "push_bit 8 (x AND push_bit 8 (mask 8)) = (push_bit 16 (drop_bit 8 x AND mask 8) :: u32)"
  "drop_bit 8 (x AND push_bit 16 (mask 8)) = (push_bit 8 (drop_bit 16 x AND mask 8) :: u32)"
  "drop_bit 24 (x AND push_bit 24 (mask 8)) = (drop_bit 24 x AND mask 8 :: u32)"
  by (rule bit_word_eqI; auto simp: bit_simps)+

lemma be32_bytes: "be32 (ucast (of_bytes [a, b, c, d])) = ucast (of_bytes [d, c, b, a])"
proof -
  note at = byte_at32 [of "[a, b, c, d]" 0] byte_at32 [of "[a, b, c, d]" 1] byte_at32 [of "[a, b, c, d]" 2] byte_at32 [of "[a, b, c, d]" 3]
  have "be32 (ucast (of_bytes [a, b, c, d])) = push_bit 24 (ucast a) OR push_bit 16 (ucast b) OR push_bit 8 (ucast c) OR ucast d"
    unfolding be32_def byte_masks Let_def be32_shifts using at by (simp add: or.assoc del: of_bytes.simps)
  also have "\<dots> = ucast (of_bytes [d, c, b, a])"
    by (rule bit_word_eqI) (auto simp: bit_simps)
  finally show ?thesis .
qed

lemma be64_bytes: "be64 (of_bytes [a, b, c, d, e, f, g, h]) = of_bytes [h, g, f, e, d, c, b, a]"
proof -
  note at = byte_at [of "[a, b, c, d, e, f, g, h]"]
  note at = at [of 0] at [of 1] at [of 2] at [of 3] at [of 4] at [of 5] at [of 6] at [of 7]
  show ?thesis unfolding be64_def byte_masks Let_def using at
    by (simp del: of_bytes.simps) (simp add: push_bit_or or.commute or.left_commute or.assoc)
qed

lemma be_value_snoc: "be_value (bs @ [b]) = be_value bs * 256 + unat b"
  by (induction bs) (simp_all add: algebra_simps)

lemma be_value_less: "be_value bs < 256 ^ length bs"
proof (induction bs)
  case (Cons b bs)
  have "Suc (unat b) \<le> 256" using unsigned_less [of b, where ?'a = nat] by simp
  then have "Suc (unat b) * 256 ^ length bs \<le> 256 * 256 ^ length bs" by (rule mult_le_mono1)
  then show ?case using Cons.IH unfolding be_value.simps list.size power_Suc add_Suc_right add_0_right mult_Suc by linarith
qed simp

lemma of_bytes_value: "length bs \<le> 8 \<Longrightarrow> unat (of_bytes bs) = be_value (rev bs)"
proof (induction bs)
  case (Cons b bs)
  have IH: "unat (of_bytes bs) = be_value (rev bs)" using Cons by simp
  have ub: "unat (ucast b :: u64) = unat b" using unsigned_less [of b, where ?'a = nat] by (simp add: unsigned_ucast_eq take_bit_nat_eq_self)
  then have b: "unat (ucast b :: u64) < 256" using unsigned_less [of b, where ?'a = nat] by simp
  have "unat (of_bytes bs) < 256 ^ length bs" using IH be_value_less [of "rev bs"] by simp
  moreover have "256 ^ length bs \<le> (256 ^ 7 :: nat)" using Cons.prems by (intro power_increasing) simp_all
  ultimately have y: "unat (of_bytes bs) < 2 ^ 56" by simp
  have "of_bytes (b # bs) = ucast b + push_bit 8 (of_bytes bs)"
    unfolding of_bytes.simps by (rule disjunctive_add [symmetric]) (auto simp: bit_simps dest: bit_imp_le_length)
  also have "push_bit 8 (of_bytes bs) = of_bytes bs * 256" by (simp add: push_bit_eq_mult)
  finally have "unat (of_bytes (b # bs)) = unat (ucast b :: u64) + unat (of_bytes bs) * 256"
    using b y by (simp only: unat_add_u64 unat_mult_u64 unat_numeral) (simp add: unat_add_u64 unat_mult_u64)
  then show ?case using IH ub by (simp add: be_value_snoc)
qed simp

text \<open>What the two readers of cells make of the bytes in memory.\<close>

lemma be32_read:
  assumes "bytes_at m a bs" and "length bs = 4"
  shows "\<exists>w. ld32 m a = Inr w \<and> be32 w = of_nat (be_value bs)"
proof -
  obtain p q r t where bs: "bs = [p, q, r, t]" using assms(2) by (auto simp: numeral_eq_Suc length_Suc_conv)
  have "be32 (ucast (of_bytes bs)) = of_nat (unat (of_bytes (rev bs)))" unfolding bs using be32_bytes [of p q r t] by simp
  then show ?thesis using ld_bytes_eq [OF assms(1)] assms(2) of_bytes_value [of "rev bs"] by (simp add: ld32_def)
qed

lemma be64_read:
  assumes "bytes_at m a bs" and "length bs = 8"
  shows "\<exists>w. ld64 m a = Inr w \<and> be64 w = of_nat (be_value bs)"
proof -
  obtain p q r t p' q' r' t' where bs: "bs = [p, q, r, t, p', q', r', t']" using assms(2) by (auto simp: numeral_eq_Suc length_Suc_conv)
  have "be64 (of_bytes bs) = of_nat (unat (of_bytes (rev bs)))" unfolding bs using be64_bytes [of p q r t p' q' r' t'] by simp
  then show ?thesis using ld_bytes_eq [OF assms(1)] assms(2) of_bytes_value [of "rev bs"] by (simp add: ld64_def)
qed

section \<open>The properties of a node\<close>

text \<open>
  The properties that a list stands for, each with its name, and the first one with a given name.
\<close>

definition props_rep :: "'a kdtb_scheme \<Rightarrow> nodes \<Rightarrow> (u8 list \<times> dtb_prop_t) list \<Rightarrow> bool" where
  "props_rep s xs ps \<longleftrightarrow> list_all2 (\<lambda>(a, v) (n, p). dprop_mem s v = Some p \<and> cstr (bytes s) (dprop_name p) n) xs ps"

definition first_prop :: "u8 list \<Rightarrow> (u8 list \<times> dtb_prop_t) list \<Rightarrow> dtb_prop_t option" where
  "first_prop nm ps = first_some (List.map (\<lambda>(n, p). if n = nm then Some p else None) ps)"

text \<open>The search of the readers is a walk over a list.\<close>

definition prop_item :: "addr \<Rightarrow> addr \<Rightarrow> 'a kdtb_scheme \<Rightarrow> dtb_prop_t option res" where
  "prop_item name v s = bnd (ld_dprop s v) (\<lambda>p. bnd (strcmp (bytes s) name (dprop_name p)) (\<lambda>r. Inr (if r = 0 then Some p else None)))"

interpretation pw: list_walk node_mem "prop_loop name" "prop_item name" for name
proof
  fix s :: "'a kdtb_scheme" and a n r
  show "prop_loop name NULL s = Some (Inr None)" by (subst prop_loop.simps) simp
  assume n: "a \<noteq> NULL" "node_mem s a = Some n"
  show "prop_loop name a s = Some (Inr (Some r))" if "prop_item name (node_value n) s = Inr (Some r)"
    using n that by (subst prop_loop.simps) (auto simp: prop_item_def ld_node_def bnd_eq_Inr split: if_splits)
  show "prop_loop name a s = prop_loop name (node_next n) s" if "prop_item name (node_value n) s = Inr None"
    using n that by (subst prop_loop.simps) (auto simp: prop_item_def ld_node_def bnd_eq_Inr split: if_splits)
qed

lemma prop_loop_eq:
  assumes nm: "cstr (bytes s) name nm" and "fseg (node_mem s) xs NULL" and ps: "props_rep s xs ps"
  shows "prop_loop name (first_of xs NULL) s = Some (Inr (first_prop nm ps))"
proof -
  have "list_all2 (\<lambda>(a, v) r. prop_item name v s = Inr r) xs (List.map (\<lambda>(n, p). if n = nm then Some p else None) ps)"
    using ps unfolding props_rep_def list_all2_map2
    by (rule list_all2_mono) (auto simp: prop_item_def ld_dprop_def strcmp_cstr [OF nm])
  then show ?thesis using pw.first_hit [OF assms(2)] by (simp add: first_prop_def)
qed

text \<open>A search leaves the state as it was but for the lock of the list, which is free again.\<close>

definition props_touched :: "addr \<Rightarrow> 'a kdtb_scheme \<Rightarrow> 'a kdtb_scheme \<Rightarrow> bool" where
  "props_touched L s s' \<longleftrightarrow> (\<exists>l lk. list_mem s L = Some l \<and> lock lk = 0 \<and> s' = s\<lparr>list_mem := (list_mem s)(L \<mapsto> l\<lparr>list_lk := lk\<rparr>)\<rparr>)"

lemma props_touchedI:
  "list_mem s L = Some l \<Longrightarrow> lock lk = 0 \<Longrightarrow> props_touched L s (s\<lparr>list_mem := (list_mem s)(L \<mapsto> l\<lparr>list_lk := lk\<rparr>)\<rparr>)"
  unfolding props_touched_def by (rule exI [of _ l], rule exI [of _ lk]) simp

lemma find_prop_ok:
  assumes "dnode_mem s node = Some d" and "is_list s (dnode_props d) xs" and "props_rep s xs ps" and "cstr (bytes s) name nm"
  shows "\<exists>s'. find_prop fn ln node name s = Inr (first_prop nm ps, s') \<and> props_touched (dnode_props d) s s'"
proof -
  let ?L = "dnode_props d"
  obtain l where l: "list_mem s ?L = Some l" "lock (list_lk l) = 0" and rep: "list_rep (node_mem s) l xs"
    using assms(2) by (auto simp: is_list_def)
  let ?lk = "(list_lk l)\<lparr>lock := 1, last_acquirer := acquirer_of (''dtb.c'', fn, ln) s\<rparr>"
  let ?s1 = "(arch_cpu_increment_preempt_counter s)\<lparr>list_mem := (list_mem s)(?L \<mapsto> l\<lparr>list_lk := ?lk\<rparr>)\<rparr>"
  have root: "list_root l = first_of xs NULL" "fseg (node_mem s) xs NULL" using rep dseg_fseg by (auto simp: list_rep_def)
  have k: "cstr (bytes ?s1) name nm" "fseg (node_mem ?s1) xs NULL" "props_rep ?s1 xs ps"
    using assms(3,4) root(2) by (simp_all add: props_rep_def arch_cpu_increment_preempt_counter_def)
  have "props_lock fn ln ?L s = Inr ?s1" using l by (simp add: props_lock_def ld_list_def)
  moreover have "list_unlock ?L ?s1 = Inr (s\<lparr>list_mem := (list_mem s)(?L \<mapsto> l\<lparr>list_lk := ?lk\<lparr>lock := 0\<rparr>\<rparr>)\<rparr>)"
    by (simp add: list_unlock_def ld_list_def arch_cpu_increment_preempt_counter_def arch_cpu_decrement_preempt_counter_def riscv_cpu_inited_def)
  ultimately have "find_prop fn ln node name s = Inr (first_prop nm ps, s\<lparr>list_mem := (list_mem s)(?L \<mapsto> l\<lparr>list_lk := ?lk\<lparr>lock := 0\<rparr>\<rparr>)\<rparr>)"
    using assms(1) prop_loop_eq [OF k] root(1) by (simp add: find_prop_def ld_dnode_def ld_list_def)
  then show ?thesis using props_touchedI [OF l(1), of "?lk\<lparr>lock := 0\<rparr>"] by auto
qed

lemma props_touched_keeps:
  assumes "props_touched L s s'"
  shows "props_rep s' xs ps = props_rep s xs ps" and "dnode_mem s' = dnode_mem s"
    and "bytes s' = bytes s" and "DTBNodes s' = DTBNodes s" and "is_list s L' xs \<Longrightarrow> is_list s' L' xs"
  using assms by (auto simp: props_touched_def is_list_def list_rep_def props_rep_def)

lemma props_touched_trans: "props_touched L s s' \<Longrightarrow> props_touched L s' s'' \<Longrightarrow> props_touched L s s''"
  using props_touchedI [of s L] by (auto simp: props_touched_def [of L s s'] props_touched_def [of L s' s''])

text \<open>A node whose properties are known, and the address of the name looked for.\<close>

definition node_props :: "'a kdtb_scheme \<Rightarrow> addr \<Rightarrow> addr \<Rightarrow> (u8 list \<times> dtb_prop_t) list \<Rightarrow> addr \<Rightarrow> u8 list \<Rightarrow> bool" where
  "node_props s node L ps name nm \<longleftrightarrow> DTBNodes s \<noteq> NULL \<and> cstr (bytes s) name nm \<and>
     (\<exists>d xs. dnode_mem s node = Some d \<and> dnode_props d = L \<and> is_list s L xs \<and> props_rep s xs ps)"

lemma node_props_find:
  assumes "node_props s node L ps name nm"
  shows "\<exists>s'. find_prop fn ln node name s = Inr (first_prop nm ps, s') \<and> props_touched L s s'"
  using assms find_prop_ok [of s node _ _ ps name nm fn ln] by (auto simp: node_props_def)

lemma node_props_touched: "node_props s node L ps name nm \<Longrightarrow> props_touched L' s s' \<Longrightarrow> node_props s' node L ps name nm"
  unfolding node_props_def using props_touched_keeps [of L' s s'] by metis

lemma read_cells_absent:
  assumes "node_props s node L ps name nm" and "first_prop nm ps = None" and "cells \<in> {1, 2}"
  shows "\<exists>s'. read_cells node name True cells offset s = Inr (False, None, s') \<and> props_touched L s s'"
  using node_props_find [OF assms(1), of "''dtb_prop_read_u32''" 77] node_props_find [OF assms(1), of "''dtb_prop_read_u64''" 99] assms
  by (auto simp: read_cells_def dtb_prop_read_u32_def dtb_prop_read_u64_def node_props_def)

lemma read_cells_short:
  assumes "node_props s node L ps name nm" and "first_prop nm ps = Some p" and "cells \<in> {1, 2}" and "dprop_data_len p < of_int offset + 4"
  shows "\<exists>s'. read_cells node name True cells offset s = Inr (False, None, s') \<and> props_touched L s s'"
  using node_props_find [OF assms(1), of "''dtb_prop_read_u32''" 77] node_props_find [OF assms(1), of "''dtb_prop_read_u64''" 99] assms
  by (auto simp: read_cells_def dtb_prop_read_u32_def dtb_prop_read_u64_def node_props_def)

lemma read_cells_value:
  assumes "node_props s node L ps name nm" and "first_prop nm ps = Some p" and "cells \<in> {1, 2}" and "of_int offset + 4 \<le> dprop_data_len p"
    and "bytes_at (bytes s) (dprop_data p + of_int offset * 4) cs" and "length cs = 4 * unat cells"
  shows "\<exists>s'. read_cells node name True cells offset s = Inr (True, Some (of_nat (be_value cs)), s') \<and> props_touched L s s'"
proof (cases "cells = 1")
  case True
  then have "length cs = 4" using assms(6) by simp
  then obtain w where w: "ld32 (bytes s) (dprop_data p + of_int offset * 4) = Inr w" "be32 w = of_nat (be_value cs)" and "be_value cs < 2 ^ 32"
    using be32_read [OF assms(5)] be_value_less [of cs] by auto
  then have u: "ucast (be32 w) = (of_nat (be_value cs) :: u64)" by (simp add: unsigned_of_nat take_bit_nat_eq_self)
  obtain s' where s': "find_prop ''dtb_prop_read_u32'' 77 node name s = Inr (Some p, s')" "props_touched L s s'"
    using node_props_find [OF assms(1)] assms(2) by metis
  then show ?thesis using True assms(1,4) w u props_touched_keeps(3) [OF s'(2)]
    by (auto simp: read_cells_def dtb_prop_read_u32_def node_props_def not_less)
next
  case False
  then have "cells = 2" "length cs = 8" using assms(3,6) by auto
  then obtain w where w: "ld64 (bytes s) (dprop_data p + of_int offset * 4) = Inr w" "be64 w = of_nat (be_value cs)"
    using be64_read [OF assms(5)] by auto
  obtain s' where s': "find_prop ''dtb_prop_read_u64'' 99 node name s = Inr (Some p, s')" "props_touched L s s'"
    using node_props_find [OF assms(1)] assms(2) by metis
  then show ?thesis using \<open>cells = 2\<close> assms(1,4) w props_touched_keeps(3) [OF s'(2)]
    by (auto simp: read_cells_def dtb_prop_read_u64_def node_props_def not_less)
qed

section \<open>Properties\<close>

text \<open>
  Property C39. Reading an address range from a node of the device tree, with one or two cells for
  each value: the first property of that name decides, and its length. Without such a property, or
  with one shorter than four bytes, the answer is -1 and no value is stored. When its length is less
  than four and the number of address cells, the address is stored and the answer is -1. Otherwise
  the answer is 0 and the two values are the big-endian numbers in the first and the following bytes
  at its data; the test of the length adds a number of cells to a number of bytes, so those bytes
  need not all belong to the property, but a property of the right length always passes. Only the
  lock of the list of properties is taken, and it is free at the end.
\<close>

theorem dtb_prop_read_address_range_decodes:
  assumes "node_props s node L ps name nm" and "ac \<in> {1, 2}" and "sc \<in> {1, 2}" and "length bs = 4 * unat ac + 4 * unat sc"
    and "\<forall>p. first_prop nm ps = Some p \<longrightarrow> bytes_at (bytes s) (dprop_data p) bs"
  shows "\<exists>s'. dtb_prop_read_address_range node name ac sc True True s = Inr
      (let A = of_nat (be_value (take (4 * unat ac) bs)); S = of_nat (be_value (drop (4 * unat ac) bs)) in
       case first_prop nm ps of None \<Rightarrow> (- 1, None, None, s')
       | Some p \<Rightarrow> if unat (dprop_data_len p) < 4 then (- 1, None, None, s')
           else if unat (dprop_data_len p) < unat ac + 4 then (- 1, Some A, None, s')
           else (0, Some A, Some S, s'))
    \<and> props_touched L s s'"
proof (cases "first_prop nm ps")
  case None
  then show ?thesis using read_cells_absent [OF assms(1) None assms(2), of 0] by (auto simp: dtb_prop_read_address_range_def Let_def)
next
  case (Some p)
  let ?as = "take (4 * unat ac) bs" and ?ss = "drop (4 * unat ac) bs"
  have len: "length ?as = 4 * unat ac" "length ?ss = 4 * unat sc" using assms(4) by simp_all
  have dat: "bytes_at (bytes s) (dprop_data p) (?as @ ?ss)" using Some assms(5) by simp
  have off: "of_int (sint ac) * 4 = (of_nat (length ?as) :: u64)" and t2: "dprop_data_len p < of_int (sint ac) + 4 \<longleftrightarrow> unat (dprop_data_len p) < unat ac + 4"
    using len(1) assms(2) by (auto simp: word_less_nat_alt)
  have t1: "dprop_data_len p < of_int 0 + 4 \<longleftrightarrow> unat (dprop_data_len p) < 4" by (simp add: word_less_nat_alt)
  have d: "bytes_at (bytes s) (dprop_data p + of_int 0 * 4) ?as" "bytes_at (bytes s) (dprop_data p + of_int (sint ac) * 4) ?ss"
    using dat unfolding off bytes_at_append by simp_all
  show ?thesis
  proof (cases "unat (dprop_data_len p) < 4")
    case True
    then show ?thesis using read_cells_short [OF assms(1) Some assms(2), of 0] Some t1 by (auto simp: dtb_prop_read_address_range_def)
  next
    case False
    then have b1: "of_int 0 + 4 \<le> dprop_data_len p" using t1 by (simp add: not_less)
    obtain s1 where s1: "read_cells node name True ac 0 s = Inr (True, Some (of_nat (be_value ?as)), s1)" "props_touched L s s1"
      using read_cells_value [OF assms(1) Some assms(2) b1 d(1) len(1)] by blast
    note np1 = node_props_touched [OF assms(1) s1(2)]
    show ?thesis
    proof (cases "unat (dprop_data_len p) < unat ac + 4")
      case True
      obtain s2 where s2: "read_cells node name True sc (sint ac) s1 = Inr (False, None, s2)" "props_touched L s1 s2"
        using read_cells_short [OF np1 Some assms(3), of "sint ac"] True t2 by blast
      show ?thesis using s1 s2 Some False True props_touched_trans [OF s1(2) s2(2)] by (auto simp: dtb_prop_read_address_range_def Let_def)
    next
      case big: False
      then have b2: "of_int (sint ac) + 4 \<le> dprop_data_len p" using t2 by (simp add: not_less [symmetric])
      have d2: "bytes_at (bytes s1) (dprop_data p + of_int (sint ac) * 4) ?ss" using d(2) props_touched_keeps(3) [OF s1(2)] by simp
      obtain s2 where s2: "read_cells node name True sc (sint ac) s1 = Inr (True, Some (of_nat (be_value ?ss)), s2)" "props_touched L s1 s2"
        using read_cells_value [OF np1 Some assms(3) b2 d2 len(2)] by blast
      show ?thesis using s1 s2 Some False big props_touched_trans [OF s1(2) s2(2)] by (auto simp: dtb_prop_read_address_range_def Let_def)
    qed
  qed
qed

text \<open>
  A device tree whose node at 0x400 has the property \<open>reg\<close> with one cell 0x80000000 for the address and
  one cell 0x1000 for the size. The name is looked up through another copy of it at 0x1000.
\<close>

definition demo_dtb :: kdtb where
  "demo_dtb = ktrees.extend (demo_trees\<lparr>bytes := [0x1000 \<mapsto> 114, 0x1001 \<mapsto> 101, 0x1002 \<mapsto> 103, 0x1003 \<mapsto> 0,
       0x2000 \<mapsto> 114, 0x2001 \<mapsto> 101, 0x2002 \<mapsto> 103, 0x2003 \<mapsto> 0,
       0x3000 \<mapsto> 0x80, 0x3001 \<mapsto> 0, 0x3002 \<mapsto> 0, 0x3003 \<mapsto> 0, 0x3004 \<mapsto> 0, 0x3005 \<mapsto> 0, 0x3006 \<mapsto> 0x10, 0x3007 \<mapsto> 0],
       list_mem := [0x100 \<mapsto> \<lparr>list_length = 1, list_root = 0x200, list_tail = 0x200, list_lk = INIT_SPINLOCK\<rparr>],
       node_mem := [0x200 \<mapsto> \<lparr>node_value = 0x300, node_previous = NULL, node_next = NULL\<rparr>]\<rparr>)
     \<lparr>dnode_mem = [0x400 \<mapsto> \<lparr>dnode_name = 0x1003, dnode_props = 0x100, dnode_tree_node = NULL, dnode_rootNode = 1\<rparr>],
      dprop_mem = [0x300 \<mapsto> \<lparr>dprop_name = 0x2000, dprop_data = 0x3000, dprop_data_len = 8\<rparr>], DTBNodes = 0x500\<rparr>"

lemma demo_node_props:
  "node_props demo_dtb 0x400 0x100 [([114, 101, 103], \<lparr>dprop_name = 0x2000, dprop_data = 0x3000, dprop_data_len = 8\<rparr>)] 0x1000 [114, 101, 103]"
proof -
  have "is_list demo_dtb 0x100 [(0x200, 0x300)]"
    by (simp add: is_list_def list_rep_def demo_dtb_def demo_trees_def ktrees.defs INIT_SPINLOCK_def)
  moreover have "props_rep demo_dtb [(0x200, 0x300)] [([114, 101, 103], \<lparr>dprop_name = 0x2000, dprop_data = 0x3000, dprop_data_len = 8\<rparr>)]"
    by (simp add: props_rep_def demo_dtb_def demo_trees_def ktrees.defs cstr_def)
  ultimately show ?thesis by (auto simp: node_props_def demo_dtb_def demo_trees_def ktrees.defs cstr_def)
qed

theorem dtb_prop_read_address_range_decodes_witness:
  "\<exists>s'. dtb_prop_read_address_range 0x400 0x1000 1 1 True True demo_dtb = Inr (0, Some 0x80000000, Some 0x1000, s')"
proof -
  have "bytes_at (bytes demo_dtb) 0x3000 [0x80, 0, 0, 0, 0, 0, 0x10, 0]" by (simp add: demo_dtb_def demo_trees_def ktrees.defs)
  then show ?thesis
    using dtb_prop_read_address_range_decodes [OF demo_node_props, of 1 1 "[0x80, 0, 0, 0, 0, 0, 0x10, 0]"] by (auto simp: first_prop_def)
qed

end
