(* ===== verification/Plic.thy ===== *)
theory Plic
  imports Dtb
begin

text \<open>
  The platform interrupt controller, \<open>kernel/arch/riscv64/plic.c\<close>: its discovery in the device tree and
  the accesses to its registers. The controller is a device behind memory-mapped registers, so a
  volatile load or store of the source is a call of an argument, the functions \<open>mm_read\<close> and
  \<open>mm_write\<close> on the state of the device; what the theorems need of them is what the specification
  of the controller says of its enable and priority registers.
\<close>

section \<open>State\<close>

record kplic = kdtb +
  plic_address :: addr
  plic_size :: u64
  plic_ndev :: u32

record 'd mmio =
  mm_read :: "addr \<Rightarrow> 'd \<Rightarrow> u32 \<times> 'd"
  mm_write :: "addr \<Rightarrow> u32 \<Rightarrow> 'd \<Rightarrow> 'd"

text \<open>The addresses of the string literals.\<close>

record plic_literals =
  pl_slash :: addr
  pl_none :: addr
  pl_soc :: addr
  pl_plic :: addr
  pl_address_cells :: addr
  pl_size_cells :: addr
  pl_reg :: addr
  pl_ndev :: addr

definition PLIC_IE_OFFSET :: u32 where "PLIC_IE_OFFSET = 0x02000"

definition PLIC_IE_CONTEXT_STRIDE :: u32 where "PLIC_IE_CONTEXT_STRIDE = 0x80"

definition PLIC_CLAIM_OFFSET :: u32 where "PLIC_CLAIM_OFFSET = 0x200004"

definition PLIC_COMPLETE_OFFSET :: u32 where "PLIC_COMPLETE_OFFSET = 0x200004"

definition PLIC_COMPLETE_CONTEXT_STRIDE :: u32 where "PLIC_COMPLETE_CONTEXT_STRIDE = 0x1000"

definition PLIC_PRIORITY_OFFSET :: u32 where "PLIC_PRIORITY_OFFSET = 0"

definition PLIC_PRIORITY_SOURCE_STRIDE :: u32 where "PLIC_PRIORITY_SOURCE_STRIDE = 4"

section \<open>Discovery\<close>

text \<open>A value the code stores through a pointer; the variable keeps its value when it does not.\<close>

definition stored :: "'b \<Rightarrow> 'b option \<Rightarrow> 'b" where
  "stored old v = (case v of None \<Rightarrow> old | Some x \<Rightarrow> x)"

definition plic_init_dtb :: "plic_literals \<Rightarrow> 'a kplic_scheme \<Rightarrow> (int \<times> 'a kplic_scheme) res" where
  "plic_init_dtb lits s =
     bnd (dtb_find_node (pl_slash lits) (pl_none lits) (pl_soc lits) 0 False s) (\<lambda>(soc_node, s).
     bnd (dtb_find_node (pl_slash lits) (pl_none lits) (pl_plic lits) 0 False s) (\<lambda>(plic_node, s).
     if plic_node = NULL \<or> soc_node = NULL then Inr (- 1, s)
     else bnd (dtb_prop_read_u32 soc_node (pl_address_cells lits) True 0 s) (\<lambda>(r, address_cells, s).
     if r < 0 then Inr (- 1, s)
     else bnd (dtb_prop_read_u32 soc_node (pl_size_cells lits) True 0 s) (\<lambda>(r, size_cells, s).
     if r < 0 then Inr (- 1, s)
     else bnd (dtb_prop_read_address_range plic_node (pl_reg lits) (stored 0 address_cells) (stored 0 size_cells) True True s)
            (\<lambda>(r, address, range, s).
     let s = s\<lparr>plic_address := stored (plic_address s) address, plic_size := stored (plic_size s) range\<rparr> in
     if r < 0 then Inr (- 1, s)
     else bnd (dtb_prop_read_u32 plic_node (pl_ndev lits) True 0 s) (\<lambda>(r, ndev, s).
     let s = s\<lparr>plic_ndev := stored (plic_ndev s) ndev\<rparr> in
     if r < 0 then Inr (- 1, s) else Inr (0, s)))))))"

definition plic_init :: "plic_literals \<Rightarrow> 'a kplic_scheme \<Rightarrow> 'a kplic_scheme res" where
  "plic_init lits s =
     bnd (plic_init_dtb lits s) (\<lambda>(r, s).
     if r < 0 then Inl Hang
     else Inr (s\<lparr>plic_address := plic_address s + MEM_PHYS_OFFSET s\<rparr>))"

section \<open>Registers\<close>

text \<open>The offsets are computed in 32 bits and widened; the context is always 0.\<close>

definition plic_set_priority :: "'d mmio \<Rightarrow> u32 \<Rightarrow> u32 \<Rightarrow> 'a kplic_scheme \<Rightarrow> 'd \<Rightarrow> 'd" where
  "plic_set_priority mm irq priority s d =
     (let offset = (ucast (PLIC_PRIORITY_OFFSET + irq * PLIC_PRIORITY_SOURCE_STRIDE) :: u64)
      in mm_write mm (plic_address s + offset) priority d)"

definition plic_claim :: "'d mmio \<Rightarrow> 'a kplic_scheme \<Rightarrow> 'd \<Rightarrow> u32 \<times> 'd" where
  "plic_claim mm s d =
     (let context_id = 0;
          offset = (ucast (PLIC_CLAIM_OFFSET + context_id * PLIC_COMPLETE_CONTEXT_STRIDE) :: u64)
      in mm_read mm (plic_address s + offset) d)"

definition arch_interrupt_max :: "'a kplic_scheme \<Rightarrow> u32" where
  "arch_interrupt_max s = plic_ndev s - 1"

definition arch_interrupt_min :: u32 where
  "arch_interrupt_min = 0"

definition arch_interrupt_enable :: "'d mmio \<Rightarrow> u32 \<Rightarrow> 'a kplic_scheme \<Rightarrow> 'd \<Rightarrow> 'd" where
  "arch_interrupt_enable mm irq s d =
     (let d = plic_set_priority mm irq 1 s d;
          context_id = 0;
          offset = (ucast (PLIC_IE_OFFSET + context_id * PLIC_IE_CONTEXT_STRIDE + push_bit 2 (drop_bit 5 irq)) :: u64);
          shift = irq AND 0x1F;
          bits = (push_bit (unat shift) 1 :: u32);
          (v, d) = mm_read mm (plic_address s + offset) d
      in mm_write mm (plic_address s + offset) (v OR bits) d)"

definition arch_interrupt_disable :: "'d mmio \<Rightarrow> u32 \<Rightarrow> 'a kplic_scheme \<Rightarrow> 'd \<Rightarrow> 'd" where
  "arch_interrupt_disable mm irq s d =
     (let d = plic_set_priority mm irq 1 s d;
          context_id = 0;
          offset = (ucast (PLIC_IE_OFFSET + context_id * PLIC_IE_CONTEXT_STRIDE + push_bit 2 (drop_bit 5 irq)) :: u64);
          shift = irq AND 0x1F;
          bits = (push_bit (unat shift) 1 :: u32);
          (v, d) = mm_read mm (plic_address s + offset) d
      in mm_write mm (plic_address s + offset) (v AND NOT bits) d)"

definition arch_interrupt_complete :: "'d mmio \<Rightarrow> u32 \<Rightarrow> 'a kplic_scheme \<Rightarrow> 'd \<Rightarrow> 'd" where
  "arch_interrupt_complete mm irq s d =
     (let context_id = 0;
          offset = (ucast (PLIC_COMPLETE_OFFSET + context_id * PLIC_COMPLETE_CONTEXT_STRIDE) :: u64)
      in mm_write mm (plic_address s + offset) irq d)"

section \<open>The enable bits\<close>

text \<open>
  What the specification of the controller says: word \<open>n\<close> of the enable bits of context 0 lies at
  offset \<open>0x2000 + 4 * n\<close>. Reading it has no effect, it keeps the bits of implemented sources of what
  was written and reads other bits as zero, and writes to other enable words and to the priority
  registers leave it alone.
\<close>

definition ie_word :: "addr \<Rightarrow> nat \<Rightarrow> addr" where
  "ie_word base n = base + 0x2000 + of_nat (4 * n)"

definition plic_spec :: "'d mmio \<Rightarrow> addr \<Rightarrow> (nat \<Rightarrow> u32) \<Rightarrow> bool" where
  "plic_spec mm base impl \<longleftrightarrow> (\<forall>n<32. \<forall>d. snd (mm_read mm (ie_word base n) d) = d
     \<and> (\<forall>v. fst (mm_read mm (ie_word base n) (mm_write mm (ie_word base n) v d)) = v AND impl n)
     \<and> (\<forall>v k. k < 32 \<and> k \<noteq> n \<longrightarrow> fst (mm_read mm (ie_word base n) (mm_write mm (ie_word base k) v d)) = fst (mm_read mm (ie_word base n) d))
     \<and> (\<forall>v i. i < 1024 \<longrightarrow> fst (mm_read mm (ie_word base n) (mm_write mm (base + of_nat (4 * i)) v d)) = fst (mm_read mm (ie_word base n) d)))"

definition irq_enabled :: "'d mmio \<Rightarrow> addr \<Rightarrow> 'd \<Rightarrow> nat \<Rightarrow> bool" where
  "irq_enabled mm base d j = bit (fst (mm_read mm (ie_word base (j div 32)) d)) (j mod 32)"

definition implemented :: "(nat \<Rightarrow> u32) \<Rightarrow> nat \<Rightarrow> bool" where
  "implemented impl j = bit (impl (j div 32)) (j mod 32)"

lemma unat_widen: "unat (ucast (x :: u32) :: u64) = unat x"
  using unsigned_less [of x, where ?'a = nat] by (simp add: unsigned_ucast_eq take_bit_nat_eq_self)

lemma ie_offset:
  assumes "unat (irq :: u32) < 1024"
  shows "base + ucast (PLIC_IE_OFFSET + 0 * PLIC_IE_CONTEXT_STRIDE + push_bit 2 (drop_bit 5 irq)) = ie_word base (unat irq div 32)"
proof -
  have q: "unat (drop_bit 5 irq) = unat irq div 32" by (simp add: drop_bit_eq_div unat_div_distrib)
  have lt: "unat irq div 32 < 32" using assms by (simp add: div_less_iff_less_mult)
  have p: "unat (push_bit 2 (drop_bit 5 irq)) = 4 * (unat irq div 32)"
    using lt q by (simp add: push_bit_eq_mult unat_word_ariths)
  have "unat (PLIC_IE_OFFSET + push_bit 2 (drop_bit 5 irq)) = 0x2000 + 4 * (unat irq div 32)"
    using lt by (simp add: PLIC_IE_OFFSET_def unat_word_ariths p)
  moreover have "unat (of_nat (0x2000 + 4 * (unat irq div 32)) :: u64) = 0x2000 + 4 * (unat irq div 32)"
    using lt by (intro unat_of_nat_u64) simp
  ultimately have "ucast (PLIC_IE_OFFSET + push_bit 2 (drop_bit 5 irq)) = (of_nat (0x2000 + 4 * (unat irq div 32)) :: u64)"
    unfolding word_unat_eq_iff unat_widen by (simp only:)
  then show ?thesis by (simp add: ie_word_def add.assoc)
qed

lemma prio_offset:
  assumes "unat (irq :: u32) < 1024"
  shows "(ucast (PLIC_PRIORITY_OFFSET + irq * PLIC_PRIORITY_SOURCE_STRIDE) :: u64) = of_nat (4 * unat irq)"
proof -
  have "unat (PLIC_PRIORITY_OFFSET + irq * PLIC_PRIORITY_SOURCE_STRIDE) = 4 * unat irq"
    using assms by (simp add: PLIC_PRIORITY_OFFSET_def PLIC_PRIORITY_SOURCE_STRIDE_def unat_word_ariths)
  moreover have "unat (of_nat (4 * unat irq) :: u64) = 4 * unat irq" using assms by (intro unat_of_nat_u64) simp
  ultimately show ?thesis unfolding word_unat_eq_iff unat_widen by (simp only:)
qed

lemma irq_shift: "unat (irq AND 0x1F :: u32) = unat irq mod 32"
proof -
  have "irq AND 0x1F = take_bit 5 irq" by (simp add: take_bit_eq_mask mask_eq_exp_minus_1)
  then show ?thesis by (simp add: take_bit_eq_mod unat_mod_distrib)
qed

lemma bit_single: "k < 32 \<Longrightarrow> bit (2 ^ k :: u32) j \<longleftrightarrow> j = k"
  by (auto simp: bit_exp_iff)

text \<open>A read-modify-write of the enable word of a source, behind a write of its priority.\<close>

definition ie_update :: "'d mmio \<Rightarrow> addr \<Rightarrow> u32 \<Rightarrow> (u32 \<Rightarrow> u32) \<Rightarrow> 'd \<Rightarrow> 'd" where
  "ie_update mm base irq f d =
     (let d = mm_write mm (base + of_nat (4 * unat irq)) 1 d; a = ie_word base (unat irq div 32)
      in mm_write mm a (f (fst (mm_read mm a d))) (snd (mm_read mm a d)))"

lemma enable_disable_update:
  assumes "unat irq < 1024"
  shows "arch_interrupt_enable mm irq s = ie_update mm (plic_address s) irq (\<lambda>v. v OR push_bit (unat irq mod 32) 1)"
    and "arch_interrupt_disable mm irq s = ie_update mm (plic_address s) irq (\<lambda>v. v AND NOT (push_bit (unat irq mod 32) 1))"
  by (rule ext, simp only: arch_interrupt_enable_def arch_interrupt_disable_def ie_update_def plic_set_priority_def
      Let_def ie_offset [OF assms] prio_offset [OF assms] irq_shift case_prod_beta)+

lemma ie_update_enabled:
  assumes "plic_spec mm base impl" and "unat irq < 1024" and "j < 1024"
  shows "irq_enabled mm base (ie_update mm base irq f d) j \<longleftrightarrow>
    (if j div 32 = unat irq div 32
     then bit (f (fst (mm_read mm (ie_word base (unat irq div 32)) d))) (j mod 32) \<and> implemented impl j
     else irq_enabled mm base d j)"
proof -
  let ?n = "unat irq div 32" and ?d1 = "mm_write mm (base + of_nat (4 * unat irq)) 1 d"
  have lt: "?n < 32" "j div 32 < 32" using assms(2,3) by (simp_all add: div_less_iff_less_mult)
  have pure: "snd (mm_read mm (ie_word base ?n) ?d1) = ?d1" using assms(1) lt(1) by (simp add: plic_spec_def)
  have prio: "fst (mm_read mm (ie_word base k) ?d1) = fst (mm_read mm (ie_word base k) d)" if "k < 32" for k
    using assms(1,2) that unfolding plic_spec_def by blast
  have wr: "fst (mm_read mm (ie_word base (j div 32)) (mm_write mm (ie_word base ?n) v ?d1))
      = (if j div 32 = ?n then v AND impl ?n else fst (mm_read mm (ie_word base (j div 32)) ?d1))" for v
    using assms(1) lt unfolding plic_spec_def by auto
  show ?thesis
    unfolding irq_enabled_def ie_update_def Let_def pure wr
    using prio lt by (auto simp: implemented_def bit_and_iff)
qed

section \<open>Properties\<close>

text \<open>
  Property C37. Enabling and disabling an interrupt source of the controller, for the 1024 sources it can
  have: \<open>arch_interrupt_enable\<close> sets the enable bit of that source, \<open>arch_interrupt_disable\<close> clears it,
  and both leave the enable bit of every other source as it was; disabling a source behind enabling it
  restores the enable bits of a controller on which it was disabled.
\<close>

theorem interrupt_enable_disable:
  assumes "plic_spec mm (plic_address s) impl" and "unat irq < 1024" and "implemented impl (unat irq)"
    and "\<forall>j<1024. irq_enabled mm (plic_address s) d j \<longrightarrow> implemented impl j" and "j < 1024"
  shows "(irq_enabled mm (plic_address s) (arch_interrupt_enable mm irq s d) j \<longleftrightarrow>
       j = unat irq \<or> irq_enabled mm (plic_address s) d j)
    \<and> (irq_enabled mm (plic_address s) (arch_interrupt_disable mm irq s d) j \<longleftrightarrow>
       j \<noteq> unat irq \<and> irq_enabled mm (plic_address s) d j)
    \<and> (irq_enabled mm (plic_address s) (arch_interrupt_disable mm irq s (arch_interrupt_enable mm irq s d)) j \<longleftrightarrow>
       j \<noteq> unat irq \<and> irq_enabled mm (plic_address s) d j)"
proof -
  let ?b = "plic_address s" and ?n = "unat irq"
  have same: "j div 32 = ?n div 32 \<Longrightarrow> j mod 32 = ?n mod 32 \<longleftrightarrow> j = ?n"
    by (metis div_mult_mod_eq)
  have word: "j div 32 = ?n div 32 \<Longrightarrow> irq_enabled mm ?b e j = bit (fst (mm_read mm (ie_word ?b (?n div 32)) e)) (j mod 32)" for e
    by (simp add: irq_enabled_def)
  have en: "irq_enabled mm ?b (arch_interrupt_enable mm irq s d) j \<longleftrightarrow> j = ?n \<or> irq_enabled mm ?b d j"
    unfolding enable_disable_update [OF assms(2)] ie_update_enabled [OF assms(1,2,5)]
    using same word [of d] assms(3-5) by (auto simp: bit_or_iff bit_single)
  have dis: "irq_enabled mm ?b (arch_interrupt_disable mm irq s e) j \<longleftrightarrow> j \<noteq> ?n \<and> irq_enabled mm ?b e j"
    if "irq_enabled mm ?b e j \<longrightarrow> implemented impl j" for e
    unfolding enable_disable_update [OF assms(2)] ie_update_enabled [OF assms(1,2,5)]
    using same word [of e] that by (auto simp: bit_and_iff bit_not_iff bit_single)
  show ?thesis using en dis [of d] dis [of "arch_interrupt_enable mm irq s d"] assms(3-5) by auto
qed

text \<open>A controller whose registers all keep what is written to them, at address 0.\<close>

definition reg_file :: "(addr \<Rightarrow> u32) mmio" where
  "reg_file = \<lparr>mm_read = (\<lambda>a d. (d a, d)), mm_write = (\<lambda>a v d. d(a := v))\<rparr>"

lemma ie_word_unat: "n < 32 \<Longrightarrow> unat (ie_word 0 n) = 0x2000 + 4 * n"
proof -
  assume "n < 32"
  moreover have "ie_word 0 n = of_nat (0x2000 + 4 * n)" by (simp add: ie_word_def)
  ultimately show ?thesis by (simp only:) (intro unat_of_nat_u64, simp)
qed

lemma reg_file_spec: "plic_spec reg_file 0 (\<lambda>_. - 1)"
proof -
  have "ie_word 0 n \<noteq> ie_word 0 k" if "n < 32" "k < 32" "k \<noteq> n" for n k
    using ie_word_unat [OF that(1)] ie_word_unat [OF that(2)] that(3) by auto
  moreover have "ie_word 0 n \<noteq> 0 + of_nat (4 * i)" if "n < 32" "i < 1024" for n i
  proof
    assume "ie_word 0 n = 0 + of_nat (4 * i)"
    moreover have "unat (of_nat (4 * i) :: u64) = 4 * i" using that(2) by (intro unat_of_nat_u64) simp
    ultimately have "0x2000 + 4 * n = 4 * i" using ie_word_unat [OF that(1)] by (simp only: add_0)
    then show False using that(2) by simp
  qed
  ultimately show ?thesis unfolding plic_spec_def by (simp add: reg_file_def)
qed

theorem interrupt_enable_disable_witness:
  "let s = kdtb.extend demo_dtb \<lparr>plic_address = 0, plic_size = 0, plic_ndev = 53\<rparr>;
       d = arch_interrupt_enable reg_file 10 s (\<lambda>_. 0)
   in irq_enabled reg_file 0 d 10 \<and> \<not> irq_enabled reg_file 0 d 11"
proof -
  define s :: kplic where "s = kdtb.extend demo_dtb \<lparr>plic_address = 0, plic_size = 0, plic_ndev = 53\<rparr>"
  have a: "plic_address s = 0" by (simp add: s_def kdtb.defs)
  have none: "\<not> irq_enabled reg_file 0 (\<lambda>_. 0) j" for j by (simp add: irq_enabled_def reg_file_def)
  have impl: "implemented (\<lambda>_. - 1) 10" by (simp add: implemented_def)
  have "irq_enabled reg_file 0 (arch_interrupt_enable reg_file 10 s (\<lambda>_. 0)) j \<longleftrightarrow> j = 10" if "j < 1024" for j
    using interrupt_enable_disable [of reg_file s "\<lambda>_. - 1" 10 "\<lambda>_. 0" j] reg_file_spec none impl that by (simp add: a)
  then show ?thesis unfolding s_def [symmetric] Let_def by simp
qed

end
