(* ===== verification/Cpu_Init.thy ===== *)
theory Cpu_Init
  imports Dtb Trap
begin

text \<open>
  Bringing up the harts: the first part of \<open>kernel/arch/riscv64/cpu.c\<close>. The boot hart fills an entry of
  \<open>CPULocals\<close> for every hart the boot loader names, reads the extensions from the device tree and
  starts the hart, which looks for its entry and switches its floating-point unit on. Until
  \<open>cpu_is_inited\<close> is set at the end no accessor uses the structure of the boot hart, so the copy in
  the table and the one the boot hart holds agree. A hart that is started runs its entry function
  while the boot hart waits for it, so the model runs it as a call; its registers are its own.
\<close>

section \<open>State\<close>

text \<open>
  The table, the number of its entries, the greatest hart number, the size of the saved FPU state, the
  counter with which a started hart reports and the harts that were started, with their registers.
\<close>

record smp_hart = hart +
  smp_satp :: u64
  smp_sscratch :: u64
  smp_stvec :: addr
  smp_sie :: u64

record kcpus = kdtb +
  boot_locals :: "nat \<Rightarrow> cpu_t"
  boot_count :: u32
  boot_max_hart :: u64
  fpu_save_size :: size_t
  ctr :: u64
  started :: "(u64 \<times> smp_hart) list"

text \<open>The response of the boot loader: the boot hart and the numbers of all harts.\<close>

record limine_mp_response =
  bsp_hartid :: u64
  mp_cpus :: "u64 list"

text \<open>
  The addresses of string literals, of \<open>CPUStacks\<close> and of the trap vector, the value of \<open>satp\<close> for the page
  table of the kernel, and a hart as the boot loader hands it over.
\<close>

record cpu_env =
  ce_slash :: addr
  ce_none :: addr
  ce_cpu :: addr
  ce_isa :: addr
  ce_stacks :: addr
  ce_isr :: addr
  ce_satp :: u64
  ce_hart :: smp_hart

definition CPU_STACK_SIZE :: u64 where "CPU_STACK_SIZE = 16384"

definition CPU_FLAG_TIMER :: u8 where "CPU_FLAG_TIMER = push_bit 0 1"

section \<open>Floating point\<close>

text \<open>\<open>fpu_init\<close> on the extensions of a hart: the new size and the new status register.\<close>

definition fpu_init :: "u32 \<Rightarrow> size_t \<Rightarrow> u64 \<Rightarrow> size_t \<times> u64" where
  "fpu_init features sz status =
     (let register_width = (if features AND RISCV_FEATURE_DOUBLE_FP \<noteq> 0 then 8 else if features AND RISCV_FEATURE_SINGLE_FP \<noteq> 0 then 4 else 0 :: u32)
      in if register_width = 0 then (sz, status)
         else (ucast (register_width * 32 + 4), status OR push_bit 13 1))"

definition arch_cpu_get_fpu_save_size :: "'a kcpus_scheme \<Rightarrow> size_t" where
  "arch_cpu_get_fpu_save_size s = fpu_save_size s"

section \<open>One entry of the table\<close>

definition isalpha :: "u8 \<Rightarrow> bool" where
  "isalpha c \<longleftrightarrow> ((ucast c :: u32) OR 32) - 97 < 26"

text \<open>The loop over the extensions; a shift by a negative amount, for a capital letter, has no meaning in C.\<close>

partial_function (option) isa_loop :: "mem \<Rightarrow> addr \<Rightarrow> u32 \<Rightarrow> u32 res option" where
  "isa_loop m isa features =
     (case m isa of None \<Rightarrow> Some (Inl Fault) | Some c \<Rightarrow>
      (if c = 0 then Some (Inr features)
       else if \<not> isalpha c then Some (Inr features)
       else if c < 97 then Some (Inl Fault)
       else isa_loop m (isa + 1) (features OR push_bit (unat (c - 97)) 1)))"

definition set_local :: "(cpu_t \<Rightarrow> cpu_t) \<Rightarrow> 'a kcpus_scheme \<Rightarrow> 'a kcpus_scheme res" where
  "set_local f s =
     (if boot_count s < 256
      then Inr (s\<lparr>boot_locals := (boot_locals s)(unat (boot_count s) := f (boot_locals s (unat (boot_count s))))\<rparr>)
      else Inl Fault)"

text \<open>The second test of the source repeats the first one; a missing property leaves \<open>isa\<close> null.\<close>

definition init_cpu :: "cpu_env \<Rightarrow> u64 \<Rightarrow> 'a kcpus_scheme \<Rightarrow> 'a kcpus_scheme res" where
  "init_cpu env hartid s =
     bnd (set_local (\<lambda>c. c\<lparr>currentCpu := hartid,
            kernelStack := ce_stacks env + ucast (boot_count s) * (PAGE_SIZE + CPU_STACK_SIZE) + PAGE_SIZE + CPU_STACK_SIZE,
            preemptCounter := 0, currentPid := - 1, currentTid := - 1, currentTaskID := - 1, flags := 0\<rparr>) s) (\<lambda>s.
     bnd (dtb_find_node (ce_slash env) (ce_none env) (ce_cpu env) 0 False s) (\<lambda>(plic_node, s).
     bnd (if plic_node \<noteq> NULL
          then bnd (dtb_prop_read_string plic_node (ce_isa env) s) (\<lambda>(isa, s).
               bnd (loop_res (isa_loop (bytes s) (isa + 4) (isaFeatures (boot_locals s (unat (boot_count s)))))) (\<lambda>features.
               set_local (\<lambda>c. c\<lparr>isaFeatures := features\<rparr>) s))
          else Inr s) (\<lambda>s.
     Inr (s\<lparr>boot_count := boot_count s + 1\<rparr>))))"

section \<open>All harts\<close>

text \<open>
  \<open>riscv_smp_entry\<close> on the hart \<open>info\<close>: without an entry of its own the thread pointer is not set, and
  the access of \<open>fpu_init\<close> to the structure has no meaning.
\<close>

fun find_local :: "(nat \<Rightarrow> cpu_t) \<Rightarrow> u64 \<Rightarrow> nat \<Rightarrow> nat \<Rightarrow> nat option" where
  "find_local locals hartid i 0 = None"
| "find_local locals hartid i (Suc n) = (if currentCpu (locals i) = hartid then Some i else find_local locals hartid (Suc i) n)"

definition smp_vmm_set_pt :: "u64 \<Rightarrow> smp_hart \<Rightarrow> smp_hart" where
  "smp_vmm_set_pt v h = h\<lparr>smp_satp := v\<rparr>"

definition smp_interrupt_init :: "addr \<Rightarrow> smp_hart \<Rightarrow> smp_hart" where
  "smp_interrupt_init riscv_isr h =
     (case arch_disable_interrupts h of (_, h) \<Rightarrow>
      let h = h\<lparr>smp_sscratch := 0\<rparr>;
          h = h\<lparr>smp_stvec := riscv_isr\<rparr>;
          h = h\<lparr>smp_sie := smp_sie h OR SIE_SSIE\<rparr>
      in arch_enable_interrupts h)"

definition riscv_smp_entry :: "cpu_env \<Rightarrow> u64 \<Rightarrow> 'a kcpus_scheme \<Rightarrow> 'a kcpus_scheme res" where
  "riscv_smp_entry env hartid s =
     (let h = smp_vmm_set_pt (ce_satp env) (ce_hart env)
      in case find_local (boot_locals s) hartid 0 256 of
        None \<Rightarrow> Inl Fault
      | Some i \<Rightarrow>
          let h = h\<lparr>cpu_struct := boot_locals s i\<rparr>;
              (sz, status) = fpu_init (isaFeatures (cpu_struct h)) (fpu_save_size s) (sstatus h);
              h = h\<lparr>sstatus := status\<rparr>;
              h = smp_interrupt_init (ce_isr env) h
          in Inr (s\<lparr>fpu_save_size := sz, ctr := ctr s + 1, started := started s @ [(hartid, h)]\<rparr>))"

text \<open>
  The boot hart waits until the counter has moved; when the new hart does not come that far it waits
  forever. The counter it remembers is cut to 32 bits.
\<close>

fun start_harts :: "cpu_env \<Rightarrow> u64 \<Rightarrow> u64 list \<Rightarrow> 'a kcpus_scheme \<Rightarrow> 'a kcpus_scheme res" where
  "start_harts env bsp [] s = Inr s"
| "start_harts env bsp (hartid # cpus) s =
     (let s = (if hartid > boot_max_hart s then s\<lparr>boot_max_hart := hartid\<rparr> else s)
      in if hartid = bsp then start_harts env bsp cpus s
         else bnd (init_cpu env hartid s) (\<lambda>s.
              let old_ctr = (ucast (ctr s) :: u32) in
              case riscv_smp_entry env hartid s of
                Inl e \<Rightarrow> Inl Hang
              | Inr s \<Rightarrow> if ctr s = ucast old_ctr then Inl Hang else start_harts env bsp cpus s))"

definition riscv_cpu_init :: "cpu_env \<Rightarrow> limine_mp_response option \<Rightarrow> 'a kcpus_scheme \<Rightarrow> 'a kcpus_scheme res" where
  "riscv_cpu_init env mp s =
     (case mp of
        None \<Rightarrow> Inl Hang
      | Some mp \<Rightarrow>
          bnd (init_cpu env (bsp_hartid mp) s) (\<lambda>s.
          let s = s\<lparr>boot_locals := (boot_locals s)(0 := (boot_locals s 0)\<lparr>flags := CPU_FLAG_TIMER\<rparr>)\<rparr>;
              s = s\<lparr>cpu_struct := boot_locals s 0\<rparr>;
              (sz, status) = fpu_init (isaFeatures (cpu_struct s)) (fpu_save_size s) (sstatus s);
              s = s\<lparr>fpu_save_size := sz, sstatus := status\<rparr>
          in bnd (start_harts env (bsp_hartid mp) (mp_cpus mp) s) (\<lambda>s.
             Inr (s\<lparr>cpu_is_inited := True\<rparr>))))"

section \<open>Extensions\<close>

definition small_letter :: "u8 \<Rightarrow> bool" where
  "small_letter c \<longleftrightarrow> 97 \<le> c \<and> c \<le> 122"

lemma isalpha_bytes:
  "list_all (\<lambda>n. isalpha (of_nat n) = (97 \<le> n \<and> n \<le> 122 \<or> 65 \<le> n \<and> n \<le> 90)) [0..<256]"
  by code_simp

lemma isalpha_iff: "isalpha c \<longleftrightarrow> small_letter c \<or> 65 \<le> c \<and> c \<le> 90"
proof -
  have "unat c < 256" using unsigned_less [of c, where ?'a = nat] by simp
  then have "isalpha (of_nat (unat c)) = (97 \<le> unat c \<and> unat c \<le> 122 \<or> 65 \<le> unat c \<and> unat c \<le> 90)"
    using isalpha_bytes unfolding list_all_iff set_upt by (metis atLeastLessThan_iff zero_le)
  then show ?thesis by (simp add: small_letter_def word_le_nat_alt)
qed

lemma isa_loop_cstr:
  assumes "cstr m p s" and "\<forall>c \<in> set s. \<not> (65 \<le> c \<and> c \<le> 90)"
  shows "\<exists>f'. isa_loop m p f = Some (Inr f')
    \<and> (\<forall>n. bit f' n \<longleftrightarrow> bit f n \<or> (\<exists>c \<in> set (takeWhile small_letter s). unat c = 97 + n))"
  using assms
proof (induction s arbitrary: p f)
  case Nil
  then show ?case by (subst isa_loop.simps) simp
next
  case (Cons c s)
  show ?case
  proof (cases "small_letter c")
    case True
    let ?f = "f OR push_bit (unat (c - 97)) 1"
    have c: "97 \<le> unat c" "unat c \<le> 122" using True by (auto simp: small_letter_def word_le_nat_alt)
    then have u: "unat (c - 97) = unat c - 97" by (simp add: unat_sub_if')
    have bits: "bit ?f n \<longleftrightarrow> bit f n \<or> unat c = 97 + n" for n
      using c by (auto simp: u bit_or_iff push_bit_of_1 bit_exp_iff)
    obtain f' where "isa_loop m (p + 1) ?f = Some (Inr f')"
      "\<forall>n. bit f' n \<longleftrightarrow> bit ?f n \<or> (\<exists>c \<in> set (takeWhile small_letter s). unat c = 97 + n)"
      using Cons.IH [of "p + 1" ?f] Cons.prems by auto
    moreover have "isa_loop m p f = isa_loop m (p + 1) ?f"
      using Cons.prems True by (subst isa_loop.simps) (auto simp: isalpha_iff small_letter_def)
    ultimately show ?thesis using True bits by auto
  next
    case False
    then show ?thesis using Cons.prems by (subst isa_loop.simps) (auto simp: isalpha_iff)
  qed
qed


section \<open>The table\<close>

text \<open>The first entries of the table carry the numbers \<open>xs\<close>, and no device tree was found.\<close>

definition locals_are :: "'a kcpus_scheme \<Rightarrow> u64 list \<Rightarrow> bool" where
  "locals_are s xs \<longleftrightarrow> DTBNodes s = NULL \<and> unat (boot_count s) = length xs
     \<and> (\<forall>i<length xs. currentCpu (boot_locals s i) = xs ! i)"

lemma init_cpu_no_dtb:
  assumes "locals_are s xs" and "length xs < 256"
  shows "\<exists>s'. init_cpu env hartid s = Inr s' \<and> locals_are s' (xs @ [hartid]) \<and> ctr s' = ctr s
    \<and> boot_max_hart s' = boot_max_hart s \<and> started s' = started s"
proof -
  let ?n = "unat (boot_count s)"
  have lt: "boot_count s < 256" using assms by (simp add: word_less_nat_alt locals_are_def)
  have up: "unat (boot_count s + 1) = Suc (length xs)"
    using assms by (simp add: locals_are_def unat_word_ariths)
  show ?thesis
    using assms lt up by (auto simp: init_cpu_def set_local_def locals_are_def dtb_find_node_def nth_append less_Suc_eq)
qed

lemma find_local_hit: "\<exists>j. i \<le> j \<and> j < i + n \<and> currentCpu (locals j) = h \<Longrightarrow> find_local locals h i n \<noteq> None"
proof (induction n arbitrary: i)
  case (Suc n)
  then obtain j where j: "i \<le> j" "j < i + Suc n" "currentCpu (locals j) = h" by blast
  show ?case
  proof (cases "currentCpu (locals i) = h")
    case False
    then have "Suc i \<le> j" using j(1,3) by (cases "i = j") auto
    then have "find_local locals h (Suc i) n \<noteq> None" using j by (intro Suc.IH exI [of _ j]) simp
    then show ?thesis using False by simp
  qed simp
qed auto

lemma find_local_Some: "find_local locals h i n = Some j \<Longrightarrow> currentCpu (locals j) = h"
  by (induction n arbitrary: i) (auto split: if_splits)

text \<open>A hart that was started: its own structure, the page table and the trap vector of the kernel, and interrupts between harts on.\<close>

definition hart_up :: "cpu_env \<Rightarrow> u64 \<times> smp_hart \<Rightarrow> bool" where
  "hart_up env hr = (case hr of (h, r) \<Rightarrow> currentCpu (cpu_struct r) = h \<and> smp_satp r = ce_satp env \<and> smp_stvec r = ce_isr env \<and>
     bit (smp_sie r) 1 \<and> arch_interrupts_enabled r)"

lemma smp_interrupt_up:
  assumes "currentCpu (cpu_struct h) = i" and "smp_satp h = ce_satp env"
  shows "hart_up env (i, smp_interrupt_init (ce_isr env) h)"
  using assms by (simp add: hart_up_def smp_interrupt_init_def arch_disable_interrupts_def arch_enable_interrupts_def
      arch_interrupts_enabled_def sie_set_bit [unfolded One_nat_def] SIE_SSIE_def SSATUS_SIE_def bit_simps Let_def)

lemma smp_entry_ok:
  assumes "locals_are s xs" and "h \<in> set xs" and "length xs \<le> 256"
  shows "\<exists>s' r. riscv_smp_entry env h s = Inr s' \<and> locals_are s' xs \<and> ctr s' = ctr s + 1
    \<and> boot_max_hart s' = boot_max_hart s \<and> started s' = started s @ [(h, r)] \<and> hart_up env (h, r)"
proof -
  obtain i where "i < length xs" "xs ! i = h" using assms(2) by (auto simp: in_set_conv_nth)
  then have "find_local (boot_locals s) h 0 256 \<noteq> None"
    using assms(1,3) by (intro find_local_hit) (auto simp: locals_are_def intro!: exI [of _ i])
  then obtain j where j: "find_local (boot_locals s) h 0 256 = Some j" "currentCpu (boot_locals s j) = h" using find_local_Some by blast
  show ?thesis
    using assms(1) j by (auto simp: riscv_smp_entry_def smp_vmm_set_pt_def Let_def locals_are_def intro!: smp_interrupt_up split: prod.splits)
qed

lemma start_harts_ok:
  assumes "locals_are s xs" and "length xs + length cpus \<le> 256" and "unat (ctr s) + length cpus < 2 ^ 32"
  shows "\<exists>s' us. start_harts env bsp cpus s = Inr s' \<and> locals_are s' (xs @ filter (\<lambda>h. h \<noteq> bsp) cpus)
    \<and> boot_max_hart s' = foldl max (boot_max_hart s) cpus \<and> started s' = started s @ us
    \<and> map fst us = filter (\<lambda>h. h \<noteq> bsp) cpus \<and> (\<forall>u \<in> set us. hart_up env u)"
  using assms
proof (induction cpus arbitrary: s xs)
  case (Cons h cpus)
  define s0 where "s0 = (if h > boot_max_hart s then s\<lparr>boot_max_hart := h\<rparr> else s)"
  have s0: "locals_are s0 xs" "ctr s0 = ctr s" "boot_max_hart s0 = max (boot_max_hart s) h" "started s0 = started s"
    using Cons.prems(1) by (auto simp: s0_def locals_are_def max_def)
  show ?case
  proof (cases "h = bsp")
    case True
    obtain s' us where "start_harts env bsp cpus s0 = Inr s'" "locals_are s' (xs @ filter (\<lambda>h. h \<noteq> bsp) cpus)"
      "boot_max_hart s' = foldl max (boot_max_hart s0) cpus" "started s' = started s0 @ us"
      "map fst us = filter (\<lambda>h. h \<noteq> bsp) cpus" "\<forall>u \<in> set us. hart_up env u"
      using Cons.IH [OF s0(1)] Cons.prems(2,3) s0(2) by auto
    moreover have "start_harts env bsp (h # cpus) s = start_harts env bsp cpus s0"
      using True by (simp only: start_harts.simps Let_def s0_def) simp
    ultimately show ?thesis using True s0 by (intro exI [of _ s'] exI [of _ us]) auto
  next
    case False
    obtain s1 where s1: "init_cpu env h s0 = Inr s1" "locals_are s1 (xs @ [h])" "ctr s1 = ctr s"
      "boot_max_hart s1 = boot_max_hart s0" "started s1 = started s"
      using init_cpu_no_dtb [OF s0(1), of env h] Cons.prems(2) s0 by auto
    obtain s2 r where s2: "riscv_smp_entry env h s1 = Inr s2" "locals_are s2 (xs @ [h])" "ctr s2 = ctr s + 1"
      "boot_max_hart s2 = boot_max_hart s0" "started s2 = started s @ [(h, r)]" "hart_up env (h, r)"
      using smp_entry_ok [OF s1(2), of h env] Cons.prems(2) s1 by auto
    have ctr: "unat (ctr s + 1) = unat (ctr s) + 1" using Cons.prems(3) by (simp add: unat_word_ariths)
    have "unat (ucast (ucast (ctr s) :: u32) :: u64) = unat (ctr s)"
      using Cons.prems(3) by (simp add: unsigned_ucast_eq unsigned_take_bit_eq take_bit_nat_eq_self)
    then have "ctr s + 1 \<noteq> ucast (ucast (ctr s) :: u32)" using ctr by (metis n_not_Suc_n Suc_eq_plus1)
    then have run: "start_harts env bsp (h # cpus) s = start_harts env bsp cpus s2"
      using False s1(1,3) s2(1,3) unfolding start_harts.simps Let_def s0_def [symmetric] by simp
    obtain s' us where "start_harts env bsp cpus s2 = Inr s'" "locals_are s' ((xs @ [h]) @ filter (\<lambda>h. h \<noteq> bsp) cpus)"
      "boot_max_hart s' = foldl max (boot_max_hart s2) cpus" "started s' = started s2 @ us"
      "map fst us = filter (\<lambda>h. h \<noteq> bsp) cpus" "\<forall>u \<in> set us. hart_up env u"
      using Cons.IH [OF s2(2)] Cons.prems(2,3) s2(3) ctr by auto
    then show ?thesis using run False s0(3) s2(4-6) by (intro exI [of _ s'] exI [of _ "(h, r) # us"]) auto
  qed
qed simp

lemma foldl_max: "foldl max m cpus = Max (insert (m :: u64) (set cpus))"
proof (induction cpus arbitrary: m)
  case (Cons c cpus)
  show ?case by (cases "cpus = []") (simp_all add: Cons.IH max.assoc Max_insert [of "set cpus"])
qed simp

section \<open>Properties\<close>

text \<open>
  The extensions of a hart, read from the letters behind the first four characters of the ISA
  string: the loop ends, and the bit of a letter is set exactly when the letter is in the run of small
  letters at the start, besides the bits that were set before. The first character that is no
  letter, such as an underscore, ends the run.
\<close>

theorem isa_features_parsed:
  assumes "cstr m p s" and "\<forall>c \<in> set s. \<not> (65 \<le> c \<and> c \<le> 90)"
  shows "\<exists>f'. loop_res (isa_loop m p f) = Inr f'
    \<and> (\<forall>n. bit f' n \<longleftrightarrow> bit f n \<or> (\<exists>c \<in> set (takeWhile small_letter s). unat c = 97 + n))"
  using isa_loop_cstr [OF assms, of f] by (metis loop_res_Some)

theorem isa_features_parsed_witness:
  "\<exists>f'. loop_res (isa_loop [0 \<mapsto> 105, 1 \<mapsto> 109, 2 \<mapsto> 95, 3 \<mapsto> 122, 4 \<mapsto> 0] 0 0) = Inr f'
    \<and> bit f' 8 \<and> bit f' 12 \<and> \<not> bit f' 25"
proof -
  have "cstr [0 \<mapsto> 105, 1 \<mapsto> 109, 2 \<mapsto> 95, 3 \<mapsto> 122, 4 \<mapsto> 0] 0 [105, 109, 95, 122]" by simp
  moreover have "takeWhile small_letter [105, 109, 95, 122] = [105, 109]" by (simp add: small_letter_def)
  ultimately show ?thesis
    using isa_features_parsed [of "[0 \<mapsto> 105, 1 \<mapsto> 109, 2 \<mapsto> 95, 3 \<mapsto> 122, 4 \<mapsto> 0]" 0 "[105, 109, 95, 122]" 0] by fastforce
qed

text \<open>
  Property C38. The table of harts. With a boot loader that names at most 255 harts, each once and the
  boot hart among them, \<open>riscv_cpu_init\<close> returns on a machine without a device tree; entry 0 of the
  table is the boot hart and the entries behind it are the other harts in the order of the list. Exactly
  the other harts were started, each once and in that order: a started hart has its own structure, the
  page table and the trap vector of the kernel and its interrupts on. The maximum the code keeps is the
  greatest of the hart numbers and of what it was before, which is 0 at boot.
\<close>

theorem cpu_init_fills_table:
  assumes "DTBNodes s = NULL" and "boot_count s = 0" and "ctr s = 0" and "started s = []"
    and "length (mp_cpus mp) < 256" and "bsp_hartid mp \<in> set (mp_cpus mp)" and "distinct (mp_cpus mp)"
  shows "\<exists>s'. riscv_cpu_init env (Some mp) s = Inr s' \<and> cpu_is_inited s'
    \<and> (let xs = bsp_hartid mp # filter (\<lambda>h. h \<noteq> bsp_hartid mp) (mp_cpus mp) in
         unat (boot_count s') = length xs \<and> (\<forall>i<length xs. currentCpu (boot_locals s' i) = xs ! i))
    \<and> boot_max_hart s' = Max (insert (boot_max_hart s) (set (mp_cpus mp)))
    \<and> map fst (started s') = filter (\<lambda>h. h \<noteq> bsp_hartid mp) (mp_cpus mp) \<and> distinct (map fst (started s'))
    \<and> (\<forall>u \<in> set (started s'). hart_up env u)"
proof -
  let ?b = "bsp_hartid mp" and ?o = "filter (\<lambda>h. h \<noteq> bsp_hartid mp) (mp_cpus mp)"
  have "locals_are s []" using assms(1,2) by (simp add: locals_are_def)
  then obtain s1 where s1: "init_cpu env ?b s = Inr s1" "locals_are s1 [?b]" "ctr s1 = 0" "started s1 = []" "boot_max_hart s1 = boot_max_hart s"
    using init_cpu_no_dtb [of s "[]" env ?b] assms(3,4) by auto
  define s2 where "s2 = (let s = s1\<lparr>boot_locals := (boot_locals s1)(0 := (boot_locals s1 0)\<lparr>flags := CPU_FLAG_TIMER\<rparr>)\<rparr>;
              s = s\<lparr>cpu_struct := boot_locals s 0\<rparr>;
              (sz, status) = fpu_init (isaFeatures (cpu_struct s)) (fpu_save_size s) (sstatus s)
              in s\<lparr>fpu_save_size := sz, sstatus := status\<rparr>)"
  have s2: "locals_are s2 [?b]" "ctr s2 = 0" "started s2 = []" "boot_max_hart s2 = boot_max_hart s"
    using s1(2-5) by (auto simp: s2_def Let_def locals_are_def split: prod.splits)
  obtain s3 us where s3: "start_harts env ?b (mp_cpus mp) s2 = Inr s3" "locals_are s3 (?b # ?o)"
    "boot_max_hart s3 = Max (insert (boot_max_hart s) (set (mp_cpus mp)))" "started s3 = us" "map fst us = ?o" "\<forall>u \<in> set us. hart_up env u"
    using start_harts_ok [OF s2(1), of "mp_cpus mp" env ?b] assms(5) s2(2-4) unfolding foldl_max by auto
  have "riscv_cpu_init env (Some mp) s = Inr (s3\<lparr>cpu_is_inited := True\<rparr>)"
    using s1(1) s3(1) by (simp add: riscv_cpu_init_def s2_def Let_def split: prod.splits)
  then show ?thesis using s3(2-6) assms(7) by (intro exI [of _ "s3\<lparr>cpu_is_inited := True\<rparr>"]) (auto simp: locals_are_def Let_def)
qed

definition demo_cpus :: kcpus where
  "demo_cpus = kdtb.extend (demo_dtb\<lparr>DTBNodes := NULL\<rparr>)
     \<lparr>boot_locals = (\<lambda>_. demo_cpu), boot_count = 0, boot_max_hart = 0, fpu_save_size = 0, ctr = 0, started = []\<rparr>"

lemma demo_cpus_fields [simp]:
  "DTBNodes demo_cpus = NULL" "boot_count demo_cpus = 0" "ctr demo_cpus = 0" "started demo_cpus = []" "boot_max_hart demo_cpus = 0"
  by (simp_all add: demo_cpus_def kdtb.defs)

theorem cpu_init_fills_table_witness:
  "\<forall>env. \<exists>s'. riscv_cpu_init env (Some \<lparr>bsp_hartid = 1, mp_cpus = [0, 1, 2]\<rparr>) demo_cpus = Inr s'
    \<and> unat (boot_count s') = 3 \<and> currentCpu (boot_locals s' 0) = 1 \<and> boot_max_hart s' = 2 \<and> map fst (started s') = [0, 2]"
proof
  fix env
  show "\<exists>s'. riscv_cpu_init env (Some \<lparr>bsp_hartid = 1, mp_cpus = [0, 1, 2]\<rparr>) demo_cpus = Inr s'
    \<and> unat (boot_count s') = 3 \<and> currentCpu (boot_locals s' 0) = 1 \<and> boot_max_hart s' = 2 \<and> map fst (started s') = [0, 2]"
    using cpu_init_fills_table [of demo_cpus "\<lparr>bsp_hartid = 1, mp_cpus = [0, 1, 2]\<rparr>" env] by (fastforce simp: Let_def)
qed

text \<open>
  A node for the harts without the property \<open>riscv,isa\<close>: the code tests the node a second time instead
  of the string, and reads at address 4.
\<close>

theorem init_cpu_missing_isa:
  assumes "set_local (\<lambda>c. c\<lparr>currentCpu := hartid,
            kernelStack := ce_stacks env + ucast (boot_count s) * (PAGE_SIZE + CPU_STACK_SIZE) + PAGE_SIZE + CPU_STACK_SIZE,
            preemptCounter := 0, currentPid := - 1, currentTid := - 1, currentTaskID := - 1, flags := 0\<rparr>) s = Inr s1"
    and "dtb_find_node (ce_slash env) (ce_none env) (ce_cpu env) 0 False s1 = Inr (node, s2)" and "node \<noteq> NULL"
    and "dtb_prop_read_string node (ce_isa env) s2 = Inr (NULL, s3)" and "bytes s3 4 = None"
  shows "init_cpu env hartid s = Inl Fault"
proof -
  have "isa_loop (bytes s3) 4 f = Some (Inl Fault)" for f using assms(5) by (subst isa_loop.simps) simp
  then show ?thesis using assms(2-4) by (simp add: init_cpu_def assms(1))
qed

end
