(* ===== verification/Vfs.thy ===== *)
theory Vfs
  imports Gentree
begin

text \<open>
  The virtual file system: \<open>kernel/fs/vfs.c\<close> and the device file system of \<open>kernel/fs/devfs/devfs.c\<close>.
  The tree of mount points is a generic tree whose values are entries with a name and a node. Nodes
  and entries are objects of typed heaps over the kernel heap; the name of a node, the array at its
  start, lies in byte memory. The functions of a node are code addresses, and what they do is an
  argument of the operations that call them. The addresses of string literals and of the functions
  of the device file system are arguments too. What only prints, the two routines that print a tree
  and the writer of the log device, is left out.
\<close>

section \<open>Data\<close>

record vfs_functions_t =
  f_open :: addr
  f_close :: addr
  f_read :: addr
  f_write :: addr
  f_lseek :: addr
  f_ioctl :: addr
  f_finddir :: addr
  f_readdir :: addr
  f_create :: addr
  f_mount :: addr
  f_print_tree :: addr

record vfs_node_t =
  vn_data :: addr
  vn_flags :: u32
  vn_internIndex :: size_t
  vn_size :: size_t
  vn_referenceCount :: size_t
  vn_offset :: size_t
  vn_status :: u32
  vn_functions :: vfs_functions_t

record vfs_entry_t =
  ve_name :: addr
  ve_node :: addr

record devfs_node_t =
  dn_data :: addr
  dn_flags :: u32
  dn_internIndex :: size_t
  dn_functions :: vfs_functions_t

record devfs_entry_t =
  de_name :: addr
  de_node :: addr

definition sizeof_vfs_node_t :: size_t where
  "sizeof_vfs_node_t = 1168"

definition sizeof_vfs_entry_t :: size_t where
  "sizeof_vfs_entry_t = 16"

definition sizeof_devfs_node_t :: size_t where
  "sizeof_devfs_node_t = 1136"

definition sizeof_devfs_entry_t :: size_t where
  "sizeof_devfs_entry_t = 16"

definition VFS_DIRECTORY :: u32 where
  "VFS_DIRECTORY = 2"

definition VFS_FILESYSTEM :: u32 where
  "VFS_FILESYSTEM = 4"

definition O_CREAT :: u32 where
  "O_CREAT = 0x10"

definition TIOCGWINSZ :: size_t where
  "TIOCGWINSZ = 0x5413"

record kvfs = ktrees +
  vnode_mem :: "addr \<rightharpoonup> vfs_node_t"
  ventry_mem :: "addr \<rightharpoonup> vfs_entry_t"
  devnode_mem :: "addr \<rightharpoonup> devfs_node_t"
  deventry_mem :: "addr \<rightharpoonup> devfs_entry_t"
  VFSTree :: addr
  DevFSList :: addr

text \<open>The literals of the source, and the functions behind the code addresses of the nodes.\<close>

record literals =
  lit_root :: addr
  lit_slash :: addr
  lit_empty :: addr
  lit_DevFS :: addr
  lit_dev :: addr
  lit_SerialLog :: addr
  lit_log :: addr

record devfs_code =
  at_finddir :: addr
  at_print_tree :: addr
  at_log_write :: addr
  at_log_ioctl :: addr

record 's drivers =
  drv_open :: "addr \<Rightarrow> addr \<Rightarrow> u32 \<Rightarrow> 's \<Rightarrow> (size_t \<times> 's) res"
  drv_close :: "addr \<Rightarrow> addr \<Rightarrow> 's \<Rightarrow> (size_t \<times> 's) res"
  drv_read :: "addr \<Rightarrow> addr \<Rightarrow> addr \<Rightarrow> size_t \<Rightarrow> 's \<Rightarrow> (size_t \<times> 's) res"
  drv_write :: "addr \<Rightarrow> addr \<Rightarrow> addr \<Rightarrow> size_t \<Rightarrow> 's \<Rightarrow> (size_t \<times> 's) res"
  drv_lseek :: "addr \<Rightarrow> addr \<Rightarrow> size_t \<Rightarrow> size_t \<Rightarrow> 's \<Rightarrow> (size_t \<times> 's) res"
  drv_ioctl :: "addr \<Rightarrow> addr \<Rightarrow> size_t \<Rightarrow> addr \<Rightarrow> 's \<Rightarrow> (size_t \<times> 's) res"
  drv_finddir :: "addr \<Rightarrow> addr \<Rightarrow> addr \<Rightarrow> addr \<Rightarrow> 's \<Rightarrow> (addr \<times> addr \<times> 's) res"
  drv_readdir :: "addr \<Rightarrow> addr \<Rightarrow> addr \<Rightarrow> 's \<Rightarrow> (size_t \<times> 's) res"
  drv_create :: "addr \<Rightarrow> addr \<Rightarrow> addr \<Rightarrow> u32 \<Rightarrow> 's \<Rightarrow> (addr \<times> 's) res"
  drv_mount :: "addr \<Rightarrow> addr \<Rightarrow> addr \<Rightarrow> size_t \<Rightarrow> addr \<Rightarrow> addr \<Rightarrow> 's \<Rightarrow> (size_t \<times> 's) res"

section \<open>Access\<close>

definition ld_vnode :: "'a kvfs_scheme \<Rightarrow> addr \<Rightarrow> vfs_node_t res" where
  "ld_vnode s p = need (vnode_mem s p)"

definition ld_ventry :: "'a kvfs_scheme \<Rightarrow> addr \<Rightarrow> vfs_entry_t res" where
  "ld_ventry s p = need (ventry_mem s p)"

definition ld_devnode :: "'a kvfs_scheme \<Rightarrow> addr \<Rightarrow> devfs_node_t res" where
  "ld_devnode s p = need (devnode_mem s p)"

definition ld_deventry :: "'a kvfs_scheme \<Rightarrow> addr \<Rightarrow> devfs_entry_t res" where
  "ld_deventry s p = need (deventry_mem s p)"

definition up_vnode :: "addr \<Rightarrow> (vfs_node_t \<Rightarrow> vfs_node_t) \<Rightarrow> 'a kvfs_scheme \<Rightarrow> 'a kvfs_scheme res" where
  "up_vnode p f s = bnd (ld_vnode s p) (\<lambda>n. Inr (s\<lparr>vnode_mem := (vnode_mem s)(p \<mapsto> f n)\<rparr>))"

definition up_ventry :: "addr \<Rightarrow> (vfs_entry_t \<Rightarrow> vfs_entry_t) \<Rightarrow> 'a kvfs_scheme \<Rightarrow> 'a kvfs_scheme res" where
  "up_ventry p f s = bnd (ld_ventry s p) (\<lambda>n. Inr (s\<lparr>ventry_mem := (ventry_mem s)(p \<mapsto> f n)\<rparr>))"

definition up_devnode :: "addr \<Rightarrow> (devfs_node_t \<Rightarrow> devfs_node_t) \<Rightarrow> 'a kvfs_scheme \<Rightarrow> 'a kvfs_scheme res" where
  "up_devnode p f s = bnd (ld_devnode s p) (\<lambda>n. Inr (s\<lparr>devnode_mem := (devnode_mem s)(p \<mapsto> f n)\<rparr>))"

definition up_deventry :: "addr \<Rightarrow> (devfs_entry_t \<Rightarrow> devfs_entry_t) \<Rightarrow> 'a kvfs_scheme \<Rightarrow> 'a kvfs_scheme res" where
  "up_deventry p f s = bnd (ld_deventry s p) (\<lambda>n. Inr (s\<lparr>deventry_mem := (deventry_mem s)(p \<mapsto> f n)\<rparr>))"

definition no_functions :: vfs_functions_t where
  "no_functions = \<lparr>f_open = NULL, f_close = NULL, f_read = NULL, f_write = NULL, f_lseek = NULL, f_ioctl = NULL, f_finddir = NULL,
     f_readdir = NULL, f_create = NULL, f_mount = NULL, f_print_tree = NULL\<rparr>"

definition new_vnode :: "'a kvfs_scheme \<Rightarrow> (addr \<times> 'a kvfs_scheme) res" where
  "new_vnode s = bnd (kmalloc sizeof_vfs_node_t s) (\<lambda>(p, s).
     Inr (p, if p = NULL then s
             else s\<lparr>vnode_mem := (vnode_mem s)(p \<mapsto> \<lparr>vn_data = NULL, vn_flags = 0, vn_internIndex = 0, vn_size = 0, vn_referenceCount = 0,
               vn_offset = 0, vn_status = 0, vn_functions = no_functions\<rparr>)\<rparr>))"

definition new_ventry :: "'a kvfs_scheme \<Rightarrow> (addr \<times> 'a kvfs_scheme) res" where
  "new_ventry s = bnd (kmalloc sizeof_vfs_entry_t s) (\<lambda>(p, s).
     Inr (p, if p = NULL then s else s\<lparr>ventry_mem := (ventry_mem s)(p \<mapsto> \<lparr>ve_name = NULL, ve_node = NULL\<rparr>)\<rparr>))"

definition new_devnode :: "'a kvfs_scheme \<Rightarrow> (addr \<times> 'a kvfs_scheme) res" where
  "new_devnode s = bnd (kmalloc sizeof_devfs_node_t s) (\<lambda>(p, s).
     Inr (p, if p = NULL then s
             else s\<lparr>devnode_mem := (devnode_mem s)(p \<mapsto> \<lparr>dn_data = NULL, dn_flags = 0, dn_internIndex = 0, dn_functions = no_functions\<rparr>)\<rparr>))"

definition new_deventry :: "'a kvfs_scheme \<Rightarrow> (addr \<times> 'a kvfs_scheme) res" where
  "new_deventry s = bnd (kmalloc sizeof_devfs_entry_t s) (\<lambda>(p, s).
     Inr (p, if p = NULL then s else s\<lparr>deventry_mem := (deventry_mem s)(p \<mapsto> \<lparr>de_name = NULL, de_node = NULL\<rparr>)\<rparr>))"

text \<open>A list lock taken in these files.\<close>

definition fs_list_lock :: "place \<Rightarrow> addr \<Rightarrow> 'a kvfs_scheme \<Rightarrow> 'a kvfs_scheme res" where
  "fs_list_lock pl p s =
     bnd (ld_list s p) (\<lambda>l.
     bnd (spinlock_lock pl (list_lk l) s) (\<lambda>(lk, s).
     Inr (s\<lparr>list_mem := (list_mem s)(p \<mapsto> l\<lparr>list_lk := lk\<rparr>)\<rparr>)))"

section \<open>Operations on a node\<close>

definition vfs_open :: "'a kvfs_scheme drivers \<Rightarrow> addr \<Rightarrow> u32 \<Rightarrow> 'a kvfs_scheme \<Rightarrow> 'a kvfs_scheme res" where
  "vfs_open drv node fl s =
     (if node = NULL then Inr s
      else bnd (ld_vnode s node) (\<lambda>n.
           if f_open (vn_functions n) = NULL then Inr s
           else bnd (drv_open drv (f_open (vn_functions n)) node fl s) (\<lambda>(_, s). Inr s)))"

definition vfs_close :: "'a kvfs_scheme drivers \<Rightarrow> addr \<Rightarrow> 'a kvfs_scheme \<Rightarrow> 'a kvfs_scheme res" where
  "vfs_close drv node s =
     (if node = NULL then Inr s
      else bnd (ld_vnode s node) (\<lambda>n.
           if f_close (vn_functions n) = NULL then Inr s
           else bnd (drv_close drv (f_close (vn_functions n)) node s) (\<lambda>(_, s). Inr s)))"

definition vfs_read :: "'a kvfs_scheme drivers \<Rightarrow> addr \<Rightarrow> addr \<Rightarrow> size_t \<Rightarrow> 'a kvfs_scheme \<Rightarrow> (size_t \<times> 'a kvfs_scheme) res" where
  "vfs_read drv node buffer sz s =
     (if node = NULL then Inr (- 1, s)
      else bnd (ld_vnode s node) (\<lambda>n.
           if f_read (vn_functions n) = NULL then Inr (- 1, s) else drv_read drv (f_read (vn_functions n)) node buffer sz s))"

definition vfs_write :: "'a kvfs_scheme drivers \<Rightarrow> addr \<Rightarrow> addr \<Rightarrow> size_t \<Rightarrow> 'a kvfs_scheme \<Rightarrow> (size_t \<times> 'a kvfs_scheme) res" where
  "vfs_write drv node buffer sz s =
     (if node = NULL then Inr (- 1, s)
      else bnd (ld_vnode s node) (\<lambda>n.
           if f_write (vn_functions n) = NULL then Inr (- 1, s) else drv_write drv (f_write (vn_functions n)) node buffer sz s))"

definition vfs_lseek :: "'a kvfs_scheme drivers \<Rightarrow> addr \<Rightarrow> size_t \<Rightarrow> size_t \<Rightarrow> 'a kvfs_scheme \<Rightarrow> (size_t \<times> 'a kvfs_scheme) res" where
  "vfs_lseek drv node offset ty s =
     (if node = NULL then Inr (- 1, s)
      else bnd (ld_vnode s node) (\<lambda>n.
           if f_lseek (vn_functions n) = NULL then Inr (- 1, s) else drv_lseek drv (f_lseek (vn_functions n)) node offset ty s))"

definition vfs_ioctl :: "'a kvfs_scheme drivers \<Rightarrow> addr \<Rightarrow> size_t \<Rightarrow> addr \<Rightarrow> 'a kvfs_scheme \<Rightarrow> (size_t \<times> 'a kvfs_scheme) res" where
  "vfs_ioctl drv node request arg s =
     (if node = NULL then Inr (- 1, s)
      else bnd (ld_vnode s node) (\<lambda>n.
           if f_ioctl (vn_functions n) = NULL then Inr (- 1, s) else drv_ioctl drv (f_ioctl (vn_functions n)) node request arg s))"

definition vfs_finddir :: "'a kvfs_scheme drivers \<Rightarrow> addr \<Rightarrow> addr \<Rightarrow> addr \<Rightarrow> 'a kvfs_scheme \<Rightarrow> (addr \<times> addr \<times> 'a kvfs_scheme) res" where
  "vfs_finddir drv node name path s =
     (if node = NULL then Inr (NULL, path, s)
      else bnd (ld_vnode s node) (\<lambda>n.
           if vn_flags n AND VFS_DIRECTORY = 0 \<or> f_finddir (vn_functions n) = NULL then Inr (NULL, path, s)
           else drv_finddir drv (f_finddir (vn_functions n)) node name path s))"

definition vfs_readdir :: "'a kvfs_scheme drivers \<Rightarrow> addr \<Rightarrow> addr \<Rightarrow> 'a kvfs_scheme \<Rightarrow> (size_t \<times> 'a kvfs_scheme) res" where
  "vfs_readdir drv node dirent s =
     (if node = NULL then Inr (- 1, s)
      else bnd (ld_vnode s node) (\<lambda>n.
           if vn_flags n AND VFS_DIRECTORY = 0 \<or> f_readdir (vn_functions n) = NULL then Inr (- 1, s)
           else drv_readdir drv (f_readdir (vn_functions n)) node dirent s))"

definition vfs_create :: "'a kvfs_scheme drivers \<Rightarrow> addr \<Rightarrow> addr \<Rightarrow> u32 \<Rightarrow> 'a kvfs_scheme \<Rightarrow> (addr \<times> 'a kvfs_scheme) res" where
  "vfs_create drv node name fl s =
     (if node = NULL then Inr (NULL, s)
      else bnd (ld_vnode s node) (\<lambda>n.
           if vn_flags n AND VFS_DIRECTORY = 0 \<or> f_create (vn_functions n) = NULL then Inr (NULL, s)
           else drv_create drv (f_create (vn_functions n)) node name fl s))"

definition vfs_node_mount ::
  "'a kvfs_scheme drivers \<Rightarrow> addr \<Rightarrow> addr \<Rightarrow> size_t \<Rightarrow> addr \<Rightarrow> addr \<Rightarrow> 'a kvfs_scheme \<Rightarrow> (size_t \<times> 'a kvfs_scheme) res" where
  "vfs_node_mount drv node device fl path data s =
     (if node = NULL then Inr (- 1, s)
      else bnd (ld_vnode s node) (\<lambda>n.
           if vn_flags n AND VFS_FILESYSTEM = 0 \<or> f_mount (vn_functions n) = NULL then Inr (- 1, s)
           else drv_mount drv (f_mount (vn_functions n)) node device fl path data s))"

section \<open>Mount points\<close>

text \<open>
  The walk over the children of a mount point, and the step both walks down the tree share: it ends
  with the lock of the children released, those of the new subroot when one was found. The lines of
  the two locks are arguments.
\<close>

partial_function (option) entry_loop :: "addr \<Rightarrow> addr \<Rightarrow> 'a kvfs_scheme \<Rightarrow> addr option res option" where
  "entry_loop tok child s =
     (if child = NULL then Some (Inr None)
      else case bnd (ld_node s child) (\<lambda>c. bnd (ld_tnode s (node_value c)) (\<lambda>newChild. bnd (ld_ventry s (tnode_value newChild)) (\<lambda>entry.
             bnd (strcmp (bytes s) (ve_name entry) tok) (\<lambda>r. Inr (c, r))))) of
          Inl e \<Rightarrow> Some (Inl e)
        | Inr (c, r) \<Rightarrow> if r = 0 then Some (Inr (Some (node_value c))) else entry_loop tok (node_next c) s)"

definition find_child :: "string \<Rightarrow> int \<Rightarrow> int \<Rightarrow> addr \<Rightarrow> addr \<Rightarrow> 'a kvfs_scheme \<Rightarrow> (addr option \<times> 'a kvfs_scheme) res" where
  "find_child fn ln1 ln2 tok subroot s =
     bnd (ld_tnode s subroot) (\<lambda>t.
     bnd (fs_list_lock (''vfs.c'', fn, ln1) (tnode_children t) s) (\<lambda>s.
     bnd (ld_list s (tnode_children t)) (\<lambda>l.
     bnd (loop_res (entry_loop tok (list_root l) s)) (\<lambda>found.
     case found of
       None \<Rightarrow> bnd (list_unlock (tnode_children t) s) (\<lambda>s. Inr (None, s))
     | Some newChild \<Rightarrow>
         bnd (list_unlock (tnode_children t) s) (\<lambda>s.
         bnd (ld_tnode s newChild) (\<lambda>t'.
         bnd (fs_list_lock (''vfs.c'', fn, ln2) (tnode_children t') s) (\<lambda>s.
         bnd (list_unlock (tnode_children t') s) (\<lambda>s.
         Inr (Some newChild, s)))))))))"

definition entry_of :: "addr \<Rightarrow> 'a kvfs_scheme \<Rightarrow> addr res" where
  "entry_of subroot s = bnd (ld_tnode s subroot) (\<lambda>t. Inr (tnode_value t))"

definition entry_node :: "addr \<Rightarrow> 'a kvfs_scheme \<Rightarrow> addr res" where
  "entry_node subroot s = bnd (entry_of subroot s) (\<lambda>e. bnd (ld_ventry s e) (\<lambda>entry. Inr (ve_node entry)))"

text \<open>The next token of a path, and whether the walk ends at it.\<close>

definition next_token :: "literals \<Rightarrow> addr \<Rightarrow> 'a kvfs_scheme \<Rightarrow> (addr \<times> addr \<times> bool \<times> 'a kvfs_scheme) res" where
  "next_token lit path s =
     bnd (strsep (bytes s) path (lit_slash lit)) (\<lambda>(tok, path, m).
     let s = s\<lparr>bytes := m\<rparr> in
     bnd (if tok = NULL then Inr True else bnd (strcmp (bytes s) tok (lit_empty lit)) (\<lambda>r. Inr (r = 0))) (\<lambda>stop.
     Inr (tok, path, stop, s)))"

partial_function (option) vfs_get_mountpoint_recursive ::
  "literals \<Rightarrow> addr \<Rightarrow> addr \<Rightarrow> 'a kvfs_scheme \<Rightarrow> (addr \<times> addr \<times> 'a kvfs_scheme) res option" where
  "vfs_get_mountpoint_recursive lit path subroot s =
     (case next_token lit path s of
        Inl e \<Rightarrow> Some (Inl e)
      | Inr (tok, path, stop, s) \<Rightarrow>
          if stop then Some (bnd (entry_node subroot s) (\<lambda>node. Inr (node, path, s)))
          else case find_child ''vfs_get_mountpoint_recursive'' 84 92 tok subroot s of
              Inl e \<Rightarrow> Some (Inl e)
            | Inr (None, s) \<Rightarrow> Some (bnd (entry_node subroot s) (\<lambda>node. Inr (node, tok, s)))
            | Inr (Some newChild, s) \<Rightarrow> vfs_get_mountpoint_recursive lit path newChild s)"

definition vfs_get_mountpoint :: "literals \<Rightarrow> addr \<Rightarrow> 'a kvfs_scheme \<Rightarrow> (addr \<times> addr \<times> 'a kvfs_scheme) res" where
  "vfs_get_mountpoint lit path s =
     bnd (if path \<noteq> NULL
          then bnd (strlen (bytes s) path) (\<lambda>n.
               if n > 1
               then bnd (ld8 (bytes s) (path + (n - 1))) (\<lambda>c.
                    if c = 47 then bnd (st8 (bytes s) (path + (n - 1)) 0) (\<lambda>m. Inr (s\<lparr>bytes := m\<rparr>)) else Inr s)
               else Inr s)
          else Inr s) (\<lambda>s.
     bnd (if path = NULL then Inr False else bnd (ld8 (bytes s) path) (\<lambda>c. Inr (c = 47))) (\<lambda>absolute.
     if \<not> absolute then Inr (NULL, path, s)
     else bnd (strlen (bytes s) path) (\<lambda>n.
          bnd (ld_tree s (VFSTree s)) (\<lambda>tree.
          if n = 1 then bnd (entry_node (tree_root tree) s) (\<lambda>node. Inr (node, NULL, s))
          else loop_res (vfs_get_mountpoint_recursive lit (path + 1) (tree_root tree) s)))))"

text \<open>Mounting; a message about a mount point that is in use is left out.\<close>

definition mount_at :: "addr \<Rightarrow> addr \<Rightarrow> 'a kvfs_scheme \<Rightarrow> 'a kvfs_scheme res" where
  "mount_at subroot node s =
     bnd (entry_of subroot s) (\<lambda>e.
     bnd (ld_ventry s e) (\<lambda>entry.
     if ve_node entry \<noteq> NULL then Inr s else up_ventry e (\<lambda>x. x\<lparr>ve_node := node\<rparr>) s))"

definition new_branch :: "addr \<Rightarrow> addr \<Rightarrow> 'a kvfs_scheme \<Rightarrow> (addr \<times> 'a kvfs_scheme) res" where
  "new_branch tok subroot s =
     bnd (new_ventry s) (\<lambda>(entry, s).
     bnd (strdup tok s) (\<lambda>(name, s).
     bnd (up_ventry entry (\<lambda>x. x\<lparr>ve_name := name, ve_node := NULL\<rparr>) s) (\<lambda>s.
     gentree_insert (VFSTree s) subroot entry s)))"

partial_function (option) vfs_mount_recursive :: "literals \<Rightarrow> addr \<Rightarrow> addr \<Rightarrow> addr \<Rightarrow> 'a kvfs_scheme \<Rightarrow> 'a kvfs_scheme res option" where
  "vfs_mount_recursive lit path subroot node s =
     (case next_token lit path s of
        Inl e \<Rightarrow> Some (Inl e)
      | Inr (tok, path, stop, s) \<Rightarrow>
          if stop then Some (mount_at subroot node s)
          else case bnd (find_child ''vfs_mount_recursive'' 176 184 tok subroot s) (\<lambda>(found, s).
                 case found of Some newChild \<Rightarrow> Inr (newChild, s) | None \<Rightarrow> new_branch tok subroot s) of
              Inl e \<Rightarrow> Some (Inl e)
            | Inr (subroot, s) \<Rightarrow> vfs_mount_recursive lit path subroot node s)"

definition vfs_mount :: "literals \<Rightarrow> addr \<Rightarrow> addr \<Rightarrow> 'a kvfs_scheme \<Rightarrow> 'a kvfs_scheme res" where
  "vfs_mount lit path node s =
     bnd (up_vnode node (\<lambda>n. n\<lparr>vn_referenceCount := - 1\<rparr>) s) (\<lambda>s.
     bnd (ld8 (bytes s) path) (\<lambda>c.
     bnd (if c = 47 then bnd (strlen (bytes s) path) (\<lambda>n. Inr (n = 1)) else Inr False) (\<lambda>root.
     bnd (ld_tree s (VFSTree s)) (\<lambda>tree.
     if root then mount_at (tree_root tree) node s
     else loop_res (vfs_mount_recursive lit (path + 1) (tree_root tree) node s)))))"

section \<open>Opening a file\<close>

text \<open>The walk below the mount point: the last node found with the one to use if there is none, or nothing on failure.\<close>

partial_function (option) kopen_loop ::
  "'a kvfs_scheme drivers \<Rightarrow> literals \<Rightarrow> u32 \<Rightarrow> addr \<Rightarrow> addr \<Rightarrow> addr \<Rightarrow> addr \<Rightarrow> 'a kvfs_scheme \<Rightarrow> ((addr \<times> addr) option \<times> 'a kvfs_scheme) res option" where
  "kopen_loop drv lit fl filename newStart startPoint nextNode s =
     (if filename = NULL \<or> newStart = NULL then Some (Inr (Some (nextNode, startPoint), s))
      else case strsep (bytes s) newStart (lit_slash lit) of
          Inl e \<Rightarrow> Some (Inl e)
        | Inr (tok, newStart, m) \<Rightarrow>
            if tok = NULL then Some (Inr (Some (nextNode, startPoint), s\<lparr>bytes := m\<rparr>))
            else case vfs_finddir drv startPoint tok newStart (s\<lparr>bytes := m\<rparr>) of
                Inl e \<Rightarrow> Some (Inl e)
              | Inr (nextNode, newStart, s) \<Rightarrow>
                  if nextNode = NULL
                  then if fl AND O_CREAT \<noteq> 0
                       then Some (bnd (vfs_create drv startPoint tok fl s) (\<lambda>(nextNode, s). Inr (Some (nextNode, startPoint), s)))
                       else Some (Inr (None, s))
                  else kopen_loop drv lit fl filename newStart nextNode nextNode s)"

definition kopen :: "'a kvfs_scheme drivers \<Rightarrow> literals \<Rightarrow> addr \<Rightarrow> u32 \<Rightarrow> 'a kvfs_scheme \<Rightarrow> (addr \<times> 'a kvfs_scheme) res" where
  "kopen drv lit name fl s =
     bnd (strdup name s) (\<lambda>(originalName, s).
     bnd (strdup originalName s) (\<lambda>(save, s).
     bnd (vfs_get_mountpoint lit originalName s) (\<lambda>(startPoint, filename, s).
     if startPoint = NULL
     then bnd (kfree save s) (\<lambda>s. bnd (kfree originalName s) (\<lambda>s. Inr (NULL, s)))
     else bnd (if filename \<noteq> NULL then strstr (bytes s) (save + (filename - originalName)) filename else Inr NULL) (\<lambda>newStart.
          bnd (loop_res (kopen_loop drv lit fl filename newStart startPoint NULL s)) (\<lambda>(found, s).
          case found of
            None \<Rightarrow> bnd (kfree save s) (\<lambda>s. bnd (kfree originalName s) (\<lambda>s. Inr (NULL, s)))
          | Some (nextNode, startPoint) \<Rightarrow>
              let nextNode = (if nextNode = NULL then startPoint else nextNode) in
              bnd (vfs_open drv nextNode fl s) (\<lambda>s.
              bnd (kfree save s) (\<lambda>s.
              bnd (kfree originalName s) (\<lambda>s.
              Inr (nextNode, s)))))))))"

section \<open>The device file system\<close>

partial_function (option) devfs_loop :: "addr \<Rightarrow> addr \<Rightarrow> 'a kvfs_scheme \<Rightarrow> addr option res option" where
  "devfs_loop name child s =
     (if child = NULL then Some (Inr None)
      else case bnd (ld_node s child) (\<lambda>c. bnd (ld_deventry s (node_value c)) (\<lambda>entry.
             bnd (strcmp (bytes s) (de_name entry) name) (\<lambda>r. Inr (c, entry, r)))) of
          Inl e \<Rightarrow> Some (Inl e)
        | Inr (c, entry, r) \<Rightarrow> if r = 0 then Some (Inr (Some (de_node entry))) else devfs_loop name (node_next c) s)"

definition devfs_finddir :: "addr \<Rightarrow> addr \<Rightarrow> addr \<Rightarrow> 'a kvfs_scheme \<Rightarrow> (addr \<times> addr \<times> 'a kvfs_scheme) res" where
  "devfs_finddir node name path s =
     bnd (fs_list_lock (''devfs.c'', ''devfs_finddir'', 13) (DevFSList s) s) (\<lambda>s.
     bnd (ld_list s (DevFSList s)) (\<lambda>l.
     bnd (loop_res (devfs_loop name (list_root l) s)) (\<lambda>found.
     case found of
       None \<Rightarrow> bnd (list_unlock (DevFSList s) s) (\<lambda>s. Inr (NULL, path, s))
     | Some dev \<Rightarrow>
         bnd (new_vnode s) (\<lambda>(node, s).
         bnd (ld_devnode s dev) (\<lambda>d.
         bnd (up_vnode node (\<lambda>n. n\<lparr>vn_functions := dn_functions d\<rparr>) s) (\<lambda>s.
         bnd (memcpy (bytes s) node dev 1024) (\<lambda>(_, m).
         let s = s\<lparr>bytes := m\<rparr> in
         bnd (up_vnode node (\<lambda>n. n\<lparr>vn_flags := dn_flags d, vn_data := dn_data d, vn_internIndex := dn_internIndex d\<rparr>) s) (\<lambda>s.
         bnd (list_unlock (DevFSList s) s) (\<lambda>s.
         Inr (node, path, s))))))))))"

definition devfs_mount :: "addr \<Rightarrow> addr \<Rightarrow> 'a kvfs_scheme \<Rightarrow> 'a kvfs_scheme res" where
  "devfs_mount name node s =
     bnd (new_deventry s) (\<lambda>(entry, s).
     bnd (strdup name s) (\<lambda>(copy, s).
     bnd (up_deventry entry (\<lambda>x. x\<lparr>de_name := copy, de_node := node\<rparr>) s) (\<lambda>s.
     bnd (list_push_back (DevFSList s) entry s) (\<lambda>(_, s).
     Inr s))))"

definition devfs_log_ioctl :: "addr \<Rightarrow> size_t \<Rightarrow> addr \<Rightarrow> size_t" where
  "devfs_log_ioctl node request arg = (if request = TIOCGWINSZ then 0 else - 1)"

definition devfs_init :: "literals \<Rightarrow> devfs_code \<Rightarrow> 'a kvfs_scheme \<Rightarrow> 'a kvfs_scheme res" where
  "devfs_init lit code s =
     bnd (list_create s) (\<lambda>(lst, s).
     let s = s\<lparr>DevFSList := lst\<rparr> in
     bnd (new_vnode s) (\<lambda>(devfsNode, s).
     bnd (strcpy (bytes s) devfsNode (lit_DevFS lit)) (\<lambda>m.
     let s = s\<lparr>bytes := m\<rparr> in
     bnd (up_vnode devfsNode (\<lambda>n. n\<lparr>vn_functions := (vn_functions n)\<lparr>f_finddir := at_finddir code, f_print_tree := at_print_tree code\<rparr>,
            vn_flags := vn_flags n OR VFS_DIRECTORY\<rparr>) s) (\<lambda>s.
     bnd (vfs_mount lit (lit_dev lit) devfsNode s) (\<lambda>s.
     bnd (new_devnode s) (\<lambda>(logNode, s).
     bnd (strcpy (bytes s) logNode (lit_SerialLog lit)) (\<lambda>m.
     let s = s\<lparr>bytes := m\<rparr> in
     bnd (up_devnode logNode (\<lambda>n. n\<lparr>dn_functions := (dn_functions n)\<lparr>f_write := at_log_write code, f_ioctl := at_log_ioctl code\<rparr>\<rparr>) s) (\<lambda>s.
     devfs_mount (lit_log lit) logNode s))))))))"

definition vfs_init :: "literals \<Rightarrow> devfs_code \<Rightarrow> 'a kvfs_scheme \<Rightarrow> 'a kvfs_scheme res" where
  "vfs_init lit code s =
     bnd (gentree_create s) (\<lambda>(tree, s).
     let s = s\<lparr>VFSTree := tree\<rparr> in
     bnd (new_ventry s) (\<lambda>(root, s).
     bnd (strdup (lit_root lit) s) (\<lambda>(name, s).
     bnd (up_ventry root (\<lambda>x. x\<lparr>ve_name := name, ve_node := NULL\<rparr>) s) (\<lambda>s.
     bnd (gentree_insert (VFSTree s) NULL root s) (\<lambda>(_, s).
     devfs_init lit code s)))))"

section \<open>The tree of mount points\<close>

text \<open>
  What the generic tree stands for: a mount point has the address of its tree node, its entry and its
  list of children, a name, the node mounted there, and its children, each with the list node that
  refers to it. The names lie outside the set \<open>X\<close>, the buffer of the path that a walk cuts up.
\<close>

datatype mt = MT addr addr addr "u8 list" addr mkids
  and mkids = MNil | MCons addr mt mkids

primrec mroot :: "mt \<Rightarrow> addr" where
  "mroot (MT a v L nm nd ks) = a"

primrec mnodes :: "mkids \<Rightarrow> nodes" where
  "mnodes MNil = []"
| "mnodes (MCons n t ks) = (n, mroot t) # mnodes ks"

definition cstr_off :: "addr set \<Rightarrow> mem \<Rightarrow> addr \<Rightarrow> u8 list \<Rightarrow> bool" where
  "cstr_off X m p s \<longleftrightarrow> cstr m p s \<and> (\<forall>i\<le>length s. p + of_nat i \<notin> X)"

primrec mt_rep :: "addr set \<Rightarrow> 'a kvfs_scheme \<Rightarrow> mt \<Rightarrow> bool" and mkids_rep :: "addr set \<Rightarrow> 'a kvfs_scheme \<Rightarrow> mkids \<Rightarrow> bool" where
  "mt_rep X s (MT a v L nm nd ks) \<longleftrightarrow> tnode_mem s a = Some \<lparr>tnode_value = v, tnode_children = L\<rparr> \<and>
     (\<exists>np. ventry_mem s v = Some \<lparr>ve_name = np, ve_node = nd\<rparr> \<and> cstr_off X (bytes s) np nm) \<and> is_list s L (mnodes ks) \<and> mkids_rep X s ks"
| "mkids_rep X s MNil \<longleftrightarrow> True"
| "mkids_rep X s (MCons n t ks) \<longleftrightarrow> mt_rep X s t \<and> mkids_rep X s ks"

text \<open>The child with a name, and the walk down a list of names: the node it ends at and how many names it took.\<close>

primrec kid_named :: "u8 list \<Rightarrow> mkids \<Rightarrow> mt option" where
  "kid_named c MNil = None"
| "kid_named c (MCons n t ks) = (case t of MT a v L nm nd us \<Rightarrow> if nm = c then Some t else kid_named c ks)"

fun descend :: "mt \<Rightarrow> u8 list list \<Rightarrow> addr \<times> nat" where
  "descend (MT a v L nm nd ks) [] = (nd, 0)"
| "descend (MT a v L nm nd ks) (c # cs) =
     (case kid_named c ks of None \<Rightarrow> (nd, 0) | Some t \<Rightarrow> (case descend t cs of (nd', n) \<Rightarrow> (nd', Suc n)))"

text \<open>Steps that change nothing but locks, which are free again, and the buffer of the path.\<close>

definition fs_same :: "addr set \<Rightarrow> 'a kvfs_scheme \<Rightarrow> 'a kvfs_scheme \<Rightarrow> bool" where
  "fs_same X s s' \<longleftrightarrow> tnode_mem s' = tnode_mem s \<and> ventry_mem s' = ventry_mem s \<and> vnode_mem s' = vnode_mem s \<and> node_mem s' = node_mem s \<and>
     tree_mem s' = tree_mem s \<and> VFSTree s' = VFSTree s \<and> cpu_struct s' = cpu_struct s \<and>
     (\<forall>L xs. is_list s L xs \<longrightarrow> is_list s' L xs) \<and> (\<forall>a. a \<notin> X \<longrightarrow> bytes s' a = bytes s a)"

lemma fs_same_refl [simp]: "fs_same X s s"
  by (simp add: fs_same_def)

lemma fs_same_trans: "fs_same X s s' \<Longrightarrow> fs_same X s' s'' \<Longrightarrow> fs_same X s s''"
  by (simp add: fs_same_def)

lemma cstr_off_same: "cstr_off X m p s \<Longrightarrow> \<forall>a. a \<notin> X \<longrightarrow> m' a = m a \<Longrightarrow> cstr_off X m' p s"
  by (simp add: cstr_off_def cstr_def bytes_at_nth)

lemma mt_rep_same:
  "mt_rep X s t \<Longrightarrow> fs_same X s s' \<Longrightarrow> mt_rep X s' t"
  "mkids_rep X s ks \<Longrightarrow> fs_same X s s' \<Longrightarrow> mkids_rep X s' ks"
proof (induction t and ks)
  case (MT a v L nm nd ks)
  then show ?case using cstr_off_same [of X "bytes s" _ nm "bytes s'"] by (auto simp: fs_same_def)
qed auto

lemma fs_bytes_same: "\<forall>a. a \<notin> X \<longrightarrow> m a = bytes s a \<Longrightarrow> fs_same X s (s\<lparr>bytes := m\<rparr>)"
  by (simp add: fs_same_def is_list_def)

section \<open>A step down the tree\<close>

definition fs_locked :: "place \<Rightarrow> addr \<Rightarrow> list_t \<Rightarrow> 'a kvfs_scheme \<Rightarrow> 'a kvfs_scheme" where
  "fs_locked pl L l s = (arch_cpu_increment_preempt_counter s)\<lparr>list_mem := (list_mem s)(L \<mapsto>
     l\<lparr>list_lk := (list_lk l)\<lparr>lock := 1, last_acquirer := acquirer_of pl s\<rparr>\<rparr>)\<rparr>"

lemma fs_lock_eq: "list_mem s L = Some l \<Longrightarrow> lock (list_lk l) = 0 \<Longrightarrow> fs_list_lock pl L s = Inr (fs_locked pl L l s)"
  by (simp add: fs_list_lock_def ld_list_def fs_locked_def)

lemma fs_locked_fields [simp]:
  "node_mem (fs_locked pl L l s) = node_mem s" "tnode_mem (fs_locked pl L l s) = tnode_mem s" "ventry_mem (fs_locked pl L l s) = ventry_mem s"
  "bytes (fs_locked pl L l s) = bytes s" "\<exists>k. list_mem (fs_locked pl L l s) L = Some (l\<lparr>list_lk := k\<rparr>)"
  by (auto simp: fs_locked_def arch_cpu_increment_preempt_counter_def)

lemma fs_unlock_eq:
  assumes "list_mem s L = Some l"
  shows "\<exists>s'. list_unlock L (fs_locked pl L l s) = Inr s' \<and> fs_same X s s' \<and> bytes s' = bytes s"
proof -
  let ?s' = "s\<lparr>list_mem := (list_mem s)(L \<mapsto> l\<lparr>list_lk := (list_lk l)\<lparr>lock := 0, last_acquirer := acquirer_of pl s\<rparr>\<rparr>)\<rparr>"
  have "list_unlock L (fs_locked pl L l s) = Inr ?s'"
    by (simp add: list_unlock_def ld_list_def fs_locked_def arch_cpu_increment_preempt_counter_def arch_cpu_decrement_preempt_counter_def riscv_cpu_inited_def)
  moreover have "fs_same X s ?s'" using assms by (auto simp: fs_same_def is_list_def list_rep_def)
  ultimately show ?thesis by auto
qed

text \<open>The two searches by name are walks over a list.\<close>

definition entry_item :: "addr \<Rightarrow> addr \<Rightarrow> 'a kvfs_scheme \<Rightarrow> addr option res" where
  "entry_item tok v s = bnd (ld_tnode s v) (\<lambda>t. bnd (ld_ventry s (tnode_value t)) (\<lambda>e.
     bnd (strcmp (bytes s) (ve_name e) tok) (\<lambda>r. Inr (if r = 0 then Some v else None))))"

interpretation ew: list_walk node_mem "entry_loop tok" "entry_item tok" for tok
proof
  fix s :: "'a kvfs_scheme" and a n r
  show "entry_loop tok NULL s = Some (Inr None)" by (subst entry_loop.simps) simp
  assume n: "a \<noteq> NULL" "node_mem s a = Some n"
  show "entry_loop tok a s = Some (Inr (Some r))" if "entry_item tok (node_value n) s = Inr (Some r)"
    using n that by (subst entry_loop.simps) (auto simp: entry_item_def ld_node_def bnd_eq_Inr split: if_splits)
  show "entry_loop tok a s = entry_loop tok (node_next n) s" if "entry_item tok (node_value n) s = Inr None"
    using n that by (subst entry_loop.simps) (auto simp: entry_item_def ld_node_def bnd_eq_Inr split: if_splits)
qed

definition dev_item :: "addr \<Rightarrow> addr \<Rightarrow> 'a kvfs_scheme \<Rightarrow> addr option res" where
  "dev_item name v s = bnd (ld_deventry s v) (\<lambda>e. bnd (strcmp (bytes s) (de_name e) name) (\<lambda>r. Inr (if r = 0 then Some (de_node e) else None)))"

interpretation dw: list_walk node_mem "devfs_loop name" "dev_item name" for name
proof
  fix s :: "'a kvfs_scheme" and a n r
  show "devfs_loop name NULL s = Some (Inr None)" by (subst devfs_loop.simps) simp
  assume n: "a \<noteq> NULL" "node_mem s a = Some n"
  show "devfs_loop name a s = Some (Inr (Some r))" if "dev_item name (node_value n) s = Inr (Some r)"
    using n that by (subst devfs_loop.simps) (auto simp: dev_item_def ld_node_def bnd_eq_Inr split: if_splits)
  show "devfs_loop name a s = devfs_loop name (node_next n) s" if "dev_item name (node_value n) s = Inr None"
    using n that by (subst devfs_loop.simps) (auto simp: dev_item_def ld_node_def bnd_eq_Inr split: if_splits)
qed

text \<open>What each child of a mount point contributes to the search.\<close>

primrec kid_hits :: "u8 list \<Rightarrow> mkids \<Rightarrow> addr option list" where
  "kid_hits c MNil = []"
| "kid_hits c (MCons n t ks) = (case t of MT a v L nm nd us \<Rightarrow> if nm = c then Some a else None) # kid_hits c ks"

lemma kid_hits_named: "first_some (kid_hits c ks) = map_option mroot (kid_named c ks)"
  by (induction ks rule: mkids.induct [where ?P1.0 = "\<lambda>_. True"]) (auto split: mt.splits)

lemma kid_hits_items:
  assumes "tnode_mem s = tnode_mem s0" and "ventry_mem s = ventry_mem s0" and "bytes s = bytes s0" and "cstr (bytes s) tok c"
  shows "mkids_rep X s0 ks \<Longrightarrow> list_all2 (\<lambda>(a, v) r. entry_item tok v s = Inr r) (mnodes ks) (kid_hits c ks)"
proof (induction ks rule: mkids.induct [where ?P1.0 = "\<lambda>_. True"])
  case (MCons n t ks)
  then show ?case using assms strcmp_cstr [OF _ assms(4)]
    by (cases t) (auto simp: entry_item_def ld_tnode_def ld_ventry_def cstr_off_def)
qed simp_all

lemma entry_loop_eq:
  assumes "tnode_mem s = tnode_mem s0" and "ventry_mem s = ventry_mem s0" and "bytes s = bytes s0"
    and "fseg (node_mem s) (mnodes ks) NULL" and "mkids_rep X s0 ks" and "cstr (bytes s) tok c"
  shows "entry_loop tok (first_of (mnodes ks) NULL) s = Some (Inr (map_option mroot (kid_named c ks)))"
  using ew.first_hit [OF assms(4) kid_hits_items [OF assms(1-3,6,5)]] kid_hits_named by metis

lemma kid_named_rep: "mkids_rep X s ks \<Longrightarrow> kid_named c ks = Some t \<Longrightarrow> mt_rep X s t"
  by (induction ks rule: mkids.induct [where ?P1.0 = "\<lambda>_. True"]) (auto split: mt.splits if_splits)

lemma find_child_ok:
  assumes rep: "mt_rep X s (MT a v L nm nd ks)" and tok: "cstr (bytes s) tok c"
  shows "\<exists>s'. find_child fn ln1 ln2 tok a s = Inr (map_option mroot (kid_named c ks), s') \<and> fs_same X s s' \<and> bytes s' = bytes s"
proof -
  obtain l where l: "list_mem s L = Some l" "lock (list_lk l) = 0" and lr: "list_rep (node_mem s) l (mnodes ks)"
    using rep by (auto simp: is_list_def)
  let ?s1 = "fs_locked (''vfs.c'', fn, ln1) L l s"
  obtain k where k: "list_mem ?s1 L = Some (l\<lparr>list_lk := k\<rparr>)" using fs_locked_fields(5) by blast
  have fs: "fseg (node_mem ?s1) (mnodes ks) NULL" "list_root l = first_of (mnodes ks) NULL" using lr dseg_fseg by (auto simp: list_rep_def)
  obtain s2 where s2: "list_unlock L ?s1 = Inr s2" "fs_same X s s2" "bytes s2 = bytes s" using fs_unlock_eq [OF l(1)] by blast
  have kids: "mkids_rep X s ks" using rep by simp
  have found: "entry_loop tok (list_root (l\<lparr>list_lk := k\<rparr>)) ?s1 = Some (Inr (map_option mroot (kid_named c ks)))"
    using entry_loop_eq [of ?s1 s, OF _ _ _ fs(1) kids] tok fs(2) by simp
  show ?thesis
  proof (cases "kid_named c ks")
    case None
    then show ?thesis using rep fs_lock_eq [OF l] k found s2 by (auto simp: find_child_def ld_tnode_def ld_list_def)
  next
    case (Some t)
    obtain b w M nm' nd' us where t: "t = MT b w M nm' nd' us" by (cases t)
    have rt: "mt_rep X s2 t" using mt_rep_same(1) [OF kid_named_rep [OF kids Some] s2(2)] .
    then obtain l' where l': "list_mem s2 M = Some l'" "lock (list_lk l') = 0" "tnode_mem s2 b = Some \<lparr>tnode_value = w, tnode_children = M\<rparr>"
      by (auto simp: t is_list_def)
    obtain s3 where s3: "list_unlock M (fs_locked (''vfs.c'', fn, ln2) M l' s2) = Inr s3" "fs_same X s2 s3" "bytes s3 = bytes s2"
      using fs_unlock_eq [OF l'(1)] by blast
    then show ?thesis using rep fs_lock_eq [OF l] fs_lock_eq [OF l'(1,2)] l'(3) k found s2 Some fs_same_trans [OF s2(2) s3(2)]
      by (auto simp: find_child_def ld_tnode_def ld_list_def t)
  qed
qed

section \<open>Paths\<close>

text \<open>A path as the list of its components, its text, and the place of a component in it.\<close>

fun path_str :: "u8 list list \<Rightarrow> u8 list" where
  "path_str [] = []"
| "path_str [c] = c"
| "path_str (c # d # ds) = c @ 47 # path_str (d # ds)"

definition token_at :: "u8 list list \<Rightarrow> nat \<Rightarrow> nat" where
  "token_at cs n = sum_list (List.map (\<lambda>c. Suc (length c)) (take n cs))"

definition path_ok :: "u8 list list \<Rightarrow> bool" where
  "path_ok cs \<longleftrightarrow> (\<forall>c \<in> set cs. c \<noteq> [] \<and> 47 \<notin> set c)"

lemma path_tokens:
  assumes "path_ok (c # cs)"
  shows "first_token [47] (path_str (c # cs)) = c" and "after_token [47] (path_str (c # cs)) = (if cs = [] then None else Some (path_str cs))"
proof -
  have c: "\<forall>x \<in> set c. x \<noteq> 47" using assms by (auto simp: path_ok_def)
  show "first_token [47] (path_str (c # cs)) = c" using c by (cases cs) (auto simp: first_token_def takeWhile_append2)
  show "after_token [47] (path_str (c # cs)) = (if cs = [] then None else Some (path_str cs))"
  proof -
    have "dropWhile (\<lambda>x. x \<noteq> 47) c = []" using c by simp
    then show ?thesis using c by (cases cs) (simp_all add: after_token_def dropWhile_append2 del: dropWhile_eq_Nil_conv)
  qed
qed

text \<open>A path in memory: in a buffer inside \<open>X\<close>, away from address 0; no path at all for no components.\<close>

definition path_at :: "addr set \<Rightarrow> mem \<Rightarrow> addr \<Rightarrow> u8 list list \<Rightarrow> bool" where
  "path_at X m p cs \<longleftrightarrow> path_ok cs \<and> (if cs = [] then p = NULL
     else cstr m p (path_str cs) \<and> length (path_str cs) < 2 ^ 64 \<and> (\<forall>i\<le>length (path_str cs). p + of_nat i \<noteq> NULL \<and> p + of_nat i \<in> X))"

definition lits_at :: "addr set \<Rightarrow> literals \<Rightarrow> mem \<Rightarrow> bool" where
  "lits_at X lit m \<longleftrightarrow> cstr_off X m (lit_slash lit) [47] \<and> cstr_off X m (lit_empty lit) []"

lemma next_token_end: "next_token lit NULL s = Inr (NULL, NULL, True, s)"
  by (simp add: next_token_def strsep_def)

lemma next_token_path:
  assumes p: "path_at X (bytes s) p (c # cs)" and lit: "lits_at X lit (bytes s)"
  shows "\<exists>q m. next_token lit p s = Inr (p, q, False, s\<lparr>bytes := m\<rparr>) \<and> cstr m p c \<and> path_at X m q cs
    \<and> (cs \<noteq> [] \<longrightarrow> q = p + of_nat (Suc (length c))) \<and> fs_same X s (s\<lparr>bytes := m\<rparr>)"
proof -
  have X: "i \<le> length (path_str (c # cs)) \<Longrightarrow> p + of_nat i \<noteq> NULL \<and> p + of_nat i \<in> X" for i
    using p unfolding path_at_def by (simp del: path_str.simps)
  have P: "path_ok (c # cs)" "cstr (bytes s) p (path_str (c # cs))" "length (path_str (c # cs)) < 2 ^ 64" "p \<noteq> NULL"
    using p X [of 0] unfolding path_at_def by (simp_all del: path_str.simps)
  have c: "c \<noteq> []" and ok: "path_ok cs" using P(1) by (auto simp: path_ok_def)
  have sl: "cstr (bytes s) (lit_slash lit) [47]" and em: "cstr_off X (bytes s) (lit_empty lit) []" using lit by (auto simp: lits_at_def cstr_off_def)
  note sep = strsep_cstr [OF P(2) sl P(4), unfolded path_tokens [OF P(1)]]
  show ?thesis
  proof (cases cs)
    case Nil
    then have "strcmp (bytes s) p (lit_empty lit) = Inr (str_order c [])" using strcmp_cstr P(2) em by (auto simp: cstr_off_def)
    then have "next_token lit p s = Inr (p, NULL, False, s\<lparr>bytes := bytes s\<rparr>)" using sep Nil P(4) c by (simp add: next_token_def)
    then show ?thesis using Nil P(2) by (intro exI [of _ NULL] exI [of _ "bytes s"]) (simp add: path_at_def path_ok_def)
  next
    case (Cons d ds)
    define m where "m = (bytes s)(p + of_nat (length c) := Some 0)"
    have af: "after_token [47] (path_str (c # cs)) = Some (path_str cs)" using path_tokens(2) [OF P(1)] Cons by simp
    have m: "cstr m p c" "cstr m (p + of_nat (Suc (length c))) (path_str cs)"
      using strsep_pieces [OF P(2) af P(3)] unfolding path_tokens(1) [OF P(1)] m_def by simp_all
    have len: "length (path_str (c # cs)) = Suc (length c) + length (path_str cs)" using Cons by simp
    have "p + of_nat (length c) \<in> X" using X [of "length c"] len by simp
    then have off: "\<forall>a. a \<notin> X \<longrightarrow> m a = bytes s a" by (auto simp: m_def)
    have "cstr m (lit_empty lit) []" using cstr_off_same [OF em off] by (simp add: cstr_off_def)
    then have "strcmp m p (lit_empty lit) = Inr (str_order c [])" using strcmp_cstr m(1) by blast
    then have nt: "next_token lit p s = Inr (p, p + of_nat (Suc (length c)), False, s\<lparr>bytes := m\<rparr>)"
      using sep Cons P(4) c by (simp add: next_token_def m_def)
    have "p + of_nat (Suc (length c)) + of_nat i \<noteq> NULL \<and> p + of_nat (Suc (length c)) + of_nat i \<in> X" if "i \<le> length (path_str cs)" for i
      using X [of "Suc (length c) + i"] len that unfolding of_nat_add add.assoc by simp
    then have "path_at X m (p + of_nat (Suc (length c))) cs" using ok m(2) P(3) len Cons unfolding path_at_def by auto
    then show ?thesis using nt m(1) fs_bytes_same [OF off] by blast
  qed
qed

text \<open>Where a walk ends: at no path when it took every component, else at the first one it did not take.\<close>

definition walk_end :: "addr \<Rightarrow> u8 list list \<Rightarrow> nat \<Rightarrow> addr \<Rightarrow> mem \<Rightarrow> bool" where
  "walk_end p cs n p' m \<longleftrightarrow> (if n = length cs then p' = NULL else n < length cs \<and> p' = p + of_nat (token_at cs n) \<and> cstr m p' (cs ! n))"

lemma lits_at_same: "lits_at X lit (bytes s) \<Longrightarrow> fs_same X s s' \<Longrightarrow> lits_at X lit (bytes s')"
  using cstr_off_same [of X "bytes s" _ _ "bytes s'"] by (simp add: lits_at_def fs_same_def)

lemma descend_le: "snd (descend t cs) \<le> length cs"
  by (induction t cs rule: descend.induct) (auto split: option.split prod.split)

lemma walk_ok:
  assumes "mt_rep X s t" and "path_at X (bytes s) p cs" and "lits_at X lit (bytes s)"
  shows "\<exists>p' s'. vfs_get_mountpoint_recursive lit p (mroot t) s = Some (Inr (fst (descend t cs), p', s'))
    \<and> walk_end p cs (snd (descend t cs)) p' (bytes s') \<and> fs_same X s s'"
  using assms
proof (induction cs arbitrary: t p s)
  case Nil
  obtain a v L nm nd ks where t: "t = MT a v L nm nd ks" by (cases t)
  have "p = NULL" using Nil.prems(2) by (simp add: path_at_def)
  then have "vfs_get_mountpoint_recursive lit p (mroot t) s = Some (Inr (nd, NULL, s))"
    using Nil.prems(1) by (subst vfs_get_mountpoint_recursive.simps) (auto simp: t next_token_end entry_node_def entry_of_def ld_tnode_def ld_ventry_def)
  then show ?case by (simp add: t walk_end_def)
next
  case (Cons c cs)
  obtain a v L nm nd ks where t: "t = MT a v L nm nd ks" by (cases t)
  obtain q m where q: "next_token lit p s = Inr (p, q, False, s\<lparr>bytes := m\<rparr>)" "cstr m p c" "path_at X m q cs"
    "cs \<noteq> [] \<longrightarrow> q = p + of_nat (Suc (length c))" "fs_same X s (s\<lparr>bytes := m\<rparr>)"
    using next_token_path [OF Cons.prems(2,3)] by blast
  let ?s1 = "s\<lparr>bytes := m\<rparr>"
  have rep1: "mt_rep X ?s1 (MT a v L nm nd ks)" using mt_rep_same(1) [OF Cons.prems(1) q(5)] t by simp
  obtain s2 where s2: "find_child ''vfs_get_mountpoint_recursive'' 84 92 p a ?s1 = Inr (map_option mroot (kid_named c ks), s2)"
    "fs_same X ?s1 s2" "bytes s2 = m"
    using find_child_ok [OF rep1, of p c "''vfs_get_mountpoint_recursive''" 84 92] q(2) by auto
  have same2: "fs_same X s s2" using fs_same_trans [OF q(5) s2(2)] .
  show ?case
  proof (cases "kid_named c ks")
    case None
    have "mt_rep X s2 (MT a v L nm nd ks)" using mt_rep_same(1) [OF rep1 s2(2)] .
    then have "vfs_get_mountpoint_recursive lit p (mroot t) s = Some (Inr (nd, p, s2))"
      using q(1) s2(1) None by (subst vfs_get_mountpoint_recursive.simps) (auto simp: t entry_node_def entry_of_def ld_tnode_def ld_ventry_def)
    then show ?thesis using None same2 q(2) s2(3) by (simp add: t walk_end_def token_at_def)
  next
    case (Some u)
    have "mkids_rep X ?s1 ks" using rep1 by simp
    then have "mt_rep X s2 u" using mt_rep_same(1) [OF kid_named_rep [OF _ Some] s2(2)] by blast
    moreover have "path_at X (bytes s2) q cs" using q(3) s2(3) by simp
    moreover have "lits_at X lit (bytes s2)" using lits_at_same [OF Cons.prems(3) same2] .
    ultimately obtain p' s' where s': "vfs_get_mountpoint_recursive lit q (mroot u) s2 = Some (Inr (fst (descend u cs), p', s'))"
      "walk_end q cs (snd (descend u cs)) p' (bytes s')" "fs_same X s2 s'" using Cons.IH by blast
    have "vfs_get_mountpoint_recursive lit p (mroot t) s = Some (Inr (fst (descend u cs), p', s'))"
      using q(1) s2(1) Some s'(1) by (subst vfs_get_mountpoint_recursive.simps) (simp add: t)
    moreover have "walk_end p (c # cs) (Suc (snd (descend u cs))) p' (bytes s')"
      using s'(2) q(4) by (auto simp: walk_end_def token_at_def add.assoc split: if_splits)
    ultimately show ?thesis using Some fs_same_trans [OF same2 s'(3)] by (auto simp: t split: prod.split)
  qed
qed

text \<open>The bytes of an absolute path, with or without a slash at its end.\<close>

definition abs_path :: "u8 list list \<Rightarrow> bool \<Rightarrow> u8 list" where
  "abs_path cs trailing = 47 # path_str cs @ (if trailing then [47] else [])"

lemma path_str_last: "path_ok cs \<Longrightarrow> cs \<noteq> [] \<Longrightarrow> path_str cs \<noteq> [] \<and> last (path_str cs) \<noteq> 47"
proof (induction cs rule: path_str.induct)
  case (2 c)
  then have "c \<noteq> []" "47 \<notin> set c" by (auto simp: path_ok_def)
  then show ?case using last_in_set [of c] by (simp, metis)
next
  case (3 c d ds)
  then have "path_ok (d # ds)" by (simp add: path_ok_def)
  then show ?case using 3 by simp
qed simp

lemma cstr_cut:
  assumes "cstr m p (s @ [c])" and "length s < 2 ^ 64"
  shows "cstr (m(p + of_nat (length s) := Some 0)) p s"
proof -
  have "p + of_nat i \<noteq> p + of_nat (length s)" if "i < length s" for i using that assms(2) by (simp add: of_nat_u64_eq_iff)
  then show ?thesis using assms(1) by (auto simp: cstr_def bytes_at_nth nth_append less_Suc_eq)
qed

lemma trim_ok:
  fixes s :: "'a kvfs_scheme"
  assumes "cstr (bytes s) p (abs_path cs trailing)" and "length (abs_path cs trailing) < 2 ^ 64" and "path_ok cs" and "cs \<noteq> []"
  shows "bnd (strlen (bytes s) p) (\<lambda>n. if n > 1 then bnd (ld8 (bytes s) (p + (n - 1))) (\<lambda>c.
      if c = 47 then bnd (st8 (bytes s) (p + (n - 1)) 0) (\<lambda>m. Inr (s\<lparr>bytes := m\<rparr>)) else Inr s) else Inr s)
    = Inr (s\<lparr>bytes := if trailing then (bytes s)(p + of_nat (Suc (length (path_str cs))) := Some 0) else bytes s\<rparr>)"
proof -
  let ?T = "abs_path cs trailing"
  have ne: "path_str cs \<noteq> []" "last (path_str cs) \<noteq> 47" using path_str_last [OF assms(3,4)] by simp_all
  then have len: "1 < length ?T" by (simp add: abs_path_def)
  then have u: "unat (of_nat (length ?T) :: u64) = length ?T" using assms(2) by (simp add: unat_of_nat_u64)
  define k where "k = length ?T - 1"
  have k: "k < length ?T" "length ?T = Suc k" "?T \<noteq> []" using len by (auto simp: k_def)
  then have d: "of_nat (length ?T) - 1 = (of_nat k :: u64)" by simp
  have "bytes s (p + of_nat k) = Some (?T ! k)" using assms(1) k(1) by (simp add: cstr_def bytes_at_nth nth_append)
  also have "?T ! k = last ?T" using k by (simp add: last_conv_nth)
  finally have "bytes s (p + of_nat k) = Some (last ?T)" .
  moreover have "last ?T = 47 \<longleftrightarrow> trailing" using ne by (simp add: abs_path_def)
  moreover have "k = Suc (length (path_str cs))" if trailing using that k(2) by (simp add: abs_path_def)
  moreover have "(1 :: u64) < of_nat (length ?T)" using u len by (simp add: word_less_nat_alt)
  ultimately show ?thesis unfolding strlen_cstr [OF assms(1)] bnd_Inr d by (cases trailing) (simp_all add: ld8_def st8_def)
qed

section \<open>Properties\<close>

text \<open>
  Property C40. Resolving an absolute path, with or without a slash at its end, ends and gives the node
  of the deepest mount point that the components lead to, as the walk down the abstract tree finds
  it. The path pointer is then null if every component was taken, and otherwise points at the first
  component that is no mount point, cut off behind it. Nothing changes but the buffer of the path,
  and every lock is free again.
\<close>

theorem vfs_get_mountpoint_resolves:
  assumes "tree_mem s (VFSTree s) = Some tr" and "tree_root tr = mroot t" and "mt_rep X s t" and "lits_at X lit (bytes s)"
    and "path_ok cs" and "cs \<noteq> []" and "cstr (bytes s) p (abs_path cs trailing)" and "length (abs_path cs trailing) < 2 ^ 64"
    and "\<forall>i\<le>length (abs_path cs trailing). p + of_nat i \<noteq> NULL \<and> p + of_nat i \<in> X"
  shows "\<exists>p' s'. vfs_get_mountpoint lit p s = Inr (fst (descend t cs), p', s')
    \<and> walk_end (p + 1) cs (snd (descend t cs)) p' (bytes s') \<and> fs_same X s s'"
proof -
  let ?n = "Suc (length (path_str cs))"
  define m where "m = (if trailing then (bytes s)(p + of_nat ?n := Some 0) else bytes s)"
  let ?s1 = "s\<lparr>bytes := m\<rparr>"
  have len: "?n < 2 ^ 64" "0 < length (path_str cs)" using assms(8) path_str_last [OF assms(5,6)] by (auto simp: abs_path_def)
  have pn: "p \<noteq> NULL" using assms(9) [rule_format, of 0] by simp
  have X: "p + of_nat i \<noteq> NULL \<and> p + of_nat i \<in> X" if "i \<le> ?n" for i using assms(9) that by (simp add: abs_path_def)
  have cm: "cstr m p (47 # path_str cs)"
    using assms(7) cstr_cut [of "bytes s" p "47 # path_str cs" 47] len(1) by (auto simp: m_def abs_path_def split: if_splits)
  have off: "\<forall>a. a \<notin> X \<longrightarrow> m a = bytes s a" using X [of ?n] by (auto simp: m_def)
  have same1: "fs_same X s ?s1" using fs_bytes_same [OF off] .
  have at: "path_at X m (p + 1) cs"
  proof -
    have "p + 1 + of_nat i \<noteq> NULL \<and> p + 1 + of_nat i \<in> X" if "i \<le> length (path_str cs)" for i
      using X [of "Suc i"] that by (simp add: add.assoc)
    then show ?thesis using assms(5,6) cm len(1) by (simp add: path_at_def cstr_def)
  qed
  obtain p' s' where w: "vfs_get_mountpoint_recursive lit (p + 1) (mroot t) ?s1 = Some (Inr (fst (descend t cs), p', s'))"
    "walk_end (p + 1) cs (snd (descend t cs)) p' (bytes s')" "fs_same X ?s1 s'"
    using walk_ok [OF mt_rep_same(1) [OF assms(3) same1], of "p + 1" cs lit] at lits_at_same [OF assms(4) same1] by auto
  have "strlen m p = Inr (of_nat ?n)" "ld8 m p = Inr 47" "(of_nat ?n :: u64) \<noteq> 1"
    using strlen_cstr [OF cm] cm len of_nat_u64_eq_iff [of ?n 1] by (auto simp: cstr_def ld8_def)
  then have "vfs_get_mountpoint lit p s = Inr (fst (descend t cs), p', s')"
    using assms(1,2) pn w(1) trim_ok [OF assms(7,8,5,6)] unfolding m_def vfs_get_mountpoint_def by (simp add: ld_tree_def)
  then show ?thesis using w(2) fs_same_trans [OF same1 w(3)] by blast
qed

text \<open>
  A tree with the mount point \<open>dev\<close> below the root and a node mounted there, and the path
  \<open>/dev/log\<close> at 0x2000.
\<close>

definition demo_vfs :: kvfs where
  "demo_vfs = ktrees.extend (demo_trees\<lparr>bytes := [0x1000 \<mapsto> 114, 0x1001 \<mapsto> 0, 0x1010 \<mapsto> 100, 0x1011 \<mapsto> 101, 0x1012 \<mapsto> 118, 0x1013 \<mapsto> 0,
       0x1020 \<mapsto> 47, 0x1021 \<mapsto> 0, 0x2000 \<mapsto> 47, 0x2001 \<mapsto> 100, 0x2002 \<mapsto> 101, 0x2003 \<mapsto> 118, 0x2004 \<mapsto> 47,
       0x2005 \<mapsto> 108, 0x2006 \<mapsto> 111, 0x2007 \<mapsto> 103, 0x2008 \<mapsto> 0],
       list_mem := [0x40 \<mapsto> \<lparr>list_length = 1, list_root = 0x50, list_tail = 0x50, list_lk = INIT_SPINLOCK\<rparr>,
                    0x80 \<mapsto> \<lparr>list_length = 0, list_root = NULL, list_tail = NULL, list_lk = INIT_SPINLOCK\<rparr>],
       node_mem := [0x50 \<mapsto> \<lparr>node_value = 0x60, node_previous = NULL, node_next = NULL\<rparr>],
       tree_mem := [0x10 \<mapsto> \<lparr>tree_root = 0x20, tree_lk = INIT_SPINLOCK\<rparr>],
       tnode_mem := [0x20 \<mapsto> \<lparr>tnode_value = 0x30, tnode_children = 0x40\<rparr>, 0x60 \<mapsto> \<lparr>tnode_value = 0x70, tnode_children = 0x80\<rparr>]\<rparr>)
     \<lparr>vnode_mem = Map.empty, ventry_mem = [0x30 \<mapsto> \<lparr>ve_name = 0x1000, ve_node = NULL\<rparr>, 0x70 \<mapsto> \<lparr>ve_name = 0x1010, ve_node = 0x900\<rparr>],
      devnode_mem = Map.empty, deventry_mem = Map.empty, VFSTree = 0x10, DevFSList = NULL\<rparr>"

definition demo_mt :: mt where
  "demo_mt = MT 0x20 0x30 0x40 [114] NULL (MCons 0x50 (MT 0x60 0x70 0x80 [100, 101, 118] 0x900 MNil) MNil)"

definition demo_lits :: literals where
  "demo_lits = \<lparr>lit_root = 0x1000, lit_slash = 0x1020, lit_empty = 0x1021, lit_DevFS = NULL, lit_dev = NULL, lit_SerialLog = NULL, lit_log = NULL\<rparr>"

definition demo_buf :: "addr set" where
  "demo_buf = {0x2000, 0x2001, 0x2002, 0x2003, 0x2004, 0x2005, 0x2006, 0x2007, 0x2008}"

lemma demo_mt_rep: "mt_rep demo_buf demo_vfs demo_mt"
  by (simp add: demo_mt_def demo_vfs_def demo_trees_def demo_lists_def klists.defs ktrees.defs is_list_def list_rep_def INIT_SPINLOCK_def cstr_off_def cstr_def
      demo_buf_def le_Suc_eq)

theorem vfs_get_mountpoint_resolves_witness:
  "\<exists>s'. vfs_get_mountpoint demo_lits 0x2000 demo_vfs = Inr (0x900, 0x2005, s') \<and> cstr (bytes s') 0x2005 [108, 111, 103]"
proof -
  let ?cs = "[[100, 101, 118], [108, 111, 103]] :: u8 list list"
  have f: "bytes demo_vfs 0x2000 = Some 47" "tree_mem demo_vfs (VFSTree demo_vfs) = Some \<lparr>tree_root = 0x20, tree_lk = INIT_SPINLOCK\<rparr>"
    by (simp_all add: demo_vfs_def demo_trees_def demo_lists_def klists.defs ktrees.defs)
  have a: "abs_path ?cs False = [47, 100, 101, 118, 47, 108, 111, 103]" by (simp add: abs_path_def)
  have "cstr (bytes demo_vfs) 0x2000 (abs_path ?cs False)" "lits_at demo_buf demo_lits (bytes demo_vfs)" "path_ok ?cs"
    by (simp_all add: a path_ok_def lits_at_def cstr_off_def cstr_def demo_lits_def demo_buf_def demo_vfs_def demo_trees_def demo_lists_def klists.defs
        ktrees.defs le_Suc_eq)
  moreover have "\<forall>i\<le>length (abs_path ?cs False). 0x2000 + of_nat i \<noteq> (NULL :: addr) \<and> 0x2000 + of_nat i \<in> demo_buf"
    unfolding a by (simp add: demo_buf_def le_Suc_eq)
  moreover have "descend demo_mt ?cs = (0x900, 1)" by (simp add: demo_mt_def)
  ultimately show ?thesis
    using vfs_get_mountpoint_resolves [OF f(2) _ demo_mt_rep, of demo_lits ?cs "0x2000" False] a
    by (auto simp: demo_mt_def walk_end_def token_at_def)
qed

end
