(* ===== verification/Spinlock_X86.thy ===== *)
theory Spinlock_X86
  imports Spinlock
begin

text \<open>
  The spinlocks of the x86\_64 port, \<open>kernel/arch/x86_64/spinlock.c\<close>, on the structures of
  \<open>kernel/arch/spinlock.h\<close>. Each piece of inline assembly is one locked instruction: \<open>xadd\<close>, \<open>xchg\<close>,
  \<open>inc\<close>, \<open>dec\<close>, \<open>bts\<close> or \<open>btr\<close>, with the carry or zero flag as its output. The port has no interrupt
  switch and no preemption counter in its locks. As in the theory \<open>Spinlock\<close>, one CPU runs alone.
\<close>

section \<open>Instructions\<close>

text \<open>\<open>bts\<close> and \<open>btr\<close> on bit 0: the carry flag is the old bit, the bit is set or cleared.\<close>

definition bts0 :: "u32 \<Rightarrow> bool \<times> u32" where
  "bts0 w = (bit w 0, w OR 1)"

definition btr0 :: "u32 \<Rightarrow> bool \<times> u32" where
  "btr0 w = (bit w 0, w AND NOT 1)"

section \<open>Atomic words\<close>

text \<open>
  The result and the new word. The register of \<open>xadd\<close> and \<open>xchg\<close> is \<open>ret\<close>, which is 0 before: the first
  adds nothing, the second stores 0 whatever \<open>value\<close> is. The other two answer whether the new word is
  not zero.
\<close>

definition x86_locked_read :: "u32 \<Rightarrow> u32 \<times> u32" where
  "x86_locked_read var = (let ret = 0 in (var, var + ret))"

definition x86_locked_write :: "u32 \<Rightarrow> u32 \<Rightarrow> u32 \<times> u32" where
  "x86_locked_write var value = (let ret = 0 in (var, ret))"

definition x86_locked_inc :: "u32 \<Rightarrow> u32 \<times> u32" where
  "x86_locked_inc var = ((if var + 1 \<noteq> 0 then 1 else 0), var + 1)"

definition x86_locked_dec :: "u32 \<Rightarrow> u32 \<times> u32" where
  "x86_locked_dec var = ((if var - 1 \<noteq> 0 then 1 else 0), var - 1)"

section \<open>Lock operations\<close>

definition x86_spinlock_try_lock_debug :: "spinlock_t \<Rightarrow> place \<Rightarrow> u32 \<times> spinlock_t" where
  "x86_spinlock_try_lock_debug spinlock pl =
     (case pl of (fil, fn, ln) \<Rightarrow>
      let (ret, w) = bts0 (lock spinlock);
          spinlock = spinlock\<lparr>lock := w\<rparr>
      in if \<not> ret
         then (0, spinlock\<lparr>last_acquirer := (last_acquirer spinlock)\<lparr>acq_file := fil, acq_func := fn, acq_line := ln\<rparr>\<rparr>)
         else (1, spinlock))"

text \<open>\<open>deadlock_detect\<close> passes its own lock, which \<open>locked_write\<close> never sets, and prints.\<close>

partial_function (option) x86_spin :: "u64 \<Rightarrow> spinlock_t \<Rightarrow> place \<Rightarrow> spinlock_t option" where
  "x86_spin i spinlock pl =
     (if i < DEADLOCK_MAX_ITER
      then (case x86_spinlock_try_lock_debug spinlock pl of (ret, spinlock) \<Rightarrow>
              if ret = 0 then Some spinlock else x86_spin (i + 1) spinlock pl)
      else x86_spin 0 spinlock pl)"

definition x86_spinlock_lock_debug :: "spinlock_t \<Rightarrow> place \<Rightarrow> spinlock_t res" where
  "x86_spinlock_lock_debug spinlock pl = (case x86_spin 0 spinlock pl of None \<Rightarrow> Inl Hang | Some l \<Rightarrow> Inr l)"

text \<open>The plain lock: the answer of \<open>bts\<close> is dropped, and the waiting loop clears the bit and waits for a carry.\<close>

definition x86_spinlock_try_lock_normal :: "spinlock_normal_t \<Rightarrow> u32 \<times> spinlock_normal_t" where
  "x86_spinlock_try_lock_normal spinlock =
     (let ret = 0; (_, w) = bts0 (nlock spinlock) in (ret, spinlock\<lparr>nlock := w\<rparr>))"

partial_function (option) x86_normal_spin :: "spinlock_normal_t \<Rightarrow> spinlock_normal_t option" where
  "x86_normal_spin spinlock =
     (case btr0 (nlock spinlock) of (c, w) \<Rightarrow>
      let spinlock = spinlock\<lparr>nlock := w\<rparr> in
      if c then Some spinlock else x86_normal_spin spinlock)"

definition x86_spinlock_lock_normal :: "spinlock_normal_t \<Rightarrow> spinlock_normal_t res" where
  "x86_spinlock_lock_normal spinlock = (case x86_normal_spin spinlock of None \<Rightarrow> Inl Hang | Some l \<Rightarrow> Inr l)"

definition x86_spinlock_unlock :: "spinlock_t \<Rightarrow> spinlock_t" where
  "x86_spinlock_unlock spinlock = (case btr0 (lock spinlock) of (_, w) \<Rightarrow> spinlock\<lparr>lock := w\<rparr>)"

section \<open>Lemmas\<close>

lemma or_1_bit: "bit ((w :: u32) OR 1) 0" "(bit w 0 \<Longrightarrow> w OR 1 = w)"
  by (simp add: bit_or_iff) (rule bit_word_eqI, auto simp: bit_or_iff bit_1_iff)

lemma clear_bit_0: "\<not> bit ((w :: u32) AND NOT 1) 0"
  by (simp add: bit_and_iff bit_not_iff bit_1_iff)

lemma clear_bit_0_same:
  assumes "\<not> bit (w :: u32) 0" shows "w AND NOT 1 = w"
proof (rule bit_word_eqI)
  fix n assume "n < LENGTH(32)"
  then show "bit (w AND NOT 1) n = bit w n"
    using assms by (cases "n = 0") (simp_all add: bit_and_iff bit_not_iff bit_1_iff del: bit_0)
qed

lemma x86_try_held: "bit (lock lk) 0 \<Longrightarrow> x86_spinlock_try_lock_debug lk pl = (1, lk)"
  using or_1_bit(2) [of "lock lk"]
  by (cases pl) (simp add: x86_spinlock_try_lock_debug_def bts0_def)

lemma x86_spin_returns: "x86_spin i lk pl = Some r \<Longrightarrow> \<not> bit (lock lk) 0"
proof (rule x86_spin.raw_induct [where P = "\<lambda>i lk pl r. \<not> bit (lock lk) 0"])
  fix spin :: "u64 \<Rightarrow> spinlock_t \<Rightarrow> place \<Rightarrow> spinlock_t option" and i lk pl r
  assume IH: "\<And>i lk pl r. spin i lk pl = Some r \<Longrightarrow> \<not> bit (lock lk) 0"
    and eq: "(if i < DEADLOCK_MAX_ITER
      then case x86_spinlock_try_lock_debug lk pl of (ret, lk) \<Rightarrow> if ret = 0 then Some lk else spin (i + 1) lk pl
      else spin 0 lk pl) = Some r"
  show "\<not> bit (lock lk) 0"
  proof
    assume held: "bit (lock lk) 0"
    then have "spin (i + 1) lk pl = Some r \<or> spin 0 lk pl = Some r"
      using eq by (auto simp: x86_try_held split: if_splits)
    then show False using IH held by blast
  qed
qed

text \<open>
  The debug lock works as the one of riscv64 does: \<open>spinlock_lock\<close> takes a lock whose bit is clear, waits
  forever on a lock whose bit is set, and \<open>spinlock_unlock\<close> clears the bit again.
\<close>

theorem x86_debug_lock_behaves:
  "x86_spinlock_lock_debug lk (fil, fn, ln) =
     (if bit (lock lk) 0 then Inl Hang
      else Inr (lk\<lparr>lock := lock lk OR 1, last_acquirer := (last_acquirer lk)\<lparr>acq_file := fil, acq_func := fn, acq_line := ln\<rparr>\<rparr>))
   \<and> \<not> bit (lock (x86_spinlock_unlock lk)) 0"
proof (cases "bit (lock lk) 0")
  case True
  then have "x86_spin 0 lk (fil, fn, ln) = None"
    using x86_spin_returns by (cases "x86_spin 0 lk (fil, fn, ln)") auto
  then show ?thesis
    using True clear_bit_0 [of "lock lk"] by (simp add: x86_spinlock_lock_debug_def x86_spinlock_unlock_def btr0_def)
next
  case False
  then have "x86_spin 0 lk (fil, fn, ln) = Some (lk\<lparr>lock := lock lk OR 1,
      last_acquirer := (last_acquirer lk)\<lparr>acq_file := fil, acq_func := fn, acq_line := ln\<rparr>\<rparr>)"
    by (subst x86_spin.simps) (simp add: DEADLOCK_MAX_ITER_def x86_spinlock_try_lock_debug_def bts0_def)
  then show ?thesis
    using False clear_bit_0 [of "lock lk"] by (simp add: x86_spinlock_lock_debug_def x86_spinlock_unlock_def btr0_def)
qed

lemma x86_normal_spin_returns: "x86_normal_spin lk = Some r \<Longrightarrow> bit (nlock lk) 0"
proof (rule x86_normal_spin.raw_induct [where P = "\<lambda>lk r. bit (nlock lk) 0"])
  fix spin :: "spinlock_normal_t \<Rightarrow> spinlock_normal_t option" and lk r
  assume IH: "\<And>lk r. spin lk = Some r \<Longrightarrow> bit (nlock lk) 0"
    and eq: "(case btr0 (nlock lk) of (c, w) \<Rightarrow> let lk = lk\<lparr>nlock := w\<rparr> in if c then Some lk else spin lk) = Some r"
  show "bit (nlock lk) 0"
  proof (rule ccontr)
    assume "\<not> bit (nlock lk) 0"
    then have "spin lk = Some r"
      using eq clear_bit_0_same [of "nlock lk"] by (simp add: btr0_def Let_def)
    then show False using IH \<open>\<not> bit (nlock lk) 0\<close> by blast
  qed
qed

text \<open>
  The plain lock is inverted: \<open>spinlock_lock\<close> never returns on a lock that is free, returns at once on a
  lock that is held and leaves it free, and \<open>spinlock_try_lock\<close> reports success for every lock.
\<close>

theorem x86_plain_lock_inverted:
  "x86_spinlock_lock_normal lk = (if bit (nlock lk) 0 then Inr (lk\<lparr>nlock := nlock lk AND NOT 1\<rparr>) else Inl Hang)
   \<and> fst (x86_spinlock_try_lock_normal lk) = 0"
proof (cases "bit (nlock lk) 0")
  case True
  then have "x86_normal_spin lk = Some (lk\<lparr>nlock := nlock lk AND NOT 1\<rparr>)"
    by (subst x86_normal_spin.simps) (simp add: btr0_def Let_def)
  then show ?thesis
    using True by (simp add: x86_spinlock_lock_normal_def x86_spinlock_try_lock_normal_def bts0_def)
next
  case False
  then have "x86_normal_spin lk = None" using x86_normal_spin_returns by (cases "x86_normal_spin lk") auto
  then show ?thesis
    using False by (simp add: x86_spinlock_lock_normal_def x86_spinlock_try_lock_normal_def bts0_def)
qed

end
