(* ===== verification/Vmm_X86.thy ===== *)
theory Vmm_X86
  imports Vmm Spinlock_X86
begin

text \<open>
  The page tables of the x86\_64 port, \<open>kernel/arch/x86_64/vmm.c\<close>. The functions have the names of the
  riscv64 ones with \<open>x86_\<close> in front. The page allocator and the kernel heap are those of the theories
  \<open>Pmm\<close> and \<open>Kmalloc\<close>, the same C code on both ports; which port's lock they take inside shows only in the
  hart part of the state and in the record of the last acquirer.
\<close>

section \<open>Data\<close>

record kx86 = kvmm +
  cr3 :: u64

definition X86_FLAG_MASK :: u64 where
  "X86_FLAG_MASK = 0xFFF OR push_bit 63 1"

definition X86_ADDR_MASK :: u64 where
  "X86_ADDR_MASK = NOT X86_FLAG_MASK"

definition X86_PRESENT :: u64 where "X86_PRESENT = push_bit 0 1"

definition X86_WRITE :: u64 where "X86_WRITE = push_bit 1 1"

definition X86_USER :: u64 where "X86_USER = push_bit 2 1"

definition X86_LARGE :: u64 where "X86_LARGE = push_bit 7 1"

record pt_offset_t =
  pml4_off :: size_t
  pdp_off :: size_t
  pd_off :: size_t
  pt_off :: size_t

definition x86_pt_lock :: "int \<Rightarrow> string \<Rightarrow> addr \<Rightarrow> 'a kvmm_scheme \<Rightarrow> 'a kvmm_scheme res" where
  "x86_pt_lock ln fn p s =
     bnd (ld_pt s p) (\<lambda>t.
     bnd (x86_spinlock_lock_debug (pt_lk t) (''vmm.c'', fn, ln)) (\<lambda>lk.
     Inr (s\<lparr>pt_mem := (pt_mem s)(p \<mapsto> t\<lparr>pt_lk := lk\<rparr>)\<rparr>)))"

definition x86_pt_unlock :: "addr \<Rightarrow> 'a kvmm_scheme \<Rightarrow> 'a kvmm_scheme res" where
  "x86_pt_unlock p s = up_pt p (\<lambda>t. t\<lparr>pt_lk := x86_spinlock_unlock (pt_lk t)\<rparr>) s"

section \<open>Walking and growing the tables\<close>

definition x86_arch_vmm_preinit :: "'a kvmm_scheme \<Rightarrow> 'a kvmm_scheme" where
  "x86_arch_vmm_preinit s = s"

definition x86_vmm_set_pt :: "addr \<Rightarrow> 'a kx86_scheme \<Rightarrow> 'a kx86_scheme res" where
  "x86_vmm_set_pt pt s = bnd (ld_pt s pt) (\<lambda>t. Inr (s\<lparr>cr3 := pt_entries t\<rparr>))"

definition x86_get_addr_offsets :: "addr \<Rightarrow> pt_offset_t" where
  "x86_get_addr_offsets addrValue =
     \<lparr>pml4_off = drop_bit 39 (addrValue AND push_bit 39 0x1FF),
      pdp_off = drop_bit 30 (addrValue AND push_bit 30 0x1FF),
      pd_off = drop_bit 21 (addrValue AND push_bit 21 0x1FF),
      pt_off = drop_bit 12 (addrValue AND push_bit 12 0x1FF)\<rparr>"

definition x86_vmm_get_or_alloc :: "addr \<Rightarrow> size_t \<Rightarrow> u32 \<Rightarrow> 'a pmm_scheme \<Rightarrow> (addr \<times> 'a pmm_scheme) res" where
  "x86_vmm_get_or_alloc pt offset fl s =
     bnd (pt_ld pt offset s) (\<lambda>a.
     bnd (if a AND X86_PRESENT = 0
          then bnd (pmm_alloc 1 s) (\<lambda>(a, s).
               bnd (pt_st pt offset a s) (\<lambda>s.
               if a = 0 then Inl Hang
               else bnd (pt_ld pt offset s) (\<lambda>e.
                    bnd (pt_st pt offset (e OR (ucast fl OR X86_PRESENT)) s) (\<lambda>s.
                    Inr (a, s)))))
          else Inr (a, s)) (\<lambda>(a, s).
     Inr ((a AND X86_ADDR_MASK) + MEM_PHYS_OFFSET s, s)))"

definition x86_vmm_get_or_null :: "addr \<Rightarrow> size_t \<Rightarrow> 'a pmm_scheme \<Rightarrow> addr res" where
  "x86_vmm_get_or_null pt offset s =
     bnd (pt_ld pt offset s) (\<lambda>a.
     Inr (if a AND X86_PRESENT = 0 then NULL else (a AND X86_ADDR_MASK) + MEM_PHYS_OFFSET s))"

text \<open>One turn of the loop of \<open>vmm_map_advanced\<close>; false is the early return behind a null table.\<close>

definition x86_map_page :: "addr \<Rightarrow> addr \<Rightarrow> addr \<Rightarrow> u64 \<Rightarrow> bool \<Rightarrow> 'a kvmm_scheme \<Rightarrow> (bool \<times> 'a kvmm_scheme) res" where
  "x86_map_page ptaddr va pa permissions huge s =
     bnd (ld_pt s ptaddr) (\<lambda>t.
     let offset = x86_get_addr_offsets va;
         pml4 = pt_entries t + MEM_PHYS_OFFSET s;
         fl = ucast (X86_WRITE OR X86_USER)
     in if pml4 = NULL then Inr (False, s)
        else bnd (x86_vmm_get_or_alloc pml4 (pml4_off offset) fl s) (\<lambda>(pdp, s).
     if pdp = NULL then Inr (False, s)
     else bnd (x86_vmm_get_or_alloc pdp (pdp_off offset) fl s) (\<lambda>(pd, s).
     if pd = NULL then Inr (False, s)
     else if huge
     then bnd (pt_st pd (pd_off offset) (pa OR permissions OR X86_PRESENT OR X86_LARGE) s) (\<lambda>s. Inr (True, s))
     else bnd (x86_vmm_get_or_alloc pd (pd_off offset) fl s) (\<lambda>(pt, s).
     if pt = NULL then Inr (False, s)
     else bnd (pt_st pt (pt_off offset) (pa OR permissions OR X86_PRESENT) s) (\<lambda>s. Inr (True, s))))))"

fun x86_map_loop :: "nat \<Rightarrow> addr \<Rightarrow> addr \<Rightarrow> addr \<Rightarrow> u64 \<Rightarrow> bool \<Rightarrow> 'a kvmm_scheme \<Rightarrow> (bool \<times> 'a kvmm_scheme) res" where
  "x86_map_loop 0 ptaddr va pa permissions huge s = Inr (True, s)"
| "x86_map_loop (Suc n) ptaddr va pa permissions huge s =
     bnd (x86_map_page ptaddr va pa permissions huge s) (\<lambda>(ok, s).
     if ok then x86_map_loop n ptaddr (va + (if huge then 0x200000 else 0x1000)) (pa + (if huge then 0x200000 else 0x1000)) permissions huge s
     else Inr (False, s))"

definition x86_vmm_map_advanced :: "addr \<Rightarrow> addr \<Rightarrow> addr \<Rightarrow> size_t \<Rightarrow> u64 \<Rightarrow> bool \<Rightarrow> 'a kvmm_scheme \<Rightarrow> (bool \<times> 'a kvmm_scheme) res" where
  "x86_vmm_map_advanced ptaddr va pa sz permissions huge s =
     bnd (x86_pt_lock 71 ''vmm_map_advanced'' ptaddr s) (\<lambda>s.
     bnd (x86_map_loop (unat sz) ptaddr va pa permissions huge s) (\<lambda>(ok, s).
     bnd (x86_pt_unlock ptaddr s) (\<lambda>s.
     Inr (ok, s))))"

definition x86_vmm_map :: "addr \<Rightarrow> addr \<Rightarrow> addr \<Rightarrow> size_t \<Rightarrow> u64 \<Rightarrow> 'a kvmm_scheme \<Rightarrow> (bool \<times> 'a kvmm_scheme) res" where
  "x86_vmm_map pt va pa sz permissions s = x86_vmm_map_advanced pt va pa sz permissions False s"

definition x86_vmm_map_huge :: "addr \<Rightarrow> addr \<Rightarrow> addr \<Rightarrow> size_t \<Rightarrow> u64 \<Rightarrow> 'a kvmm_scheme \<Rightarrow> (bool \<times> 'a kvmm_scheme) res" where
  "x86_vmm_map_huge pt va pa sz permissions s = x86_vmm_map_advanced pt va pa sz permissions True s"

section \<open>Removing mappings\<close>

definition x86_unmap_page :: "addr \<Rightarrow> addr \<Rightarrow> size_t \<Rightarrow> 'a kvmm_scheme \<Rightarrow> ((addr \<times> size_t) option \<times> 'a kvmm_scheme) res" where
  "x86_unmap_page ptaddr va sz s =
     bnd (ld_pt s ptaddr) (\<lambda>t.
     let offset = x86_get_addr_offsets va;
         pml4 = pt_entries t + MEM_PHYS_OFFSET s
     in if pml4 = NULL then Inr (None, s)
        else bnd (x86_vmm_get_or_null pml4 (pml4_off offset) s) (\<lambda>pdp.
     if pdp = NULL then Inr (None, s)
     else bnd (x86_vmm_get_or_null pdp (pdp_off offset) s) (\<lambda>pd.
     if pd = NULL then Inr (None, s)
     else bnd (pt_ld pd (pd_off offset) s) (\<lambda>e.
     if e AND X86_LARGE \<noteq> 0
     then if sz < 0x1FF then Inr (None, s)
          else bnd (pt_st pd (pd_off offset) 0 s) (\<lambda>s. Inr (Some (va + 0x200000, sz - 0x200), s))
     else bnd (x86_vmm_get_or_null pd (pd_off offset) s) (\<lambda>pt.
          bnd (if pt = NULL then Inl Fault else pt_st pt (pt_off offset) 0 s) (\<lambda>s.
          Inr (Some (va + 0x1000, sz), s)))))))"

partial_function (option) x86_unmap_loop :: "addr \<Rightarrow> addr \<Rightarrow> size_t \<Rightarrow> 'a kvmm_scheme \<Rightarrow> (bool \<times> 'a kvmm_scheme) res option" where
  "x86_unmap_loop ptaddr va sz s =
     (if sz = 0 then Some (Inr (True, s))
      else case x86_unmap_page ptaddr va (sz - 1) s of
          Inl e \<Rightarrow> Some (Inl e)
        | Inr (None, s) \<Rightarrow> Some (Inr (False, s))
        | Inr (Some (va, sz), s) \<Rightarrow> x86_unmap_loop ptaddr va sz s)"

definition x86_vmm_unmap :: "addr \<Rightarrow> addr \<Rightarrow> size_t \<Rightarrow> 'a kvmm_scheme \<Rightarrow> (bool \<times> 'a kvmm_scheme) res" where
  "x86_vmm_unmap ptaddr va sz s =
     bnd (x86_pt_lock 118 ''vmm_unmap'' ptaddr s) (\<lambda>s.
     bnd (loop_res (x86_unmap_loop ptaddr va sz s)) (\<lambda>(ok, s).
     bnd (x86_pt_unlock ptaddr s) (\<lambda>s.
     Inr (ok, s))))"

section \<open>Setting up\<close>

definition x86_vmm_setup_pt :: "'a kvmm_scheme \<Rightarrow> (addr \<times> 'a kvmm_scheme) res" where
  "x86_vmm_setup_pt s =
     bnd (new_pt s) (\<lambda>(pt, s).
     bnd (pmm_alloc 1 s) (\<lambda>(entries, s).
     bnd (up_pt pt (\<lambda>t. t\<lparr>pt_entries := entries\<rparr>) s) (\<lambda>s.
     bnd (up_pt pt (\<lambda>t. t\<lparr>pt_lk := INIT_SPINLOCK\<rparr>) s) (\<lambda>s.
     bnd (x86_vmm_map pt (VmmKernelBase s) (VmmPhysicalKernelBase s) (ROUND_UP (VmmKernelSize s) 0x1000 div 0x1000) 3 s) (\<lambda>(_, s).
     bnd (x86_vmm_map_huge pt (MEM_PHYS_OFFSET s) NULL (4096 * 3) 3 s) (\<lambda>(_, s).
     Inr (pt, s)))))))"


section \<open>What the memory management unit finds\<close>

text \<open>The walk through the four tables: the entry that maps an address and whether it maps a large page.\<close>

definition x86_walk :: "mem \<Rightarrow> u64 \<Rightarrow> addr \<Rightarrow> addr \<Rightarrow> (bool \<times> u64) option" where
  "x86_walk m off root va =
     (let ofs = x86_get_addr_offsets va in
      case ld64 m (root + off + 8 * pml4_off ofs) of Inl _ \<Rightarrow> None | Inr e4 \<Rightarrow>
      if e4 AND X86_PRESENT = 0 then None else
      (case ld64 m ((e4 AND X86_ADDR_MASK) + off + 8 * pdp_off ofs) of Inl _ \<Rightarrow> None | Inr e3 \<Rightarrow>
      if e3 AND X86_PRESENT = 0 then None else
      (case ld64 m ((e3 AND X86_ADDR_MASK) + off + 8 * pd_off ofs) of Inl _ \<Rightarrow> None | Inr e2 \<Rightarrow>
      if e2 AND X86_PRESENT = 0 then None
      else if e2 AND X86_LARGE \<noteq> 0 then Some (True, e2) else
      (case ld64 m ((e2 AND X86_ADDR_MASK) + off + 8 * pt_off ofs) of Inl _ \<Rightarrow> None | Inr e1 \<Rightarrow>
      if e1 AND X86_PRESENT = 0 then None else Some (False, e1)))))"

text \<open>
  The tables on the way to an address are there: the three entries above the last table are present
  and refer to tables, and the last entry is mapped memory apart from those three.
\<close>

definition x86_path :: "mem \<Rightarrow> u64 \<Rightarrow> addr \<Rightarrow> addr \<Rightarrow> u64 \<Rightarrow> u64 \<Rightarrow> u64 \<Rightarrow> addr \<Rightarrow> bool" where
  "x86_path m off root va e4 e3 e2 leaf \<longleftrightarrow> (let ofs = x86_get_addr_offsets va;
      a4 = root + off; a3 = (e4 AND X86_ADDR_MASK) + off; a2 = (e3 AND X86_ADDR_MASK) + off; a1 = (e2 AND X86_ADDR_MASK) + off in
      a4 \<noteq> NULL \<and> a3 \<noteq> NULL \<and> a2 \<noteq> NULL \<and> a1 \<noteq> NULL \<and>
      ld64 m (a4 + 8 * pml4_off ofs) = Inr e4 \<and> e4 AND X86_PRESENT \<noteq> 0 \<and>
      ld64 m (a3 + 8 * pdp_off ofs) = Inr e3 \<and> e3 AND X86_PRESENT \<noteq> 0 \<and>
      ld64 m (a2 + 8 * pd_off ofs) = Inr e2 \<and> e2 AND X86_PRESENT \<noteq> 0 \<and> e2 AND X86_LARGE = 0 \<and>
      leaf = a1 + 8 * pt_off ofs \<and> mapped m leaf 8 \<and> spans_apart (a4 + 8 * pml4_off ofs) 8 leaf 8 \<and>
      spans_apart (a3 + 8 * pdp_off ofs) 8 leaf 8 \<and> spans_apart (a2 + 8 * pd_off ofs) 8 leaf 8)"

lemma ld64_apart: "spans_apart a 8 b 8 \<Longrightarrow> ld64 (put64 m b w) a = ld64 m a"
  by (rule ld64_cong) (auto simp: put64_outside spans_apart_def)

lemma x86_path_put: "x86_path m off root va e4 e3 e2 leaf \<Longrightarrow> x86_path (put64 m leaf w) off root va e4 e3 e2 leaf"
  unfolding x86_path_def Let_def by (elim conjE, intro conjI) (simp_all add: ld64_apart)

lemma x86_walk_path:
  assumes "x86_path m off root va e4 e3 e2 leaf" and "ld64 m leaf = Inr e"
  shows "x86_walk m off root va = (if e AND X86_PRESENT = 0 then None else Some (False, e))"
  using assms by (simp add: x86_walk_def x86_path_def Let_def)

lemma x86_map_page_path:
  assumes "pt_mem s p = Some t" and "x86_path (bytes s) (MEM_PHYS_OFFSET s) (pt_entries t) va e4 e3 e2 leaf"
  shows "x86_map_page p va pa perm False s = Inr (True, s\<lparr>bytes := put64 (bytes s) leaf (pa OR perm OR X86_PRESENT)\<rparr>)"
  using assms by (auto simp: x86_map_page_def x86_path_def Let_def ld_pt_def x86_vmm_get_or_alloc_def pt_ld_def pt_st_def st64_eq)

lemma x86_unmap_page_path:
  assumes "pt_mem s p = Some t" and "x86_path (bytes s) (MEM_PHYS_OFFSET s) (pt_entries t) va e4 e3 e2 leaf"
  shows "x86_unmap_page p va sz s = Inr (Some (va + 0x1000, sz), s\<lparr>bytes := put64 (bytes s) leaf 0\<rparr>)"
  using assms by (auto simp: x86_unmap_page_def x86_path_def Let_def ld_pt_def x86_vmm_get_or_null_def pt_ld_def pt_st_def st64_eq)

lemma x86_locked:
  assumes "pt_mem s p = Some t" and "\<not> bit (lock (pt_lk t)) 0"
  shows "\<exists>t'. x86_pt_lock ln fn p s = Inr (s\<lparr>pt_mem := (pt_mem s)(p \<mapsto> t')\<rparr>) \<and> pt_entries t' = pt_entries t"
  using assms x86_debug_lock_behaves [of "pt_lk t" "''vmm.c''" fn ln]
  by (intro exI [of _ "t\<lparr>pt_lk := (pt_lk t)\<lparr>lock := lock (pt_lk t) OR 1,
      last_acquirer := (last_acquirer (pt_lk t))\<lparr>acq_file := ''vmm.c'', acq_func := fn, acq_line := ln\<rparr>\<rparr>\<rparr>"])
    (simp add: x86_pt_lock_def ld_pt_def)

lemma x86_unlocked:
  assumes "pt_mem s p = Some t"
  shows "\<exists>t'. x86_pt_unlock p s = Inr (s\<lparr>pt_mem := (pt_mem s)(p \<mapsto> t')\<rparr>) \<and> pt_entries t' = pt_entries t \<and> \<not> bit (lock (pt_lk t')) 0"
  using assms x86_debug_lock_behaves [of "pt_lk t"]
  by (intro exI [of _ "t\<lparr>pt_lk := x86_spinlock_unlock (pt_lk t)\<rparr>"]) (simp add: x86_pt_unlock_def up_pt_def ld_pt_def)

lemma x86_map_one:
  assumes "pt_mem s p = Some t" and "\<not> bit (lock (pt_lk t)) 0"
    and "x86_path (bytes s) (MEM_PHYS_OFFSET s) (pt_entries t) va e4 e3 e2 leaf"
  shows "\<exists>t'. x86_vmm_map p va pa 1 perm s =
      Inr (True, s\<lparr>bytes := put64 (bytes s) leaf (pa OR perm OR X86_PRESENT), pt_mem := (pt_mem s)(p \<mapsto> t')\<rparr>)
    \<and> pt_entries t' = pt_entries t \<and> \<not> bit (lock (pt_lk t')) 0"
proof -
  obtain t1 where t1: "x86_pt_lock 71 ''vmm_map_advanced'' p s = Inr (s\<lparr>pt_mem := (pt_mem s)(p \<mapsto> t1)\<rparr>)" "pt_entries t1 = pt_entries t"
    using x86_locked [OF assms(1,2)] by blast
  let ?s1 = "s\<lparr>pt_mem := (pt_mem s)(p \<mapsto> t1)\<rparr>"
  let ?s2 = "?s1\<lparr>bytes := put64 (bytes s) leaf (pa OR perm OR X86_PRESENT)\<rparr>"
  have mp: "x86_map_page p va pa perm False ?s1 = Inr (True, ?s2)"
    using x86_map_page_path [of ?s1 p t1 va e4 e3 e2 leaf pa perm] assms(3) t1(2) by simp
  obtain t2 where t2: "x86_pt_unlock p ?s2 = Inr (?s2\<lparr>pt_mem := (pt_mem ?s2)(p \<mapsto> t2)\<rparr>)" "pt_entries t2 = pt_entries t1"
    "\<not> bit (lock (pt_lk t2)) 0"
    using x86_unlocked [of ?s2 p t1] by auto
  have "x86_vmm_map p va pa 1 perm s = Inr (True, ?s2\<lparr>pt_mem := (pt_mem ?s2)(p \<mapsto> t2)\<rparr>)"
    unfolding x86_vmm_map_def x86_vmm_map_advanced_def
    by (simp only: t1(1) bnd_Inr unsigned_1 One_nat_def x86_map_loop.simps mp prod.case if_True t2(1))
  then show ?thesis using t1(2) t2(2,3) by (intro exI [of _ t2]) simp
qed

lemma x86_unmap_one:
  assumes "pt_mem s p = Some t" and "\<not> bit (lock (pt_lk t)) 0"
    and "x86_path (bytes s) (MEM_PHYS_OFFSET s) (pt_entries t) va e4 e3 e2 leaf"
  shows "\<exists>t'. x86_vmm_unmap p va 1 s =
      Inr (True, s\<lparr>bytes := put64 (bytes s) leaf 0, pt_mem := (pt_mem s)(p \<mapsto> t')\<rparr>)
    \<and> pt_entries t' = pt_entries t \<and> \<not> bit (lock (pt_lk t')) 0"
proof -
  obtain t1 where t1: "x86_pt_lock 118 ''vmm_unmap'' p s = Inr (s\<lparr>pt_mem := (pt_mem s)(p \<mapsto> t1)\<rparr>)" "pt_entries t1 = pt_entries t"
    using x86_locked [OF assms(1,2)] by blast
  let ?s1 = "s\<lparr>pt_mem := (pt_mem s)(p \<mapsto> t1)\<rparr>"
  let ?s2 = "?s1\<lparr>bytes := put64 (bytes s) leaf 0\<rparr>"
  have mp: "x86_unmap_page p va 0 ?s1 = Inr (Some (va + 0x1000, 0), ?s2)"
    using x86_unmap_page_path [of ?s1 p t1 va e4 e3 e2 leaf 0] assms(3) t1(2) by simp
  have stop: "x86_unmap_loop p va' 0 s' = Some (Inr (True, s'))" for va' and s' :: "'a kvmm_scheme"
    by (subst x86_unmap_loop.simps) simp
  have lp: "loop_res (x86_unmap_loop p va 1 ?s1) = Inr (True, ?s2)"
    by (subst x86_unmap_loop.simps) (simp add: mp stop)
  obtain t2 where t2: "x86_pt_unlock p ?s2 = Inr (?s2\<lparr>pt_mem := (pt_mem ?s2)(p \<mapsto> t2)\<rparr>)" "pt_entries t2 = pt_entries t1"
    "\<not> bit (lock (pt_lk t2)) 0"
    using x86_unlocked [of ?s2 p t1] by auto
  have "x86_vmm_unmap p va 1 s = Inr (True, ?s2\<lparr>pt_mem := (pt_mem ?s2)(p \<mapsto> t2)\<rparr>)"
    unfolding x86_vmm_unmap_def by (simp only: t1(1) bnd_Inr lp prod.case t2(1))
  then show ?thesis using t1(2) t2(2,3) by (intro exI [of _ t2]) simp
qed

text \<open>
  Mapping a page whose tables are there, and unmapping it again. \<open>vmm_map\<close> of one page returns true; the
  unit then finds the frame and the permissions given. \<open>vmm_unmap\<close> of that page returns true and the
  unit finds nothing. Both change the eight bytes of the last entry only, and release the lock.
\<close>

theorem x86_vmm_map_unmap:
  assumes t: "pt_mem s p = Some t" "\<not> bit (lock (pt_lk t)) 0"
    and path: "x86_path (bytes s) (MEM_PHYS_OFFSET s) (pt_entries t) va e4 e3 e2 leaf"
  shows "\<exists>s1 s2. x86_vmm_map p va pa 1 perm s = Inr (True, s1) \<and> x86_vmm_unmap p va 1 s1 = Inr (True, s2)
    \<and> x86_walk (bytes s1) (MEM_PHYS_OFFSET s1) (pt_entries t) va = Some (False, pa OR perm OR X86_PRESENT)
    \<and> x86_walk (bytes s2) (MEM_PHYS_OFFSET s2) (pt_entries t) va = None
    \<and> bytes s1 = put64 (bytes s) leaf (pa OR perm OR X86_PRESENT) \<and> bytes s2 = put64 (bytes s1) leaf 0
    \<and> (\<exists>t'. pt_mem s2 p = Some t' \<and> pt_entries t' = pt_entries t \<and> \<not> bit (lock (pt_lk t')) 0)"
proof -
  let ?e = "pa OR perm OR X86_PRESENT" and ?off = "MEM_PHYS_OFFSET s"
  have "?e AND X86_PRESENT \<noteq> 0"
    using bit_iff_and_push_bit_not_eq_0 [of ?e 0] by (simp add: X86_PRESENT_def bit_or_iff)
  obtain t1 where m: "x86_vmm_map p va pa 1 perm s = Inr (True, s\<lparr>bytes := put64 (bytes s) leaf ?e, pt_mem := (pt_mem s)(p \<mapsto> t1)\<rparr>)"
    (is "_ = Inr (True, ?s1)") and t1: "pt_entries t1 = pt_entries t" "\<not> bit (lock (pt_lk t1)) 0"
    using x86_map_one [OF t path, of pa perm] by blast
  have path1: "x86_path (bytes ?s1) (MEM_PHYS_OFFSET ?s1) (pt_entries t1) va e4 e3 e2 leaf"
    using x86_path_put [OF path] t1(1) by simp
  obtain t2 where u: "x86_vmm_unmap p va 1 ?s1 = Inr (True, ?s1\<lparr>bytes := put64 (bytes ?s1) leaf 0, pt_mem := (pt_mem ?s1)(p \<mapsto> t2)\<rparr>)"
    and t2: "pt_entries t2 = pt_entries t" "\<not> bit (lock (pt_lk t2)) 0"
    using x86_unmap_one [of ?s1 p t1, OF _ t1(2) path1] t1(1) by auto
  have "x86_walk (bytes ?s1) ?off (pt_entries t) va = Some (False, ?e)"
    using x86_walk_path [OF x86_path_put [OF path], of ?e ?e] \<open>?e AND X86_PRESENT \<noteq> 0\<close> by simp
  moreover have "x86_walk (put64 (bytes ?s1) leaf 0) ?off (pt_entries t) va = None"
    using x86_walk_path [OF x86_path_put [OF x86_path_put [OF path]], of ?e 0 0] by simp
  ultimately show ?thesis
    using m u t2 by (intro exI [of _ ?s1] exI [of _ "?s1\<lparr>bytes := put64 (bytes ?s1) leaf 0, pt_mem := (pt_mem ?s1)(p \<mapsto> t2)\<rparr>"]) simp
qed

text \<open>A state with such tables: the map at \<open>0x1000\<close>, its tables at \<open>0x2000\<close>, \<open>0x3000\<close> and \<open>0x4000\<close>.\<close>

definition x86_demo :: kvmm where
  "x86_demo = demo_vmm\<lparr>MEM_PHYS_OFFSET := 0, pt_mem := [8 \<mapsto> \<lparr>pt_entries = 0x1000, pt_lk = INIT_SPINLOCK\<rparr>],
     bytes := put64 (put64 (put64 (\<lambda>_. Some 0) 0x1000 0x2007) 0x2000 0x3007) 0x3000 0x4007\<rparr>"

lemma spans_apart_below: "unat p + 8 \<le> unat q \<Longrightarrow> unat q + 8 \<le> 2 ^ 64 \<Longrightarrow> spans_apart p 8 q 8"
  by (simp add: spans_apart_def in_span_iff)

lemma x86_demo_path: "x86_path (bytes x86_demo) (MEM_PHYS_OFFSET x86_demo) 0x1000 0x123 0x2007 0x3007 0x4007 0x4000"
proof -
  have "mapped (bytes x86_demo) 0x4000 8"
    by (auto simp: x86_demo_def mapped_def put64_def)
  moreover have "ld64 (bytes x86_demo) 0x1000 = Inr 0x2007" "ld64 (bytes x86_demo) 0x2000 = Inr 0x3007" "ld64 (bytes x86_demo) 0x3000 = Inr 0x4007"
    by (simp_all add: x86_demo_def ld64_apart spans_apart_below)
  ultimately show ?thesis
    by (simp add: x86_path_def Let_def x86_get_addr_offsets_def x86_demo_def X86_ADDR_MASK_def X86_FLAG_MASK_def X86_PRESENT_def
        X86_LARGE_def spans_apart_below)
qed

theorem x86_vmm_map_unmap_witness:
  "\<exists>s1 s2. x86_vmm_map 8 0x123 0x7000 1 3 x86_demo = Inr (True, s1) \<and> x86_vmm_unmap 8 0x123 1 s1 = Inr (True, s2)
    \<and> x86_walk (bytes s1) (MEM_PHYS_OFFSET s1) 0x1000 0x123 = Some (False, 0x7003)
    \<and> x86_walk (bytes s2) (MEM_PHYS_OFFSET s2) 0x1000 0x123 = None"
  using x86_vmm_map_unmap [of x86_demo 8 "\<lparr>pt_entries = 0x1000, pt_lk = INIT_SPINLOCK\<rparr>" "0x123" "0x2007" "0x3007" "0x4007" "0x4000" "0x7000" 3]
    x86_demo_path
  by (auto simp: x86_demo_def INIT_SPINLOCK_def X86_PRESENT_def)

end
