(* ===== verification/Spec2Isabelle.thy ===== *)
theory Spec2Isabelle
  imports Str_Scan Spinlock_Smp Hashmap Printf Trap Plic Cpu_Init Vfs Vmm_X86
begin

text \<open>
  A verification development of the NewWivOS kernel, a small operating system kernel in C (under
  \<open>src/kernel\<close>) for riscv64, with an unfinished port to x86\_64.

  \<^bold>\<open>The program.\<close> The boot loader hands a memory map to \<open>pmm_init\<close>, which sets up the bitmap of page
  frames; \<open>kmalloc\<close> takes whole pages from it for every block; \<open>vmm_init\<close> builds the page tables of the
  kernel. Linked lists, generic trees and hash maps live in the kernel heap, each with a lock of its
  own. The device tree is parsed into a generic tree of nodes with lists of properties. Processes
  and threads are made of heap blocks, frames and page mappings; threads are put into a table of
  active tasks, from which the scheduler picks the next one in turn. The boot hart fills the table of
  harts and starts the others; a timer interrupt on one hart asks all of them, by an interrupt
  between harts, to run the scheduler. The virtual file system keeps its mount points in a generic
  tree and passes requests on to the functions of nodes.

  \<^bold>\<open>The theories\<close>, with the files under \<open>src/kernel\<close> they model, each importing what it calls:

  \<^item> \<open>Kernel_Prelude\<close>: machine words, rounding macros (\<open>arch/common.h\<close>), the result type and the facts on
    words and spans of addresses that all others share.
  \<^item> \<open>Mem_String\<close>: byte memory and the routines of \<open>utils/string.c\<close> up to \<open>strstr\<close>. \<open>Str_Scan\<close>:
    the rest of that file, from \<open>strspn\<close> to \<open>strtok_r\<close>.
  \<^item> \<open>Hart\<close>: the per-CPU structure, its accessors (\<open>arch/riscv64/cpu.c\<close>) and the interrupt switch
    (\<open>arch/riscv64/int.c\<close>).
  \<^item> \<open>Spinlock\<close>: \<open>arch/spinlock.h\<close> and \<open>arch/riscv64/spinlock.c\<close>, one hart alone. \<open>Spinlock_Smp\<close>: the same
    code as steps of several harts in any order.
  \<^item> \<open>Pmm\<close>: \<open>mem/pmm.c\<close>. \<open>Kmalloc\<close>: \<open>mem/alloc.c\<close> and \<open>strdup\<close>.
  \<^item> \<open>Klist\<close>, \<open>Gentree\<close>, \<open>Hashmap\<close>: the three parts of \<open>utils/lists.c\<close>.
  \<^item> \<open>Vmm\<close>: \<open>arch/riscv64/vmm.c\<close> and \<open>mem/vmm.c\<close>, with the translation the memory management unit makes.
  \<^item> \<open>Printf\<close>: \<open>utils/system.c\<close> and the serial writer of riscv64.
  \<^item> \<open>Fpu\<close>: \<open>arch/riscv64/fpu_state.S\<close>, the floating-point registers in memory, and its callers in
    \<open>arch/riscv64/cpu.c\<close>.
  \<^item> \<open>Sched\<close>: \<open>tasking/process.c\<close>, \<open>tasking/thread.c\<close>, \<open>tasking/scheduler.c\<close>, \<open>arch/riscv64/scheduler.c\<close> and
    \<open>arch/riscv64/thread.c\<close>.
  \<^item> \<open>Trap\<close>: \<open>arch/riscv64/int.c\<close> with \<open>arch/riscv64/sbi.h\<close>.
  \<^item> \<open>Dtb\<close>: \<open>utils/utils.c\<close> and \<open>utils/dtb.c\<close>. \<open>Plic\<close>: \<open>arch/riscv64/plic.c\<close>. \<open>Cpu_Init\<close>: the bring-up of
    harts in \<open>arch/riscv64/cpu.c\<close>.
  \<^item> \<open>Vfs\<close>: \<open>fs/vfs.c\<close> and \<open>fs/devfs/devfs.c\<close>.
  \<^item> \<open>Spinlock_X86\<close>, \<open>Vmm_X86\<close>: \<open>arch/x86_64/spinlock.c\<close> and \<open>arch/x86_64/vmm.c\<close>, with the walk of the unit of
    that processor.

  \<^bold>\<open>State.\<close> Every state record extends \<open>hart\<close>: \<open>pmm\<close> adds byte memory and the globals of the page
  allocator, \<open>klists\<close> the heap of lists, and so on up to \<open>khash\<close>, \<open>kvmm\<close>, \<open>kfpu\<close>, \<open>ksched\<close>, \<open>ktrap\<close>, \<open>kdtb\<close>,
  \<open>kplic\<close>, \<open>kcpus\<close> and \<open>kvfs\<close>; an
  operation is a function on the record of its component and of every extension of it. Structures
  reached through pointers are objects of typed heaps, partial functions from addresses; each is
  allocated by \<open>kmalloc\<close> with its size, so allocation, its failure and release go through the page
  allocator. Strings, page tables, block headers and property data are bytes of memory.
  The words of the page bitmap are a field of their own; which frames of memory they lie in is known
  (\<open>bitmap_home\<close>), and C4 states what keeps the memory there untouched.

  \<^bold>\<open>Results.\<close> An operation that can go wrong has a result of type \<open>'a res\<close>: \<open>Inl Fault\<close> for an access to
  memory that is not there, among it a null pointer, \<open>Inl Hang\<close> for a loop that does not end or a lock
  that nobody will release, \<open>Inr\<close> for a normal return with the new state. Loops whose end depends on
  memory are \<open>partial_function (option)\<close>, turned into \<open>Hang\<close> by \<open>loop_res\<close>; no fuel is used, and the
  properties show that the loops they are about return. Loops with a bound are recursive functions
  with a termination proof. Integers have the width they have in C, so wrap-around is the code's;
  \<open>char\<close> is unsigned, as it is on riscv64. A value stored through a pointer argument is part of the result.

  \<^bold>\<open>Locks.\<close> In all theories but \<open>Spinlock_Smp\<close> the code of one hart runs at a time. Taking a lock that is
  held is then \<open>Hang\<close>; a lock that is
  tried and held gives the answer the code gets. Properties on operations state that the locks they
  take are free again and that the preemption counter is what it was, as part of the resulting
  state. Messages printed for diagnosis are left out of the components that print them.

  \<^bold>\<open>What is shown.\<close> The interfaces between components are locales, interpreted on the definitions of
  the model: \<open>frame_source\<close> (page frames), \<open>heap_of_blocks\<close> (the kernel heap), \<open>value_queue\<close> (lists as
  queues), \<open>list_walk\<close> (searches over lists, by the device tree and the file system), \<open>string_map\<close>
  (hash maps) and \<open>char_sink\<close> (where formatted output goes).

  \<^item> Page frames and heap (C1 to C11): allocation hands out fresh zeroed memory, is complete and first
    fit, clients stay apart from each other and from the frames of the bitmap over any sequence of
    operations in which no refused request zeroes the bitmap, release undoes allocation; which frames
    initialisation frees, one too many among them; an overflow in \<open>kcalloc\<close> gives null.
  \<^item> Strings (C12 to C16): \<open>memmove\<close> for any overlap, the order \<open>strcmp\<close> decides, the place \<open>strstr\<close> finds;
    \<open>strchrnul\<close>, which looks at words, equals the search by bytes; the tokens of \<open>strtok_r\<close>.
  \<^item> Lists, trees and maps (C17 to C24): the effect of every operation on the abstract list, tree or
    map, their refinement of a queue and of a finite map, termination of the search for a parent.
  \<^item> Virtual memory (C25, C26): after a mapping the unit translates each page as asked and all others
    as before, and unmapping takes exactly its pages out again; \<open>vmm_map_unmap_restores\<close> shows that a
    mapping of pages that were not translated before is undone by unmapping them.
  \<^item> Formatted output (C27 to C29): the text that is printed, into a buffer or to the serial port,
    against a table of C's conversions that does not use the code's own, and that number conversion
    stays inside its buffer.
  \<^item> Spinlocks between harts (C30 to C32): mutual exclusion under every interleaving, refinement of a
    lock with at most one owner, and no deadlock on one lock. The theorem \<open>spinlock_steps_compute\<close> ties
    the steps to the functions of \<open>Spinlock\<close>.
  \<^item> Tasks (C33, C34): adding a task on every path, the fault for a slot without a process among them;
    a turn of the scheduler saves and releases the current task and enters the first one after it in
    cyclic order whose lock is free, with the lock held and the floating-point registers loaded, and
    idles only when none is free. \<open>fpu_state_roundtrip\<close> shows that registers come back as they were saved.
  \<^item> Traps (C35, C36): a timer interrupt asks every hart to reschedule; the software interrupt behind such a
    request runs a turn of the scheduler; the request and the pending bit are cleared.
  \<^item> Interrupt controller (C37) and bring-up (C38): enable bits; the table of harts, its maximum and the
    state in which the started harts are left.
  \<^item> Device tree (C39): address ranges are decoded from the right property as big-endian numbers; what
    is stored and answered for a property of any length.
  \<^item> File system (C40): a path is resolved to the deepest mount point, as a walk down the abstract tree
    of mount points does.

  Further theorems show where the code leaves its data in a bad state: \<open>pmm_alloc_failure_wipes\<close>,
  \<open>strncmp_sign_lost\<close>, \<open>list_push_before_unreachable\<close>, \<open>gentree_remove_leaks_children\<close>,
  \<open>vmm_unmap_huge_underflow\<close>, \<open>ipi_mask_int_shift\<close>, \<open>init_cpu_missing_isa\<close> and
  \<open>x86_plain_lock_inverted\<close>. For the x86\_64 port, \<open>x86_debug_lock_behaves\<close> gives the behaviour of the lock with
  debug information, and \<open>x86_vmm_map_unmap\<close> shows that a page whose tables are there is found by the
  unit after it is mapped and not after it is unmapped.

  \<^bold>\<open>Parameters.\<close> The values of the boot loader, the status register of the serial port, the
  global pointer, the trap vector, the page table value and the first registers of a hart that is started,
  the registers of the interrupt controller (two functions on the state of a device, with what its
  specification says of the enable bits as a hypothesis), the functions behind the code addresses of
  file system nodes, and the addresses of string literals are arguments. Calls of the firmware are
  recorded as a list in the state.

  \<^bold>\<open>Not modelled.\<close> The boot protocol, \<open>arch_post_vmm\<close> and \<open>kmain\<close>, which only call the components in order;
  of the x86\_64 port, which does not
  boot yet, the empty functions of \<open>int.c\<close> and \<open>common.c\<close> and its debug port; assembly, except the
  floating-point routines and what the context switch and the clearing of the software interrupt do
  to kernel state; the routines that only print (the
  trees of the file system, the log device, the messages of traps). Interleaving of several harts
  is modelled for the spinlock; the other properties hold for the code of one hart between the
  points where others may run.
\<close>

end
